(* ===== verification/Prelude.thy ===== *)
theory Prelude
  imports Main "HOL-Library.Word" "HOL-Library.AList" "HOL-Library.Multiset"
begin

text \<open>
  Shared vocabulary of the development: the machine types of the C++ code, the
  exceptions it throws, sequencing of computations that may throw, the memory image of
  integers in both byte orders, and generic lemmas on lists and association lists that
  the component theories use.
\<close>

unbundle bit_operations_syntax

section \<open>Machine types\<close>

type_synonym byte = "8 word"
type_synonym u16 = "16 word"
type_synonym u32 = "32 word"
type_synonym u64 = "64 word"

text \<open>Facts for moving between words and natural numbers.\<close>

named_theorems word_nat_simps

lemma unat_of_nat_u64 [word_nat_simps]: "n < 2 ^ 64 \<Longrightarrow> unat (of_nat n :: u64) = n"
  by (simp add: unat_of_nat)

lemma unat_byte_less [simp]: "unat (b :: byte) < 256"
  using unsigned_less [of b, where 'a = nat] by simp

lemma byte_of_nat_unat [simp]: "(of_nat (unat (b :: byte)) :: byte) = b"
  by simp

lemma unat_of_nat_byte [word_nat_simps]: "n < 256 \<Longrightarrow> unat (of_nat n :: byte) = n"
  by (simp add: unat_of_nat)

lemma unat_u64_less: "unat (w :: u64) < 18446744073709551616"
  using unsigned_less [of w, where 'a = nat] by simp

text \<open>Addition of 64-bit sizes, with and without wrap-around.\<close>

lemma unat_add_no_wrap:
  fixes a b :: u64
  assumes "unat a + unat b < 2 ^ 64"
  shows "unat (a + b) = unat a + unat b"
  using assms by (simp add: unat_word_ariths)

lemma unat_add_wrap:
  fixes a b :: u64
  assumes "2 ^ 64 \<le> unat a + unat b"
  shows "unat (a + b) = unat a + unat b - 2 ^ 64"
proof -
  have "unat a + unat b - 2 ^ 64 < 2 ^ 64"
    using unat_u64_less [of a] unat_u64_less [of b] by simp
  moreover have "(unat a + unat b) mod 2 ^ 64 = (unat a + unat b - 2 ^ 64) mod 2 ^ 64"
    using assms by (simp add: mod_if [of "unat a + unat b" "2 ^ 64"] le_mod_geq)
  ultimately show ?thesis
    by (simp add: unat_word_ariths)
qed

lemma mask7: "(0x7F :: 'a::len word) = mask 7"
  by (simp add: mask_eq_exp_minus_1)

lemma bit80: "bit (0x80 :: int) n \<longleftrightarrow> n = 7" "bit (0x80 :: nat) n \<longleftrightarrow> n = 7"
  using bit_exp_iff [of 7 n, where ?'a = int] bit_exp_iff [of 7 n, where ?'a = nat] by auto

text \<open>A property of all bytes is checked by evaluation.\<close>

lemma byte_all:
  assumes "list_all P (map of_nat [0..<256])"
  shows "P (b :: byte)"
proof -
  have "b \<in> set (map of_nat [0..<256])"
    using unat_byte_less [of b] by (auto intro!: image_eqI [of b of_nat "unat b"])
  then show ?thesis using assms unfolding list_all_iff by blast
qed

section \<open>Exceptions\<close>

text \<open>
  The exceptions of the modelled code, one constructor per exception class. The standard
  classes carry the message. \<open>Undefined\<close> marks a step that C++ leaves undefined (an
  access outside the object, a null or past-the-end iterator): the model never continues
  after it. \<open>AssertFailed\<close> is a failed \<open>assert\<close>, \<open>Terminate\<close> is \<open>std::terminate\<close> (an exception leaving a destructor or a
  \<open>noexcept\<close> function) and \<open>OutOfFuel\<close> marks a loop that used up the fuel of the model.
\<close>

datatype exn =
    EndOfBuffer
  | InvalidArgument string
  | RuntimeError string
  | LogicError string
  | LengthError
  | OutOfRange
  | BadFormat
  | BadTag
  | BadInput
  | BadCharacter
  | NotNumber
  | ErrnoError string
  | NetworkError string
  | Terminate
  | AssertFailed
  | Undefined
  | OutOfFuel

type_synonym 'a result = "exn + 'a"

text \<open>\<open>std::to_string\<close> of an unsigned number, for the exception messages.\<close>

fun to_string :: "nat \<Rightarrow> string" where
  "to_string n =
     (if n < 10 then [char_of (48 + n)] else to_string (n div 10) @ [char_of (48 + n mod 10)])"

declare to_string.simps [simp del]

text \<open>A string literal as its bytes.\<close>

definition bytes_of :: "string \<Rightarrow> byte list" where
  "bytes_of s = map (\<lambda>c. of_nat (of_char c)) s"

section \<open>Sequencing computations that may throw\<close>

definition bindr :: "'err + 'val \<Rightarrow> ('val \<Rightarrow> 'err + 'res) \<Rightarrow> 'err + 'res" where
  "bindr m f = (case m of Inl e \<Rightarrow> Inl e | Inr x \<Rightarrow> f x)"

lemma bindr_Inl [simp]: "bindr (Inl e) f = Inl e"
  by (simp add: bindr_def)

lemma bindr_Inr [simp]: "bindr (Inr x) f = f x"
  by (simp add: bindr_def)

lemma bindr_cong [fundef_cong]:
  "m = m' \<Longrightarrow> (\<And>x. m' = Inr x \<Longrightarrow> f x = g x) \<Longrightarrow> bindr m f = bindr m' g"
  by (auto simp: bindr_def split: sum.splits)

lemma bindr_eq_Inr: "bindr m f = Inr r \<longleftrightarrow> (\<exists>v. m = Inr v \<and> f v = Inr r)"
  by (auto simp: bindr_def split: sum.splits)

lemma bindr_eq_Inl: "bindr m f = Inl e \<longleftrightarrow> m = Inl e \<or> (\<exists>x. m = Inr x \<and> f x = Inl e)"
  by (auto simp: bindr_def split: sum.splits)

lemmas bindr_iffs = bindr_eq_Inr bindr_eq_Inl

section \<open>Memory image of integers\<close>

text \<open>
  \<open>be_enc n v\<close> is the memory of an \<open>n\<close>-byte integer after \<open>htobe16/32/64\<close> (most
  significant byte first); \<open>be_dec\<close> is \<open>be16toh\<close>, \<open>be32toh\<close>, \<open>be64toh\<close> of
  such memory. \<open>le_enc\<close> and \<open>le_dec\<close> are the native image that \<open>memcpy\<close> sees on
  the little-endian machines the code targets.
\<close>

primrec be_enc :: "nat \<Rightarrow> nat \<Rightarrow> byte list" where
  "be_enc 0 v = []"
| "be_enc (Suc n) v = be_enc n (v div 256) @ [of_nat v]"

definition be_dec :: "byte list \<Rightarrow> nat" where
  "be_dec bs = foldl (\<lambda>a b. a * 256 + unat b) 0 bs"

definition le_enc :: "nat \<Rightarrow> nat \<Rightarrow> byte list" where
  "le_enc n v = rev (be_enc n v)"

definition le_dec :: "byte list \<Rightarrow> nat" where
  "le_dec bs = be_dec (rev bs)"

lemma length_be_enc [simp]: "length (be_enc n v) = n"
  by (induction n arbitrary: v) auto

lemma be_dec_Nil [simp]: "be_dec [] = 0"
  by (simp add: be_dec_def)

lemma be_dec_snoc [simp]: "be_dec (bs @ [b]) = be_dec bs * 256 + unat b"
  by (simp add: be_dec_def)

lemma unat_of_nat_byte_mod: "unat (of_nat v :: byte) = v mod 256"
  by (simp add: unat_of_nat)

lemma be_dec_enc_mod: "be_dec (be_enc n v) = v mod 256 ^ n"
proof (induction n arbitrary: v)
  case 0
  then show ?case by simp
next
  case (Suc n)
  have "v mod (256 * 256 ^ n) = 256 * (v div 256 mod 256 ^ n) + v mod 256"
    by (rule mod_mult2_eq)
  with Suc show ?case by (simp add: unat_of_nat_byte_mod)
qed

lemma be_dec_enc [simp]: "v < 256 ^ n \<Longrightarrow> be_dec (be_enc n v) = v"
  by (simp add: be_dec_enc_mod)

lemma be_dec_less: "be_dec bs < 256 ^ length bs"
proof (induction bs rule: rev_induct)
  case Nil
  then show ?case by simp
next
  case (snoc b bs)
  have "be_dec bs * 256 + unat b < (be_dec bs + 1) * 256"
    using unat_byte_less [of b] by simp
  also have "\<dots> \<le> 256 ^ length bs * 256"
    using snoc.IH by (intro mult_right_mono) auto
  finally show ?case by simp
qed

lemma be_enc_dec: "be_enc (length bs) (be_dec bs) = bs"
proof (induction bs rule: rev_induct)
  case Nil
  then show ?case by simp
next
  case (snoc b bs)
  have "(be_dec bs * 256 + unat b) div 256 = be_dec bs"
    using unat_byte_less [of b] by simp
  moreover have "(of_nat (be_dec bs * 256 + unat b) :: byte) = b"
  proof (rule word_unat_eq_iff [THEN iffD2])
    have "(be_dec bs * 256 + unat b) mod 256 = unat b"
      using unat_byte_less [of b] by simp
    then show "unat (of_nat (be_dec bs * 256 + unat b) :: byte) = unat b"
      by (simp only: unat_of_nat_byte_mod)
  qed
  ultimately show ?case using snoc.IH by simp
qed

lemma le_dec_enc [simp]: "v < 256 ^ n \<Longrightarrow> le_dec (le_enc n v) = v"
  by (simp add: le_dec_def le_enc_def)

lemma length_le_enc [simp]: "length (le_enc n v) = n"
  by (simp add: le_enc_def)

section \<open>Lists\<close>

text \<open>\<open>operator<\<close> of \<open>std::string\<close>: lexicographic on unsigned characters.\<close>

fun lex_less :: "byte list \<Rightarrow> byte list \<Rightarrow> bool" where
  "lex_less [] [] = False"
| "lex_less [] (b # bs) = True"
| "lex_less (a # as) [] = False"
| "lex_less (a # as) (b # bs) = (a < b \<or> a = b \<and> lex_less as bs)"

lemma lex_less_asym: "lex_less a b \<Longrightarrow> \<not> lex_less b a"
  by (induction a b rule: lex_less.induct) auto

lemma lex_less_irrefl [simp]: "\<not> lex_less a a"
  using lex_less_asym by blast

lemma lex_less_trans: "lex_less a b \<Longrightarrow> lex_less b c \<Longrightarrow> lex_less a c"
proof (induction a b arbitrary: c rule: lex_less.induct)
  case (2 b bs)
  then show ?case by (cases c) auto
next
  case (4 a as b bs)
  then show ?case by (cases c) auto
qed auto

lemma take_drop_append_exact:
  "length xs = n \<Longrightarrow> take n (xs @ ys) = xs" "length xs = n \<Longrightarrow> drop n (xs @ ys) = ys"
  by auto

section \<open>Ordered maps\<close>

text \<open>
  \<open>std::map\<close> as the list of its entries in key order: \<open>m[k] = v\<close> inserts or overwrites,
  \<open>erase\<close> is \<open>AList.delete\<close>, \<open>find\<close> is \<open>map_of\<close>. \<open>multimap_insert\<close> puts an entry behind those
  with an equal key, as \<open>std::multimap::insert\<close> does.
\<close>

fun omap_put :: "'k::linorder \<Rightarrow> 'v \<Rightarrow> ('k \<times> 'v) list \<Rightarrow> ('k \<times> 'v) list" where
  "omap_put k v [] = [(k, v)]"
| "omap_put k v ((k', v') # m) =
     (if k < k' then (k, v) # (k', v') # m
      else if k' < k then (k', v') # omap_put k v m
      else (k, v) # m)"

fun multimap_insert :: "'k::linorder \<Rightarrow> 'v \<Rightarrow> ('k \<times> 'v) list \<Rightarrow> ('k \<times> 'v) list" where
  "multimap_insert k v [] = [(k, v)]"
| "multimap_insert k v ((k', v') # m) =
     (if k < k' then (k, v) # (k', v') # m else (k', v') # multimap_insert k v m)"

abbreviation omap_ok :: "('k::linorder \<times> 'v) list \<Rightarrow> bool" where
  "omap_ok m \<equiv> sorted_wrt (<) (map fst m)"

lemma omap_put_map_of [simp]: "map_of (omap_put k v m) = (map_of m)(k \<mapsto> v)"
  by (induction m) (auto simp: fun_eq_iff)

lemma omap_put_keys [simp]: "fst ` set (omap_put k v m) = insert k (fst ` set m)"
proof (induction m)
  case (Cons p m)
  then show ?case
    by (cases p; cases "fst p" k rule: linorder_cases) (simp_all add: insert_commute)
qed simp

lemma omap_put_ok [simp]: "omap_ok m \<Longrightarrow> omap_ok (omap_put k v m)"
proof (induction m)
  case (Cons p m)
  then show ?case by (cases p) (auto dest: less_trans)
qed simp

lemma omap_put_fresh: "k \<notin> fst ` set m \<Longrightarrow> mset (omap_put k v m) = add_mset (k, v) (mset m)"
  by (induction m) auto

lemma omap_delete_ok [simp]: "omap_ok m \<Longrightarrow> omap_ok (AList.delete k m)"
  by (simp add: AList.delete_eq sorted_wrt_map sorted_wrt_filter)

lemma multimap_insert_mset [simp]: "mset (multimap_insert k v m) = add_mset (k, v) (mset m)"
  by (induction m) auto

lemma multimap_insert_set [simp]: "set (multimap_insert k v m) = insert (k, v) (set m)"
  by (metis multimap_insert_mset set_mset_add_mset_insert set_mset_mset)

lemma multimap_insert_sorted: "sorted (map fst m) \<Longrightarrow> sorted (map fst (multimap_insert k v m))"
proof (induction m)
  case (Cons p m)
  then show ?case by (cases p) (fastforce simp: not_less)
qed simp

end
