(* ===== verification/Streams.thy ===== *)
theory Streams
  imports Prelude
begin

text \<open>
  The in-memory streams of \<open>container/Stream.hpp\<close> and the reader interface of
  \<open>file/Interface.hpp\<close>. Sizes and offsets are 64-bit words, so the bounds check of
  \<open>imemstream::ensure\<close> is the wrapping one of the code. The locale \<open>exact_reader\<close>
  is the contract the wire formats rely on; the in-memory reader interprets it.
\<close>

section \<open>imemstream\<close>

record imemstream =
  m_Data :: "byte list"
  m_Offset :: u64

definition im_open :: "byte list \<Rightarrow> imemstream" where
  "im_open buf = \<lparr>m_Data = buf, m_Offset = 0\<rparr>"

definition im_size :: "imemstream \<Rightarrow> u64" where
  "im_size s = of_nat (length (m_Data s))"

definition im_ensure :: "u64 \<Rightarrow> imemstream \<Rightarrow> unit result" where
  "im_ensure aSize s = (if im_size s < aSize + m_Offset s then Inl EndOfBuffer else Inr ())"

definition im_unget :: "imemstream \<Rightarrow> imemstream result" where
  "im_unget s = (if m_Offset s = 0 then Inl EndOfBuffer
                 else Inr (s\<lparr>m_Offset := m_Offset s - 1\<rparr>))"

definition im_skip :: "u64 \<Rightarrow> imemstream \<Rightarrow> imemstream result" where
  "im_skip aSize s = bindr (im_ensure aSize s) (\<lambda>_. Inr (s\<lparr>m_Offset := m_Offset s + aSize\<rparr>))"

text \<open>\<open>std::string_view::substr\<close>: throws when the position is past the end, clamps the count.\<close>

definition sv_substr :: "'a list \<Rightarrow> u64 \<Rightarrow> u64 \<Rightarrow> 'a list result" where
  "sv_substr d pos n = (if length d < unat pos then Inl OutOfRange
                        else Inr (take (unat n) (drop (unat pos) d)))"

definition im_substring :: "u64 \<Rightarrow> imemstream \<Rightarrow> (byte list \<times> imemstream) result" where
  "im_substring aSize s =
     bindr (im_ensure aSize s) (\<lambda>_.
     bindr (sv_substr (m_Data s) (m_Offset s) aSize) (\<lambda>r.
       Inr (r, s\<lparr>m_Offset := m_Offset s + aSize\<rparr>)))"

definition im_rest :: "imemstream \<Rightarrow> (byte list \<times> imemstream) result" where
  "im_rest s = im_substring (im_size s - m_Offset s) s"

text \<open>\<open>memcpy\<close> past the end of the data is undefined.\<close>

definition im_read :: "u64 \<Rightarrow> imemstream \<Rightarrow> (byte list \<times> imemstream) result" where
  "im_read aSize s =
     bindr (im_ensure aSize s) (\<lambda>_.
       if unat (m_Offset s) + unat aSize \<le> length (m_Data s)
       then Inr (take (unat aSize) (drop (unat (m_Offset s)) (m_Data s)),
                 s\<lparr>m_Offset := m_Offset s + aSize\<rparr>)
       else Inl Undefined)"

definition im_eof :: "imemstream \<Rightarrow> bool" where
  "im_eof s \<longleftrightarrow> im_size s \<le> m_Offset s"

definition im_substr_at :: "u64 \<Rightarrow> u64 \<Rightarrow> imemstream \<Rightarrow> byte list result" where
  "im_substr_at aOffset aSize s =
     (if im_size s < aSize + aOffset then Inl EndOfBuffer
      else sv_substr (m_Data s) aOffset aSize)"

section \<open>omemstream\<close>

text \<open>The stream is the string it accumulates; \<open>flush\<close>, \<open>sync\<close>, \<open>close\<close> do nothing.\<close>

type_synonym omemstream = "byte list"

definition om_put :: "omemstream \<Rightarrow> byte \<Rightarrow> omemstream" where
  "om_put s b = s @ [b]"

definition om_write :: "omemstream \<Rightarrow> byte list \<Rightarrow> omemstream" where
  "om_write s bs = s @ bs"

section \<open>Invariant and unread bytes of an imemstream\<close>

text \<open>
  The offset never passes the end. The size bound is that of any object in memory
  (\<open>PTRDIFF_MAX\<close>).
\<close>

definition im_ok :: "imemstream \<Rightarrow> bool" where
  "im_ok s \<longleftrightarrow> length (m_Data s) < 2 ^ 63 \<and> unat (m_Offset s) \<le> length (m_Data s)"

definition im_unread :: "imemstream \<Rightarrow> byte list" where
  "im_unread s = drop (unat (m_Offset s)) (m_Data s)"

lemma im_ok_open: "length buf < 2 ^ 63 \<Longrightarrow> im_ok (im_open buf)"
  by (simp add: im_ok_def im_open_def)

lemma im_unread_open [simp]: "im_unread (im_open buf) = buf"
  by (simp add: im_unread_def im_open_def)

lemma unat_im_size: "im_ok s \<Longrightarrow> unat (im_size s) = length (m_Data s)"
  by (simp add: im_ok_def im_size_def unat_of_nat)

lemma length_im_unread: "im_ok s \<Longrightarrow> length (im_unread s) = length (m_Data s) - unat (m_Offset s)"
  by (simp add: im_unread_def)

lemma im_fits:
  "im_ok s \<Longrightarrow> unat n \<le> length (im_unread s) \<Longrightarrow> unat (m_Offset s) + unat n \<le> length (m_Data s)"
  by (auto simp: im_unread_def im_ok_def)

text \<open>What the check accepts: sizes that fit, and sizes so large that the sum wraps.\<close>

lemma im_ensure_fits:
  assumes ok: "im_ok s" and n: "unat n \<le> length (im_unread s)"
  shows "im_ensure n s = Inr ()" and "unat (m_Offset s + n) = unat (m_Offset s) + unat n"
proof -
  have le: "unat (m_Offset s) + unat n \<le> length (m_Data s)"
    using ok n by (rule im_fits)
  moreover have "length (m_Data s) < 2 ^ 64"
    using ok by (simp add: im_ok_def)
  ultimately have sum: "unat (n + m_Offset s) = unat n + unat (m_Offset s)"
    by (intro unat_add_no_wrap) simp
  then show "unat (m_Offset s + n) = unat (m_Offset s) + unat n"
    by (simp add: add.commute)
  show "im_ensure n s = Inr ()"
    using sum le unat_im_size [OF ok] by (simp add: im_ensure_def word_less_nat_alt)
qed

lemma im_ensure_short:
  assumes ok: "im_ok s" and n: "length (im_unread s) < unat n"
    and nowrap: "unat n + unat (m_Offset s) < 2 ^ 64"
  shows "im_ensure n s = Inl EndOfBuffer"
proof -
  have "unat (n + m_Offset s) = unat n + unat (m_Offset s)"
    using nowrap by (rule unat_add_no_wrap)
  then show ?thesis
    using n ok unat_im_size [OF ok]
    by (auto simp: im_ensure_def word_less_nat_alt im_unread_def im_ok_def)
qed

lemma im_ensure_wrap:
  assumes ok: "im_ok s" and wrap: "2 ^ 64 \<le> unat n + unat (m_Offset s)"
  shows "im_ensure n s = Inr ()" and "unat (m_Offset s + n) < unat (m_Offset s)"
proof -
  have sum: "unat (n + m_Offset s) = unat n + unat (m_Offset s) - 2 ^ 64"
    using wrap by (rule unat_add_wrap)
  then have lt: "unat (n + m_Offset s) < unat (m_Offset s)"
    using wrap unat_u64_less [of n] by simp
  then show "unat (m_Offset s + n) < unat (m_Offset s)"
    by (simp add: add.commute)
  show "im_ensure n s = Inr ()"
    using lt ok unat_im_size [OF ok]
    by (auto simp: im_ensure_def word_less_nat_alt im_ok_def)
qed

lemma im_ensure_cases:
  assumes "im_ok s"
  obtains (fits) "unat n \<le> length (im_unread s)" "im_ensure n s = Inr ()"
      "unat (m_Offset s + n) = unat (m_Offset s) + unat n"
    | (short) "length (im_unread s) < unat n" "im_ensure n s = Inl EndOfBuffer"
    | (wrap) "2 ^ 64 \<le> unat n + unat (m_Offset s)" "im_ensure n s = Inr ()"
      "unat (m_Offset s + n) < unat (m_Offset s)"
  using im_ensure_fits [OF assms, of n] im_ensure_short [OF assms, of n]
    im_ensure_wrap [OF assms, of n]
  by (meson leI)

lemma im_offset_ok:
  assumes ok: "im_ok s" and "im_ensure n s = Inr ()"
  shows "im_ok (s\<lparr>m_Offset := m_Offset s + n\<rparr>)"
proof (rule im_ensure_cases [OF ok, of n])
  assume "unat n \<le> length (im_unread s)" "unat (m_Offset s + n) = unat (m_Offset s) + unat n"
  then show ?thesis using ok by (auto simp: im_ok_def im_unread_def)
next
  assume "unat (m_Offset s + n) < unat (m_Offset s)"
  then show ?thesis using ok by (auto simp: im_ok_def)
qed (use assms in auto)

section \<open>The reader interface\<close>

text \<open>
  \<open>File::IExactReader\<close> as the record of its virtual functions. \<open>rd_left\<close> is no
  function of the code: it bounds the number of bytes still readable and is the fuel of
  loops that read until they are satisfied.
\<close>

record 's exact_reader_ops =
  rd_read :: "u64 \<Rightarrow> 's \<Rightarrow> (byte list \<times> 's) result"
  rd_unget :: "'s \<Rightarrow> 's result"
  rd_left :: "'s \<Rightarrow> nat"

text \<open>
  The contract: a read of a positive size returns exactly the next bytes or throws, and
  the last byte read can be put back once.
\<close>

locale exact_reader =
  fixes R :: "'s exact_reader_ops"
    and unread :: "'s \<Rightarrow> byte list"
    and ok :: "'s \<Rightarrow> bool"
  assumes read_exact: "ok s \<Longrightarrow> 0 < n \<Longrightarrow> unat n \<le> length (unread s) \<Longrightarrow>
      \<exists>s'. rd_read R n s = Inr (take (unat n) (unread s), s') \<and> ok s'
           \<and> unread s' = drop (unat n) (unread s)"
    and read_short: "ok s \<Longrightarrow> unat n < 2 ^ 63 \<Longrightarrow> length (unread s) < unat n \<Longrightarrow>
      \<exists>e. rd_read R n s = Inl e \<and> e \<noteq> Undefined \<and> e \<noteq> OutOfFuel"
    and unget_last: "ok s \<Longrightarrow> 0 < n \<Longrightarrow> rd_read R n s = Inr (bs, s') \<Longrightarrow> unat n < 2 ^ 63 \<Longrightarrow>
      \<exists>s''. rd_unget R s' = Inr s'' \<and> ok s'' \<and> unread s'' = last bs # unread s'"
    and left_bound: "ok s \<Longrightarrow> length (unread s) \<le> rd_left R s"
begin

lemma read_bytes:
  assumes "ok s" and "unread s = bs @ r" and "unat n = length bs" and "bs \<noteq> []"
  shows "\<exists>s'. rd_read R n s = Inr (bs, s') \<and> ok s' \<and> unread s' = r"
proof -
  have "0 < n"
    using assms(3,4) by (simp add: word_less_nat_alt)
  moreover have "unat n \<le> length (unread s)"
    using assms(2,3) by simp
  ultimately show ?thesis
    using read_exact [OF assms(1), of n] assms(2,3) by simp
qed

lemma read_unget_bytes:
  assumes "ok s" and "unread s = bs @ r" and "unat n = length bs" and "bs \<noteq> []"
    and "unat n < 2 ^ 63"
  shows "\<exists>s' s''. rd_read R n s = Inr (bs, s') \<and> ok s' \<and> unread s' = r
           \<and> rd_unget R s' = Inr s'' \<and> ok s'' \<and> unread s'' = last bs # r"
proof -
  have pos: "0 < n"
    using assms(3,4) by (simp add: word_less_nat_alt)
  obtain s' where s': "rd_read R n s = Inr (bs, s')" "ok s'" "unread s' = r"
    using read_bytes [OF assms(1-4)] by blast
  then show ?thesis
    using unget_last [OF assms(1) pos s'(1) assms(5)] by auto
qed

end

text \<open>The in-memory stream as an \<open>IExactReader\<close>.\<close>

definition mem_reader :: "imemstream exact_reader_ops" where
  "mem_reader = \<lparr>rd_read = im_read, rd_unget = im_unget,
                 rd_left = (\<lambda>s. length (m_Data s) - unat (m_Offset s))\<rparr>"

lemma im_read_fits:
  assumes ok: "im_ok s" and n: "unat n \<le> length (im_unread s)"
  shows "im_read n s = Inr (take (unat n) (im_unread s), s\<lparr>m_Offset := m_Offset s + n\<rparr>)"
    and "im_ok (s\<lparr>m_Offset := m_Offset s + n\<rparr>)"
    and "im_unread (s\<lparr>m_Offset := m_Offset s + n\<rparr>) = drop (unat n) (im_unread s)"
proof -
  have le: "unat (m_Offset s) + unat n \<le> length (m_Data s)"
    using ok n by (rule im_fits)
  note e = im_ensure_fits [OF ok n]
  show "im_read n s = Inr (take (unat n) (im_unread s), s\<lparr>m_Offset := m_Offset s + n\<rparr>)"
    using le e(1) by (simp add: im_read_def im_unread_def)
  show "im_ok (s\<lparr>m_Offset := m_Offset s + n\<rparr>)"
    using ok e(1) by (rule im_offset_ok)
  show "im_unread (s\<lparr>m_Offset := m_Offset s + n\<rparr>) = drop (unat n) (im_unread s)"
    using e(2) by (simp add: im_unread_def add.commute)
qed

lemma im_read_short:
  assumes "im_ok s" and "length (im_unread s) < unat n" and "unat n < 2 ^ 63"
  shows "im_read n s = Inl EndOfBuffer"
proof -
  have "unat n + unat (m_Offset s) < 2 ^ 64"
    using assms by (simp add: im_ok_def)
  then show ?thesis
    using im_ensure_short [OF assms(1,2)] by (simp add: im_read_def)
qed

lemma im_unget_after_read:
  assumes ok: "im_ok s" and pos: "0 < n" and r: "im_read n s = Inr (bs, s')"
    and n: "unat n < 2 ^ 63"
  shows "\<exists>s''. im_unget s' = Inr s'' \<and> im_ok s'' \<and> im_unread s'' = last bs # im_unread s'"
proof -
  have fits: "unat n \<le> length (im_unread s)"
    using im_read_short [OF ok _ n] r by (cases "unat n \<le> length (im_unread s)") auto
  note rd = im_read_fits [OF ok fits]
  define off where "off = m_Offset s + n"
  have off: "unat off = unat (m_Offset s) + unat n"
    unfolding off_def by (rule im_ensure_fits(2) [OF ok fits])
  have pos': "0 < unat n"
    using pos by (simp add: word_less_nat_alt)
  have s': "s' = s\<lparr>m_Offset := off\<rparr>" and bs: "bs = take (unat n) (im_unread s)"
    using r rd(1) by (auto simp: off_def)
  have dec: "unat (off - 1) = unat off - 1"
    using off pos' by (intro unat_minus_one) auto
  have le: "unat off \<le> length (m_Data s)"
    using rd(2) by (simp add: im_ok_def off_def)
  have "off \<noteq> 0"
    using off pos' by auto
  then have "im_unget s' = Inr (s\<lparr>m_Offset := off - 1\<rparr>)"
    by (simp add: im_unget_def s')
  moreover have "im_ok (s\<lparr>m_Offset := off - 1\<rparr>)"
    using dec le ok by (simp add: im_ok_def)
  moreover have "im_unread (s\<lparr>m_Offset := off - 1\<rparr>) = last bs # im_unread s'"
  proof -
    let ?k = "unat off - 1"
    have k: "?k < length (m_Data s)" and Suc: "Suc ?k = unat off"
      using le off pos' by auto
    have "last bs = m_Data s ! ?k"
      using pos' off k fits
      by (simp add: bs im_unread_def last_conv_nth min_def)
    then show ?thesis
      using dec Cons_nth_drop_Suc [OF k] Suc by (simp add: im_unread_def s')
  qed
  ultimately show ?thesis by blast
qed

interpretation mem: exact_reader mem_reader im_unread im_ok
proof (unfold_locales, goal_cases)
  case (1 s n)
  then show ?case using im_read_fits [of s n] by (auto simp: mem_reader_def)
next
  case (2 s n)
  then show ?case using im_read_short [of s n] by (auto simp: mem_reader_def)
next
  case (3 s n bs s')
  then show ?case using im_unget_after_read [of s n bs s'] by (simp add: mem_reader_def)
next
  case (4 s)
  then show ?case by (simp add: mem_reader_def length_im_unread)
qed

section \<open>Each operation keeps the invariant\<close>

lemma im_skip_ok: "im_ok s \<Longrightarrow> im_skip n s = Inr s' \<Longrightarrow> im_ok s'"
  using im_offset_ok by (auto simp: im_skip_def bindr_eq_Inr)

lemma im_read_ok: "im_ok s \<Longrightarrow> im_read n s = Inr (bs, s') \<Longrightarrow> im_ok s'"
  using im_offset_ok by (auto simp: im_read_def bindr_eq_Inr split: if_splits)

lemma im_substring_ok: "im_ok s \<Longrightarrow> im_substring n s = Inr (bs, s') \<Longrightarrow> im_ok s'"
  using im_offset_ok by (auto simp: im_substring_def bindr_eq_Inr)

lemma im_unget_ok:
  assumes "im_ok s" and u: "im_unget s = Inr s'"
  shows "im_ok s'"
proof -
  have "m_Offset s \<noteq> 0" and s': "s' = s\<lparr>m_Offset := m_Offset s - 1\<rparr>"
    using u by (auto simp: im_unget_def split: if_splits)
  then have "unat (m_Offset s - 1) = unat (m_Offset s) - 1"
    by (intro unat_minus_one) auto
  then show ?thesis using assms by (auto simp: s' im_ok_def)
qed

lemma im_rest_ok:
  assumes ok: "im_ok s" and r: "im_rest s = Inr (bs, s')"
  shows "im_ok s' \<and> bs = im_unread s \<and> im_eof s'"
proof -
  have size: "unat (im_size s) = length (m_Data s)"
    using ok by (rule unat_im_size)
  have "m_Offset s \<le> im_size s"
    using ok size by (simp add: im_ok_def word_le_nat_alt)
  then have n: "unat (im_size s - m_Offset s) = length (im_unread s)"
    using size length_im_unread [OF ok] by (simp add: unat_sub)
  have "im_ok s'"
    using r im_substring_ok [OF ok] by (simp add: im_rest_def)
  moreover have "bs = im_unread s" and "m_Offset s' = im_size s'"
    using r n by (auto simp: im_rest_def im_substring_def bindr_eq_Inr sv_substr_def im_unread_def
        im_size_def split: if_splits)
  ultimately show ?thesis by (simp add: im_eof_def)
qed

lemma im_substring_wrap:
  assumes "im_ok s" and "2 ^ 64 \<le> unat n + unat (m_Offset s)"
  shows "im_substring n s = Inr (im_unread s, s\<lparr>m_Offset := m_Offset s + n\<rparr>)"
    and "m_Offset s + n < m_Offset s"
proof -
  have "length (im_unread s) \<le> unat n"
    using assms by (auto simp: im_unread_def im_ok_def)
  then have "sv_substr (m_Data s) (m_Offset s) n = Inr (im_unread s)"
    using assms(1) by (simp add: sv_substr_def im_unread_def im_ok_def)
  then show "im_substring n s = Inr (im_unread s, s\<lparr>m_Offset := m_Offset s + n\<rparr>)"
    using im_ensure_wrap [OF assms] by (simp add: im_substring_def)
  show "m_Offset s + n < m_Offset s"
    using im_ensure_wrap [OF assms] by (simp add: word_less_nat_alt)
qed

section \<open>Properties\<close>

text \<open>
  every operation of the in-memory stream keeps the offset inside the buffer, for every
  size argument, including the sizes whose sum with the offset wraps around.
\<close>

theorem imemstream_invariant:
  assumes "im_ok s"
  shows "(\<forall>s'. im_skip n s = Inr s' \<longrightarrow> im_ok s')
    \<and> (\<forall>bs s'. im_read n s = Inr (bs, s') \<longrightarrow> im_ok s')
    \<and> (\<forall>bs s'. im_substring n s = Inr (bs, s') \<longrightarrow> im_ok s')
    \<and> (\<forall>bs s'. im_rest s = Inr (bs, s') \<longrightarrow> im_ok s' \<and> bs = im_unread s \<and> im_eof s')
    \<and> (\<forall>s'. im_unget s = Inr s' \<longrightarrow> im_ok s')"
  using im_skip_ok im_read_ok im_substring_ok im_rest_ok im_unget_ok assms by blast

theorem imemstream_invariant_witness:
  "im_ok (\<lparr>m_Data = [1, 2, 3], m_Offset = 3\<rparr>)"
proof -
  have ok: "im_ok \<lparr>m_Data = [1, 2, 3], m_Offset = 2\<rparr>"
    by (simp add: im_ok_def)
  have "im_skip 1 \<lparr>m_Data = [1, 2, 3], m_Offset = 2\<rparr> = Inr \<lparr>m_Data = [1, 2, 3], m_Offset = 3\<rparr>"
    by (simp add: im_skip_def im_ensure_def im_size_def)
  with imemstream_invariant [OF ok, of 1] show ?thesis by blast
qed

text \<open>
  a read of any size below \<open>2^63\<close> returns exactly the next bytes and advances past them,
  or throws \<open>EndOfBuffer\<close>; the copy never leaves the buffer.
\<close>

theorem imemstream_read_exact:
  assumes "im_ok s" and "unat n < 2 ^ 63"
  shows "im_read n s =
     (if unat n \<le> length (im_unread s)
      then Inr (take (unat n) (im_unread s), s\<lparr>m_Offset := m_Offset s + n\<rparr>)
      else Inl EndOfBuffer)"
  using im_read_fits [OF assms(1)] im_read_short [OF assms(1) _ assms(2)] by auto

theorem imemstream_read_exact_witness:
  "im_read 2 (im_open [7, 8, 9]) = Inr ([7, 8], (im_open [7, 8, 9])\<lparr>m_Offset := 2\<rparr>)"
proof -
  have "im_ok (im_open [7, 8, 9])" and "unat (2 :: u64) < 2 ^ 63"
    by (simp_all add: im_ok_open)
  from imemstream_read_exact [OF this] show ?thesis
    by (simp add: im_open_def im_unread_def)
qed

text \<open>
  The bounds check adds size and offset without looking at overflow, so \<open>substring\<close>
  accepts every size whose sum with the offset reaches \<open>2^64\<close>; it then returns the unread
  bytes and moves the offset backwards.
\<close>

theorem imemstream_substring_overflow:
  assumes "im_ok s" and "2 ^ 64 \<le> unat n + unat (m_Offset s)"
  shows "\<exists>s'. im_substring n s = Inr (im_unread s, s') \<and> m_Offset s' < m_Offset s"
  using im_substring_wrap [OF assms] by auto

theorem imemstream_substring_overflow_witness:
  "\<exists>s'. im_substring 0xFFFFFFFFFFFFFFFF \<lparr>m_Data = [1, 2, 3], m_Offset = 2\<rparr> = Inr ([3], s')
        \<and> m_Offset s' < 2"
proof -
  let ?s = "\<lparr>m_Data = [1, 2, 3], m_Offset = 2\<rparr> :: imemstream"
  have "im_ok ?s" and "2 ^ 64 \<le> unat (0xFFFFFFFFFFFFFFFF :: u64) + unat (m_Offset ?s)"
    by (simp_all add: im_ok_def)
  from imemstream_substring_overflow [OF this] show ?thesis
    by (simp add: im_unread_def)
qed

end
