(* ===== verification/Cbor.thy ===== *)
theory Cbor
  imports Streams
begin

text \<open>
  The CBOR encoder and decoder of \<open>cbor/\<close>. Readers are written over an arbitrary
  \<open>IExactReader\<close> (a record of its operations), writers append to the output stream.
  The overload set \<open>cbor::read\<close>/\<open>cbor::write\<close> is a family of combinators, one per
  overload, and the types they are instantiated at form the universe \<open>cty\<close>.
\<close>

section \<open>Headers (cbor-internals.hpp)\<close>

abbreviation CBOR_UINT :: byte where "CBOR_UINT \<equiv> 0"
abbreviation CBOR_NINT :: byte where "CBOR_NINT \<equiv> 1"
abbreviation CBOR_BINARY :: byte where "CBOR_BINARY \<equiv> 2"
abbreviation CBOR_STR :: byte where "CBOR_STR \<equiv> 3"
abbreviation CBOR_LIST :: byte where "CBOR_LIST \<equiv> 4"
abbreviation CBOR_MAP :: byte where "CBOR_MAP \<equiv> 5"
abbreviation CBOR_TAG :: byte where "CBOR_TAG \<equiv> 6"
abbreviation CBOR_X :: byte where "CBOR_X \<equiv> 7"
abbreviation CBOR_FALSE :: byte where "CBOR_FALSE \<equiv> 20"
abbreviation CBOR_TRUE :: byte where "CBOR_TRUE \<equiv> 21"
abbreviation CBOR_NULL :: byte where "CBOR_NULL \<equiv> 22"
abbreviation CBOR_8 :: byte where "CBOR_8 \<equiv> 24"
abbreviation CBOR_16 :: byte where "CBOR_16 \<equiv> 25"
abbreviation CBOR_32 :: byte where "CBOR_32 \<equiv> 26"
abbreviation CBOR_64 :: byte where "CBOR_64 \<equiv> 27"
abbreviation CBOR_FLOAT :: byte where "CBOR_FLOAT \<equiv> 26"
abbreviation CBOR_DOUBLE :: byte where "CBOR_DOUBLE \<equiv> 27"

text \<open>The bit field: five low bits for the size, three high bits for the type.\<close>

record TypeInfo =
  ti_minor :: byte
  ti_major :: byte

definition type_info :: "byte \<Rightarrow> TypeInfo" where
  "type_info b = \<lparr>ti_minor = take_bit 5 b, ti_major = drop_bit 5 b\<rparr>"

text \<open>\<open>s.read(&t, sizeof(t))\<close> followed by the conversion from big endian.\<close>

definition read_integer :: "'s exact_reader_ops \<Rightarrow> u64 \<Rightarrow> 's \<Rightarrow> (nat \<times> 's) result" where
  "read_integer R n s = bindr (rd_read R n s) (\<lambda>(bs, s). Inr (be_dec bs, s))"

text \<open>\<open>get_uint<T>\<close>; \<open>w\<close> is the width of \<open>T\<close>, to which the value is converted on return.\<close>

definition get_uint :: "'s exact_reader_ops \<Rightarrow> nat \<Rightarrow> byte \<Rightarrow> 's \<Rightarrow> (u64 \<times> 's) result" where
  "get_uint R w minorType s =
     (if minorType < CBOR_8 then Inr (take_bit w (ucast minorType), s)
      else if minorType = CBOR_8 then
        bindr (read_integer R 1 s) (\<lambda>(v, s). Inr (take_bit w (of_nat v), s))
      else if minorType = CBOR_16 then
        bindr (read_integer R 2 s) (\<lambda>(v, s). Inr (take_bit w (of_nat v), s))
      else if minorType = CBOR_32 then
        bindr (read_integer R 4 s) (\<lambda>(v, s). Inr (take_bit w (of_nat v), s))
      else if minorType = CBOR_64 then
        bindr (read_integer R 8 s) (\<lambda>(v, s). Inr (take_bit w (of_nat v), s))
      else Inl (InvalidArgument (''unexpected minor type: '' @ to_string (unat minorType))))"

text \<open>The loop of \<open>get_type\<close> skips tags; each turn reads at least one byte.\<close>

fun get_type_loop :: "'s exact_reader_ops \<Rightarrow> nat \<Rightarrow> 's \<Rightarrow> (TypeInfo \<times> 's) result" where
  "get_type_loop R 0 s = Inl OutOfFuel"
| "get_type_loop R (Suc fuel) s =
     bindr (rd_read R 1 s) (\<lambda>(bs, s).
       case bs of
         [] \<Rightarrow> Inl Undefined
       | b # _ \<Rightarrow>
           (let info = type_info b in
            if ti_major info = CBOR_TAG
            then bindr (get_uint R 64 (ti_minor info) s) (\<lambda>(_, s). get_type_loop R fuel s)
            else Inr (info, s)))"

definition get_type :: "'s exact_reader_ops \<Rightarrow> 's \<Rightarrow> (TypeInfo \<times> 's) result" where
  "get_type R s = get_type_loop R (Suc (rd_left R s)) s"

definition unexpected_major :: "byte \<Rightarrow> exn" where
  "unexpected_major m = InvalidArgument (''unexpected major type: '' @ to_string (unat m))"

definition ensure_type :: "'s exact_reader_ops \<Rightarrow> byte \<Rightarrow> 's \<Rightarrow> (byte \<times> 's) result" where
  "ensure_type R needType s =
     bindr (get_type R s) (\<lambda>(t, s).
       if ti_major t \<noteq> needType then Inl (unexpected_major (ti_major t))
       else Inr (ti_minor t, s))"

definition write_type_value :: "omemstream \<Rightarrow> byte \<Rightarrow> u64 \<Rightarrow> omemstream" where
  "write_type_value out major_type value =
     (let mt = push_bit 5 major_type in
      if value < 24 then om_write out [mt OR ucast value]
      else if value \<le> 0xFF then
        om_write (om_write out [mt OR CBOR_8]) [ucast value]
      else if value \<le> 0xFFFF then
        om_write (om_write out [mt OR CBOR_16]) (be_enc 2 (unat (ucast value :: u16)))
      else if value \<le> 0xFFFFFFFF then
        om_write (om_write out [mt OR CBOR_32]) (be_enc 4 (unat (ucast value :: u32)))
      else
        om_write (om_write out [mt OR CBOR_64]) (be_enc 8 (unat value)))"

definition write_special :: "omemstream \<Rightarrow> byte \<Rightarrow> omemstream" where
  "write_special out special = om_write out [push_bit 5 CBOR_X OR special]"

section \<open>Scalars (cbor-basic.hpp)\<close>

definition read_unsigned :: "'s exact_reader_ops \<Rightarrow> nat \<Rightarrow> 's \<Rightarrow> (u64 \<times> 's) result" where
  "read_unsigned R w s = bindr (ensure_type R CBOR_UINT s) (\<lambda>(m, s). get_uint R w m s)"

definition write_unsigned :: "omemstream \<Rightarrow> u64 \<Rightarrow> omemstream" where
  "write_unsigned out v = write_type_value out CBOR_UINT v"

text \<open>Signed integers are modelled by their value; \<open>w\<close> is the width of the type.\<close>

definition read_signed :: "'s exact_reader_ops \<Rightarrow> nat \<Rightarrow> 's \<Rightarrow> (int \<times> 's) result" where
  "read_signed R w s =
     bindr (get_type R s) (\<lambda>(t, s).
       if ti_major t = CBOR_UINT then
         bindr (get_uint R w (ti_minor t) s) (\<lambda>(v, s). Inr (signed_take_bit (w - 1) (uint v), s))
       else if ti_major t = CBOR_NINT then
         bindr (get_uint R w (ti_minor t) s) (\<lambda>(v, s).
           Inr (signed_take_bit (w - 1) (-1 - signed_take_bit (w - 1) (uint v)), s))
       else Inl (unexpected_major (ti_major t)))"

definition write_signed :: "omemstream \<Rightarrow> int \<Rightarrow> omemstream" where
  "write_signed out v =
     (if v < 0 then write_type_value out CBOR_NINT (of_int (- (v + 1)))
      else write_type_value out CBOR_UINT (of_int v))"

definition unexpected_special :: "byte \<Rightarrow> exn" where
  "unexpected_special m = InvalidArgument (''unexpected special: '' @ to_string (unat m))"

text \<open>Floating point numbers are their IEEE bit pattern (the union in the code).\<close>

definition read_float :: "'s exact_reader_ops \<Rightarrow> 's \<Rightarrow> (u32 \<times> 's) result" where
  "read_float R s =
     bindr (ensure_type R CBOR_X s) (\<lambda>(m, s).
       if m = CBOR_FLOAT then bindr (read_integer R 4 s) (\<lambda>(v, s). Inr (of_nat v, s))
       else Inl (unexpected_special m))"

definition write_float :: "omemstream \<Rightarrow> u32 \<Rightarrow> omemstream" where
  "write_float out v = om_write (write_special out CBOR_FLOAT) (be_enc 4 (unat v))"

definition read_double :: "'s exact_reader_ops \<Rightarrow> 's \<Rightarrow> (u64 \<times> 's) result" where
  "read_double R s =
     bindr (ensure_type R CBOR_X s) (\<lambda>(m, s).
       if m = CBOR_DOUBLE then bindr (read_integer R 8 s) (\<lambda>(v, s). Inr (of_nat v, s))
       else Inl (InvalidArgument (''unexpected special:'' @ to_string (unat m))))"

definition write_double :: "omemstream \<Rightarrow> u64 \<Rightarrow> omemstream" where
  "write_double out v = om_write (write_special out CBOR_DOUBLE) (be_enc 8 (unat v))"

definition read_bool :: "'s exact_reader_ops \<Rightarrow> 's \<Rightarrow> (bool \<times> 's) result" where
  "read_bool R s =
     bindr (ensure_type R CBOR_X s) (\<lambda>(m, s).
       if m = CBOR_FALSE then Inr (False, s)
       else if m = CBOR_TRUE then Inr (True, s)
       else Inl (unexpected_special m))"

definition write_bool :: "omemstream \<Rightarrow> bool \<Rightarrow> omemstream" where
  "write_bool out v = write_special out (if v then CBOR_TRUE else CBOR_FALSE)"

definition read_tag :: "'s exact_reader_ops \<Rightarrow> 's \<Rightarrow> (u64 option \<times> 's) result" where
  "read_tag R s =
     bindr (rd_read R 1 s) (\<lambda>(bs, s).
       case bs of
         [] \<Rightarrow> Inl Undefined
       | b # _ \<Rightarrow>
           (if ti_major (type_info b) = CBOR_TAG
            then bindr (get_uint R 64 (ti_minor (type_info b)) s) (\<lambda>(v, s). Inr (Some v, s))
            else bindr (rd_unget R s) (\<lambda>s. Inr (None, s))))"

definition write_tag :: "omemstream \<Rightarrow> u64 \<Rightarrow> omemstream" where
  "write_tag out tag = write_type_value out CBOR_TAG tag"

section \<open>Strings, sequences, maps (cbor-stl.hpp)\<close>

text \<open>\<open>std::string::resize\<close> throws \<open>length_error\<close> above \<open>max_size()\<close>.\<close>

definition string_max_size :: u64 where
  "string_max_size = 0x7FFFFFFFFFFFFFFE"

definition read_string :: "'s exact_reader_ops \<Rightarrow> 's \<Rightarrow> (byte list \<times> 's) result" where
  "read_string R s =
     bindr (ensure_type R CBOR_STR s) (\<lambda>(m, s).
     bindr (get_uint R 64 m s) (\<lambda>(len, s).
       if string_max_size < len then Inl LengthError else rd_read R len s))"

text \<open>The overload for \<open>std::string_view\<close> exists for the in-memory stream only.\<close>

definition read_string_view :: "imemstream \<Rightarrow> (byte list \<times> imemstream) result" where
  "read_string_view s =
     bindr (ensure_type mem_reader CBOR_STR s) (\<lambda>(m, s).
     bindr (get_uint mem_reader 64 m s) (\<lambda>(len, s). im_substring len s))"

definition write_string :: "omemstream \<Rightarrow> byte list \<Rightarrow> omemstream" where
  "write_string out str = om_write (write_type_value out CBOR_STR (of_nat (length str))) str"

text \<open>The \<open>for\<close> loops that read \<open>mt\<close> elements.\<close>

primrec read_n :: "nat \<Rightarrow> ('s \<Rightarrow> ('a \<times> 's) result) \<Rightarrow> 's \<Rightarrow> ('a list \<times> 's) result" where
  "read_n 0 rd s = Inr ([], s)"
| "read_n (Suc n) rd s =
     bindr (rd s) (\<lambda>(x, s). bindr (read_n n rd s) (\<lambda>(xs, s). Inr (x # xs, s)))"

definition read_list :: "'s exact_reader_ops \<Rightarrow> ('s \<Rightarrow> ('a \<times> 's) result) \<Rightarrow> 's \<Rightarrow> ('a list \<times> 's) result" where
  "read_list R rd s =
     bindr (ensure_type R CBOR_LIST s) (\<lambda>(m, s).
     bindr (get_uint R 64 m s) (\<lambda>(mt, s). read_n (unat mt) rd s))"

definition write_list :: "(omemstream \<Rightarrow> 'a \<Rightarrow> omemstream) \<Rightarrow> omemstream \<Rightarrow> 'a list \<Rightarrow> omemstream" where
  "write_list wr out l = foldl wr (write_type_value out CBOR_LIST (of_nat (length l))) l"

text \<open>
  Vectors of trivial types are blobs: the value is the memory of the elements, \<open>k\<close> is
  \<open>sizeof(T)\<close>. \<open>resize\<close> throws above \<open>PTRDIFF_MAX / sizeof(T)\<close> elements.
\<close>

definition read_blob :: "'s exact_reader_ops \<Rightarrow> u64 \<Rightarrow> 's \<Rightarrow> (byte list \<times> 's) result" where
  "read_blob R k s =
     bindr (ensure_type R CBOR_BINARY s) (\<lambda>(m, s).
     bindr (get_uint R 64 m s) (\<lambda>(len, s).
       if 0 < len mod k then
         Inl (InvalidArgument (''read '' @ to_string (unat len) @ '' bytes to vector of '' @ to_string (unat k)))
       else if 0x7FFFFFFFFFFFFFFF div k < len div k then Inl LengthError
       else if 0 < len then rd_read R len s
       else Inr ([], s)))"

definition write_blob :: "omemstream \<Rightarrow> byte list \<Rightarrow> omemstream" where
  "write_blob out mem = om_write (write_type_value out CBOR_BINARY (of_nat (length mem))) mem"

text \<open>Vectors of other types reserve first, which throws above \<open>max_size()\<close>.\<close>

definition read_vector ::
    "'s exact_reader_ops \<Rightarrow> u64 \<Rightarrow> ('s \<Rightarrow> ('a \<times> 's) result) \<Rightarrow> 's \<Rightarrow> ('a list \<times> 's) result" where
  "read_vector R max_size rd s =
     bindr (ensure_type R CBOR_LIST s) (\<lambda>(m, s).
     bindr (get_uint R 64 m s) (\<lambda>(mt, s).
       if max_size < mt then Inl LengthError else read_n (unat mt) rd s))"

definition write_vector :: "(omemstream \<Rightarrow> 'a \<Rightarrow> omemstream) \<Rightarrow> omemstream \<Rightarrow> 'a list \<Rightarrow> omemstream" where
  "write_vector wr out l = foldl wr (write_type_value out CBOR_LIST (of_nat (length l))) l"

text \<open>
  \<open>std::map\<close> is the list of its entries in key order, \<open>std::unordered_map\<close> the list of
  its entries in iteration order; \<open>emplace\<close> keeps an existing entry.
\<close>

fun map_emplace :: "('key \<Rightarrow> 'key \<Rightarrow> bool) \<Rightarrow> 'key \<Rightarrow> 'val \<Rightarrow> ('key \<times> 'val) list \<Rightarrow> ('key \<times> 'val) list" where
  "map_emplace lt k v [] = [(k, v)]"
| "map_emplace lt k v ((k', v') # m) =
     (if lt k k' then (k, v) # (k', v') # m
      else if lt k' k then (k', v') # map_emplace lt k v m
      else (k', v') # m)"

definition umap_emplace :: "'k \<Rightarrow> 'v \<Rightarrow> ('k \<times> 'v) list \<Rightarrow> ('k \<times> 'v) list" where
  "umap_emplace k v m = (if k \<in> set (map fst m) then m else m @ [(k, v)])"

primrec read_entries ::
    "nat \<Rightarrow> ('k \<Rightarrow> 'v \<Rightarrow> ('k \<times> 'v) list \<Rightarrow> ('k \<times> 'v) list) \<Rightarrow> ('s \<Rightarrow> ('k \<times> 's) result)
     \<Rightarrow> ('s \<Rightarrow> ('v \<times> 's) result) \<Rightarrow> ('k \<times> 'v) list \<Rightarrow> 's \<Rightarrow> (('k \<times> 'v) list \<times> 's) result" where
  "read_entries 0 emplace rdk rdv m s = Inr (m, s)"
| "read_entries (Suc n) emplace rdk rdv m s =
     bindr (rdk s) (\<lambda>(k, s). bindr (rdv s) (\<lambda>(v, s).
       read_entries n emplace rdk rdv (emplace k v m) s))"

definition read_map ::
    "'s exact_reader_ops \<Rightarrow> ('k \<Rightarrow> 'k \<Rightarrow> bool) \<Rightarrow> ('s \<Rightarrow> ('k \<times> 's) result)
     \<Rightarrow> ('s \<Rightarrow> ('v \<times> 's) result) \<Rightarrow> 's \<Rightarrow> (('k \<times> 'v) list \<times> 's) result" where
  "read_map R lt rdk rdv s =
     bindr (ensure_type R CBOR_MAP s) (\<lambda>(m, s).
     bindr (get_uint R 64 m s) (\<lambda>(mt, s). read_entries (unat mt) (map_emplace lt) rdk rdv [] s))"

definition read_unordered_map ::
    "'s exact_reader_ops \<Rightarrow> ('s \<Rightarrow> ('k \<times> 's) result) \<Rightarrow> ('s \<Rightarrow> ('v \<times> 's) result)
     \<Rightarrow> 's \<Rightarrow> (('k \<times> 'v) list \<times> 's) result" where
  "read_unordered_map R rdk rdv s =
     bindr (ensure_type R CBOR_MAP s) (\<lambda>(m, s).
     bindr (get_uint R 64 m s) (\<lambda>(mt, s). read_entries (unat mt) umap_emplace rdk rdv [] s))"

definition write_map ::
    "(omemstream \<Rightarrow> 'k \<Rightarrow> omemstream) \<Rightarrow> (omemstream \<Rightarrow> 'v \<Rightarrow> omemstream)
     \<Rightarrow> omemstream \<Rightarrow> ('k \<times> 'v) list \<Rightarrow> omemstream" where
  "write_map wrk wrv out m =
     foldl (\<lambda>out x. wrv (wrk out (fst x)) (snd x))
       (write_type_value out CBOR_MAP (of_nat (length m))) m"

section \<open>Optional values and tuples (cbor-optional.hpp, cbor-tuple.hpp)\<close>

definition read_optional ::
    "'s exact_reader_ops \<Rightarrow> ('s \<Rightarrow> ('a \<times> 's) result) \<Rightarrow> 's \<Rightarrow> ('a option \<times> 's) result" where
  "read_optional R rd s =
     bindr (get_type R s) (\<lambda>(info, s).
       if ti_major info = CBOR_X \<and> ti_minor info = CBOR_NULL then Inr (None, s)
       else bindr (rd_unget R s) (\<lambda>s. bindr (rd s) (\<lambda>(v, s). Inr (Some v, s))))"

definition write_optional ::
    "(omemstream \<Rightarrow> 'a \<Rightarrow> omemstream) \<Rightarrow> omemstream \<Rightarrow> 'a option \<Rightarrow> omemstream" where
  "write_optional wr out t = (case t of Some v \<Rightarrow> wr out v | None \<Rightarrow> write_special out CBOR_NULL)"

text \<open>The elements of a tuple are read one by one, each with its own overload.\<close>

primrec read_each :: "('s \<Rightarrow> ('a \<times> 's) result) list \<Rightarrow> 's \<Rightarrow> ('a list \<times> 's) result" where
  "read_each [] s = Inr ([], s)"
| "read_each (rd # rds) s =
     bindr (rd s) (\<lambda>(x, s). bindr (read_each rds s) (\<lambda>(xs, s). Inr (x # xs, s)))"

definition read_tuple ::
    "'s exact_reader_ops \<Rightarrow> ('s \<Rightarrow> ('a \<times> 's) result) list \<Rightarrow> 's \<Rightarrow> ('a list \<times> 's) result" where
  "read_tuple R rds s =
     bindr (ensure_type R CBOR_LIST s) (\<lambda>(m, s).
     bindr (get_uint R 64 m s) (\<lambda>(sCount, s).
       if unat sCount \<noteq> length rds then Inl (RuntimeError ''bad number of elements'')
       else read_each rds s))"

definition write_tuple :: "(omemstream \<Rightarrow> omemstream) list \<Rightarrow> omemstream \<Rightarrow> omemstream" where
  "write_tuple wrs out = foldl (\<lambda>out w. w out) (write_type_value out CBOR_LIST (of_nat (length wrs))) wrs"

end
