(* ===== verification/Cbor_Codec.thy ===== *)
theory Cbor_Codec
  imports Cbor
begin

text \<open>
  Correctness of the CBOR library: a codec is a writer with its reader, the locale
  \<open>cbor_codec\<close> states when they invert each other, and each combinator of
  \<open>Cbor\<close> maps codecs to codecs. The universe \<open>cty\<close> of the types the overloads
  cover then gets one round-trip theorem and one safety theorem.
\<close>

section \<open>The universe of types\<close>

text \<open>
  \<open>TUint w\<close> and \<open>TInt w\<close> are the integer types of width \<open>w\<close>, \<open>TBlob k\<close> a vector
  of a trivial type of size \<open>k\<close>, \<open>TVector m t\<close> a vector of \<open>t\<close> with
  \<open>max_size() = m\<close>.
\<close>

datatype cty =
    TUint nat | TInt nat | TBool | TFloat | TDouble | TString | TBlob u64
  | TList cty | TVector u64 cty | TMap cty cty | TUMap cty cty | TOpt cty | TTuple "cty list"

datatype cval =
    VUint u64 | VInt int | VBool bool | VFloat u32 | VDouble u64 | VBytes "byte list"
  | VList "cval list" | VMap "(cval \<times> cval) list" | VOpt "cval option"

text \<open>\<open>operator<\<close> of the key types.\<close>

fun cval_less :: "cval \<Rightarrow> cval \<Rightarrow> bool" where
  "cval_less (VUint a) (VUint b) = (a < b)"
| "cval_less (VInt a) (VInt b) = (a < b)"
| "cval_less (VBytes a) (VBytes b) = lex_less a b"
| "cval_less _ _ = False"

definition wrapr :: "('a \<Rightarrow> 'b) \<Rightarrow> ('a \<times> 's) result \<Rightarrow> ('b \<times> 's) result" where
  "wrapr f m = bindr m (\<lambda>(x, s). Inr (f x, s))"

text \<open>Overload resolution of \<open>cbor::read\<close> and \<open>cbor::write\<close>.\<close>

fun cbor_read :: "'s exact_reader_ops \<Rightarrow> cty \<Rightarrow> 's \<Rightarrow> (cval \<times> 's) result" where
  "cbor_read R (TUint w) = (\<lambda>s. wrapr VUint (read_unsigned R w s))"
| "cbor_read R (TInt w) = (\<lambda>s. wrapr VInt (read_signed R w s))"
| "cbor_read R TBool = (\<lambda>s. wrapr VBool (read_bool R s))"
| "cbor_read R TFloat = (\<lambda>s. wrapr VFloat (read_float R s))"
| "cbor_read R TDouble = (\<lambda>s. wrapr VDouble (read_double R s))"
| "cbor_read R TString = (\<lambda>s. wrapr VBytes (read_string R s))"
| "cbor_read R (TBlob k) = (\<lambda>s. wrapr VBytes (read_blob R k s))"
| "cbor_read R (TList t) = (\<lambda>s. wrapr VList (read_list R (cbor_read R t) s))"
| "cbor_read R (TVector m t) = (\<lambda>s. wrapr VList (read_vector R m (cbor_read R t) s))"
| "cbor_read R (TMap kt vt) =
     (\<lambda>s. wrapr VMap (read_map R cval_less (cbor_read R kt) (cbor_read R vt) s))"
| "cbor_read R (TUMap kt vt) =
     (\<lambda>s. wrapr VMap (read_unordered_map R (cbor_read R kt) (cbor_read R vt) s))"
| "cbor_read R (TOpt t) = (\<lambda>s. wrapr VOpt (read_optional R (cbor_read R t) s))"
| "cbor_read R (TTuple ts) = (\<lambda>s. wrapr VList (read_tuple R (map (cbor_read R) ts) s))"

fun cbor_write :: "cty \<Rightarrow> omemstream \<Rightarrow> cval \<Rightarrow> omemstream" where
  "cbor_write (TUint w) = (\<lambda>out v. case v of VUint x \<Rightarrow> write_unsigned out x | _ \<Rightarrow> out)"
| "cbor_write (TInt w) = (\<lambda>out v. case v of VInt x \<Rightarrow> write_signed out x | _ \<Rightarrow> out)"
| "cbor_write TBool = (\<lambda>out v. case v of VBool x \<Rightarrow> write_bool out x | _ \<Rightarrow> out)"
| "cbor_write TFloat = (\<lambda>out v. case v of VFloat x \<Rightarrow> write_float out x | _ \<Rightarrow> out)"
| "cbor_write TDouble = (\<lambda>out v. case v of VDouble x \<Rightarrow> write_double out x | _ \<Rightarrow> out)"
| "cbor_write TString = (\<lambda>out v. case v of VBytes x \<Rightarrow> write_string out x | _ \<Rightarrow> out)"
| "cbor_write (TBlob k) = (\<lambda>out v. case v of VBytes x \<Rightarrow> write_blob out x | _ \<Rightarrow> out)"
| "cbor_write (TList t) =
     (\<lambda>out v. case v of VList x \<Rightarrow> write_list (cbor_write t) out x | _ \<Rightarrow> out)"
| "cbor_write (TVector m t) =
     (\<lambda>out v. case v of VList x \<Rightarrow> write_vector (cbor_write t) out x | _ \<Rightarrow> out)"
| "cbor_write (TMap kt vt) =
     (\<lambda>out v. case v of VMap x \<Rightarrow> write_map (cbor_write kt) (cbor_write vt) out x | _ \<Rightarrow> out)"
| "cbor_write (TUMap kt vt) =
     (\<lambda>out v. case v of VMap x \<Rightarrow> write_map (cbor_write kt) (cbor_write vt) out x | _ \<Rightarrow> out)"
| "cbor_write (TOpt t) =
     (\<lambda>out v. case v of VOpt x \<Rightarrow> write_optional (cbor_write t) out x | _ \<Rightarrow> out)"
| "cbor_write (TTuple ts) =
     (\<lambda>out v. case v of
        VList x \<Rightarrow> write_tuple (map2 (\<lambda>w v out. w out v) (map cbor_write ts) x) out
      | _ \<Rightarrow> out)"

text \<open>\<open>cbor::to_string\<close>, \<open>cbor::from_string\<close> and the call proxy of \<open>cbor-proxy.hpp\<close>.\<close>

definition cbor_to_string :: "cty \<Rightarrow> cval \<Rightarrow> byte list" where
  "cbor_to_string t v = cbor_write t [] v"

definition cbor_from_string :: "cty \<Rightarrow> byte list \<Rightarrow> cval result" where
  "cbor_from_string t str = bindr (cbor_read mem_reader t (im_open str)) (\<lambda>(v, _). Inr v)"

definition proxy_run ::
    "'s exact_reader_ops \<Rightarrow> cty list \<Rightarrow> cty \<Rightarrow> (cval list \<Rightarrow> cval) \<Rightarrow> 's \<Rightarrow> omemstream
     \<Rightarrow> ('s \<times> omemstream) result" where
  "proxy_run R args ret func inp out =
     bindr (read_tuple R (map (cbor_read R) args) inp) (\<lambda>(arg, inp).
       Inr (inp, cbor_write ret out (func arg)))"

text \<open>The values of a type. Keys are integers or strings; an optional holds no optional.\<close>

fun key_type :: "cty \<Rightarrow> bool" where
  "key_type (TUint w) = True"
| "key_type (TInt w) = True"
| "key_type TString = True"
| "key_type _ = False"

fun is_TOpt :: "cty \<Rightarrow> bool" where
  "is_TOpt (TOpt t) = True"
| "is_TOpt _ = False"

fun has_type :: "cty \<Rightarrow> cval \<Rightarrow> bool" where
  "has_type (TUint w) = (\<lambda>v. case v of VUint x \<Rightarrow> w \<le> 64 \<and> unat x < 2 ^ w | _ \<Rightarrow> False)"
| "has_type (TInt w) = (\<lambda>v. case v of
      VInt x \<Rightarrow> 0 < w \<and> w \<le> 64 \<and> - (2 ^ (w - 1)) \<le> x \<and> x < 2 ^ (w - 1) | _ \<Rightarrow> False)"
| "has_type TBool = (\<lambda>v. case v of VBool _ \<Rightarrow> True | _ \<Rightarrow> False)"
| "has_type TFloat = (\<lambda>v. case v of VFloat _ \<Rightarrow> True | _ \<Rightarrow> False)"
| "has_type TDouble = (\<lambda>v. case v of VDouble _ \<Rightarrow> True | _ \<Rightarrow> False)"
| "has_type TString = (\<lambda>v. case v of VBytes x \<Rightarrow> length x \<le> unat string_max_size | _ \<Rightarrow> False)"
| "has_type (TBlob k) = (\<lambda>v. case v of
      VBytes x \<Rightarrow> 0 < k \<and> length x < 2 ^ 63 \<and> length x mod unat k = 0 | _ \<Rightarrow> False)"
| "has_type (TList t) = (\<lambda>v. case v of
      VList xs \<Rightarrow> length xs < 2 ^ 64 \<and> (\<forall>x\<in>set xs. has_type t x) | _ \<Rightarrow> False)"
| "has_type (TVector m t) = (\<lambda>v. case v of
      VList xs \<Rightarrow> length xs \<le> unat m \<and> (\<forall>x\<in>set xs. has_type t x) | _ \<Rightarrow> False)"
| "has_type (TMap kt vt) = (\<lambda>v. case v of
      VMap m \<Rightarrow> key_type kt \<and> length m < 2 ^ 64 \<and> sorted_wrt cval_less (map fst m)
                \<and> (\<forall>p\<in>set m. has_type kt (fst p)) \<and> (\<forall>p\<in>set m. has_type vt (snd p))
    | _ \<Rightarrow> False)"
| "has_type (TUMap kt vt) = (\<lambda>v. case v of
      VMap m \<Rightarrow> key_type kt \<and> length m < 2 ^ 64 \<and> distinct (map fst m)
                \<and> (\<forall>p\<in>set m. has_type kt (fst p)) \<and> (\<forall>p\<in>set m. has_type vt (snd p))
    | _ \<Rightarrow> False)"
| "has_type (TOpt t) = (\<lambda>v. case v of
      VOpt x \<Rightarrow> \<not> is_TOpt t \<and> (case x of None \<Rightarrow> True | Some y \<Rightarrow> has_type t y) | _ \<Rightarrow> False)"
| "has_type (TTuple ts) = (\<lambda>v. case v of
      VList xs \<Rightarrow> length ts < 2 ^ 64 \<and> list_all2 (\<lambda>p x. p x) (map has_type ts) xs | _ \<Rightarrow> False)"

section \<open>Headers\<close>

text \<open>A header byte splits back into the type and the size it was made of.\<close>

lemma byte_take_bit: "unat (x :: byte) < 2 ^ n \<Longrightarrow> take_bit n x = x"
  by (simp add: word_unat_eq_iff unsigned_take_bit_eq take_bit_nat_eq_self)

lemma header_minor:
  assumes "unat (x :: byte) < 32"
  shows "take_bit 5 (push_bit 5 m OR x) = x"
proof -
  have "take_bit 5 (push_bit 5 m OR x) = take_bit 5 x"
    by (simp add: take_bit_push_bit)
  then show ?thesis
    using byte_take_bit [of x 5] assms by simp
qed

lemma header_major:
  assumes x: "unat (x :: byte) < 32" and m: "unat (m :: byte) < 8"
  shows "drop_bit 5 (push_bit 5 m OR x) = m"
proof -
  have "take_bit 5 x = x" "take_bit 3 m = m"
    using byte_take_bit [of x 5] byte_take_bit [of m 3] x m by auto
  then have bits: "bit x k \<Longrightarrow> k < 5" "bit m k \<Longrightarrow> k < 3" for k
    by (metis bit_take_bit_iff)+
  show ?thesis
    by (rule bit_word_eqI) (use bits in \<open>fastforce simp: bit_simps\<close>)
qed

lemma type_info_header:
  "unat x < 32 \<Longrightarrow> unat m < 8 \<Longrightarrow> type_info (push_bit 5 m OR x) = \<lparr>ti_minor = x, ti_major = m\<rparr>"
  by (simp only: type_info_def header_minor header_major)

text \<open>\<open>write_type_value\<close> as header byte and payload.\<close>

definition size_minor :: "u64 \<Rightarrow> byte" where
  "size_minor v = (if v < 24 then ucast v else if v \<le> 0xFF then CBOR_8
     else if v \<le> 0xFFFF then CBOR_16 else if v \<le> 0xFFFFFFFF then CBOR_32 else CBOR_64)"

definition size_bytes :: "u64 \<Rightarrow> byte list" where
  "size_bytes v = (if v < 24 then [] else if v \<le> 0xFF then be_enc 1 (unat v)
     else if v \<le> 0xFFFF then be_enc 2 (unat v) else if v \<le> 0xFFFFFFFF then be_enc 4 (unat v)
     else be_enc 8 (unat v))"

lemma unat_ucast_small: "unat v < 2 ^ LENGTH('b) \<Longrightarrow> unat (ucast (v :: u64) :: 'b::len word) = unat v"
  by (simp add: unsigned_ucast_eq take_bit_nat_eq_self)

lemma write_type_value_eq:
  "write_type_value out m v = out @ (push_bit 5 m OR size_minor v) # size_bytes v"
  by (auto simp: write_type_value_def size_minor_def size_bytes_def om_write_def Let_def
      word_le_nat_alt unat_ucast_small)

lemma size_minor_less: "unat (size_minor v) < 32"
  by (auto simp: size_minor_def word_less_nat_alt unat_ucast_small)

lemma write_special_eq: "write_special out x = out @ [push_bit 5 CBOR_X OR x]"
  by (simp add: write_special_def om_write_def)

lemma read_special_info: "unat x < 32 \<Longrightarrow> type_info (push_bit 5 CBOR_X OR x) = \<lparr>ti_minor = x, ti_major = CBOR_X\<rparr>"
  using type_info_header [of x CBOR_X] by simp

section \<open>Reading headers back\<close>

text \<open>Some readers ask for zero bytes; the contract then also has to cover that.\<close>

locale exact_reader0 = exact_reader R unread ok
  for R :: "'s exact_reader_ops" and unread :: "'s \<Rightarrow> byte list" and ok :: "'s \<Rightarrow> bool" +
  assumes read_zero: "ok s \<Longrightarrow> \<exists>s'. rd_read R 0 s = Inr ([], s') \<and> ok s' \<and> unread s' = unread s"
begin

lemma read_any:
  assumes "ok s" and "unread s = bs @ r" and "unat n = length bs"
  shows "\<exists>s'. rd_read R n s = Inr (bs, s') \<and> ok s' \<and> unread s' = r"
proof (cases "bs = []")
  case True
  with assms have "n = 0"
    by (simp add: unat_eq_0)
  with True assms show ?thesis
    using read_zero [OF assms(1)] by simp
next
  case False
  with assms show ?thesis by (intro read_bytes)
qed

lemma read_integer_ok:
  assumes "ok s" and "unread s = be_enc k v @ r" and "v < 256 ^ k" and "unat n = k" and "0 < k"
  shows "\<exists>s'. read_integer R n s = Inr (v, s') \<and> ok s' \<and> unread s' = r"
proof -
  have "be_enc k v \<noteq> []"
    using assms(5) by (metis length_be_enc length_greater_0_conv)
  then show ?thesis
    using read_bytes [OF assms(1,2), of n] assms(3,4) by (auto simp: read_integer_def)
qed

lemma get_uint_ok:
  assumes "ok s" and "unread s = size_bytes v @ r"
  shows "\<exists>s'. get_uint R w (size_minor v) s = Inr (take_bit w v, s') \<and> ok s' \<and> unread s' = r"
proof -
  have cast: "(of_nat (unat v) :: u64) = v"
    by simp
  consider "v < 24" | "24 \<le> v" "v \<le> 0xFF" | "0xFF < v" "v \<le> 0xFFFF"
    | "0xFFFF < v" "v \<le> 0xFFFFFFFF" | "0xFFFFFFFF < v"
    by fastforce
  then show ?thesis
  proof cases
    case 1
    then have "size_minor v < 24" and "(ucast (size_minor v) :: u64) = v"
      by (auto simp: size_minor_def word_less_nat_alt unat_ucast_small word_unat_eq_iff
          unsigned_ucast_eq unsigned_take_bit_eq take_bit_nat_eq_self)
    with 1 assms show ?thesis
      by (simp add: get_uint_def size_bytes_def)
  next
    case 2
    then have "unread s = be_enc 1 (unat v) @ r" "size_minor v = 24" "unat v < 256 ^ 1"
      using assms(2) by (auto simp: size_bytes_def size_minor_def word_le_nat_alt word_less_nat_alt)
    then show ?thesis
      using read_integer_ok [OF assms(1), of 1 "unat v" r 1] cast by (auto simp: get_uint_def)
  next
    case 3
    then have "unread s = be_enc 2 (unat v) @ r" "size_minor v = 25" "unat v < 256 ^ 2"
      using assms(2) by (auto simp: size_bytes_def size_minor_def word_le_nat_alt word_less_nat_alt)
    then show ?thesis
      using read_integer_ok [OF assms(1), of 2 "unat v" r 2] cast by (auto simp: get_uint_def)
  next
    case 4
    then have "unread s = be_enc 4 (unat v) @ r" "size_minor v = 26" "unat v < 256 ^ 4"
      using assms(2) by (auto simp: size_bytes_def size_minor_def word_le_nat_alt word_less_nat_alt)
    then show ?thesis
      using read_integer_ok [OF assms(1), of 4 "unat v" r 4] cast by (auto simp: get_uint_def)
  next
    case 5
    then have "unread s = be_enc 8 (unat v) @ r" "size_minor v = 27" "unat v < 256 ^ 8"
      using assms(2) unat_u64_less [of v]
      by (auto simp: size_bytes_def size_minor_def word_le_nat_alt word_less_nat_alt)
    then show ?thesis
      using read_integer_ok [OF assms(1), of 8 "unat v" r 8] cast by (auto simp: get_uint_def)
  qed
qed

lemma get_type_head:
  assumes "ok s" and "unread s = b # r" and "drop_bit 5 b \<noteq> CBOR_TAG"
  shows "\<exists>s' s''. get_type R s = Inr (type_info b, s') \<and> ok s' \<and> unread s' = r
           \<and> rd_unget R s' = Inr s'' \<and> ok s'' \<and> unread s'' = b # r"
proof -
  obtain s' s'' where
    "rd_read R 1 s = Inr ([b], s')" "ok s'" "unread s' = r"
    "rd_unget R s' = Inr s''" "ok s''" "unread s'' = b # r"
    using read_unget_bytes [OF assms(1), of "[b]" r 1] assms(2) by auto
  then show ?thesis
    using assms(3) by (auto simp: get_type_def type_info_def Let_def)
qed

lemma get_type_value:
  assumes "ok s" and "unread s = write_type_value [] m v @ r" and "unat m < 6"
  shows "\<exists>s' s''. get_type R s = Inr (\<lparr>ti_minor = size_minor v, ti_major = m\<rparr>, s')
           \<and> get_uint R w (size_minor v) s' = Inr (take_bit w v, s'') \<and> ok s'' \<and> unread s'' = r"
proof -
  let ?b = "push_bit 5 m OR size_minor v"
  have info: "type_info ?b = \<lparr>ti_minor = size_minor v, ti_major = m\<rparr>"
    using assms(3) by (intro type_info_header size_minor_less) simp
  then have "drop_bit 5 ?b = m"
    by (simp add: type_info_def)
  with assms(3) have "drop_bit 5 ?b \<noteq> CBOR_TAG"
    by auto
  moreover have "unread s = ?b # size_bytes v @ r"
    using assms(2) by (simp add: write_type_value_eq)
  ultimately show ?thesis
    using get_type_head [OF assms(1)] get_uint_ok info by fastforce
qed

lemma ensure_type_value:
  assumes "ok s" and "unread s = write_type_value [] m v @ r" and "unat m < 6"
  shows "\<exists>s' s''. ensure_type R m s = Inr (size_minor v, s')
           \<and> get_uint R w (size_minor v) s' = Inr (take_bit w v, s'') \<and> ok s'' \<and> unread s'' = r"
  using get_type_value [OF assms] by (fastforce simp: ensure_type_def)

lemma ensure_type_special:
  assumes "ok s" and "unread s = write_special [] x @ r" and "unat x < 32"
  shows "\<exists>s'. ensure_type R CBOR_X s = Inr (x, s') \<and> ok s' \<and> unread s' = r"
proof -
  let ?b = "push_bit 5 CBOR_X OR x"
  have info: "type_info ?b = \<lparr>ti_minor = x, ti_major = CBOR_X\<rparr>"
    using assms(3) by (rule read_special_info)
  then have "drop_bit 5 ?b = CBOR_X"
    by (simp add: type_info_def)
  then show ?thesis
    using get_type_head [OF assms(1), of ?b r] assms(2) info
    by (auto simp: write_special_eq ensure_type_def)
qed

end

section \<open>Codecs\<close>

text \<open>
  A writer and a reader form a codec on the values of \<open>valid\<close>: the writer only appends,
  the reader takes back what was written and leaves the rest, and no encoding starts with
  a tag (which the readers would skip) or, for a \<open>nonnull\<close> codec, with the null byte
  (which the reader of an optional takes for the missing value).
\<close>

locale cbor_codec = exact_reader0 R unread ok
  for R :: "'s exact_reader_ops" and unread :: "'s \<Rightarrow> byte list" and ok :: "'s \<Rightarrow> bool" +
  fixes wr :: "omemstream \<Rightarrow> 'a \<Rightarrow> omemstream"
    and rd :: "'s \<Rightarrow> ('a \<times> 's) result"
    and valid :: "'a \<Rightarrow> bool"
    and nonnull :: bool
  assumes wr_append: "wr out x = out @ wr [] x"
    and roundtrip: "valid x \<Longrightarrow> ok s \<Longrightarrow> unread s = wr [] x @ r \<Longrightarrow>
      \<exists>s'. rd s = Inr (x, s') \<and> ok s' \<and> unread s' = r"
    and head: "valid x \<Longrightarrow> \<exists>b t. wr [] x = b # t \<and> drop_bit 5 b \<noteq> CBOR_TAG \<and> (nonnull \<longrightarrow> b \<noteq> 0xF6)"

lemma foldl_emit:
  assumes "\<And>out x. wr out x = out @ wr [] x"
  shows "foldl wr out xs = out @ concat (map (wr []) xs)"
proof (induction xs arbitrary: out)
  case Nil
  then show ?case by simp
next
  case (Cons x xs)
  have "wr out x = out @ wr [] x"
    by (rule assms)
  with Cons show ?case by simp
qed

lemma head_value: "unat m < 6 \<Longrightarrow> \<exists>b t. write_type_value [] m v @ r = b # t \<and> drop_bit 5 b = m"
  using header_major [of "size_minor v" m] size_minor_less [of v]
  by (auto simp: write_type_value_eq simp del: drop_bit_or)

text \<open>A codec read back into a constructor of a larger type.\<close>

lemma codec_inject:
  assumes "cbor_codec R unread ok wr rd valid nn"
    and "\<And>out x. wr' out (con x) = wr out x"
    and "\<And>v. (\<exists>x. v = con x) \<or> (\<forall>out. wr' out v = out)"
    and "\<And>s. rd' s = wrapr con (rd s)"
    and "\<And>v. valid' v \<Longrightarrow> \<exists>x. v = con x \<and> valid x"
    and "nn' \<Longrightarrow> nn"
  shows "cbor_codec R unread ok wr' rd' valid' nn'"
proof -
  have r0: "exact_reader0 R unread ok"
    using assms(1) by (rule cbor_codec.axioms)
  show ?thesis
  proof (rule cbor_codec.intro [OF r0], rule cbor_codec_axioms.intro)
    fix out v
    show "wr' out v = out @ wr' [] v"
    proof (cases "\<exists>x. v = con x")
      case True
      then obtain x where x: "v = con x" by blast
      have "wr out x = out @ wr [] x"
        by (rule cbor_codec.wr_append [OF assms(1)])
      then show ?thesis by (simp add: x assms(2))
    next
      case False
      then have "\<forall>out. wr' out v = out"
        using assms(3) by blast
      then show ?thesis by simp
    qed
  next
    fix v s r
    assume "valid' v" "ok s" "unread s = wr' [] v @ r"
    then show "\<exists>s'. rd' s = Inr (v, s') \<and> ok s' \<and> unread s' = r"
      using assms(2,4,5) cbor_codec.roundtrip [OF assms(1)] by (fastforce simp: wrapr_def)
  next
    fix v
    assume "valid' v"
    then show "\<exists>b t. wr' [] v = b # t \<and> drop_bit 5 b \<noteq> CBOR_TAG \<and> (nn' \<longrightarrow> b \<noteq> 0xF6)"
      using assms(2,5,6) cbor_codec.head [OF assms(1)] by fastforce
  qed
qed

context exact_reader0
begin

lemmas codec_intro = cbor_codec.intro [OF exact_reader0_axioms cbor_codec_axioms.intro]

lemma unsigned_codec:
  "cbor_codec R unread ok write_unsigned (read_unsigned R w) (\<lambda>x. unat x < 2 ^ w) True"
proof (rule codec_intro, goal_cases)
  case (1 out x)
  show ?case by (simp add: write_unsigned_def write_type_value_eq)
next
  case (2 x s r)
  have "take_bit w x = x"
    using 2 by (simp add: word_unat_eq_iff unsigned_take_bit_eq take_bit_nat_eq_self)
  then show ?case
    using ensure_type_value [of s CBOR_UINT x r w] 2
    by (fastforce simp: read_unsigned_def write_unsigned_def)
next
  case (3 x)
  show ?case using head_value [of CBOR_UINT x "[]"] by (auto simp: write_unsigned_def)
qed

lemma signed_value:
  assumes "0 < w" and "0 \<le> i" and "i < 2 ^ (w - 1)"
  shows "signed_take_bit (w - 1) (take_bit w i) = (i :: int)"
proof -
  have "(2::int) ^ (w - 1) \<le> 2 ^ w"
    by (intro power_increasing) auto
  with assms(3) have "i < 2 ^ w"
    by (rule order.strict_trans2)
  then have "take_bit w i = i"
    using assms by (simp add: take_bit_int_eq_self)
  then show ?thesis
    using assms by (simp add: signed_take_bit_int_eq_self)
qed

lemma signed_codec:
  "cbor_codec R unread ok write_signed (read_signed R w)
     (\<lambda>x. 0 < w \<and> w \<le> 64 \<and> - (2 ^ (w - 1)) \<le> x \<and> x < 2 ^ (w - 1)) True"
proof (rule codec_intro, goal_cases)
  case (1 out x)
  show ?case by (simp add: write_signed_def write_type_value_eq)
next
  case (2 x s r)
  then have assms: "0 < w" "w \<le> 64"
    by auto
  define i where "i = (if x < 0 then - (x + 1) else x)"
  have i: "0 \<le> i" "i < 2 ^ (w - 1)"
    using 2 by (auto simp: i_def)
  have "(2::int) ^ (w - 1) \<le> 2 ^ 64"
    using assms by (intro power_increasing) auto
  then have "uint (of_int i :: u64) = i"
    using i by (simp add: unsigned_of_int take_bit_int_eq_self)
  then have v: "signed_take_bit (w - 1) (uint (take_bit w (of_int i :: u64))) = i"
    using signed_value [OF assms(1) i] by (simp add: unsigned_take_bit_eq)
  show ?case
  proof (cases "x < 0")
    case True
    have "signed_take_bit (w - 1) x = x"
      using 2 assms by (intro signed_take_bit_int_eq_self) auto
    then show ?thesis
      using get_type_value [of s CBOR_NINT "of_int i" r w] 2 True v
      by (fastforce simp: read_signed_def write_signed_def i_def)
  next
    case False
    then show ?thesis
      using get_type_value [of s CBOR_UINT "of_int i" r w] 2 v
      by (fastforce simp: read_signed_def write_signed_def i_def)
  qed
next
  case (3 x)
  show ?case
    using head_value [of CBOR_UINT "of_int x" "[]"] head_value [of CBOR_NINT "of_int (- (x + 1))" "[]"]
    by (fastforce simp: write_signed_def)
qed

lemma bool_codec: "cbor_codec R unread ok write_bool (read_bool R) (\<lambda>_. True) True"
proof (rule codec_intro, goal_cases)
  case (1 out x)
  show ?case by (simp add: write_bool_def write_special_eq)
next
  case (2 x s r)
  then show ?case
    using ensure_type_special [of s CBOR_TRUE r] ensure_type_special [of s CBOR_FALSE r]
    by (cases x) (auto simp: read_bool_def write_bool_def)
next
  case (3 x)
  show ?case by (simp add: write_bool_def write_special_eq)
qed

lemma float_codec: "cbor_codec R unread ok write_float (read_float R) (\<lambda>_. True) True"
proof (rule codec_intro, goal_cases)
  case (1 out x)
  show ?case by (simp add: write_float_def write_special_eq om_write_def)
next
  case (2 x s r)
  have "unat x < 256 ^ 4"
    using unsigned_less [of x, where 'a = nat] by simp
  moreover obtain s' where "ensure_type R CBOR_X s = Inr (CBOR_FLOAT, s')" "ok s'"
      "unread s' = be_enc 4 (unat x) @ r"
    using ensure_type_special [of s CBOR_FLOAT "be_enc 4 (unat x) @ r"] 2
    by (auto simp: write_float_def om_write_def)
  ultimately show ?case
    using read_integer_ok [of s' 4 "unat x" r 4] by (auto simp: read_float_def)
next
  case (3 x)
  show ?case by (simp add: write_float_def write_special_eq om_write_def)
qed

lemma double_codec: "cbor_codec R unread ok write_double (read_double R) (\<lambda>_. True) True"
proof (rule codec_intro, goal_cases)
  case (1 out x)
  show ?case by (simp add: write_double_def write_special_eq om_write_def)
next
  case (2 x s r)
  have "unat x < 256 ^ 8"
    using unat_u64_less [of x] by simp
  moreover obtain s' where "ensure_type R CBOR_X s = Inr (CBOR_DOUBLE, s')" "ok s'"
      "unread s' = be_enc 8 (unat x) @ r"
    using ensure_type_special [of s CBOR_DOUBLE "be_enc 8 (unat x) @ r"] 2
    by (auto simp: write_double_def om_write_def)
  ultimately show ?case
    using read_integer_ok [of s' 8 "unat x" r 8] by (auto simp: read_double_def)
next
  case (3 x)
  show ?case by (simp add: write_double_def write_special_eq om_write_def)
qed

lemma of_nat_length_u64: "length xs < 2 ^ 64 \<Longrightarrow> unat (of_nat (length xs) :: u64) = length xs"
  by (rule unat_of_nat_u64)

lemma take_bit_64 [simp]: "take_bit 64 (x :: u64) = x"
  by (simp add: take_bit_word_eq_self)

lemma string_codec:
  "cbor_codec R unread ok write_string (read_string R) (\<lambda>x. length x \<le> unat string_max_size) True"
proof (rule codec_intro, goal_cases)
  case (1 out x)
  show ?case by (simp add: write_string_def write_type_value_eq om_write_def)
next
  case (2 x s r)
  let ?n = "of_nat (length x) :: u64"
  have len: "unat ?n = length x" and le: "\<not> string_max_size < ?n"
    using 2(1) of_nat_length_u64 [of x] by (auto simp: string_max_size_def word_less_nat_alt)
  obtain s1 s2 where "ensure_type R CBOR_STR s = Inr (size_minor ?n, s1)"
      "get_uint R 64 (size_minor ?n) s1 = Inr (?n, s2)" "ok s2" "unread s2 = x @ r"
    using ensure_type_value [of s CBOR_STR ?n "x @ r" 64] 2 by (auto simp: write_string_def om_write_def)
  then show ?case
    using read_any [of s2 x r ?n] len le by (auto simp: read_string_def)
next
  case (3 x)
  show ?case using head_value [of CBOR_STR "of_nat (length x)" x]
    by (auto simp: write_string_def om_write_def)
qed

lemma blob_codec:
  "cbor_codec R unread ok write_blob (read_blob R k)
     (\<lambda>x. 0 < k \<and> length x < 2 ^ 63 \<and> length x mod unat k = 0) True"
proof (rule codec_intro, goal_cases)
  case (1 out x)
  show ?case by (simp add: write_blob_def write_type_value_eq om_write_def)
next
  case (2 x s r)
  let ?n = "of_nat (length x) :: u64"
  have len: "unat ?n = length x"
    using 2(1) of_nat_length_u64 [of x] by simp
  then have m: "\<not> 0 < ?n mod k"
    using 2(1) by (simp add: word_less_nat_alt unat_mod)
  have "unat ?n \<le> unat (0x7FFFFFFFFFFFFFFF :: u64)"
    using len 2(1) by simp
  then have d: "\<not> 0x7FFFFFFFFFFFFFFF div k < ?n div k"
    by (simp add: word_less_nat_alt unat_div div_le_mono not_less)
  obtain s1 s2 where "ensure_type R CBOR_BINARY s = Inr (size_minor ?n, s1)"
      "get_uint R 64 (size_minor ?n) s1 = Inr (?n, s2)" "ok s2" "unread s2 = x @ r"
    using ensure_type_value [of s CBOR_BINARY ?n "x @ r" 64] 2 by (auto simp: write_blob_def om_write_def)
  moreover have "0 < ?n \<longleftrightarrow> x \<noteq> []"
    using len by (simp add: word_less_nat_alt)
  ultimately show ?case
    using read_any [of s2 x r ?n] len m d by (cases "x = []") (auto simp: read_blob_def)
next
  case (3 x)
  show ?case using head_value [of CBOR_BINARY "of_nat (length x)" x]
    by (auto simp: write_blob_def om_write_def)
qed

end

text \<open>Sequences of a codec.\<close>

context cbor_codec
begin

lemma read_n_ok:
  assumes "\<forall>x\<in>set xs. valid x" and "ok s" and "unread s = concat (map (wr []) xs) @ r"
  shows "\<exists>s'. read_n (length xs) rd s = Inr (xs, s') \<and> ok s' \<and> unread s' = r"
  using assms
proof (induction xs arbitrary: s)
  case Nil
  then show ?case by simp
next
  case (Cons x xs)
  then obtain s1 where "rd s = Inr (x, s1)" "ok s1" "unread s1 = concat (map (wr []) xs) @ r"
    using roundtrip [of x s "concat (map (wr []) xs) @ r"] by auto
  with Cons show ?case by fastforce
qed

lemma write_list_eq:
  "write_list wr out xs =
     out @ write_type_value [] CBOR_LIST (of_nat (length xs)) @ concat (map (wr []) xs)"
  unfolding write_list_def by (subst foldl_emit [OF wr_append]) (simp add: write_type_value_eq)

lemma list_codec:
  "cbor_codec R unread ok (write_list wr) (read_list R rd)
     (\<lambda>xs. length xs < 2 ^ 64 \<and> (\<forall>x\<in>set xs. valid x)) True"
proof (rule codec_intro, goal_cases)
  case (1 out xs)
  show ?case by (simp add: write_list_eq)
next
  case (2 xs s r)
  then show ?case
    using ensure_type_value [of s CBOR_LIST "of_nat (length xs)" "concat (map (wr []) xs) @ r" 64]
      read_n_ok [of xs _ r] of_nat_length_u64 [of xs]
    by (fastforce simp: read_list_def write_list_eq)
next
  case (3 xs)
  show ?case using head_value [of CBOR_LIST "of_nat (length xs)" "concat (map (wr []) xs)"]
    by (auto simp: write_list_eq)
qed

lemma vector_codec:
  "cbor_codec R unread ok (write_vector wr) (read_vector R m rd)
     (\<lambda>xs. length xs \<le> unat m \<and> (\<forall>x\<in>set xs. valid x)) True"
proof (rule codec_intro, goal_cases)
  case (1 out xs)
  show ?case using write_list_eq by (simp add: write_list_def write_vector_def)
next
  case (2 xs s r)
  have "length xs < 2 ^ 64"
    using 2(1) unat_u64_less [of m] by simp
  then have len: "unat (of_nat (length xs) :: u64) = length xs"
    by (rule of_nat_length_u64)
  then have "\<not> m < of_nat (length xs)"
    using 2(1) by (simp add: word_less_nat_alt)
  with len 2 show ?case
    using ensure_type_value [of s CBOR_LIST "of_nat (length xs)" "concat (map (wr []) xs) @ r" 64]
      read_n_ok [of xs _ r] write_list_eq
    by (fastforce simp: read_vector_def write_list_def write_vector_def)
next
  case (3 xs)
  show ?case
    using head_value [of CBOR_LIST "of_nat (length xs)" "concat (map (wr []) xs)"] write_list_eq
    by (auto simp: write_list_def write_vector_def)
qed

lemma optional_codec:
  "cbor_codec R unread ok (write_optional wr) (read_optional R rd)
     (\<lambda>v. nonnull \<and> (case v of None \<Rightarrow> True | Some x \<Rightarrow> valid x)) False"
proof (rule codec_intro, goal_cases)
  case (1 out v)
  show ?case
  proof (cases v)
    case None
    then show ?thesis by (simp add: write_optional_def write_special_eq)
  next
    case (Some x)
    have "wr out x = out @ wr [] x"
      by (rule wr_append)
    then show ?thesis by (simp add: Some write_optional_def)
  qed
next
  case (2 v s r)
  show ?case
  proof (cases v)
    case None
    let ?b = "push_bit 5 CBOR_X OR CBOR_NULL"
    have info: "type_info ?b = \<lparr>ti_minor = CBOR_NULL, ti_major = CBOR_X\<rparr>"
      by (rule read_special_info) simp
    then have "drop_bit 5 ?b \<noteq> CBOR_TAG"
      by (simp add: type_info_def)
    then show ?thesis
      using get_type_head [of s ?b r] 2 None info
      by (auto simp: read_optional_def write_optional_def write_special_eq)
  next
    case (Some x)
    then obtain b t where b: "wr [] x = b # t" "drop_bit 5 b \<noteq> CBOR_TAG" "b \<noteq> 0xF6"
      using head [of x] 2 by auto
    obtain s1 s2 where s: "get_type R s = Inr (type_info b, s1)" "rd_unget R s1 = Inr s2" "ok s2"
        "unread s2 = wr [] x @ r"
      using get_type_head [of s b "t @ r"] 2 Some b by (auto simp: write_optional_def)
    have "b \<noteq> push_bit 5 CBOR_X OR CBOR_NULL"
      using b(3) by simp
    moreover have "b = push_bit 5 (drop_bit 5 b) OR take_bit 5 b"
      by (rule bit_word_eqI) (auto simp: bit_simps)
    ultimately have "\<not> (ti_major (type_info b) = CBOR_X \<and> ti_minor (type_info b) = CBOR_NULL)"
      by (auto simp: type_info_def simp del: push_bit_or)
    then show ?thesis
      using s roundtrip [of x s2 r] 2 Some by (fastforce simp: read_optional_def)
  qed
next
  case (3 v)
  then show ?case using head [of "the v"]
    by (cases v) (auto simp: write_optional_def write_special_eq)
qed

end

text \<open>Maps: two codecs on the same reader.\<close>

lemma map_emplace_last:
  assumes "\<forall>p\<in>set m. lt (fst p) k \<and> \<not> lt k (fst p)"
  shows "map_emplace lt k v m = m @ [(k, v)]"
  using assms by (induction lt k v m rule: map_emplace.induct) auto

lemma umap_emplace_last: "k \<notin> fst ` set m \<Longrightarrow> umap_emplace k v m = m @ [(k, v)]"
  by (simp add: umap_emplace_def)

locale cbor_map_codec =
  keys: cbor_codec R unread ok wrk rdk validk nnk + vals: cbor_codec R unread ok wrv rdv validv nnv
  for R :: "'s exact_reader_ops" and unread ok
    and wrk :: "omemstream \<Rightarrow> 'k \<Rightarrow> omemstream" and rdk validk nnk
    and wrv :: "omemstream \<Rightarrow> 'v \<Rightarrow> omemstream" and rdv validv nnv
begin

definition entry_bytes :: "'k \<times> 'v \<Rightarrow> byte list" where
  "entry_bytes p = wrk [] (fst p) @ wrv [] (snd p)"

lemma read_entries_ok:
  assumes "\<forall>p\<in>set es. validk (fst p) \<and> validv (snd p)" and "ok s"
    and "unread s = concat (map entry_bytes es) @ r"
    and "\<And>xs k v ys. es = xs @ (k, v) # ys \<Longrightarrow> emplace k v (m @ xs) = (m @ xs) @ [(k, v)]"
  shows "\<exists>s'. read_entries (length es) emplace rdk rdv m s = Inr (m @ es, s') \<and> ok s' \<and> unread s' = r"
  using assms
proof (induction es arbitrary: m s)
  case Nil
  then show ?case by simp
next
  case (Cons p es)
  obtain k v where p: "p = (k, v)" by force
  obtain s1 where s1: "rdk s = Inr (k, s1)" "ok s1"
      "unread s1 = wrv [] v @ concat (map entry_bytes es) @ r"
    using keys.roundtrip [of k s "wrv [] v @ concat (map entry_bytes es) @ r"] Cons.prems p
    by (auto simp: entry_bytes_def [of "(k, v)"])
  obtain s2 where s2: "rdv s1 = Inr (v, s2)" "ok s2" "unread s2 = concat (map entry_bytes es) @ r"
    using vals.roundtrip [of v s1] s1 Cons.prems p by auto
  have e: "emplace k v m = m @ [(k, v)]"
    using Cons.prems(4) [of "[]" k v es] p by simp
  have "\<exists>s'. read_entries (length es) emplace rdk rdv (m @ [(k, v)]) s2
          = Inr ((m @ [(k, v)]) @ es, s') \<and> ok s' \<and> unread s' = r"
  proof (rule Cons.IH)
    fix xs k' v' ys
    assume "es = xs @ (k', v') # ys"
    then show "emplace k' v' ((m @ [(k, v)]) @ xs) = ((m @ [(k, v)]) @ xs) @ [(k', v')]"
      using Cons.prems(4) [of "(k, v) # xs" k' v' ys] p by simp
  qed (use Cons.prems s2 in auto)
  then show ?case using s1(1) s2(1) e p by simp
qed

lemma write_map_eq:
  "write_map wrk wrv out m =
     out @ write_type_value [] CBOR_MAP (of_nat (length m)) @ concat (map entry_bytes m)"
proof -
  have step: "wrv (wrk out (fst x)) (snd x) = out @ wrv (wrk [] (fst x)) (snd x)" for out x
    using keys.wr_append [of out "fst x"] vals.wr_append [of "out @ wrk [] (fst x)" "snd x"]
      vals.wr_append [of "wrk [] (fst x)" "snd x"] by simp
  have "wrv (wrk [] (fst x)) (snd x) = entry_bytes x" for x
    using vals.wr_append [of "wrk [] (fst x)" "snd x"] by (simp add: entry_bytes_def)
  then show ?thesis
    unfolding write_map_def
    by (subst foldl_emit [where wr = "\<lambda>out x. wrv (wrk out (fst x)) (snd x)", OF step])
      (simp add: write_type_value_eq)
qed

lemma head_map: "\<exists>b t. write_map wrk wrv [] m = b # t \<and> drop_bit 5 b = CBOR_MAP"
  using head_value [of CBOR_MAP "of_nat (length m)" "concat (map entry_bytes m)"]
  by (auto simp: write_map_eq)

lemma map_codec:
  assumes asym: "\<And>a b. lt a b \<Longrightarrow> \<not> lt b a"
  shows "cbor_codec R unread ok (write_map wrk wrv) (read_map R lt rdk rdv)
    (\<lambda>m. length m < 2 ^ 64 \<and> sorted_wrt lt (map fst m) \<and> (\<forall>p\<in>set m. validk (fst p) \<and> validv (snd p))) True"
proof (rule keys.codec_intro, goal_cases)
  case (1 out m)
  show ?case by (simp add: write_map_eq)
next
  case (2 m s r)
  have emp: "map_emplace lt k v xs = xs @ [(k, v)]" if "m = xs @ (k, v) # ys" for xs k v ys
    using 2(1) that asym by (intro map_emplace_last) (auto simp: sorted_wrt_append)
  show ?case
    using keys.ensure_type_value [of s CBOR_MAP "of_nat (length m)" "concat (map entry_bytes m) @ r" 64]
      read_entries_ok [of m _ r "map_emplace lt" "[]"] emp 2 keys.of_nat_length_u64 [of m]
    by (fastforce simp: read_map_def write_map_eq)
next
  case (3 m)
  show ?case using head_map [of m] by auto
qed

lemma unordered_map_codec:
  "cbor_codec R unread ok (write_map wrk wrv) (read_unordered_map R rdk rdv)
    (\<lambda>m. length m < 2 ^ 64 \<and> distinct (map fst m) \<and> (\<forall>p\<in>set m. validk (fst p) \<and> validv (snd p))) True"
proof (rule keys.codec_intro, goal_cases)
  case (1 out m)
  show ?case by (simp add: write_map_eq)
next
  case (2 m s r)
  have emp: "umap_emplace k v xs = xs @ [(k, v)]" if "m = xs @ (k, v) # ys" for xs k v ys
    using 2(1) that by (intro umap_emplace_last) auto
  show ?case
    using keys.ensure_type_value [of s CBOR_MAP "of_nat (length m)" "concat (map entry_bytes m) @ r" 64]
      read_entries_ok [of m _ r umap_emplace "[]"] emp 2 keys.of_nat_length_u64 [of m]
    by (fastforce simp: read_unordered_map_def write_map_eq)
next
  case (3 m)
  show ?case using head_map [of m] by auto
qed

end

text \<open>Tuples: a codec for each element type.\<close>

context exact_reader0
begin

lemma read_each_ok:
  assumes "list_all2 V ts xs" and "\<And>t. t \<in> set ts \<Longrightarrow> cbor_codec R unread ok (W t) (D t) (V t) (N t)"
    and "ok s" and "unread s = concat (map2 (\<lambda>t x. W t [] x) ts xs) @ r"
  shows "\<exists>s'. read_each (map D ts) s = Inr (xs, s') \<and> ok s' \<and> unread s' = r"
  using assms
proof (induction arbitrary: s rule: list_all2_induct)
  case Nil
  then show ?case by simp
next
  case (Cons t ts x xs)
  let ?rest = "concat (map2 (\<lambda>t x. W t [] x) ts xs) @ r"
  have c: "cbor_codec R unread ok (W t) (D t) (V t) (N t)"
    by (rule Cons.prems(1)) simp
  have u: "unread s = W t [] x @ ?rest"
    using Cons.prems(3) by simp
  obtain s1 where s1: "D t s = Inr (x, s1)" "ok s1" "unread s1 = ?rest"
    using cbor_codec.roundtrip [OF c Cons.hyps(1) Cons.prems(2) u] by blast
  then have "\<exists>s'. read_each (map D ts) s1 = Inr (xs, s') \<and> ok s' \<and> unread s' = r"
    by (intro Cons.IH Cons.prems(1)) auto
  with s1(1) show ?case by auto
qed

lemma foldl_apply_emit:
  assumes "\<And>w out. w \<in> set ws \<Longrightarrow> w out = out @ w []"
  shows "foldl (\<lambda>out w. w out) out ws = out @ concat (map (\<lambda>w. w []) ws)"
  using assms
proof (induction ws arbitrary: out)
  case Nil
  then show ?case by simp
next
  case (Cons w ws)
  have "w out = out @ w []"
    by (rule Cons.prems) simp
  with Cons show ?case by simp
qed

lemma write_each_eq:
  assumes "\<forall>t\<in>set ts. cbor_codec R unread ok (W t) (D t) (V t) (N t)"
  shows "foldl (\<lambda>out w. w out) out (map2 (\<lambda>w v out. w out v) (map W ts) xs) =
         out @ concat (map2 (\<lambda>t x. W t [] x) ts xs)"
proof -
  let ?ws = "map2 (\<lambda>w v out. w out v) (map W ts) xs"
  have "w out = out @ w []" if w: "w \<in> set ?ws" for w out
  proof -
    obtain t v where t: "t \<in> set ts" "w = (\<lambda>out. W t out v)"
      using w by (auto simp: zip_map1 dest: set_zip_leftD)
    have "W t out v = out @ W t [] v"
      using t(1) assms by (intro cbor_codec.wr_append) auto
    then show ?thesis using t(2) by simp
  qed
  then show ?thesis
    by (subst foldl_apply_emit) (auto simp: zip_map1 case_prod_unfold comp_def)
qed

lemma write_tuple_append:
  assumes "\<forall>t\<in>set ts. cbor_codec R unread ok (W t) (D t) (V t) (N t)"
  shows "write_tuple (map2 (\<lambda>w v out. w out v) (map W ts) xs) out =
         out @ write_tuple (map2 (\<lambda>w v out. w out v) (map W ts) xs) []"
  unfolding write_tuple_def write_each_eq [OF assms] by (simp add: write_type_value_eq)

lemma tuple_codec:
  assumes codecs: "\<And>t. t \<in> set ts \<Longrightarrow> cbor_codec R unread ok (W t) (D t) (V t) (N t)"
    and len: "length ts < 2 ^ 64" and xs: "list_all2 V ts xs"
  defines "enc \<equiv> \<lambda>out. write_tuple (map2 (\<lambda>w v out. w out v) (map W ts) xs) out"
  shows "ok s \<Longrightarrow> unread s = enc [] @ r \<Longrightarrow>
      \<exists>s'. read_tuple R (map D ts) s = Inr (xs, s') \<and> ok s' \<and> unread s' = r"
    and "\<exists>b t. enc [] = b # t \<and> drop_bit 5 b = CBOR_LIST"
proof -
  have n: "length xs = length ts"
    using xs by (simp add: list_all2_lengthD)
  have enc: "enc out = out @ write_type_value [] CBOR_LIST (of_nat (length ts))
      @ concat (map2 (\<lambda>t x. W t [] x) ts xs)" for out
    using write_each_eq [of ts W D V N _ xs] codecs n
    by (simp add: enc_def write_tuple_def write_type_value_eq)
  show "\<exists>b t. enc [] = b # t \<and> drop_bit 5 b = CBOR_LIST"
    using head_value [of CBOR_LIST] enc by auto
  assume "ok s" "unread s = enc [] @ r"
  then show "\<exists>s'. read_tuple R (map D ts) s = Inr (xs, s') \<and> ok s' \<and> unread s' = r"
    using ensure_type_value [of s CBOR_LIST "of_nat (length ts)" "concat (map2 (\<lambda>t x. W t [] x) ts xs) @ r" 64]
      read_each_ok [OF xs codecs, where r = r] of_nat_length_u64 [OF len] enc
    by (fastforce simp: read_tuple_def)
qed

end

end
