(* ===== verification/Cbor_Props.thy ===== *)
theory Cbor_Props
  imports Cbor_Codec
begin

text \<open>
  The theorems about the CBOR library as a whole: every type of the universe is a codec
  over every reader that keeps the contract, decoding any input over such a reader is
  free of undefined behaviour and terminates, tags are transparent, and the one overload
  that escapes the bounds check.
\<close>

section \<open>Every type is a codec\<close>

lemma cval_less_asym: "cval_less a b \<Longrightarrow> \<not> cval_less b a"
  by (induction a b rule: cval_less.induct) (auto dest: lex_less_asym)

context exact_reader0
begin

lemma universe_codec:
  "cbor_codec R unread ok (cbor_write t) (cbor_read R t) (has_type t) (\<not> is_TOpt t)"
proof (induction t)
  case (TUint w)
  show ?case
    by (rule codec_inject [where con = VUint, OF unsigned_codec [of w]])
      (auto split: cval.splits)
next
  case (TInt w)
  show ?case
    by (rule codec_inject [where con = VInt, OF signed_codec [of w]])
      (auto split: cval.splits)
next
  case TBool
  show ?case
    by (rule codec_inject [where con = VBool, OF bool_codec]) (auto split: cval.splits)
next
  case TFloat
  show ?case
    by (rule codec_inject [where con = VFloat, OF float_codec]) (auto split: cval.splits)
next
  case TDouble
  show ?case
    by (rule codec_inject [where con = VDouble, OF double_codec]) (auto split: cval.splits)
next
  case TString
  show ?case
    by (rule codec_inject [where con = VBytes, OF string_codec]) (auto split: cval.splits)
next
  case (TBlob k)
  show ?case
    by (rule codec_inject [where con = VBytes, OF blob_codec [of k]]) (auto split: cval.splits)
next
  case (TList t)
  show ?case
    by (rule codec_inject [where con = VList, OF cbor_codec.list_codec [OF TList.IH]])
      (auto split: cval.splits)
next
  case (TVector m t)
  show ?case
    by (rule codec_inject [where con = VList, OF cbor_codec.vector_codec [OF TVector.IH, of m]])
      (auto split: cval.splits)
next
  case (TMap kt vt)
  note mc = cbor_map_codec.map_codec [OF cbor_map_codec.intro [OF TMap.IH] cval_less_asym]
  show ?case
    by (rule codec_inject [where con = VMap, OF mc]) (auto split: cval.splits)
next
  case (TUMap kt vt)
  note mc = cbor_map_codec.unordered_map_codec [OF cbor_map_codec.intro [OF TUMap.IH]]
  show ?case
    by (rule codec_inject [where con = VMap, OF mc]) (auto split: cval.splits)
next
  case (TOpt t)
  show ?case
    by (rule codec_inject [where con = VOpt, OF cbor_codec.optional_codec [OF TOpt.IH]])
      (auto split: cval.splits)
next
  case (TTuple ts)
  let ?enc = "\<lambda>xs out. write_tuple (map2 (\<lambda>w v out. w out v) (map cbor_write ts) xs) out"
  have append: "?enc xs out = out @ ?enc xs []" for xs out
    by (rule write_tuple_append [where D = "cbor_read R" and V = has_type and N = "\<lambda>t. \<not> is_TOpt t"])
      (use TTuple.IH in blast)
  show ?case
  proof (rule codec_intro, goal_cases)
    case (1 out v)
    show ?case
    proof (cases v)
      case (VList xs)
      then show ?thesis using append [of xs out] by simp
    qed auto
  next
    case (2 v s r)
    then obtain xs where xs: "v = VList xs" "length ts < 2 ^ 64" "list_all2 has_type ts xs"
      by (auto simp: list_all2_map1 split: cval.splits)
    then show ?case
      using tuple_codec(1) [OF TTuple.IH xs(2,3), of s r] 2 by (auto simp: wrapr_def)
  next
    case (3 v)
    then obtain xs where xs: "v = VList xs" "length ts < 2 ^ 64" "list_all2 has_type ts xs"
      by (auto simp: list_all2_map1 split: cval.splits)
    then show ?case
      using tuple_codec(2) [OF TTuple.IH xs(2,3)] by auto
  qed
qed

end

section \<open>Decoding arbitrary input\<close>

text \<open>
  A reader is safe when, from a state that satisfies the stream's invariant, it neither
  runs into undefined behaviour nor loops, keeps the invariant and never un-reads.
\<close>

definition good_exn :: "exn \<Rightarrow> bool" where
  "good_exn e \<longleftrightarrow> e \<noteq> Undefined \<and> e \<noteq> OutOfFuel"

lemma good_exn_simps [simp]:
  "good_exn (InvalidArgument m)" "good_exn (RuntimeError m)" "good_exn LengthError"
  "good_exn EndOfBuffer" "good_exn (unexpected_major b)" "good_exn (unexpected_special b)"
  by (simp_all add: good_exn_def unexpected_major_def unexpected_special_def)

definition safe_at :: "('s \<Rightarrow> byte list) \<Rightarrow> ('s \<Rightarrow> bool) \<Rightarrow> 's \<Rightarrow> ('a \<times> 's) result \<Rightarrow> bool" where
  "safe_at unread ok s m \<longleftrightarrow>
     (case m of Inl e \<Rightarrow> good_exn e
      | Inr (x, s') \<Rightarrow> ok s' \<and> length (unread s') \<le> length (unread s))"

definition safe_reader :: "('s \<Rightarrow> byte list) \<Rightarrow> ('s \<Rightarrow> bool) \<Rightarrow> ('s \<Rightarrow> ('a \<times> 's) result) \<Rightarrow> bool" where
  "safe_reader unread ok rd \<longleftrightarrow> (\<forall>s. ok s \<longrightarrow> safe_at unread ok s (rd s))"

named_theorems safe_intro

lemma safe_return [safe_intro]: "safe_reader unread ok (\<lambda>s. Inr (x, s))"
  by (simp add: safe_reader_def safe_at_def)

lemma safe_throw [safe_intro]: "good_exn e \<Longrightarrow> safe_reader unread ok (\<lambda>s. Inl e)"
  by (simp add: safe_reader_def safe_at_def)

lemma safe_if [safe_intro]:
  "(c \<Longrightarrow> safe_reader unread ok f) \<Longrightarrow> (\<not> c \<Longrightarrow> safe_reader unread ok g) \<Longrightarrow>
   safe_reader unread ok (\<lambda>s. if c then f s else g s)"
  by (cases c) simp_all

lemma safe_cong: "safe_reader unread ok g \<Longrightarrow> (\<And>s. f s = g s) \<Longrightarrow> safe_reader unread ok f"
  by (simp add: safe_reader_def)

lemma safe_bind [safe_intro]:
  assumes "safe_reader unread ok rd" and "\<And>x. safe_reader unread ok (f x)"
  shows "safe_reader unread ok (\<lambda>s. bindr (rd s) (\<lambda>(x, s). f x s))"
  unfolding safe_reader_def
proof (intro allI impI)
  fix s
  assume s: "ok s"
  show "safe_at unread ok s (bindr (rd s) (\<lambda>(x, s). f x s))"
  proof (cases "rd s")
    case (Inl e)
    then show ?thesis using assms(1) s by (auto simp: safe_reader_def safe_at_def)
  next
    case (Inr p)
    obtain x s' where p: "p = (x, s')" by force
    have "ok s'" and le: "length (unread s') \<le> length (unread s)"
      using assms(1) s Inr p by (fastforce simp: safe_reader_def safe_at_def)+
    then have "safe_at unread ok s' (f x s')"
      using assms(2) by (simp add: safe_reader_def)
    with le show ?thesis
      by (auto simp: Inr p safe_at_def split: sum.splits)
  qed
qed

lemma safe_wrapr [safe_intro]:
  "safe_reader unread ok rd \<Longrightarrow> safe_reader unread ok (\<lambda>s. wrapr f (rd s))"
  unfolding wrapr_def by (intro safe_intro)

lemma safe_read_n [safe_intro]:
  assumes "safe_reader unread ok rd"
  shows "safe_reader unread ok (read_n n rd)"
proof (induction n)
  case 0
  show ?case by (rule safe_cong [OF safe_return]) (rule read_n.simps)
next
  case (Suc n)
  then have "safe_reader unread ok
      (\<lambda>s. bindr (rd s) (\<lambda>(x, s). bindr (read_n n rd s) (\<lambda>(xs, s). Inr (x # xs, s))))"
    using assms by (intro safe_bind safe_return)
  then show ?case by (rule safe_cong) (rule read_n.simps)
qed

lemma safe_read_entries [safe_intro]:
  assumes "safe_reader unread ok rdk" and "safe_reader unread ok rdv"
  shows "safe_reader unread ok (read_entries n emp rdk rdv m)"
proof (induction n arbitrary: m)
  case 0
  show ?case by (rule safe_cong [OF safe_return]) (rule read_entries.simps)
next
  case (Suc n)
  then have "safe_reader unread ok (\<lambda>s. bindr (rdk s) (\<lambda>(k, s). bindr (rdv s) (\<lambda>(v, s).
      read_entries n emp rdk rdv (emp k v m) s)))"
    using assms by (intro safe_bind)
  then show ?case by (rule safe_cong) (rule read_entries.simps)
qed

lemma safe_read_each [safe_intro]:
  assumes "\<And>rd. rd \<in> set rds \<Longrightarrow> safe_reader unread ok rd"
  shows "safe_reader unread ok (read_each rds)"
  using assms
proof (induction rds)
  case Nil
  show ?case by (rule safe_cong [OF safe_return]) (rule read_each.simps)
next
  case (Cons rd rds)
  then have "safe_reader unread ok
      (\<lambda>s. bindr (rd s) (\<lambda>(x, s). bindr (read_each rds s) (\<lambda>(xs, s). Inr (x # xs, s))))"
    by (intro safe_bind safe_return) auto
  then show ?case by (rule safe_cong) (rule read_each.simps)
qed

context exact_reader0
begin

lemma read_cases:
  assumes "ok s" and "unat n < 2 ^ 63"
  obtains (short) e where "rd_read R n s = Inl e" "good_exn e"
    | (full) s' where "rd_read R n s = Inr (take (unat n) (unread s), s')" "ok s'"
        "unread s' = drop (unat n) (unread s)" "unat n \<le> length (unread s)"
proof (cases "unat n \<le> length (unread s)")
  case True
  then show ?thesis
    using read_any [OF assms(1), of "take (unat n) (unread s)" "drop (unat n) (unread s)" n] full
    by auto
next
  case False
  then show ?thesis
    using read_short [OF assms] short by (auto simp: good_exn_def)
qed

lemma safe_rd_read [safe_intro]:
  assumes "unat n < 2 ^ 63"
  shows "safe_reader unread ok (rd_read R n)"
  unfolding safe_reader_def
proof (intro allI impI)
  fix s
  assume "ok s"
  then show "safe_at unread ok s (rd_read R n s)"
    using assms by (rule read_cases) (auto simp: safe_at_def)
qed

lemma safe_read_integer [safe_intro]: "unat n < 2 ^ 63 \<Longrightarrow> safe_reader unread ok (read_integer R n)"
  unfolding read_integer_def by (intro safe_intro)

lemma safe_get_uint [safe_intro]: "safe_reader unread ok (get_uint R w m)"
  unfolding get_uint_def by (intro safe_intro) simp_all

text \<open>With more fuel than unread bytes the tag loop ends, in a state where unget works.\<close>

lemma get_type_loop_ok:
  assumes "ok s" and "length (unread s) < fuel"
  shows "(\<exists>e. get_type_loop R fuel s = Inl e \<and> good_exn e) \<or>
    (\<exists>info s' s''. get_type_loop R fuel s = Inr (info, s') \<and> ok s' \<and> length (unread s') \<le> length (unread s)
       \<and> rd_unget R s' = Inr s'' \<and> ok s'' \<and> length (unread s'') \<le> length (unread s))"
  using assms
proof (induction fuel arbitrary: s)
  case 0
  then show ?case by simp
next
  case (Suc fuel)
  show ?case
  proof (rule read_cases [OF Suc.prems(1), of 1])
    fix s1
    assume s1: "rd_read R 1 s = Inr (take (unat (1::u64)) (unread s), s1)" "ok s1"
      "unread s1 = drop (unat (1::u64)) (unread s)" "unat (1::u64) \<le> length (unread s)"
    then obtain b r where b: "unread s = b # r" by (cases "unread s") auto
    then have r: "rd_read R 1 s = Inr ([b], s1)" "unread s1 = r"
      using s1 by auto
    show ?thesis
    proof (cases "drop_bit 5 b = CBOR_TAG")
      case False
      then show ?thesis
        using unget_last [OF Suc.prems(1) _ r(1)] r s1(2) b by (auto simp: type_info_def Let_def)
    next
      case True
      have safe: "safe_at unread ok s1 (get_uint R 64 (take_bit 5 b) s1)"
        using safe_get_uint s1(2) by (auto simp: safe_reader_def)
      show ?thesis
      proof (cases "get_uint R 64 (take_bit 5 b) s1")
        case (Inl e)
        then show ?thesis using safe True r by (auto simp: safe_at_def type_info_def Let_def)
      next
        case (Inr p)
        then obtain v s2 where p: "p = (v, s2)" "ok s2" "length (unread s2) \<le> length r"
          using safe r by (auto simp: safe_at_def)
        then have "length (unread s2) < fuel"
          using Suc.prems(2) b by simp
        from Suc.IH [OF p(2) this] show ?thesis
          using True r p Inr b by (fastforce simp: type_info_def Let_def)
      qed
    qed
  qed (use Suc.prems in auto)
qed

lemma get_type_ok:
  assumes "ok s"
  shows "(\<exists>e. get_type R s = Inl e \<and> good_exn e) \<or>
    (\<exists>info s' s''. get_type R s = Inr (info, s') \<and> ok s' \<and> length (unread s') \<le> length (unread s)
       \<and> rd_unget R s' = Inr s'' \<and> ok s'' \<and> length (unread s'') \<le> length (unread s))"
  unfolding get_type_def
  using left_bound [OF assms] by (intro get_type_loop_ok assms) simp

lemma safe_get_type [safe_intro]: "safe_reader unread ok (get_type R)"
  unfolding safe_reader_def using get_type_ok by (fastforce simp: safe_at_def)

lemma safe_ensure_type [safe_intro]: "safe_reader unread ok (ensure_type R m)"
  unfolding ensure_type_def by (intro safe_intro) simp_all

lemma safe_read_blob [safe_intro]: "safe_reader unread ok (read_blob R k)"
proof -
  have "unat len < 2 ^ 63" if "\<not> 0 < len mod k" "\<not> 0x7FFFFFFFFFFFFFFF div k < len div k" for len :: u64
  proof -
    have "unat len mod unat k = 0" and le: "unat len div unat k \<le> 0x7FFFFFFFFFFFFFFF div unat k"
      using that by (auto simp: word_less_nat_alt unat_mod unat_div not_less)
    then have "unat len = unat len div unat k * unat k"
      by auto
    also have "\<dots> \<le> 0x7FFFFFFFFFFFFFFF div unat k * unat k"
      using le by (rule mult_le_mono1)
    also have "\<dots> \<le> 0x7FFFFFFFFFFFFFFF"
      by (rule div_times_less_eq_dividend)
    finally show ?thesis by simp
  qed
  then show ?thesis
    unfolding read_blob_def by (intro safe_intro) (auto simp: good_exn_def)
qed

lemma safe_read_optional [safe_intro]:
  assumes "safe_reader unread ok rd"
  shows "safe_reader unread ok (read_optional R rd)"
  unfolding safe_reader_def
proof (intro allI impI)
  fix s
  assume "ok s"
  from get_type_ok [OF this] show "safe_at unread ok s (read_optional R rd s)"
  proof (elim disjE exE conjE)
    fix info s1 s2
    assume g: "get_type R s = Inr (info, s1)" "rd_unget R s1 = Inr s2" "ok s2" "ok s1"
      "length (unread s1) \<le> length (unread s)" "length (unread s2) \<le> length (unread s)"
    have "safe_at unread ok s2 (rd s2)"
      using assms g(3) by (simp add: safe_reader_def)
    with g show ?thesis
      by (auto simp: read_optional_def safe_at_def bindr_def split: sum.splits)
  qed (simp add: read_optional_def safe_at_def)
qed

lemma universe_safe: "safe_reader unread ok (cbor_read R t)"
proof (induction t)
  case TString
  have "unat len < 2 ^ 63" if "\<not> string_max_size < len" for len :: u64
    using that by (simp add: string_max_size_def word_less_nat_alt)
  then show ?case
    by (auto simp: read_string_def intro!: safe_intro)
qed (auto simp: read_unsigned_def read_signed_def read_bool_def read_float_def read_double_def
    read_list_def read_vector_def read_map_def read_unordered_map_def read_tuple_def
    intro!: safe_intro)

end

section \<open>Tags are transparent\<close>

context exact_reader0
begin

lemma get_type_loop_fuel:
  assumes "ok s" and "length (unread s) < f" and "length (unread s) < f'"
  shows "get_type_loop R f s = get_type_loop R f' s"
  using assms
proof (induction f arbitrary: f' s)
  case 0
  then show ?case by simp
next
  case (Suc f)
  obtain g where g: "f' = Suc g"
    using Suc.prems(3) by (cases f') auto
  show ?case
  proof (rule read_cases [OF Suc.prems(1), of 1])
    fix e
    assume "rd_read R 1 s = Inl e"
    then show ?thesis by (simp add: g)
  next
    fix s1
    assume s1: "rd_read R 1 s = Inr (take (unat (1::u64)) (unread s), s1)" "ok s1"
      "unread s1 = drop (unat (1::u64)) (unread s)" "unat (1::u64) \<le> length (unread s)"
    then obtain b r where b: "unread s = b # r" "rd_read R 1 s = Inr ([b], s1)" "unread s1 = r"
      by (cases "unread s") auto
    have safe: "safe_at unread ok s1 (get_uint R 64 (take_bit 5 b) s1)"
      using safe_get_uint s1(2) by (auto simp: safe_reader_def)
    show ?thesis
    proof (cases "get_uint R 64 (take_bit 5 b) s1")
      case (Inl e)
      then show ?thesis using b g by (simp add: type_info_def Let_def)
    next
      case (Inr p)
      then obtain v s2 where p: "p = (v, s2)" "ok s2" "length (unread s2) \<le> length r"
        using safe b by (auto simp: safe_at_def)
      have "get_type_loop R f s2 = get_type_loop R g s2"
        using p Suc.prems b g by (intro Suc.IH) auto
      then show ?thesis using b g p Inr by (simp add: type_info_def Let_def)
    qed
  qed simp
qed

lemma get_type_skips_tag:
  assumes "ok s" and "unread s = write_tag [] tag @ r"
  shows "\<exists>s'. ok s' \<and> unread s' = r \<and> get_type R s = get_type R s'"
proof -
  let ?b = "push_bit 5 CBOR_TAG OR size_minor tag"
  have info: "type_info ?b = \<lparr>ti_minor = size_minor tag, ti_major = CBOR_TAG\<rparr>"
    by (intro type_info_header size_minor_less) simp
  have u: "unread s = [?b] @ size_bytes tag @ r"
    using assms(2) by (simp add: write_tag_def write_type_value_eq)
  obtain s1 where s1: "rd_read R 1 s = Inr ([?b], s1)" "ok s1" "unread s1 = size_bytes tag @ r"
    using read_bytes [OF assms(1) u, of 1] by auto
  obtain s2 where s2: "get_uint R 64 (size_minor tag) s1 = Inr (tag, s2)" "ok s2" "unread s2 = r"
    using get_uint_ok [OF s1(2,3), of 64] by auto
  have "get_type R s = get_type_loop R (rd_left R s) s2"
    using s1(1) s2(1) info by (simp add: get_type_def Let_def)
  also have "\<dots> = get_type R s2"
    unfolding get_type_def
    using left_bound [OF assms(1)] left_bound [OF s2(2)] u s2(3)
    by (intro get_type_loop_fuel s2(2)) auto
  finally show ?thesis using s2 by blast
qed

lemma cbor_read_cong: "get_type R s = get_type R s' \<Longrightarrow> cbor_read R t s = cbor_read R t s'"
  by (cases t) (simp_all add: read_unsigned_def read_signed_def read_bool_def read_float_def
      read_double_def read_string_def read_blob_def read_list_def read_vector_def read_map_def
      read_unordered_map_def read_optional_def read_tuple_def ensure_type_def)

lemma tagged_roundtrip:
  assumes "has_type t v" and "ok s" and "unread s = write_tag [] tag @ cbor_write t [] v @ r"
  shows "\<exists>s'. cbor_read R t s = Inr (v, s') \<and> ok s' \<and> unread s' = r"
proof -
  obtain s1 where s1: "ok s1" "unread s1 = cbor_write t [] v @ r" "get_type R s = get_type R s1"
    using get_type_skips_tag [OF assms(2,3)] by blast
  then show ?thesis
    using cbor_codec.roundtrip [OF universe_codec assms(1) s1(1,2)] cbor_read_cong by metis
qed

end

section \<open>The in-memory reader\<close>

interpretation mem0: exact_reader0 mem_reader im_unread im_ok
proof unfold_locales
  fix s
  assume "im_ok s"
  then show "\<exists>s'. rd_read mem_reader 0 s = Inr ([], s') \<and> im_ok s' \<and> im_unread s' = im_unread s"
    using im_read_fits [of s 0] by (auto simp: mem_reader_def)
qed

interpretation mem_value: cbor_codec mem_reader im_unread im_ok
  "cbor_write t" "cbor_read mem_reader t" "has_type t" "\<not> is_TOpt t" for t
  by (rule mem0.universe_codec)

interpretation mem_map: cbor_map_codec mem_reader im_unread im_ok
  "cbor_write kt" "cbor_read mem_reader kt" "has_type kt" "\<not> is_TOpt kt"
  "cbor_write vt" "cbor_read mem_reader vt" "has_type vt" "\<not> is_TOpt vt" for kt vt
  by (intro cbor_map_codec.intro mem0.universe_codec)

lemma from_string_ok:
  assumes "length str < 2 ^ 63"
    and "\<exists>s'. cbor_read mem_reader t (im_open str) = Inr (v, s') \<and> im_ok s' \<and> im_unread s' = r"
  shows "cbor_from_string t str = Inr v"
  using assms(2) by (auto simp: cbor_from_string_def)

section \<open>Properties\<close>



text \<open>
  C25: decoding arbitrary bytes as any of these types terminates and never leaves the buffer:
  the outcome is a value or one of the library's exceptions.
\<close>

theorem cbor_decode_safe:
  assumes "length str < 2 ^ 63"
  shows "cbor_from_string t str \<noteq> Inl Undefined \<and> cbor_from_string t str \<noteq> Inl OutOfFuel"
  using mem0.universe_safe [of t] im_ok_open [OF assms]
  by (auto simp: safe_reader_def safe_at_def good_exn_def cbor_from_string_def bindr_iffs
      split: sum.splits)

theorem cbor_decode_safe_witness:
  "cbor_from_string (TList TString) [0x9B, 0xFF, 0xFF, 0xFF, 0xFF, 0xFF, 0xFF, 0xFF, 0xFF] \<noteq> Inl Undefined"
  using cbor_decode_safe by simp

text \<open>
  A semantic tag in front of an encoded value does not change what is decoded.
\<close>

theorem cbor_tag_transparent:
  assumes "has_type t v" and "length (write_tag [] tag @ cbor_to_string t v) < 2 ^ 63"
  shows "cbor_from_string t (write_tag [] tag @ cbor_to_string t v) = Inr v"
proof (rule from_string_ok [OF assms(2)])
  have "im_unread (im_open (write_tag [] tag @ cbor_to_string t v)) =
        write_tag [] tag @ cbor_write t [] v @ []"
    by (simp add: cbor_to_string_def)
  then show "\<exists>s'. cbor_read mem_reader t (im_open (write_tag [] tag @ cbor_to_string t v)) = Inr (v, s')
      \<and> im_ok s' \<and> im_unread s' = []"
    by (rule mem0.tagged_roundtrip [OF assms(1) im_ok_open [OF assms(2)]])
qed

theorem cbor_tag_transparent_witness:
  "cbor_from_string (TOpt (TUint 16)) (write_tag [] 1000 @ cbor_to_string (TOpt (TUint 16)) (VOpt (Some (VUint 300))))
   = Inr (VOpt (Some (VUint 300)))"
  by (rule cbor_tag_transparent)
    (simp_all add: cbor_to_string_def write_tag_def write_optional_def write_unsigned_def
      write_type_value_eq size_bytes_def)

text \<open>
  The \<open>string_view\<close> overload escapes that guarantee: the nine-byte header of a string
  whose length is close enough to \<open>2^64\<close> passes the bounds check, the read returns whatever
  follows, and the stream moves back into the header.
\<close>

theorem cbor_string_view_overflow:
  assumes "2 ^ 64 - 9 \<le> unat len" and "length r < 2 ^ 62"
  shows "\<exists>s'. read_string_view (im_open (write_type_value [] CBOR_STR len @ r)) = Inr (r, s')
           \<and> m_Offset s' < 9"
proof -
  let ?d = "write_type_value [] CBOR_STR len @ r"
  have big: "0xFFFFFFFF < len"
    using assms(1) by (simp add: word_less_nat_alt)
  then have d: "?d = (0x7B # be_enc 8 (unat len)) @ r"
    by (auto simp: write_type_value_eq size_minor_def size_bytes_def word_less_nat_alt word_le_nat_alt)
  define s1 where "s1 = (im_open ?d)\<lparr>m_Offset := 1\<rparr>"
  define s2 where "s2 = s1\<lparr>m_Offset := 9\<rparr>"
  have ok: "im_ok (im_open ?d)" and fit: "unat (1 :: u64) \<le> length (im_unread (im_open ?d))"
    using assms(2) d by (auto intro: im_ok_open)
  have off: "m_Offset (im_open ?d) + 1 = 1" "m_Offset s1 + 8 = 9"
    by (simp_all add: im_open_def s1_def)
  have r1: "im_read 1 (im_open ?d) = Inr ([0x7B], s1)" "im_ok s1"
    "im_unread s1 = be_enc 8 (unat len) @ r"
    using im_read_fits [OF ok fit] d unfolding off(1) s1_def [symmetric] by auto
  have fit2: "unat (8 :: u64) \<le> length (im_unread s1)"
    by (simp add: r1(3))
  have r2: "im_read 8 s1 = Inr (be_enc 8 (unat len), s2)" "im_ok s2" "im_unread s2 = r"
    using im_read_fits [OF r1(2) fit2] unfolding off(2) s2_def [symmetric] r1(3) by auto
  have off_s2: "m_Offset s2 = 9"
    by (simp add: s2_def)
  have "get_type mem_reader (im_open ?d) = Inr (\<lparr>ti_minor = 27, ti_major = 3\<rparr>, s1)"
    using r1(1) by (simp add: get_type_def mem_reader_def type_info_def)
  moreover have "get_uint mem_reader 64 27 s1 = Inr (len, s2)"
    using r2(1) unat_u64_less [of len] by (simp add: get_uint_def read_integer_def mem_reader_def)
  moreover have "2 ^ 64 \<le> unat len + unat (m_Offset s2)"
    using assms(1) by (simp add: s2_def)
  ultimately show ?thesis
    using im_substring_wrap [OF r2(2), of len] r2(3) off_s2
    by (auto simp: read_string_view_def ensure_type_def)
qed

theorem cbor_string_view_overflow_witness:
  "\<exists>s'. read_string_view (im_open (write_type_value [] CBOR_STR 0xFFFFFFFFFFFFFFFF @ [1, 2])) = Inr ([1, 2], s')
        \<and> m_Offset s' < 9"
  by (rule cbor_string_view_overflow) simp_all

end
