(* ===== verification/File_IO.thy ===== *)
theory File_IO
  imports Streams
begin

text \<open>
  The readers and writers of \<open>file/Reader.hpp\<close> and \<open>file/Writer.hpp\<close>. The system calls are
  parameters (the record \<open>os_ops\<close>); what is relied on of \<open>read(2)\<close> is the locale
  \<open>posix_file\<close>. \<open>BufReader\<close> over any source that delivers data in pieces returns exactly
  the requested bytes (locale \<open>source_reader\<close> gives \<open>full_reader\<close>), and \<open>ExactReader\<close> over a
  reader of that kind meets the contract \<open>exact_reader\<close> of the wire formats. Positions and
  lengths are natural numbers: they index buffers in memory and no sum of them wraps.
\<close>

section \<open>System calls\<close>

record 'k os_ops =
  os_open :: "string \<Rightarrow> 'k \<Rightarrow> int \<times> 'k"
  os_fstat :: "int \<Rightarrow> 'k \<Rightarrow> (int \<times> nat) \<times> 'k"
  os_fadvise :: "int \<Rightarrow> nat \<Rightarrow> 'k \<Rightarrow> int \<times> 'k"
  os_read :: "int \<Rightarrow> nat \<Rightarrow> 'k \<Rightarrow> byte list option \<times> 'k"
  os_write :: "int \<Rightarrow> byte list \<Rightarrow> 'k \<Rightarrow> int \<times> 'k"
  os_fsync :: "int \<Rightarrow> 'k \<Rightarrow> int \<times> 'k"
  os_close :: "int \<Rightarrow> 'k \<Rightarrow> int \<times> 'k"

section \<open>FileReader\<close>

record 'k file_reader =
  fr_FD :: int
  fr_EOF :: bool
  fr_os :: 'k

definition fr_close :: "'k os_ops \<Rightarrow> 'k file_reader \<Rightarrow> unit result \<times> 'k file_reader" where
  "fr_close OS s =
     (if fr_FD s = -1 then (Inr (), s)
      else let (rc, k) = os_close OS (fr_FD s) (fr_os s);
               s' = s\<lparr>fr_FD := -1, fr_os := k\<rparr>
           in if rc = -1 then (Inl (ErrnoError ''FileReader: fail to close''), s') else (Inr (), s'))"

text \<open>The guard of the constructor runs \<open>close\<close> in a destructor that may not throw.\<close>

definition fr_guard :: "'k os_ops \<Rightarrow> exn \<Rightarrow> 'k file_reader \<Rightarrow> exn \<times> 'k" where
  "fr_guard OS e s = (case fr_close OS s of (Inl _, s') \<Rightarrow> (Terminate, fr_os s')
                                        | (Inr _, s') \<Rightarrow> (e, fr_os s'))"

definition fr_new :: "'k os_ops \<Rightarrow> string \<Rightarrow> 'k \<Rightarrow> (exn \<times> 'k) + 'k file_reader" where
  "fr_new OS name k =
     (let (fd, k) = os_open OS name k; s = \<lparr>fr_FD = fd, fr_EOF = False, fr_os = k\<rparr> in
      if fd = -1 then Inl (fr_guard OS (ErrnoError (''FileReader: fail to open: '' @ name)) s)
      else let ((rc, size), k) = os_fstat OS fd k; s = s\<lparr>fr_os := k\<rparr> in
      if rc \<noteq> 0 then Inl (fr_guard OS (ErrnoError (''FileReader: fail to stat: '' @ name)) s)
      else let (rc, k) = os_fadvise OS fd size k; s = s\<lparr>fr_os := k\<rparr> in
      if rc \<noteq> 0 then Inl (fr_guard OS (ErrnoError (''FileReader: fail to fadvise: '' @ name)) s)
      else Inr s)"

definition fr_read :: "'k os_ops \<Rightarrow> nat \<Rightarrow> 'k file_reader \<Rightarrow> (byte list \<times> 'k file_reader) result" where
  "fr_read OS aSize s = (case os_read OS (fr_FD s) aSize (fr_os s) of
       (None, k) \<Rightarrow> Inl (ErrnoError ''FileReader: fail to read'')
     | (Some bs, k) \<Rightarrow> Inr (bs, s\<lparr>fr_EOF := (fr_EOF s \<or> bs = []), fr_os := k\<rparr>))"

section \<open>BufReader\<close>

text \<open>\<open>File::IReader\<close> as the record of its virtual functions.\<close>

record 's reader_ops =
  r_read :: "nat \<Rightarrow> 's \<Rightarrow> (byte list \<times> 's) result"
  r_eof :: "'s \<Rightarrow> bool"

definition file_reader_ops :: "'k os_ops \<Rightarrow> 'k file_reader reader_ops" where
  "file_reader_ops OS = \<lparr>r_read = fr_read OS, r_eof = fr_EOF\<rparr>"

record 's buf_reader =
  br_Reader :: 's
  br_Buffer :: "byte list"
  br_Pos :: nat
  br_End :: nat

definition br_new :: "'s \<Rightarrow> nat \<Rightarrow> 's buf_reader" where
  "br_new r aLen = \<lparr>br_Reader = r, br_Buffer = replicate aLen 32, br_Pos = 0, br_End = 0\<rparr>"

definition br_avail :: "'s buf_reader \<Rightarrow> nat" where
  "br_avail s = br_End s - br_Pos s"

definition br_eof :: "'s reader_ops \<Rightarrow> 's buf_reader \<Rightarrow> bool" where
  "br_eof RD s \<longleftrightarrow> br_avail s = 0 \<and> r_eof RD (br_Reader s)"

definition br_refill :: "'s reader_ops \<Rightarrow> 's buf_reader \<Rightarrow> 's buf_reader result" where
  "br_refill RD s =
     bindr (r_read RD (length (br_Buffer s)) (br_Reader s)) (\<lambda>(bs, r).
       Inr \<lparr>br_Reader = r, br_Buffer = bs @ drop (length bs) (br_Buffer s),
            br_Pos = 0, br_End = length bs\<rparr>)"

text \<open>
  The loop of \<open>read\<close>; \<open>acc\<close> is what has been copied to the caller, so its length is
  \<open>sUsed\<close>.
\<close>

fun br_loop :: "'s reader_ops \<Rightarrow> nat \<Rightarrow> nat \<Rightarrow> byte list \<Rightarrow> 's buf_reader
    \<Rightarrow> (byte list \<times> 's buf_reader) result" where
  "br_loop RD fuel aLen acc s =
     (if \<not> length acc < aLen then Inr (acc, s)
      else case fuel of 0 \<Rightarrow> Inl OutOfFuel
      | Suc f \<Rightarrow>
          bindr (if br_avail s = 0 then br_refill RD s else Inr s) (\<lambda>s.
            let sMinSize = min (aLen - length acc) (br_avail s);
                acc = acc @ take sMinSize (drop (br_Pos s) (br_Buffer s));
                s = s\<lparr>br_Pos := br_Pos s + sMinSize\<rparr>
            in if br_eof RD s then Inr (acc, s) else br_loop RD f aLen acc s))"

declare br_loop.simps [simp del]

definition br_read :: "'s reader_ops \<Rightarrow> nat \<Rightarrow> 's buf_reader \<Rightarrow> (byte list \<times> 's buf_reader) result" where
  "br_read RD aLen s = (if br_eof RD s then Inr ([], s) else br_loop RD (aLen + 1) aLen [] s)"

definition buf_reader_ops :: "'s reader_ops \<Rightarrow> 's buf_reader reader_ops" where
  "buf_reader_ops RD = \<lparr>r_read = br_read RD, r_eof = br_eof RD\<rparr>"

section \<open>ExactReader\<close>

record 's exact_rd =
  ex_Parent :: 's
  ex_Unget :: bool
  ex_Last :: byte

definition ex_new :: "'s \<Rightarrow> 's exact_rd" where
  "ex_new p = \<lparr>ex_Parent = p, ex_Unget = False, ex_Last = 0\<rparr>"

definition ex_unget :: "'s exact_rd \<Rightarrow> 's exact_rd result" where
  "ex_unget s = (if ex_Unget s then Inl (RuntimeError ''unget already called'')
                 else Inr (s\<lparr>ex_Unget := True\<rparr>))"

text \<open>
  The part of \<open>read\<close> after the pushed back byte: \<open>m_Last\<close> is taken from the last byte of
  the copy, which is outside the caller's buffer when nothing was copied.
\<close>

definition ex_read_parent :: "'s reader_ops \<Rightarrow> nat \<Rightarrow> 's exact_rd
    \<Rightarrow> (byte list \<times> nat \<times> 's exact_rd) result" where
  "ex_read_parent RD aSize s =
     bindr (r_read RD aSize (ex_Parent s)) (\<lambda>(bs, p).
       if length bs < aSize then Inl (InvalidArgument ''ExactReader: eof'')
       else if bs = [] then Inl Undefined
       else Inr (bs, length bs, s\<lparr>ex_Parent := p, ex_Last := last bs\<rparr>))"

text \<open>The bytes stored at \<open>aPtr\<close>, the returned size and the state after \<open>read\<close>.\<close>

definition ex_read :: "'s reader_ops \<Rightarrow> nat \<Rightarrow> 's exact_rd
    \<Rightarrow> (byte list \<times> nat \<times> 's exact_rd) result" where
  "ex_read RD aSize s =
     (if ex_Unget s then
        if aSize = 0 then Inl Undefined
        else if aSize = 1 then Inr ([ex_Last s], 1, s\<lparr>ex_Unget := False\<rparr>)
        else bindr (ex_read_parent RD (aSize - 1) (s\<lparr>ex_Unget := False, ex_Last := 0\<rparr>)) (\<lambda>(bs, n, s').
               Inr (ex_Last s # bs, n, s'))
      else ex_read_parent RD aSize s)"

definition exact_reader_of :: "'s reader_ops \<Rightarrow> ('s \<Rightarrow> nat) \<Rightarrow> 's exact_rd exact_reader_ops" where
  "exact_reader_of RD bound =
     \<lparr>rd_read = (\<lambda>n s. bindr (ex_read RD (unat n) s) (\<lambda>(bs, _, s'). Inr (bs, s'))),
      rd_unget = ex_unget,
      rd_left = (\<lambda>s. Suc (bound (ex_Parent s)))\<rparr>"

section \<open>FileWriter\<close>

record 'k file_writer =
  fw_FD :: int
  fw_os :: 'k

definition fw_new :: "'k os_ops \<Rightarrow> string \<Rightarrow> 'k \<Rightarrow> 'k file_writer result" where
  "fw_new OS name k = (let (fd, k) = os_open OS name k in
     if fd = -1 then Inl (ErrnoError (''FileWriter: fail to open: '' @ name))
     else Inr \<lparr>fw_FD = fd, fw_os = k\<rparr>)"

definition fw_write :: "'k os_ops \<Rightarrow> byte list \<Rightarrow> 'k file_writer \<Rightarrow> 'k file_writer result" where
  "fw_write OS bs s = (let (rc, k) = os_write OS (fw_FD s) bs (fw_os s) in
     if rc = -1 then Inl (ErrnoError ''FileWriter: fail to write'')
     else if rc \<noteq> int (length bs) then Inl (ErrnoError ''FileWriter: partial write'')
     else Inr (s\<lparr>fw_os := k\<rparr>))"

definition fw_flush :: "'k file_writer \<Rightarrow> 'k file_writer result" where
  "fw_flush s = Inr s"

definition fw_sync :: "'k os_ops \<Rightarrow> 'k file_writer \<Rightarrow> 'k file_writer result" where
  "fw_sync OS s = (let (rc, k) = os_fsync OS (fw_FD s) (fw_os s) in
     if rc = -1 then Inl (ErrnoError ''FileWriter: fail to sync'') else Inr (s\<lparr>fw_os := k\<rparr>))"

definition fw_close :: "'k os_ops \<Rightarrow> 'k file_writer \<Rightarrow> 'k file_writer result" where
  "fw_close OS s =
     (if fw_FD s = -1 then Inr s
      else let (rc, k) = os_close OS (fw_FD s) (fw_os s) in
        if rc = -1 then Inl (ErrnoError ''FileWriter: fail to close'')
        else Inr \<lparr>fw_FD = -1, fw_os = k\<rparr>)"

section \<open>BufWriter\<close>

text \<open>\<open>File::IWriter\<close> as the record of its virtual functions.\<close>

record 's writer_ops =
  w_write :: "byte list \<Rightarrow> 's \<Rightarrow> 's result"
  w_flush :: "'s \<Rightarrow> 's result"
  w_sync :: "'s \<Rightarrow> 's result"
  w_close :: "'s \<Rightarrow> 's result"

definition file_writer_ops :: "'k os_ops \<Rightarrow> 'k file_writer writer_ops" where
  "file_writer_ops OS = \<lparr>w_write = fw_write OS, w_flush = fw_flush, w_sync = fw_sync OS, w_close = fw_close OS\<rparr>"

text \<open>An \<open>omemstream\<close> is an \<open>IWriter\<close> too.\<close>

definition mem_writer_ops :: "omemstream writer_ops" where
  "mem_writer_ops = \<lparr>w_write = (\<lambda>bs s. Inr (om_write s bs)), w_flush = Inr, w_sync = Inr, w_close = Inr\<rparr>"

record 's buf_writer =
  bw_Writer :: 's
  bw_Buffer :: "byte list"
  bw_End :: nat

definition bw_new :: "'s \<Rightarrow> nat \<Rightarrow> 's buf_writer" where
  "bw_new w aLen = \<lparr>bw_Writer = w, bw_Buffer = replicate aLen 32, bw_End = 0\<rparr>"

definition bw_avail :: "'s buf_writer \<Rightarrow> nat" where
  "bw_avail s = length (bw_Buffer s) - bw_End s"

definition bw_flush :: "'s writer_ops \<Rightarrow> 's buf_writer \<Rightarrow> 's buf_writer result" where
  "bw_flush W s =
     (if bw_End s = 0 then Inr s
      else bindr (w_write W (take (bw_End s) (bw_Buffer s)) (bw_Writer s)) (\<lambda>w.
           bindr (w_flush W w) (\<lambda>w. Inr (s\<lparr>bw_Writer := w, bw_End := 0\<rparr>))))"

definition bw_sync :: "'s writer_ops \<Rightarrow> 's buf_writer \<Rightarrow> 's buf_writer result" where
  "bw_sync W s = bindr (bw_flush W s) (\<lambda>s.
     bindr (w_sync W (bw_Writer s)) (\<lambda>w. Inr (s\<lparr>bw_Writer := w\<rparr>)))"

definition bw_close :: "'s writer_ops \<Rightarrow> 's buf_writer \<Rightarrow> 's buf_writer result" where
  "bw_close W s = bindr (bw_flush W s) (\<lambda>s.
     bindr (w_close W (bw_Writer s)) (\<lambda>w. Inr (s\<lparr>bw_Writer := w\<rparr>)))"

text \<open>
  \<open>memcpy\<close> into the buffer at \<open>m_End\<close>, then a flush when it is full; \<open>bs\<close> is what is
  left of the caller's data.
\<close>

definition bw_put :: "nat \<Rightarrow> byte list \<Rightarrow> 's buf_writer \<Rightarrow> 's buf_writer" where
  "bw_put sMin bs s =
     s\<lparr>bw_Buffer := take (bw_End s) (bw_Buffer s) @ take sMin bs @ drop (bw_End s + sMin) (bw_Buffer s),
       bw_End := bw_End s + sMin\<rparr>"

fun bw_loop :: "'s writer_ops \<Rightarrow> nat \<Rightarrow> byte list \<Rightarrow> 's buf_writer \<Rightarrow> 's buf_writer result" where
  "bw_loop W fuel bs s =
     (if bs = [] then Inr s
      else case fuel of 0 \<Rightarrow> Inl OutOfFuel
      | Suc f \<Rightarrow>
          let sMin = min (length bs) (bw_avail s); s = bw_put sMin bs s
          in bindr (if bw_End s = length (bw_Buffer s) then bw_flush W s else Inr s) (\<lambda>s.
               bw_loop W f (drop sMin bs) s))"

declare bw_loop.simps [simp del]

definition bw_write :: "'s writer_ops \<Rightarrow> byte list \<Rightarrow> 's buf_writer \<Rightarrow> 's buf_writer result" where
  "bw_write W bs s = bw_loop W (length bs) bs s"

section \<open>Sources that deliver data in pieces\<close>

text \<open>
  What \<open>BufReader\<close> relies on: a read of a positive size returns some of the next bytes, and
  returns none only at the end of the data, which it then reports by \<open>eof\<close>.
\<close>

locale source_reader =
  fixes RD :: "'s reader_ops"
    and unread :: "'s \<Rightarrow> byte list"
    and ok :: "'s \<Rightarrow> bool"
  assumes read_some: "ok s \<Longrightarrow> 0 < n \<Longrightarrow>
      \<exists>bs s'. r_read RD n s = Inr (bs, s') \<and> ok s' \<and> unread s = bs @ unread s' \<and> length bs \<le> n"
    and read_none: "ok s \<Longrightarrow> 0 < n \<Longrightarrow> r_read RD n s = Inr ([], s') \<Longrightarrow> r_eof RD s'"
    and eof_empty: "ok s \<Longrightarrow> r_eof RD s \<Longrightarrow> unread s = []"
begin

definition br_pending :: "'s buf_reader \<Rightarrow> byte list" where
  "br_pending s = take (br_avail s) (drop (br_Pos s) (br_Buffer s))"

definition br_unread :: "'s buf_reader \<Rightarrow> byte list" where
  "br_unread s = br_pending s @ unread (br_Reader s)"

definition br_ok :: "'s buf_reader \<Rightarrow> bool" where
  "br_ok s \<longleftrightarrow> ok (br_Reader s) \<and> br_Buffer s \<noteq> [] \<and> br_Pos s \<le> br_End s \<and> br_End s \<le> length (br_Buffer s)"

lemma length_br_pending: "br_ok s \<Longrightarrow> length (br_pending s) = br_avail s"
  by (auto simp: br_ok_def br_pending_def br_avail_def)

lemma br_eof_unread: "br_ok s \<Longrightarrow> br_eof RD s \<Longrightarrow> br_unread s = []"
  by (simp add: br_eof_def br_unread_def br_pending_def br_ok_def eof_empty)

lemma br_refill_ok:
  assumes ok: "br_ok s" and a: "br_avail s = 0"
  shows "\<exists>s'. br_refill RD s = Inr s' \<and> br_ok s' \<and> br_unread s' = br_unread s
           \<and> (br_avail s' = 0 \<longrightarrow> br_eof RD s')"
proof -
  have o: "ok (br_Reader s)" and b: "0 < length (br_Buffer s)"
    using ok by (auto simp: br_ok_def)
  obtain bs r where r: "r_read RD (length (br_Buffer s)) (br_Reader s) = Inr (bs, r)" "ok r"
    "unread (br_Reader s) = bs @ unread r" "length bs \<le> length (br_Buffer s)"
    using read_some [OF o b] by blast
  moreover have "bs = [] \<Longrightarrow> r_eof RD r"
    using read_none [OF o b] r(1) by simp
  ultimately show ?thesis
    using a b by (auto simp: br_refill_def br_ok_def br_unread_def br_pending_def br_avail_def br_eof_def)
qed

lemma br_advance:
  assumes "br_ok s" and "m \<le> br_avail s"
  shows "br_ok (s\<lparr>br_Pos := br_Pos s + m\<rparr>)"
    and "br_unread (s\<lparr>br_Pos := br_Pos s + m\<rparr>) = drop m (br_unread s)"
    and "take m (drop (br_Pos s) (br_Buffer s)) = take m (br_unread s)"
  using assms
  by (auto simp: br_ok_def br_avail_def br_unread_def br_pending_def min_def add.commute drop_take)

lemma br_fill:
  assumes "br_ok s"
  obtains t where "(if br_avail s = 0 then br_refill RD s else Inr s) = Inr t" "br_ok t"
    "br_unread t = br_unread s" "br_avail t = 0 \<longrightarrow> br_eof RD t"
proof (cases "br_avail s = 0")
  case True
  then show ?thesis using br_refill_ok [OF assms] that by auto
next
  case False
  then show ?thesis using assms that [of s] by simp
qed

lemma br_loop_correct:
  assumes "br_ok s" and "aLen - length acc < fuel"
  shows "\<exists>s'. br_loop RD fuel aLen acc s = Inr (acc @ take (aLen - length acc) (br_unread s), s')
           \<and> br_ok s' \<and> br_unread s' = drop (aLen - length acc) (br_unread s)
           \<and> (length (br_unread s) < aLen - length acc \<longrightarrow> br_eof RD s')"
  using assms
proof (induction fuel arbitrary: acc s)
  case (Suc f)
  show ?case
  proof (cases "length acc < aLen")
    case False
    then show ?thesis using Suc.prems(1) by (simp add: br_loop.simps)
  next
    case True
    obtain t where t: "(if br_avail s = 0 then br_refill RD s else Inr s) = Inr t" "br_ok t"
      "br_unread t = br_unread s" "br_avail t = 0 \<longrightarrow> br_eof RD t"
      by (rule br_fill [OF Suc.prems(1)])
    define m where "m = min (aLen - length acc) (br_avail t)"
    define u where "u = t\<lparr>br_Pos := br_Pos t + m\<rparr>"
    let ?acc = "acc @ take m (br_unread s)"
    have m: "m \<le> br_avail t" "m \<le> aLen - length acc" by (simp_all add: m_def)
    note adv = br_advance [OF t(2) m(1), folded u_def, unfolded t(3)]
    have len: "br_avail t \<le> length (br_unread s)"
      using length_br_pending [OF t(2)] t(3) by (metis br_unread_def le_add1 length_append)
    have la: "length ?acc = length acc + m" using m len by simp
    have step: "br_loop RD (Suc f) aLen acc s
        = (if br_eof RD u then Inr (?acc, u) else br_loop RD f aLen ?acc u)"
      using True t(1) adv(3) by (simp add: br_loop.simps [of RD "Suc f"] Let_def m_def u_def)
    show ?thesis
    proof (cases "br_eof RD u")
      case eof: True
      then have "length (br_unread s) \<le> m"
        using br_eof_unread [OF adv(1)] adv(2) by simp
      then show ?thesis using step eof adv m by (auto simp: min_def)
    next
      case False
      have "0 < m"
        using t(4) False True by (cases "br_avail t = 0") (auto simp: m_def u_def)
      then have "aLen - length ?acc < f" using Suc.prems(2) la True by linarith
      from Suc.IH [OF adv(1) this] obtain s' where
        "br_loop RD f aLen ?acc u = Inr (?acc @ take (aLen - length ?acc) (br_unread u), s')"
        "br_ok s'" "br_unread s' = drop (aLen - length ?acc) (br_unread u)"
        "length (br_unread u) < aLen - length ?acc \<longrightarrow> br_eof RD s'" by blast
      moreover have "aLen - length acc = m + (aLen - length ?acc)" using la m True by linarith
      ultimately show ?thesis
        using step False adv(2) by (auto simp: take_add add.commute)
    qed
  qed
qed simp

lemma br_read_correct:
  assumes "br_ok s"
  shows "\<exists>s'. br_read RD n s = Inr (take n (br_unread s), s') \<and> br_ok s'
           \<and> br_unread s' = drop n (br_unread s) \<and> (length (br_unread s) < n \<longrightarrow> br_eof RD s')"
proof (cases "br_eof RD s")
  case True
  then show ?thesis using br_eof_unread [OF assms True] assms by (simp add: br_read_def)
next
  case False
  then show ?thesis using br_loop_correct [OF assms, of n "[]" "n + 1"] by (simp add: br_read_def)
qed

lemma br_new_ok: "ok r \<Longrightarrow> 0 < aLen \<Longrightarrow> br_ok (br_new r aLen) \<and> br_unread (br_new r aLen) = unread r"
  by (simp add: br_ok_def br_new_def br_unread_def br_pending_def br_avail_def)

end

text \<open>A reader that returns less than asked for only at the end of the data.\<close>

locale full_reader =
  fixes RD :: "'s reader_ops"
    and unread :: "'s \<Rightarrow> byte list"
    and ok :: "'s \<Rightarrow> bool"
  assumes read_full: "ok s \<Longrightarrow>
      \<exists>s'. r_read RD n s = Inr (take n (unread s), s') \<and> ok s' \<and> unread s' = drop n (unread s)"
begin

definition ex_unread :: "'s exact_rd \<Rightarrow> byte list" where
  "ex_unread s = (if ex_Unget s then [ex_Last s] else []) @ unread (ex_Parent s)"

definition ex_ok :: "'s exact_rd \<Rightarrow> bool" where
  "ex_ok s \<longleftrightarrow> ok (ex_Parent s)"

lemma ex_read_parent_full:
  assumes "ok (ex_Parent s)" and "0 < n"
  shows "n \<le> length (unread (ex_Parent s)) \<Longrightarrow>
      \<exists>p. ex_read_parent RD n s = Inr (take n (unread (ex_Parent s)), n,
              s\<lparr>ex_Parent := p, ex_Last := last (take n (unread (ex_Parent s)))\<rparr>)
          \<and> ok p \<and> unread p = drop n (unread (ex_Parent s))"
    and "length (unread (ex_Parent s)) < n \<Longrightarrow>
      ex_read_parent RD n s = Inl (InvalidArgument ''ExactReader: eof'')"
proof -
  obtain p where p: "r_read RD n (ex_Parent s) = Inr (take n (unread (ex_Parent s)), p)" "ok p"
    "unread p = drop n (unread (ex_Parent s))"
    using read_full [OF assms(1), of n] by blast
  show "n \<le> length (unread (ex_Parent s)) \<Longrightarrow>
      \<exists>p. ex_read_parent RD n s = Inr (take n (unread (ex_Parent s)), n,
              s\<lparr>ex_Parent := p, ex_Last := last (take n (unread (ex_Parent s)))\<rparr>)
          \<and> ok p \<and> unread p = drop n (unread (ex_Parent s))"
    by (rule exI [of _ p]) (use p assms(2) in \<open>auto simp: ex_read_parent_def\<close>)
  show "length (unread (ex_Parent s)) < n \<Longrightarrow>
      ex_read_parent RD n s = Inl (InvalidArgument ''ExactReader: eof'')"
    using p by (simp add: ex_read_parent_def)
qed

lemma ex_read_full:
  assumes "ex_ok s" and "0 < n" and "n \<le> length (ex_unread s)"
  shows "\<exists>s' k. ex_read RD n s = Inr (take n (ex_unread s), k, s') \<and> ex_ok s' \<and> \<not> ex_Unget s'
           \<and> ex_Last s' = last (take n (ex_unread s)) \<and> ex_unread s' = drop n (ex_unread s)
           \<and> k = (if ex_Unget s \<and> 1 < n then n - 1 else n)"
proof (cases "ex_Unget s")
  case False
  with assms ex_read_parent_full(1) [of s n] obtain p where
    "ex_read_parent RD n s = Inr (take n (unread (ex_Parent s)), n,
       s\<lparr>ex_Parent := p, ex_Last := last (take n (unread (ex_Parent s)))\<rparr>)"
    "ok p" "unread p = drop n (unread (ex_Parent s))"
    by (auto simp: ex_unread_def ex_ok_def)
  then show ?thesis
    using False by (simp add: ex_read_def ex_unread_def ex_ok_def)
next
  case True
  let ?t = "s\<lparr>ex_Unget := False, ex_Last := 0\<rparr>"
  show ?thesis
  proof (cases "n = 1")
    case n1: True
    then show ?thesis using True assms by (simp add: ex_read_def ex_unread_def ex_ok_def)
  next
    case False
    then obtain m where m: "n = Suc m" "0 < m" using assms(2) by (cases n) auto
    have "ok (ex_Parent ?t)" and "m \<le> length (unread (ex_Parent ?t))"
      using assms True m by (auto simp: ex_ok_def ex_unread_def)
    with ex_read_parent_full(1) [of ?t m] m(2) obtain p where
      "ex_read_parent RD m ?t = Inr (take m (unread (ex_Parent s)), m,
         ?t\<lparr>ex_Parent := p, ex_Last := last (take m (unread (ex_Parent s)))\<rparr>)"
      "ok p" "unread p = drop m (unread (ex_Parent s))" by auto
    moreover have "take m (unread (ex_Parent s)) \<noteq> []"
      using m \<open>m \<le> length (unread (ex_Parent ?t))\<close> by auto
    ultimately show ?thesis
      using True m False by (simp add: ex_read_def ex_unread_def ex_ok_def)
  qed
qed

lemma ex_read_short:
  assumes "ex_ok s" and "length (ex_unread s) < n"
  shows "ex_read RD n s = Inl (InvalidArgument ''ExactReader: eof'')"
  using assms ex_read_parent_full(2) [of s n] ex_read_parent_full(2) [of "s\<lparr>ex_Unget := False, ex_Last := 0\<rparr>" "n - 1"]
  by (auto simp: ex_read_def ex_unread_def ex_ok_def split: if_splits)

lemma ex_reader_contract:
  assumes bound: "\<And>s. ok s \<Longrightarrow> length (unread s) \<le> bound s"
  shows "exact_reader (exact_reader_of RD bound) ex_unread ex_ok"
proof (unfold_locales, goal_cases)
  case (1 s n)
  then have "0 < unat n" by (simp add: word_less_nat_alt)
  with 1 show ?case using ex_read_full [of s "unat n"] by (auto simp: exact_reader_of_def)
next
  case (2 s n)
  then show ?case using ex_read_short [of s "unat n"] by (auto simp: exact_reader_of_def)
next
  case (3 s n bs s')
  then have n: "0 < unat n" by (simp add: word_less_nat_alt)
  have "unat n \<le> length (ex_unread s)"
    using 3(1,3) ex_read_short [of s "unat n"] by (fastforce simp: exact_reader_of_def)
  from ex_read_full [OF 3(1) n this] 3(3) show ?case
    by (auto simp: exact_reader_of_def ex_unget_def ex_unread_def ex_ok_def)
next
  case (4 s)
  then show ?case using bound [of "ex_Parent s"] by (simp add: exact_reader_of_def ex_unread_def ex_ok_def)
qed

end

sublocale source_reader \<subseteq> br: full_reader "buf_reader_ops RD" br_unread br_ok
proof
  fix s n
  assume "br_ok s"
  from br_read_correct [OF this, of n]
  show "\<exists>s'. r_read (buf_reader_ops RD) n s = Inr (take n (br_unread s), s') \<and> br_ok s'
          \<and> br_unread s' = drop n (br_unread s)"
    by (auto simp: buf_reader_ops_def)
qed

text \<open>
  What \<open>read(2)\<close> documents for a readable regular file: a positive count returns some of
  the next bytes and zero bytes only at the end of the file; no I/O error occurs.
\<close>

locale posix_file =
  fixes OS :: "'k os_ops"
    and contents :: "int \<Rightarrow> 'k \<Rightarrow> byte list"
  assumes posix_read: "0 < n \<Longrightarrow> \<exists>bs k'. os_read OS fd n k = (Some bs, k')
      \<and> contents fd k = bs @ contents fd k' \<and> length bs \<le> n"
    and posix_eof: "0 < n \<Longrightarrow> os_read OS fd n k = (Some [], k') \<Longrightarrow> contents fd k' = []"
begin

definition fr_unread :: "'k file_reader \<Rightarrow> byte list" where
  "fr_unread s = contents (fr_FD s) (fr_os s)"

definition fr_ok :: "'k file_reader \<Rightarrow> bool" where
  "fr_ok s \<longleftrightarrow> (fr_EOF s \<longrightarrow> fr_unread s = [])"

end

sublocale posix_file \<subseteq> fr: source_reader "file_reader_ops OS" fr_unread fr_ok
proof (unfold_locales, goal_cases)
  case (1 s n)
  obtain bs k where k: "os_read OS (fr_FD s) n (fr_os s) = (Some bs, k)"
    "contents (fr_FD s) (fr_os s) = bs @ contents (fr_FD s) k" "length bs \<le> n"
    using posix_read [OF 1(2)] by blast
  moreover have "bs = [] \<Longrightarrow> contents (fr_FD s) k = []"
    using posix_eof [OF 1(2)] k(1) by blast
  ultimately show ?case
    using 1(1) by (auto simp: file_reader_ops_def fr_read_def fr_ok_def fr_unread_def)
next
  case (2 s n s')
  then show ?case
    by (auto simp: file_reader_ops_def fr_read_def split: prod.splits option.splits)
next
  case (3 s)
  then show ?case by (simp add: file_reader_ops_def fr_ok_def)
qed

text \<open>
  A kernel that keeps the bytes of one file and a list of the sizes at which it cuts its
  answers short.
\<close>

type_synonym chunked_file = "byte list \<times> nat list"

fun chunked_read :: "int \<Rightarrow> nat \<Rightarrow> chunked_file \<Rightarrow> byte list option \<times> chunked_file" where
  "chunked_read fd n (bs, []) = (Some (take n bs), (drop n bs, []))"
| "chunked_read fd n (bs, c # cs) = (let m = min n (max 1 c) in (Some (take m bs), (drop m bs, cs)))"

definition chunked_os :: "chunked_file os_ops" where
  "chunked_os = \<lparr>os_open = (\<lambda>_ k. (3, k)), os_fstat = (\<lambda>_ k. ((0, length (fst k)), k)),
     os_fadvise = (\<lambda>_ _ k. (0, k)), os_read = chunked_read,
     os_write = (\<lambda>_ bs k. (int (length bs), (fst k @ bs, snd k))),
     os_fsync = (\<lambda>_ k. (0, k)), os_close = (\<lambda>_ k. (0, k))\<rparr>"

interpretation chunked: posix_file chunked_os "\<lambda>_. fst"
proof (unfold_locales, goal_cases)
  case (1 n fd k)
  then show ?case
    by (cases k; cases "snd k") (auto simp: chunked_os_def Let_def)
next
  case (2 n fd k k')
  then show ?case
    by (cases k; cases "snd k") (auto simp: chunked_os_def Let_def min_def max_def split: if_splits)
qed

section \<open>The buffered writer\<close>

text \<open>
  A sink accepts everything and keeps it in order; \<open>received\<close> is what it has got so far.
\<close>

locale sink_writer =
  fixes W :: "'s writer_ops"
    and received :: "'s \<Rightarrow> byte list"
  assumes write_received: "\<exists>s'. w_write W bs s = Inr s' \<and> received s' = received s @ bs"
    and flush_received: "\<exists>s'. w_flush W s = Inr s' \<and> received s' = received s"
    and sync_received: "\<exists>s'. w_sync W s = Inr s' \<and> received s' = received s"
    and close_received: "\<exists>s'. w_close W s = Inr s' \<and> received s' = received s"
begin

definition bw_ok :: "'s buf_writer \<Rightarrow> bool" where
  "bw_ok s \<longleftrightarrow> bw_End s < length (bw_Buffer s)"

definition bw_total :: "'s buf_writer \<Rightarrow> byte list" where
  "bw_total s = received (bw_Writer s) @ take (bw_End s) (bw_Buffer s)"

lemma bw_flush_total:
  assumes "bw_Buffer s \<noteq> []"
  shows "\<exists>s'. bw_flush W s = Inr s' \<and> bw_End s' = 0 \<and> bw_Buffer s' = bw_Buffer s
           \<and> received (bw_Writer s') = bw_total s"
proof (cases "bw_End s = 0")
  case True
  then show ?thesis by (simp add: bw_flush_def bw_total_def)
next
  case False
  obtain w where w: "w_write W (take (bw_End s) (bw_Buffer s)) (bw_Writer s) = Inr w"
    "received w = bw_total s"
    using write_received [of _ "bw_Writer s"] unfolding bw_total_def by blast
  obtain v where "w_flush W w = Inr v" "received v = received w"
    using flush_received by blast
  then show ?thesis using False w by (simp add: bw_flush_def)
qed

lemma bw_put_total:
  assumes "bw_ok s" and "m = min (length bs) (bw_avail s)"
  shows "bw_total (bw_put m bs s) = bw_total s @ take m bs"
    and "length (bw_Buffer (bw_put m bs s)) = length (bw_Buffer s)"
    and "bw_End (bw_put m bs s) \<le> length (bw_Buffer s)"
    and "bs \<noteq> [] \<Longrightarrow> 0 < m"
  using assms by (auto simp: bw_ok_def bw_total_def bw_put_def bw_avail_def min_def)

lemma bw_loop_total:
  assumes "bw_ok s" and "length bs \<le> fuel"
  shows "\<exists>s'. bw_loop W fuel bs s = Inr s' \<and> bw_ok s' \<and> bw_total s' = bw_total s @ bs
           \<and> length (bw_Buffer s') = length (bw_Buffer s)"
  using assms
proof (induction fuel arbitrary: bs s)
  case 0
  then show ?case by (simp add: bw_loop.simps)
next
  case (Suc f)
  show ?case
  proof (cases "bs = []")
    case True
    then show ?thesis using Suc.prems by (simp add: bw_loop.simps)
  next
    case False
    define m where "m = min (length bs) (bw_avail s)"
    note put = bw_put_total [OF Suc.prems(1) m_def]
    let ?p = "bw_put m bs s"
    have ne: "bw_Buffer ?p \<noteq> []" using put(2) Suc.prems(1) by (auto simp: bw_ok_def)
    obtain t where t: "(if bw_End ?p = length (bw_Buffer ?p) then bw_flush W ?p else Inr ?p) = Inr t"
      "bw_ok t" "bw_total t = bw_total ?p" "length (bw_Buffer t) = length (bw_Buffer s)"
    proof (cases "bw_End ?p = length (bw_Buffer ?p)")
      case True
      moreover have "bw_Buffer s \<noteq> []" using Suc.prems(1) by (auto simp: bw_ok_def)
      ultimately show ?thesis
        using bw_flush_total [OF ne] that put(2) by (auto simp: bw_ok_def bw_total_def)
    next
      case False
      then show ?thesis using that [of ?p] put(2,3) by (simp add: bw_ok_def)
    qed
    have "length (drop m bs) \<le> f" using Suc.prems(2) put(4) [OF False] by simp
    from Suc.IH [OF t(2) this] obtain s' where s': "bw_loop W f (drop m bs) t = Inr s'" "bw_ok s'"
      "bw_total s' = bw_total t @ drop m bs" "length (bw_Buffer s') = length (bw_Buffer t)" by blast
    have "bw_loop W (Suc f) bs s = bw_loop W f (drop m bs) t"
      using False t(1) by (simp add: bw_loop.simps [of W "Suc f"] Let_def flip: m_def)
    then show ?thesis using s' t(3,4) put(1) by simp
  qed
qed

lemma bw_write_total:
  "bw_ok s \<Longrightarrow> \<exists>s'. bw_write W bs s = Inr s' \<and> bw_ok s' \<and> bw_total s' = bw_total s @ bs"
  using bw_loop_total [of s bs "length bs"] by (auto simp: bw_write_def)

lemma bw_close_total:
  assumes "bw_ok s"
  shows "\<exists>s'. bw_close W s = Inr s' \<and> received (bw_Writer s') = bw_total s"
proof -
  have "bw_Buffer s \<noteq> []" using assms by (auto simp: bw_ok_def)
  then obtain t where t: "bw_flush W s = Inr t" "received (bw_Writer t) = bw_total s"
    using bw_flush_total by blast
  obtain w where "w_close W (bw_Writer t) = Inr w" "received w = received (bw_Writer t)"
    using close_received by blast
  then show ?thesis using t by (simp add: bw_close_def)
qed

end

interpretation om: sink_writer mem_writer_ops "\<lambda>s. s"
  by unfold_locales (simp_all add: mem_writer_ops_def om_write_def)

end
