(* ===== verification/File_Props.thy ===== *)
theory File_Props
  imports Cbor_Props File_IO
begin

text \<open>
  Properties of the file readers and writers, stated over a kernel that meets
  \<open>posix_file\<close>, and what happens when the CBOR reader runs over \<open>ExactReader\<close>.
\<close>

section \<open>Sequences of calls\<close>

fun read_seq :: "'s reader_ops \<Rightarrow> nat list \<Rightarrow> 's \<Rightarrow> (byte list list \<times> 's) result" where
  "read_seq RD [] s = Inr ([], s)"
| "read_seq RD (n # ns) s =
     bindr (r_read RD n s) (\<lambda>(bs, s). bindr (read_seq RD ns s) (\<lambda>(bss, s). Inr (bs # bss, s)))"

fun cut :: "nat list \<Rightarrow> 'a list \<Rightarrow> 'a list list" where
  "cut [] xs = []"
| "cut (n # ns) xs = take n xs # cut ns (drop n xs)"

fun write_seq :: "'s writer_ops \<Rightarrow> byte list list \<Rightarrow> 's buf_writer \<Rightarrow> 's buf_writer result" where
  "write_seq W [] s = Inr s"
| "write_seq W (bs # bss) s = bindr (bw_write W bs s) (write_seq W bss)"

context full_reader begin

lemma read_seq_cut:
  "ok s \<Longrightarrow> \<exists>s'. read_seq RD ns s = Inr (cut ns (unread s), s')"
proof (induction ns arbitrary: s)
  case (Cons n ns)
  obtain t where t: "r_read RD n s = Inr (take n (unread s), t)" "ok t" "unread t = drop n (unread s)"
    using read_full [OF Cons.prems] by blast
  then show ?case using Cons.IH [OF t(2)] by auto
qed simp

end

context sink_writer begin

lemma write_seq_total:
  "bw_ok s \<Longrightarrow> \<exists>s'. write_seq W bss s = Inr s' \<and> bw_ok s' \<and> bw_total s' = bw_total s @ concat bss"
proof (induction bss arbitrary: s)
  case (Cons bs bss)
  obtain t where t: "bw_write W bs s = Inr t" "bw_ok t" "bw_total t = bw_total s @ bs"
    using bw_write_total [OF Cons.prems] by blast
  then show ?case using Cons.IH [OF t(2)] by auto
qed simp

end

text \<open>
  A file opened for reading, and the stack \<open>ExactReader\<close> over \<open>BufReader\<close> over
  \<open>FileReader\<close> that the programs build on it.
\<close>

definition opened :: "int \<Rightarrow> 'k \<Rightarrow> 'k file_reader" where
  "opened fd k = \<lparr>fr_FD = fd, fr_EOF = False, fr_os = k\<rparr>"

definition file_stack :: "int \<Rightarrow> 'k \<Rightarrow> nat \<Rightarrow> 'k file_reader buf_reader exact_rd" where
  "file_stack fd k aLen = ex_new (br_new (opened fd k) aLen)"

definition stack_ops :: "'k os_ops \<Rightarrow> 'k file_reader buf_reader reader_ops" where
  "stack_ops OS = buf_reader_ops (file_reader_ops OS)"

context posix_file begin

lemma opened_ok: "fr_ok (opened fd k)" and opened_unread: "fr_unread (opened fd k) = contents fd k"
  by (simp_all add: fr_ok_def fr_unread_def opened_def)

lemma file_read_seq:
  "0 < aLen \<Longrightarrow> \<exists>s'. read_seq (stack_ops OS) ns (br_new (opened fd k) aLen) = Inr (cut ns (contents fd k), s')"
  using fr.br.read_seq_cut fr.br_new_ok [OF opened_ok] opened_unread by (metis stack_ops_def)

lemma file_stack_ok: "0 < aLen \<Longrightarrow> fr.br.ex_ok (file_stack fd k aLen)"
  and file_stack_unread: "0 < aLen \<Longrightarrow> fr.br.ex_unread (file_stack fd k aLen) = contents fd k"
  using fr.br_new_ok [OF opened_ok, of aLen fd k] opened_unread
  by (simp_all add: fr.br.ex_ok_def fr.br.ex_unread_def file_stack_def ex_new_def)

lemma file_read_unget:
  assumes "0 < aLen" and "0 < n" and "n + m \<le> length (contents fd k)"
  shows "\<exists>s1 s2 s3. ex_read (stack_ops OS) n (file_stack fd k aLen) = Inr (take n (contents fd k), n, s1)
    \<and> ex_unget s1 = Inr s2
    \<and> ex_read (stack_ops OS) (Suc m) s2
      = Inr (take (Suc m) (drop (n - 1) (contents fd k)), (if m = 0 then 1 else m), s3)"
proof -
  let ?c = "contents fd k"
  obtain s1 where s1: "ex_read (stack_ops OS) n (file_stack fd k aLen) = Inr (take n ?c, n, s1)"
    "fr.br.ex_ok s1" "\<not> ex_Unget s1" "ex_Last s1 = last (take n ?c)" "fr.br.ex_unread s1 = drop n ?c"
    using fr.br.ex_read_full [OF file_stack_ok, of aLen n fd k] assms file_stack_unread [of aLen fd k]
    by (auto simp: stack_ops_def file_stack_def ex_new_def)
  define s2 where "s2 = s1\<lparr>ex_Unget := True\<rparr>"
  have u: "ex_unget s1 = Inr s2" using s1(3) by (simp add: ex_unget_def s2_def)
  have "last (take n ?c) # drop n ?c = drop (n - 1) ?c"
    using assms by (cases n) (auto simp: Cons_nth_drop_Suc take_Suc_conv_app_nth)
  then have un: "fr.br.ex_unread s2 = drop (n - 1) ?c" and ok2: "fr.br.ex_ok s2" and "ex_Unget s2"
    using s1 by (simp_all add: s2_def fr.br.ex_unread_def fr.br.ex_ok_def)
  moreover have "Suc m \<le> length (fr.br.ex_unread s2)" using un assms by simp
  ultimately obtain s3 where "ex_read (stack_ops OS) (Suc m) s2
      = Inr (take (Suc m) (drop (n - 1) ?c), (if m = 0 then 1 else m), s3)"
    using fr.br.ex_read_full [of s2 "Suc m"] by (auto simp: stack_ops_def split: if_splits)
  with s1(1) u show ?thesis by blast
qed

lemma ex_read_zero:
  assumes "fr.br.ex_ok s" and "\<not> ex_Unget s"
  shows "ex_read (stack_ops OS) 0 s = Inl Undefined"
  using fr.br.read_full [of "ex_Parent s" 0] assms
  by (auto simp: fr.br.ex_ok_def ex_read_def ex_read_parent_def stack_ops_def)

lemma file_empty_string:
  assumes "0 < aLen" and "contents fd k = 0x60 # rest"
  shows "read_string (exact_reader_of (stack_ops OS) bound) (file_stack fd k aLen) = Inl Undefined"
proof -
  let ?R = "exact_reader_of (stack_ops OS) bound"
  obtain s1 where s1: "ex_read (stack_ops OS) 1 (file_stack fd k aLen) = Inr ([0x60], 1, s1)"
    "fr.br.ex_ok s1" "\<not> ex_Unget s1"
    using fr.br.ex_read_full [OF file_stack_ok, of aLen 1 fd k] assms file_stack_unread [of aLen fd k]
    by (auto simp: stack_ops_def)
  have ti: "type_info 0x60 = \<lparr>ti_minor = 0, ti_major = CBOR_STR\<rparr>"
    by (simp add: type_info_def)
  have "get_type ?R (file_stack fd k aLen) = Inr (\<lparr>ti_minor = 0, ti_major = CBOR_STR\<rparr>, s1)"
    using s1(1) by (simp add: get_type_def exact_reader_of_def ti)
  then show ?thesis
    using ex_read_zero [OF s1(2,3)]
    by (simp add: read_string_def ensure_type_def get_uint_def exact_reader_of_def)
qed

end

text \<open>An exception of \<open>fstat\<close> or \<open>posix_fadvise\<close> leaves the constructor with the descriptor closed.\<close>

lemma fr_new_no_leak:
  assumes "fr_new OS name k = Inl (e, k')" and "fst (os_open OS name k) \<noteq> -1"
  shows "\<exists>k''. k' = snd (os_close OS (fst (os_open OS name k)) k'')"
  using assms
  by (auto simp: fr_new_def fr_guard_def fr_close_def Let_def split: prod.splits if_splits sum.splits)
    (metis snd_conv)+

section \<open>Properties\<close>

text \<open>
  C8: a \<open>BufReader\<close> over a \<open>FileReader\<close> returns, for any sequence of read sizes, exactly the
  successive pieces of the file, whatever the buffer size and however the kernel cuts its
  answers; a piece is shorter than asked for only at the end of the file.
\<close>

theorem buf_reader_exact:
  assumes "posix_file OS contents" and "0 < aLen"
  shows "\<exists>s'. read_seq (stack_ops OS) ns (br_new (opened fd k) aLen) = Inr (cut ns (contents fd k), s')"
  using posix_file.file_read_seq [OF assms] .

theorem buf_reader_exact_witness:
  "\<exists>s'. read_seq (stack_ops chunked_os) [2, 3, 4] (br_new (opened 3 ([1, 2, 3, 4, 5, 6, 7], [1, 1, 3])) 4)
     = Inr ([[1, 2], [3, 4, 5], [6, 7]], s')"
  using buf_reader_exact [OF chunked.posix_file_axioms, of 4 "[2, 3, 4]" 3 "([1, 2, 3, 4, 5, 6, 7], [1, 1, 3])"]
  by (simp add: eval_nat_numeral)

text \<open>
  After an exact read of a file, \<open>unget\<close> puts the last byte back: the next read starts
  with it and goes on where the file was left. The number that read returns does not count
  the byte put back, unless it is the only one.
\<close>

theorem exact_reader_unget:
  assumes "posix_file OS contents" and "0 < aLen" and "0 < n" and "n + m \<le> length (contents fd k)"
  shows "\<exists>s1 s2 s3. ex_read (stack_ops OS) n (file_stack fd k aLen) = Inr (take n (contents fd k), n, s1)
    \<and> ex_unget s1 = Inr s2
    \<and> ex_read (stack_ops OS) (Suc m) s2
      = Inr (take (Suc m) (drop (n - 1) (contents fd k)), (if m = 0 then 1 else m), s3)"
  using posix_file.file_read_unget [OF assms] .

theorem exact_reader_unget_witness:
  "\<exists>s1 s2 s3. ex_read (stack_ops chunked_os) 2 (file_stack 3 ([1, 2, 3, 4], [1]) 4) = Inr ([1, 2], 2, s1)
    \<and> ex_unget s1 = Inr s2 \<and> ex_read (stack_ops chunked_os) 3 s2 = Inr ([2, 3, 4], 2, s3)"
  using exact_reader_unget [OF chunked.posix_file_axioms, of 4 2 2 "([1, 2, 3, 4], [1])" 3]
  by (simp add: eval_nat_numeral)

text \<open>
  the CBOR reader asks for the contents of an empty string with a read of size zero.
  \<open>ExactReader\<close> then takes its last byte from in front of the caller's buffer, so decoding an
  empty string from a file has no defined result.
\<close>

theorem cbor_empty_string_over_file:
  assumes "posix_file OS contents" and "0 < aLen" and "contents fd k = 0x60 # rest"
  shows "read_string (exact_reader_of (stack_ops OS) bound) (file_stack fd k aLen) = Inl Undefined"
  using posix_file.file_empty_string [OF assms] .

theorem cbor_empty_string_over_file_witness:
  "read_string (exact_reader_of (stack_ops chunked_os) (\<lambda>_. 0)) (file_stack 3 ([0x60], []) 16) = Inl Undefined"
  using cbor_empty_string_over_file [OF chunked.posix_file_axioms, of 16 "([0x60], [])"] by simp

text \<open>
  C26: whatever is written to a \<open>BufWriter\<close> in however many pieces arrives at the underlying
  writer once, complete and in order when the writer is closed.
\<close>

theorem buf_writer_delivers:
  assumes "sink_writer W received" and "0 < aLen"
  shows "\<exists>s s'. write_seq W bss (bw_new w aLen) = Inr s \<and> bw_close W s = Inr s'
           \<and> received (bw_Writer s') = received w @ concat bss"
proof -
  note sw = assms(1)
  have "sink_writer.bw_ok (bw_new w aLen)" and "sink_writer.bw_total received (bw_new w aLen) = received w"
    using sink_writer.bw_ok_def [OF sw] sink_writer.bw_total_def [OF sw] assms(2) by (simp_all add: bw_new_def)
  with sink_writer.write_seq_total [OF sw] sink_writer.bw_close_total [OF sw] show ?thesis
    by metis
qed

theorem buf_writer_delivers_witness:
  "\<exists>s s'. write_seq mem_writer_ops [[1, 2], [], [3, 4, 5]] (bw_new [9] 2) = Inr s
     \<and> bw_close mem_writer_ops s = Inr s' \<and> bw_Writer s' = [9, 1, 2, 3, 4, 5]"
  using buf_writer_delivers [OF om.sink_writer_axioms, of 2 "[[1, 2], [], [3, 4, 5]]" "[9]"] by simp

end
