(* ===== verification/MsgPack.thy ===== *)
theory MsgPack
  imports Cbor_Props
begin

text \<open>
  The MessagePack encoder and decoder of \<open>msgpack/MsgPack.hpp\<close> over the in-memory streams:
  unsigned integers, sizes of maps and arrays, strings, and the \<open>parse\<close> overloads for vectors
  and maps. The locale \<open>mp_codec\<close> states what an item that can be written and parsed promises;
  arrays of such items round trip, and every reader is safe on arbitrary input.
\<close>

section \<open>Format bytes\<close>

abbreviation FIXMAP :: byte where "FIXMAP \<equiv> 0x80"
abbreviation FIXARRAY :: byte where "FIXARRAY \<equiv> 0x90"
abbreviation FIXSTR :: byte where "FIXSTR \<equiv> 0xa0"
abbreviation NIL :: byte where "NIL \<equiv> 0xc0"
abbreviation PACK_UINT8 :: byte where "PACK_UINT8 \<equiv> 0xcc"
abbreviation PACK_UINT16 :: byte where "PACK_UINT16 \<equiv> 0xcd"
abbreviation PACK_UINT32 :: byte where "PACK_UINT32 \<equiv> 0xce"
abbreviation PACK_UINT64 :: byte where "PACK_UINT64 \<equiv> 0xcf"
abbreviation PACK_MAP16 :: byte where "PACK_MAP16 \<equiv> 0xde"
abbreviation PACK_MAP32 :: byte where "PACK_MAP32 \<equiv> 0xdf"
abbreviation PACK_ARRAY16 :: byte where "PACK_ARRAY16 \<equiv> 0xdc"
abbreviation PACK_ARRAY32 :: byte where "PACK_ARRAY32 \<equiv> 0xdd"
abbreviation PACK_STR8 :: byte where "PACK_STR8 \<equiv> 0xd9"
abbreviation PACK_STR16 :: byte where "PACK_STR16 \<equiv> 0xda"
abbreviation PACK_STR32 :: byte where "PACK_STR32 \<equiv> 0xdb"

section \<open>Big-endian loads and stores\<close>

definition mp_store_u8 :: "omemstream \<Rightarrow> byte \<Rightarrow> omemstream" where
  "mp_store_u8 out v = om_put out v"

definition mp_store_u16 :: "omemstream \<Rightarrow> u16 \<Rightarrow> omemstream" where
  "mp_store_u16 out v = om_write out (be_enc 2 (unat v))"

definition mp_store_u32 :: "omemstream \<Rightarrow> u32 \<Rightarrow> omemstream" where
  "mp_store_u32 out v = om_write out (be_enc 4 (unat v))"

definition mp_store_u64 :: "omemstream \<Rightarrow> u64 \<Rightarrow> omemstream" where
  "mp_store_u64 out v = om_write out (be_enc 8 (unat v))"

definition mp_load_u8 :: "imemstream \<Rightarrow> (byte \<times> imemstream) result" where
  "mp_load_u8 s = bindr (im_read 1 s) (\<lambda>(bs, s). Inr (of_nat (be_dec bs), s))"

definition mp_load_u16 :: "imemstream \<Rightarrow> (u64 \<times> imemstream) result" where
  "mp_load_u16 s = bindr (im_read 2 s) (\<lambda>(bs, s). Inr (of_nat (be_dec bs), s))"

definition mp_load_u32 :: "imemstream \<Rightarrow> (u64 \<times> imemstream) result" where
  "mp_load_u32 s = bindr (im_read 4 s) (\<lambda>(bs, s). Inr (of_nat (be_dec bs), s))"

definition mp_load_u64 :: "imemstream \<Rightarrow> (u64 \<times> imemstream) result" where
  "mp_load_u64 s = bindr (im_read 8 s) (\<lambda>(bs, s). Inr (of_nat (be_dec bs), s))"

section \<open>Unsigned integers\<close>

definition mp_write_uint :: "omemstream \<Rightarrow> u64 \<Rightarrow> omemstream" where
  "mp_write_uint out v =
     (if v < 0x80 then mp_store_u8 out (ucast v)
      else if v \<le> 0xFF then mp_store_u8 (mp_store_u8 out PACK_UINT8) (ucast v)
      else if v \<le> 0xFFFF then mp_store_u16 (mp_store_u8 out PACK_UINT16) (ucast v)
      else if v \<le> 0xFFFFFFFF then mp_store_u32 (mp_store_u8 out PACK_UINT32) (ucast v)
      else mp_store_u64 (mp_store_u8 out PACK_UINT64) v)"

text \<open>\<open>read_uint<T>\<close>; \<open>w\<close> is the width of \<open>T\<close>, the value its bit pattern.\<close>

definition mp_read_uint :: "nat \<Rightarrow> imemstream \<Rightarrow> (u64 \<times> imemstream) result" where
  "mp_read_uint w s =
     bindr (mp_load_u8 s) (\<lambda>(sCode, s).
       if sCode = PACK_UINT8 then bindr (mp_load_u8 s) (\<lambda>(r, s). Inr (take_bit w (ucast r), s))
       else if sCode = PACK_UINT16 then bindr (mp_load_u16 s) (\<lambda>(r, s). Inr (take_bit w r, s))
       else if sCode = PACK_UINT32 then bindr (mp_load_u32 s) (\<lambda>(r, s). Inr (take_bit w r, s))
       else if sCode = PACK_UINT64 then bindr (mp_load_u64 s) (\<lambda>(r, s). Inr (take_bit w r, s))
       else if FIXMAP \<le> sCode then Inl BadFormat
       else Inr (take_bit w (ucast sCode), s))"

section \<open>Sizes of maps and arrays\<close>

definition mp_write_map_size :: "omemstream \<Rightarrow> u32 \<Rightarrow> omemstream" where
  "mp_write_map_size out n =
     (if n \<le> 0x0f then mp_store_u8 out (FIXMAP OR ucast n)
      else if n \<le> 0xFFFF then mp_store_u16 (mp_store_u8 out PACK_MAP16) (ucast n)
      else mp_store_u32 (mp_store_u8 out PACK_MAP32) n)"

definition mp_read_map_size :: "imemstream \<Rightarrow> (u32 \<times> imemstream) result" where
  "mp_read_map_size s =
     bindr (mp_load_u8 s) (\<lambda>(sCode, s).
       if sCode = PACK_MAP16 then bindr (mp_load_u16 s) (\<lambda>(r, s). Inr (ucast r, s))
       else if sCode = PACK_MAP32 then bindr (mp_load_u32 s) (\<lambda>(r, s). Inr (ucast r, s))
       else if sCode < FIXMAP \<or> FIXARRAY \<le> sCode then Inl BadFormat
       else Inr (ucast (sCode AND 0x0f), s))"

definition mp_write_array_size :: "omemstream \<Rightarrow> u32 \<Rightarrow> omemstream" where
  "mp_write_array_size out n =
     (if n \<le> 0x0f then mp_store_u8 out (FIXARRAY OR ucast n)
      else if n \<le> 0xFFFF then mp_store_u16 (mp_store_u8 out PACK_ARRAY16) (ucast n)
      else mp_store_u32 (mp_store_u8 out PACK_ARRAY32) n)"

definition mp_read_array_size :: "imemstream \<Rightarrow> (u32 \<times> imemstream) result" where
  "mp_read_array_size s =
     bindr (mp_load_u8 s) (\<lambda>(sCode, s).
       if sCode = PACK_ARRAY16 then bindr (mp_load_u16 s) (\<lambda>(r, s). Inr (ucast r, s))
       else if sCode = PACK_ARRAY32 then bindr (mp_load_u32 s) (\<lambda>(r, s). Inr (ucast r, s))
       else if sCode < FIXARRAY \<or> FIXSTR \<le> sCode then Inl BadFormat
       else Inr (ucast (sCode AND 0x0f), s))"

section \<open>Strings\<close>

definition mp_write_string :: "omemstream \<Rightarrow> byte list \<Rightarrow> omemstream" where
  "mp_write_string out str =
     (let n = (of_nat (length str) :: u64);
          out = (if n \<le> 0x1f then mp_store_u8 out (FIXSTR OR ucast n)
                 else if n \<le> 0xFF then mp_store_u8 (mp_store_u8 out PACK_STR8) (ucast n)
                 else if n \<le> 0xFFFF then mp_store_u16 (mp_store_u8 out PACK_STR16) (ucast n)
                 else mp_store_u32 (mp_store_u8 out PACK_STR32) (ucast n))
      in om_write out str)"

definition mp_read_string_size :: "imemstream \<Rightarrow> (u32 \<times> imemstream) result" where
  "mp_read_string_size s =
     bindr (mp_load_u8 s) (\<lambda>(sCode, s).
       if sCode = PACK_STR8 then bindr (mp_load_u8 s) (\<lambda>(r, s). Inr (ucast r, s))
       else if sCode = PACK_STR16 then bindr (mp_load_u16 s) (\<lambda>(r, s). Inr (ucast r, s))
       else if sCode = PACK_STR32 then bindr (mp_load_u32 s) (\<lambda>(r, s). Inr (ucast r, s))
       else if sCode < FIXSTR \<or> NIL \<le> sCode then Inl BadFormat
       else Inr (ucast (sCode AND 0x1f), s))"

definition mp_read_string :: "imemstream \<Rightarrow> (byte list \<times> imemstream) result" where
  "mp_read_string s =
     bindr (mp_read_string_size s) (\<lambda>(sStringSize, s). im_substring (ucast sStringSize) s)"

section \<open>Arrays and maps\<close>

definition mp_write_array :: "(omemstream \<Rightarrow> 'a \<Rightarrow> omemstream) \<Rightarrow> omemstream \<Rightarrow> 'a list \<Rightarrow> omemstream" where
  "mp_write_array wr out xs = foldl wr (mp_write_array_size out (of_nat (length xs))) xs"

text \<open>
  The sizes are converted to \<open>int\<close>: a size of \<open>2^31\<close> or more becomes negative, \<open>resize\<close> of a
  vector then throws, and the loop over a map does not run. The loops are the generic
  \<open>read_n\<close> and \<open>read_entries\<close>.
\<close>

definition mp_parse_vector ::
    "(imemstream \<Rightarrow> ('a \<times> imemstream) result) \<Rightarrow> imemstream \<Rightarrow> ('a list \<times> imemstream) result" where
  "mp_parse_vector p s =
     bindr (mp_read_array_size s) (\<lambda>(n, s).
       if sint n < 0 then Inl LengthError else read_n (nat (sint n)) p s)"

definition mp_parse_map ::
    "('k \<Rightarrow> 'k \<Rightarrow> bool) \<Rightarrow> (imemstream \<Rightarrow> ('k \<times> imemstream) result) \<Rightarrow>
     (imemstream \<Rightarrow> ('v \<times> imemstream) result) \<Rightarrow> ('k \<times> 'v) list \<Rightarrow> imemstream
     \<Rightarrow> (('k \<times> 'v) list \<times> imemstream) result" where
  "mp_parse_map lt pk pv m s =
     bindr (mp_read_map_size s) (\<lambda>(n, s). read_entries (nat (sint n)) (map_emplace lt) pk pv m s)"

section \<open>What the loads see\<close>

lemma im_read_bytes:
  assumes "im_ok s" and "im_unread s = bs @ r" and "unat n = length bs"
  shows "\<exists>s'. im_read n s = Inr (bs, s') \<and> im_ok s' \<and> im_unread s' = r"
  using mem0.read_any [OF assms] by (simp add: mem_reader_def)

definition reads :: "(imemstream \<Rightarrow> ('a \<times> imemstream) result) \<Rightarrow> byte list \<Rightarrow> 'a \<Rightarrow> bool" where
  "reads rd bs v \<longleftrightarrow> (\<forall>s r. im_ok s \<longrightarrow> im_unread s = bs @ r \<longrightarrow>
     (\<exists>s'. rd s = Inr (v, s') \<and> im_ok s' \<and> im_unread s' = r))"

lemma readsI:
  "(\<And>s r. im_ok s \<Longrightarrow> im_unread s = bs @ r \<Longrightarrow> \<exists>s'. rd s = Inr (v, s') \<and> im_ok s' \<and> im_unread s' = r)
   \<Longrightarrow> reads rd bs v"
  by (simp add: reads_def)

lemma readsE:
  assumes "reads rd bs v" and "im_ok s" and "im_unread s = bs @ r"
  obtains s' where "rd s = Inr (v, s')" "im_ok s'" "im_unread s' = r"
  using assms by (auto simp: reads_def)

lemma reads_bind:
  assumes "reads rd bs v" and "reads (f v) cs w"
  shows "reads (\<lambda>s. bindr (rd s) (\<lambda>(x, s). f x s)) (bs @ cs) w"
proof (rule readsI)
  fix s r
  assume s: "im_ok s" "im_unread s = (bs @ cs) @ r"
  then have "im_unread s = bs @ (cs @ r)" by simp
  from assms(1) s(1) this obtain t where t: "rd s = Inr (v, t)" "im_ok t" "im_unread t = cs @ r"
    by (rule readsE)
  from assms(2) t(2,3) obtain u where "f v t = Inr (w, u)" "im_ok u" "im_unread u = r"
    by (rule readsE)
  with t show "\<exists>s'. bindr (rd s) (\<lambda>(x, s). f x s) = Inr (w, s') \<and> im_ok s' \<and> im_unread s' = r"
    by simp
qed

lemma reads_return: "reads (\<lambda>s. Inr (v, s)) [] v"
  by (simp add: reads_def)

lemma reads_map:
  assumes "reads rd bs v"
  shows "reads (\<lambda>s. bindr (rd s) (\<lambda>(x, s). Inr (g x, s))) bs (g v)"
proof -
  have "reads (\<lambda>s. bindr (rd s) (\<lambda>(x, s). Inr (g x, s))) (bs @ []) (g v)"
    by (rule reads_bind [where f = "\<lambda>x s. Inr (g x, s)", OF assms]) (rule reads_return)
  then show ?thesis by simp
qed

lemma reads_im_read: "unat n = length bs \<Longrightarrow> reads (im_read n) bs bs"
  by (rule readsI) (rule im_read_bytes)

lemma reads_load:
  "unat n = k \<Longrightarrow> v < 256 ^ k \<Longrightarrow>
   reads (\<lambda>s. bindr (im_read n s) (\<lambda>(bs, s). Inr (of_nat (be_dec bs), s))) (be_enc k v) (of_nat v)"
  using reads_map [OF reads_im_read [of n "be_enc k v"], of "\<lambda>bs. of_nat (be_dec bs)"] by simp

lemma reads_load_u8: "reads mp_load_u8 [b] b"
  using reads_load [of 1 1 "unat b", where ?'a = "8 word"] unat_byte_less [of b]
  unfolding mp_load_u8_def by simp

lemma reads_load_u16: "v < 2 ^ 16 \<Longrightarrow> reads mp_load_u16 (be_enc 2 v) (of_nat v)"
  using reads_load [of 2 2 v, where ?'a = "64 word"] unfolding mp_load_u16_def by simp

lemma reads_load_u32: "v < 2 ^ 32 \<Longrightarrow> reads mp_load_u32 (be_enc 4 v) (of_nat v)"
  using reads_load [of 4 4 v, where ?'a = "64 word"] unfolding mp_load_u32_def by simp

lemma reads_load_u64: "v < 2 ^ 64 \<Longrightarrow> reads mp_load_u64 (be_enc 8 v) (of_nat v)"
  using reads_load [of 8 8 v, where ?'a = "64 word"] unfolding mp_load_u64_def by simp

text \<open>A reader that starts with a code byte: the byte, then what its branch reads.\<close>

lemma reads_code:
  assumes "reads (f b) cs v"
  shows "reads (\<lambda>s. bindr (mp_load_u8 s) (\<lambda>(x, s). f x s)) (b # cs) v"
  using reads_bind [where f = f, OF reads_load_u8 assms] by simp

lemma reads_code_map:
  assumes "reads rd cs v" and "\<And>s. f b s = bindr (rd s) (\<lambda>(r, s). Inr (g r, s))" and "w = g v"
  shows "reads (\<lambda>s. bindr (mp_load_u8 s) (\<lambda>(x, s). f x s)) (b # cs) w"
proof -
  have "f b = (\<lambda>s. bindr (rd s) (\<lambda>(r, s). Inr (g r, s)))"
    using assms(2) by (rule ext)
  then show ?thesis
    using reads_code [of f b cs w] reads_map [OF assms(1), of g] assms(3) by simp
qed

lemma reads_code_only:
  assumes "\<And>s. f b s = Inr (v, s)"
  shows "reads (\<lambda>s. bindr (mp_load_u8 s) (\<lambda>(x, s). f x s)) [b] v"
proof -
  have "f b = (\<lambda>s. Inr (v, s))"
    using assms by (rule ext)
  then show ?thesis
    using reads_code [of f b "[]" v] reads_return [of v] by simp
qed

section \<open>Round trips\<close>

lemmas mp_store_defs = mp_store_u8_def mp_store_u16_def mp_store_u32_def mp_store_u64_def
  om_put_def om_write_def

lemma mp_write_uint_append: "mp_write_uint out v = out @ mp_write_uint [] v"
  by (simp add: mp_write_uint_def mp_store_defs)

lemma mp_write_map_size_append: "mp_write_map_size out n = out @ mp_write_map_size [] n"
  by (simp add: mp_write_map_size_def mp_store_defs)

lemma mp_write_array_size_append: "mp_write_array_size out n = out @ mp_write_array_size [] n"
  by (simp add: mp_write_array_size_def mp_store_defs)

lemma mp_write_string_append: "mp_write_string out str = out @ mp_write_string [] str"
  by (simp add: mp_write_string_def mp_store_defs Let_def)

lemma unat_ucast_fits:
  "unat (v :: 'a::len word) < 2 ^ LENGTH('b) \<Longrightarrow> unat (ucast v :: 'b::len word) = unat v"
  by (simp add: unsigned_ucast_eq take_bit_nat_eq_self)

lemma ucast_back:
  "unat (v :: 'a::len word) < 2 ^ LENGTH('b) \<Longrightarrow> (ucast (ucast v :: 'b::len word) :: 'a word) = v"
  by (simp add: word_unat_eq_iff unsigned_ucast_eq unsigned_take_bit_eq take_bit_nat_eq_self)

lemma reads_uint: "reads (mp_read_uint w) (mp_write_uint [] v) (take_bit w v)"
proof -
  consider (a) "v < 0x80" | (b) "0x80 \<le> v" "v \<le> 0xFF" | (c) "0xFF < v" "v \<le> 0xFFFF"
    | (d) "0xFFFF < v" "v \<le> 0xFFFFFFFF" | (e) "0xFFFFFFFF < v"
    by (meson leI)
  then show ?thesis
  proof cases
    case a
    then have lt: "unat v < 128" by (simp add: word_less_nat_alt)
    have "unat (ucast v :: byte) = unat v"
      using lt by (intro unat_ucast_fits) simp
    then have "unat (ucast v :: byte) < 128" using lt by simp
    then show ?thesis
      using a lt ucast_back [of v, where ?'b = 8] unfolding mp_read_uint_def
      by (auto intro!: reads_code_only simp: mp_write_uint_def mp_store_defs word_less_nat_alt word_le_nat_alt)
  next
    case b
    then show ?thesis
      using ucast_back [of v, where ?'b = 8] unfolding mp_read_uint_def
      by (auto intro!: reads_code_map [where g = "\<lambda>r. take_bit w (ucast r)"] reads_load_u8
          simp: mp_write_uint_def mp_store_defs word_le_nat_alt word_less_nat_alt)
  next
    case c
    then show ?thesis
      using unat_ucast_fits [of v, where ?'b = 16] unfolding mp_read_uint_def
      by (auto intro!: reads_code_map [where g = "take_bit w"] reads_load_u16
          simp: mp_write_uint_def mp_store_defs word_le_nat_alt word_less_nat_alt)
  next
    case d
    then show ?thesis
      using unat_ucast_fits [of v, where ?'b = 32] unfolding mp_read_uint_def
      by (auto intro!: reads_code_map [where g = "take_bit w"] reads_load_u32
          simp: mp_write_uint_def mp_store_defs word_le_nat_alt word_less_nat_alt)
  next
    case e
    then show ?thesis
      using unat_u64_less [of v] unfolding mp_read_uint_def
      by (auto intro!: reads_code_map [where g = "take_bit w"] reads_load_u64
          simp: mp_write_uint_def mp_store_defs word_le_nat_alt word_less_nat_alt)
  qed
qed

lemma small_byte_cases:
  assumes "unat (x :: byte) < n"
  shows "x \<in> set (map of_nat [0..<n])"
  using assms by (auto intro!: image_eqI [of x of_nat "unat x"])

lemma fix_codes:
  "unat (x :: byte) < 16 \<Longrightarrow> (FIXMAP OR x) AND 0x0f = x \<and> FIXMAP \<le> FIXMAP OR x \<and> FIXMAP OR x < FIXARRAY"
  "unat (x :: byte) < 16 \<Longrightarrow> (FIXARRAY OR x) AND 0x0f = x \<and> FIXARRAY \<le> FIXARRAY OR x \<and> FIXARRAY OR x < FIXSTR"
  "unat (x :: byte) < 32 \<Longrightarrow> (FIXSTR OR x) AND 0x1f = x \<and> FIXSTR \<le> FIXSTR OR x \<and> FIXSTR OR x < NIL"
  by (drule small_byte_cases, simp add: upt_rec, elim disjE; simp)+

text \<open>The sizes of maps and arrays differ only in their code bytes.\<close>

lemma reads_size:
  assumes codes: "\<And>x :: byte. unat x < 16 \<Longrightarrow> (base OR x) AND 0x0f = x \<and> base \<le> base OR x \<and> base OR x < hi"
    and c: "hi \<le> c16" "hi \<le> c32" "c16 \<noteq> c32"
  shows "reads (\<lambda>s. bindr (mp_load_u8 s) (\<lambda>(sCode, s).
           if sCode = c16 then bindr (mp_load_u16 s) (\<lambda>(r, s). Inr (ucast r, s))
           else if sCode = c32 then bindr (mp_load_u32 s) (\<lambda>(r, s). Inr (ucast r, s))
           else if sCode < base \<or> hi \<le> sCode then Inl BadFormat
           else Inr (ucast (sCode AND 0x0f), s)))
     (if n \<le> 0x0f then mp_store_u8 [] (base OR ucast n)
      else if n \<le> 0xFFFF then mp_store_u16 (mp_store_u8 [] c16) (ucast n)
      else mp_store_u32 (mp_store_u8 [] c32) n) (n :: u32)"
proof -
  consider (a) "n \<le> 0x0f" | (b) "0x0f < n" "n \<le> 0xFFFF" | (c) "0xFFFF < n"
    by (meson leI)
  then show ?thesis
  proof cases
    case a
    then have "unat (ucast n :: byte) < 16"
      using unat_ucast_fits [of n, where ?'b = 8] by (simp add: word_le_nat_alt)
    from codes [OF this] show ?thesis
      using a c ucast_back [of n, where ?'b = 8]
      by (auto intro!: reads_code_only simp: mp_store_defs word_le_nat_alt word_less_nat_alt)
  next
    case b
    then show ?thesis
      using unat_ucast_fits [of n, where ?'b = 16]
      by (auto intro!: reads_code_map [where g = ucast] reads_load_u16
          simp: mp_store_defs word_le_nat_alt word_less_nat_alt word_unat_eq_iff
            unsigned_ucast_eq unsigned_of_nat unsigned_take_bit_eq take_bit_nat_eq_self)
  next
    case wide: c
    then show ?thesis
      using unsigned_less [of n, where 'a = nat] c
      by (auto intro!: reads_code_map [where g = ucast] reads_load_u32
          simp: mp_store_defs word_le_nat_alt word_less_nat_alt word_unat_eq_iff
            unsigned_ucast_eq unsigned_of_nat unsigned_take_bit_eq take_bit_nat_eq_self)
  qed
qed

lemma reads_map_size: "reads mp_read_map_size (mp_write_map_size [] n) n"
  unfolding mp_read_map_size_def mp_write_map_size_def by (rule reads_size) (simp_all add: fix_codes)

lemma reads_array_size: "reads mp_read_array_size (mp_write_array_size [] n) n"
  unfolding mp_read_array_size_def mp_write_array_size_def by (rule reads_size) (simp_all add: fix_codes)

lemma im_substring_fits:
  assumes "im_ok s" and "unat n \<le> length (im_unread s)"
  shows "im_substring n s = Inr (take (unat n) (im_unread s), s\<lparr>m_Offset := m_Offset s + n\<rparr>)"
  using im_ensure_fits(1) [OF assms] assms(1)
  by (simp add: im_substring_def sv_substr_def im_unread_def im_ok_def)

lemma reads_substring: "unat n = length bs \<Longrightarrow> reads (im_substring n) bs bs"
proof (rule readsI)
  fix s r
  assume n: "unat n = length bs" and s: "im_ok s" "im_unread s = bs @ r"
  then have "unat n \<le> length (im_unread s)" by simp
  from im_substring_fits [OF s(1) this] im_read_fits(2,3) [OF s(1) this] n s
  show "\<exists>s'. im_substring n s = Inr (bs, s') \<and> im_ok s' \<and> im_unread s' = r"
    by simp
qed

lemma reads_string:
  assumes "length str < 2 ^ 32"
  shows "reads mp_read_string (mp_write_string [] str) str"
proof -
  let ?n = "of_nat (length str) :: u64"
  let ?h = "if ?n \<le> 0x1f then mp_store_u8 [] (FIXSTR OR ucast ?n)
                 else if ?n \<le> 0xFF then mp_store_u8 (mp_store_u8 [] PACK_STR8) (ucast ?n)
                 else if ?n \<le> 0xFFFF then mp_store_u16 (mp_store_u8 [] PACK_STR16) (ucast ?n)
                 else mp_store_u32 (mp_store_u8 [] PACK_STR32) (ucast ?n)"
  have un: "unat ?n = length str" using assms by (simp add: unat_of_nat)
  have byte: "length str < 256 \<Longrightarrow> ucast (ucast ?n :: byte) = (of_nat (length str) :: u32)"
    by (simp add: word_unat_eq_iff unsigned_ucast_eq unsigned_of_nat unsigned_take_bit_eq
        take_bit_nat_eq_self)
  have wide: "ucast ?n = (of_nat (length str) :: u32)"
    using assms by (simp add: word_unat_eq_iff unsigned_ucast_eq unsigned_of_nat take_bit_nat_eq_self)
  consider (a) "?n \<le> 0x1f" | (b) "0x1f < ?n" "?n \<le> 0xFF" | (c) "0xFF < ?n" "?n \<le> 0xFFFF"
    | (d) "0xFFFF < ?n" by (meson leI)
  then have "reads mp_read_string_size ?h (of_nat (length str))"
  proof cases
    case a
    then have "unat (ucast ?n :: byte) < 32"
      using unat_ucast_fits [of ?n, where ?'b = 8] un by (simp add: word_le_nat_alt)
    then show ?thesis
      using a un byte fix_codes(3) [of "ucast ?n"] unfolding mp_read_string_size_def
      by (auto intro!: reads_code_only simp: mp_store_defs word_le_nat_alt word_less_nat_alt)
  next
    case b
    then show ?thesis
      using un byte unfolding mp_read_string_size_def
      by (auto intro!: reads_code_map [where g = ucast] reads_load_u8
          simp: mp_store_defs word_le_nat_alt word_less_nat_alt)
  next
    case c
    then show ?thesis
      using un wide unat_ucast_fits [of ?n, where ?'b = 16] unfolding mp_read_string_size_def
      by (auto intro!: reads_code_map [where g = ucast] reads_load_u16
          simp: mp_store_defs word_le_nat_alt word_less_nat_alt)
  next
    case d
    then show ?thesis
      using un wide assms unat_ucast_fits [of ?n, where ?'b = 32] unfolding mp_read_string_size_def
      by (auto intro!: reads_code_map [where g = ucast] reads_load_u32
          simp: mp_store_defs word_le_nat_alt word_less_nat_alt)
  qed
  then have "reads mp_read_string (?h @ str) str"
    unfolding mp_read_string_def
    by (rule reads_bind) (use assms in \<open>auto intro!: reads_substring simp: unsigned_ucast_eq unsigned_of_nat take_bit_nat_eq_self\<close>)
  then show ?thesis by (simp add: mp_write_string_def Let_def om_write_def)
qed

section \<open>Items that can be written and parsed\<close>

locale mp_codec =
  fixes wr :: "omemstream \<Rightarrow> 'a \<Rightarrow> omemstream"
    and rd :: "imemstream \<Rightarrow> ('a \<times> imemstream) result"
    and valid :: "'a \<Rightarrow> bool"
  assumes wr_append: "wr out x = out @ wr [] x"
    and wr_rd: "valid x \<Longrightarrow> reads rd (wr [] x) x"
begin

lemma reads_read_n: "list_all valid xs \<Longrightarrow> reads (read_n (length xs) rd) (concat (map (wr []) xs)) xs"
proof (induction xs)
  case Nil
  have "read_n 0 rd = (\<lambda>s. Inr ([], s))" by (rule ext) simp
  then show ?case using reads_return [of "[]"] by simp
next
  case (Cons x xs)
  have "reads (\<lambda>s. bindr (read_n (length xs) rd s) (\<lambda>(ys, s). Inr (x # ys, s))) (concat (map (wr []) xs)) (x # xs)"
    using Cons by (intro reads_map [where g = "\<lambda>ys. x # ys"]) simp
  then have "reads (\<lambda>s. bindr (rd s) (\<lambda>(x, s). bindr (read_n (length xs) rd s) (\<lambda>(ys, s). Inr (x # ys, s))))
      (wr [] x @ concat (map (wr []) xs)) (x # xs)"
    using wr_rd [of x] Cons.prems by (intro reads_bind [where f = "\<lambda>x s. bindr (read_n (length xs) rd s) (\<lambda>(ys, s). Inr (x # ys, s))"]) auto
  moreover have "read_n (length (x # xs)) rd
      = (\<lambda>s. bindr (rd s) (\<lambda>(x, s). bindr (read_n (length xs) rd s) (\<lambda>(ys, s). Inr (x # ys, s))))"
    by (rule ext) simp
  ultimately show ?case by simp
qed

lemma mp_write_array_eq:
  "mp_write_array wr out xs = out @ mp_write_array_size [] (of_nat (length xs)) @ concat (map (wr []) xs)"
  using foldl_emit [of wr, OF wr_append] mp_write_array_size_append [of out]
  by (simp add: mp_write_array_def)

lemma reads_array:
  assumes "list_all valid xs" and "length xs < 2 ^ 31"
  shows "reads (mp_parse_vector rd) (mp_write_array wr [] xs) xs"
proof -
  have n: "sint (of_nat (length xs) :: u32) = int (length xs)"
    using assms(2) by (simp add: signed_of_nat signed_take_bit_int_eq_self)
  have "reads (\<lambda>s. bindr (mp_read_array_size s) (\<lambda>(n, s).
         if sint n < 0 then Inl LengthError else read_n (nat (sint n)) rd s))
       (mp_write_array_size [] (of_nat (length xs)) @ concat (map (wr []) xs)) xs"
    by (rule reads_bind [OF reads_array_size]) (use n reads_read_n [OF assms(1)] in simp)
  then show ?thesis
    by (simp add: mp_parse_vector_def [abs_def] mp_write_array_eq)
qed

lemma array_codec: "mp_codec (mp_write_array wr) (mp_parse_vector rd) (\<lambda>xs. list_all valid xs \<and> length xs < 2 ^ 31)"
proof
  show "mp_write_array wr out xs = out @ mp_write_array wr [] xs" for out xs
    by (simp add: mp_write_array_eq)
qed (use reads_array in blast)

end

interpretation mp_u64: mp_codec mp_write_uint "mp_read_uint 64" "\<lambda>_. True"
proof
  show "reads (mp_read_uint 64) (mp_write_uint [] x) x" for x
    using reads_uint [of 64 x] by simp
qed (rule mp_write_uint_append)

interpretation mp_u32: mp_codec "\<lambda>out v. mp_write_uint out (ucast v)"
  "\<lambda>s. bindr (mp_read_uint 32 s) (\<lambda>(v, s). Inr (ucast v :: u32, s))" "\<lambda>_. True"
proof
  fix x :: u32
  have "ucast (take_bit 32 (ucast x :: u64)) = x"
    using unsigned_less [of x, where 'a = nat]
    by (simp add: word_unat_eq_iff unsigned_ucast_eq unsigned_take_bit_eq take_bit_nat_eq_self)
  then show "reads (\<lambda>s. bindr (mp_read_uint 32 s) (\<lambda>(v, s). Inr (ucast v :: u32, s))) (mp_write_uint [] (ucast x)) x"
    using reads_map [OF reads_uint [of 32 "ucast x"], of "\<lambda>v. ucast v :: u32"] by simp
qed (rule mp_write_uint_append)

interpretation mp_string: mp_codec mp_write_string mp_read_string "\<lambda>str. length str < 2 ^ 32"
  using reads_string by unfold_locales (auto intro: mp_write_string_append)

interpretation mp_strings: mp_codec "mp_write_array mp_write_string" "mp_parse_vector mp_read_string"
  "\<lambda>xs. list_all (\<lambda>str. length str < 2 ^ 32) xs \<and> length xs < 2 ^ 31"
  by (rule mp_string.array_codec)

section \<open>Arbitrary input\<close>

abbreviation im_safe :: "(imemstream \<Rightarrow> ('a \<times> imemstream) result) \<Rightarrow> bool" where
  "im_safe \<equiv> safe_reader im_unread im_ok"

lemma good_exn_more [simp]: "good_exn BadFormat" "good_exn OutOfRange" "good_exn BadTag" "good_exn BadInput"
  by (simp_all add: good_exn_def)

lemma safe_im_read [safe_intro]: "unat n < 2 ^ 63 \<Longrightarrow> im_safe (im_read n)"
  using mem0.safe_rd_read [of n] by (simp add: mem_reader_def)

lemma safe_im_substring [safe_intro]:
  assumes "unat n < 2 ^ 63"
  shows "im_safe (im_substring n)"
  unfolding safe_reader_def
proof (intro allI impI)
  fix s
  assume s: "im_ok s"
  show "safe_at im_unread im_ok s (im_substring n s)"
  proof (cases "unat n \<le> length (im_unread s)")
    case True
    with im_substring_fits [OF s True] im_read_fits [OF s True] show ?thesis by (simp add: safe_at_def)
  next
    case False
    then have "im_ensure n s = Inl EndOfBuffer"
      using s assms by (intro im_ensure_short) (auto simp: im_ok_def)
    then show ?thesis by (simp add: safe_at_def im_substring_def)
  qed
qed

lemma safe_mp_loads [safe_intro]:
  "im_safe mp_load_u8" "im_safe mp_load_u16" "im_safe mp_load_u32" "im_safe mp_load_u64"
  unfolding mp_load_u8_def [abs_def] mp_load_u16_def [abs_def] mp_load_u32_def [abs_def] mp_load_u64_def [abs_def]
  by (intro safe_intro; simp)+

lemma safe_mp_read_uint [safe_intro]: "im_safe (mp_read_uint w)"
  unfolding mp_read_uint_def [abs_def] by (intro safe_intro; simp)

lemma safe_mp_sizes [safe_intro]:
  "im_safe mp_read_map_size" "im_safe mp_read_array_size" "im_safe mp_read_string_size"
  unfolding mp_read_map_size_def [abs_def] mp_read_array_size_def [abs_def] mp_read_string_size_def [abs_def]
  by (intro safe_intro; simp)+

lemma safe_mp_read_string [safe_intro]: "im_safe mp_read_string"
  unfolding mp_read_string_def [abs_def]
proof (rule safe_bind [where f = "\<lambda>n. im_substring (ucast n)"])
  fix x :: u32
  have "unat (ucast x :: u64) < 2 ^ 32"
    using unsigned_less [of x, where 'a = nat] by (simp add: unsigned_ucast_eq take_bit_nat_eq_self)
  then show "im_safe (im_substring (ucast x))" by (intro safe_intro) simp
qed (rule safe_mp_sizes)

lemma safe_mp_parse_vector [safe_intro]: "im_safe p \<Longrightarrow> im_safe (mp_parse_vector p)"
  unfolding mp_parse_vector_def [abs_def] by (intro safe_intro; simp)

lemma safe_mp_parse_map [safe_intro]: "im_safe pk \<Longrightarrow> im_safe pv \<Longrightarrow> im_safe (mp_parse_map lt pk pv m)"
  unfolding mp_parse_map_def [abs_def] by (intro safe_intro; simp)

section \<open>Properties\<close>

text \<open>
  C29: what the MessagePack writers emit, the readers give back, followed by whatever comes
  next in the stream: unsigned integers (reduced to the width of the variable they are read
  into), map sizes, and arrays of strings.
\<close>

theorem msgpack_roundtrip:
  assumes "list_all (\<lambda>str. length str < 2 ^ 32) strs" and "length strs < 2 ^ 31"
  shows "reads (mp_read_uint w) (mp_write_uint [] v) (take_bit w v)
    \<and> reads mp_read_map_size (mp_write_map_size [] n) n
    \<and> reads (mp_parse_vector mp_read_string) (mp_write_array mp_write_string [] strs) strs"
  using reads_uint reads_map_size mp_strings.wr_rd assms by blast

theorem msgpack_roundtrip_witness:
  "\<exists>s'. mp_parse_vector mp_read_string (im_open (mp_write_array mp_write_string [] [[1, 2], []])) = Inr ([[1, 2], []], s')
        \<and> im_unread s' = []"
proof -
  have "list_all (\<lambda>str. length str < 2 ^ 32) [[1, 2], []]" "length [[1, 2], [] :: byte list] < 2 ^ 31" by simp_all
  from msgpack_roundtrip [OF this, of 0 0 0]
  have "reads (mp_parse_vector mp_read_string) (mp_write_array mp_write_string [] [[1, 2], []]) [[1, 2], []]" by blast
  moreover have "im_ok (im_open (mp_write_array mp_write_string [] [[1, 2], []]))"
    by (intro im_ok_open) (simp add: mp_write_array_def mp_write_string_def mp_write_array_size_def mp_store_defs Let_def)
  ultimately show ?thesis by (auto elim!: readsE)
qed

end
