(* ===== verification/Tarantool.thy ===== *)
theory Tarantool
  imports MsgPack
begin

text \<open>
  The Tarantool client protocol of \<open>asio_tnt\<close>: the packets of \<open>Protocol.hpp\<close> and
  \<open>Message.hpp\<close> over the MessagePack codec, and the table of outstanding calls of
  \<open>ReplyWaiter.hpp\<close>. The waiter table is used under an external lock, so its operations are
  atomic; the handlers it calls are recorded in order.
\<close>

section \<open>Packets\<close>

definition protocol_error :: exn where
  "protocol_error = NetworkError ''protocol error''"

abbreviation IPROTO_REQUEST_TYPE :: u64 where "IPROTO_REQUEST_TYPE \<equiv> 0x00"
abbreviation IPROTO_SYNC :: u64 where "IPROTO_SYNC \<equiv> 0x01"
abbreviation IPROTO_SCHEMA_VERSION :: u64 where "IPROTO_SCHEMA_VERSION \<equiv> 0x05"
abbreviation IPROTO_ERROR :: u64 where "IPROTO_ERROR \<equiv> 0x52"
abbreviation IPROTO_ERROR_24 :: u64 where "IPROTO_ERROR_24 \<equiv> 0x31"
abbreviation IPROTO_DATA :: u64 where "IPROTO_DATA \<equiv> 0x30"

abbreviation MP_ERROR_TYPE :: u64 where "MP_ERROR_TYPE \<equiv> 0x00"
abbreviation MP_ERROR_FILE :: u64 where "MP_ERROR_FILE \<equiv> 0x01"
abbreviation MP_ERROR_LINE :: u64 where "MP_ERROR_LINE \<equiv> 0x02"
abbreviation MP_ERROR_MESSAGE :: u64 where "MP_ERROR_MESSAGE \<equiv> 0x03"
abbreviation MP_ERROR_ERRNO :: u64 where "MP_ERROR_ERRNO \<equiv> 0x04"
abbreviation MP_ERROR_ERRCODE :: u64 where "MP_ERROR_ERRCODE \<equiv> 0x05"

text \<open>
  All three parsers read the size of a map into an \<open>int\<close> and then, that many times, a key
  into an \<open>int\<close> followed by the value its \<open>switch\<close> selects.
\<close>

fun tnt_fields :: "(u64 \<Rightarrow> 'a \<Rightarrow> imemstream \<Rightarrow> ('a \<times> imemstream) result) \<Rightarrow> nat \<Rightarrow> 'a \<Rightarrow> imemstream
    \<Rightarrow> ('a \<times> imemstream) result" where
  "tnt_fields field 0 x s = Inr (x, s)"
| "tnt_fields field (Suc n) x s =
     bindr (mp_read_uint 32 s) (\<lambda>(tmp, s).
     bindr (field tmp x s) (\<lambda>(x, s). tnt_fields field n x s))"

record tnt_header =
  h_code :: u64
  h_sync :: u64
  h_schema_id :: u64

definition header_field :: "u64 \<Rightarrow> tnt_header \<Rightarrow> imemstream \<Rightarrow> (tnt_header \<times> imemstream) result" where
  "header_field tmp h s =
     (if tmp = IPROTO_REQUEST_TYPE then bindr (mp_read_uint 64 s) (\<lambda>(v, s). Inr (h\<lparr>h_code := v\<rparr>, s))
      else if tmp = IPROTO_SYNC then bindr (mp_read_uint 64 s) (\<lambda>(v, s). Inr (h\<lparr>h_sync := v\<rparr>, s))
      else if tmp = IPROTO_SCHEMA_VERSION then bindr (mp_read_uint 64 s) (\<lambda>(v, s). Inr (h\<lparr>h_schema_id := v\<rparr>, s))
      else Inl protocol_error)"

definition header_from_msgpack :: "tnt_header \<Rightarrow> imemstream \<Rightarrow> (tnt_header \<times> imemstream) result" where
  "header_from_msgpack h s =
     bindr (mp_read_map_size s) (\<lambda>(size, s). tnt_fields header_field (nat (sint size)) h s)"

record tnt_detail =
  d_type :: "byte list"
  d_file :: "byte list"
  d_line :: u64
  d_message :: "byte list"
  d_err_no :: u64
  d_err_code :: u64

definition detail_field :: "u64 \<Rightarrow> tnt_detail \<Rightarrow> imemstream \<Rightarrow> (tnt_detail \<times> imemstream) result" where
  "detail_field tmp d s =
     (if tmp = MP_ERROR_TYPE then bindr (mp_read_string s) (\<lambda>(v, s). Inr (d\<lparr>d_type := v\<rparr>, s))
      else if tmp = MP_ERROR_FILE then bindr (mp_read_string s) (\<lambda>(v, s). Inr (d\<lparr>d_file := v\<rparr>, s))
      else if tmp = MP_ERROR_LINE then bindr (mp_read_uint 32 s) (\<lambda>(v, s). Inr (d\<lparr>d_line := v\<rparr>, s))
      else if tmp = MP_ERROR_MESSAGE then bindr (mp_read_string s) (\<lambda>(v, s). Inr (d\<lparr>d_message := v\<rparr>, s))
      else if tmp = MP_ERROR_ERRNO then bindr (mp_read_uint 32 s) (\<lambda>(v, s). Inr (d\<lparr>d_err_no := v\<rparr>, s))
      else if tmp = MP_ERROR_ERRCODE then bindr (mp_read_uint 32 s) (\<lambda>(v, s). Inr (d\<lparr>d_err_code := v\<rparr>, s))
      else Inl protocol_error)"

definition detail_from_msgpack :: "imemstream \<Rightarrow> (tnt_detail \<times> imemstream) result" where
  "detail_from_msgpack s =
     bindr (mp_read_map_size s) (\<lambda>(size, s).
       tnt_fields detail_field (nat (sint size)) \<lparr>d_type = [], d_file = [], d_line = 0, d_message = [],
         d_err_no = 0, d_err_code = 0\<rparr> s)"

type_synonym tnt_error = "(u64 \<times> tnt_detail list) list"

definition error_from_msgpack :: "imemstream \<Rightarrow> (tnt_error \<times> imemstream) result" where
  "error_from_msgpack s = mp_parse_map (<) (mp_read_uint 32) (mp_parse_vector detail_from_msgpack) [] s"

record tnt_reply =
  r_ok :: bool
  r_error :: "byte list"

definition reply_field :: "u64 \<Rightarrow> tnt_reply \<Rightarrow> imemstream \<Rightarrow> (tnt_reply \<times> imemstream) result" where
  "reply_field tmp r s =
     (if tmp = IPROTO_ERROR then bindr (error_from_msgpack s) (\<lambda>(_, s). Inr (r, s))
      else if tmp = IPROTO_ERROR_24 then bindr (mp_read_string s) (\<lambda>(v, s). Inr (r\<lparr>r_error := v\<rparr>, s))
      else if tmp = IPROTO_DATA then Inr (r\<lparr>r_ok := True\<rparr>, s)
      else Inl protocol_error)"

definition reply_from_msgpack :: "tnt_reply \<Rightarrow> imemstream \<Rightarrow> (tnt_reply \<times> imemstream) result" where
  "reply_from_msgpack r s =
     bindr (mp_read_map_size s) (\<lambda>(size, s).
       if sint size = 0 then Inr (r\<lparr>r_ok := True\<rparr>, s)
       else tnt_fields reply_field (nat (sint size)) r s)"

section \<open>Requests\<close>

record index_spec =
  ix_id :: u32
  ix_limit :: u32
  ix_offset :: u32
  ix_iterator :: u32

definition index_spec_default :: index_spec where
  "index_spec_default = \<lparr>ix_id = 0, ix_limit = 255, ix_offset = 0, ix_iterator = 0\<rparr>"

definition set_id :: "u32 \<Rightarrow> index_spec \<Rightarrow> index_spec" where
  "set_id x ix = ix\<lparr>ix_id := x\<rparr>"

definition set_limit :: "u32 \<Rightarrow> index_spec \<Rightarrow> index_spec" where
  "set_limit x ix = ix\<lparr>ix_limit := x\<rparr>"

definition set_offset :: "u32 \<Rightarrow> index_spec \<Rightarrow> index_spec" where
  "set_offset x ix = ix\<lparr>ix_offset := x\<rparr>"

definition set_iterator :: "u32 \<Rightarrow> index_spec \<Rightarrow> index_spec" where
  "set_iterator x ix = ix\<lparr>ix_iterator := x\<rparr>"

record protocol =
  p_Serial :: u64
  p_Space :: u32

definition CODE_SELECT :: u32 where "CODE_SELECT = 1"
definition CODE_INSERT :: u32 where "CODE_INSERT = 2"
definition CODE_DELETE :: u32 where "CODE_DELETE = 5"
definition CODE_CALL :: u32 where "CODE_CALL = 0xa"

lemmas code_defs = CODE_SELECT_def CODE_INSERT_def CODE_DELETE_def CODE_CALL_def

text \<open>The keys and arguments the overloads of \<open>write\<close> accept.\<close>

datatype tnt_value = TStr "byte list" | TUint u64

fun tnt_write :: "omemstream \<Rightarrow> tnt_value \<Rightarrow> omemstream" where
  "tnt_write out (TStr str) = mp_write_string out str"
| "tnt_write out (TUint v) = mp_write_uint out v"

text \<open>Code and serial are \<open>int\<close> parameters, extended to 64 bits with their sign when written.\<close>

definition formatHeader :: "omemstream \<Rightarrow> u32 \<Rightarrow> u32 \<Rightarrow> omemstream" where
  "formatHeader out aCode aSync =
     mp_write_uint (mp_write_uint (mp_write_uint (mp_write_uint (mp_write_map_size out 2)
       0) (scast aCode)) 1) (scast aSync)"

definition formatSelectBody :: "protocol \<Rightarrow> omemstream \<Rightarrow> index_spec \<Rightarrow> omemstream" where
  "formatSelectBody P out ix =
     (let out = mp_write_map_size out 6;
          out = mp_write_uint (mp_write_uint out 0x10) (ucast (p_Space P));
          out = mp_write_uint (mp_write_uint out 0x11) (ucast (ix_id ix));
          out = mp_write_uint (mp_write_uint out 0x12) (ucast (ix_limit ix));
          out = mp_write_uint (mp_write_uint out 0x13) (ucast (ix_offset ix));
          out = mp_write_uint (mp_write_uint out 0x14) (ucast (ix_iterator ix))
      in mp_write_array_size (mp_write_uint out 0x20) 1)"

definition formatInsertBody :: "protocol \<Rightarrow> omemstream \<Rightarrow> (omemstream \<Rightarrow> omemstream) \<Rightarrow> omemstream" where
  "formatInsertBody P out serialize =
     (let out = mp_write_map_size out 2;
          out = mp_write_uint (mp_write_uint out 0x10) (ucast (p_Space P))
      in serialize (mp_write_uint out 0x21))"

definition formatDeleteBody :: "protocol \<Rightarrow> omemstream \<Rightarrow> index_spec \<Rightarrow> omemstream" where
  "formatDeleteBody P out ix =
     (let out = mp_write_map_size out 3;
          out = mp_write_uint (mp_write_uint out 0x10) (ucast (p_Space P));
          out = mp_write_uint (mp_write_uint out 0x11) (ucast (ix_id ix))
      in mp_write_array_size (mp_write_uint out 0x20) 1)"

definition formatCallBody :: "omemstream \<Rightarrow> byte list \<Rightarrow> tnt_value list \<Rightarrow> omemstream" where
  "formatCallBody out aName aArgs =
     (let out = mp_write_map_size out 2;
          out = mp_write_string (mp_write_uint out 0x22) aName;
          out = mp_write_array_size (mp_write_uint out 0x21) (of_nat (length aArgs))
      in foldl tnt_write out aArgs)"

record request =
  rq_serial :: u64
  rq_body :: "byte list"

text \<open>\<open>m_Serial++\<close>, the header, then the body.\<close>

definition format_request :: "protocol \<Rightarrow> u32 \<Rightarrow> (omemstream \<Rightarrow> omemstream) \<Rightarrow> request \<times> protocol" where
  "format_request P code body =
     (let sSerial = p_Serial P
      in (\<lparr>rq_serial = sSerial, rq_body = body (formatHeader [] code (ucast sSerial))\<rparr>,
          P\<lparr>p_Serial := sSerial + 1\<rparr>))"

definition formatSelect :: "protocol \<Rightarrow> index_spec \<Rightarrow> tnt_value \<Rightarrow> request \<times> protocol" where
  "formatSelect P ix k = format_request P CODE_SELECT (\<lambda>out. tnt_write (formatSelectBody P out ix) k)"

definition formatInsert :: "protocol \<Rightarrow> (omemstream \<Rightarrow> omemstream) \<Rightarrow> request \<times> protocol" where
  "formatInsert P serialize = format_request P CODE_INSERT (\<lambda>out. formatInsertBody P out serialize)"

definition formatDelete :: "protocol \<Rightarrow> index_spec \<Rightarrow> tnt_value \<Rightarrow> request \<times> protocol" where
  "formatDelete P ix k = format_request P CODE_DELETE (\<lambda>out. tnt_write (formatDeleteBody P out ix) k)"

definition formatCall :: "protocol \<Rightarrow> byte list \<Rightarrow> tnt_value list \<Rightarrow> request \<times> protocol" where
  "formatCall P aName aArgs = format_request P CODE_CALL (\<lambda>out. formatCallBody out aName aArgs)"

section \<open>Frames (Message.hpp)\<close>

definition message_frame :: "byte list \<Rightarrow> byte list" where
  "message_frame aData = (0xce :: byte) # be_enc 4 (unat (of_nat (length aData) :: u32)) @ aData"

text \<open>\<open>Header::decode\<close> of the five bytes read first; its \<open>assert\<close> aborts the program.\<close>

definition message_decode :: "byte list \<Rightarrow> u64 result" where
  "message_decode hdr = (case hdr of
       [] \<Rightarrow> Inl Undefined
     | next # len \<Rightarrow> if next \<noteq> 0xce then Inl Terminate else Inr (of_nat (be_dec len)))"

section \<open>ReplyWaiter\<close>

datatype 'r outcome = Reply 'r | Failed exn

record 'h reply_waiter =
  rw_Waiters :: "(u64 \<times> 'h) list"
  rw_Timeouts :: "(u64 \<times> u64) list"
  rw_Error :: "exn option"

definition rw_init :: "'h reply_waiter" where
  "rw_init = \<lparr>rw_Waiters = [], rw_Timeouts = [], rw_Error = None\<rparr>"

definition rw_empty :: "'h reply_waiter \<Rightarrow> bool" where
  "rw_empty s \<longleftrightarrow> length (rw_Waiters s) \<noteq> 0"

definition rw_insert :: "u64 \<Rightarrow> u32 \<Rightarrow> u64 \<Rightarrow> 'h \<Rightarrow> 'h reply_waiter \<Rightarrow> 'h reply_waiter" where
  "rw_insert aSerial aTimeoutMs now h s =
     s\<lparr>rw_Waiters := omap_put aSerial h (rw_Waiters s),
       rw_Timeouts := multimap_insert (now + ucast aTimeoutMs) aSerial (rw_Timeouts s)\<rparr>"

definition rw_call :: "u64 \<Rightarrow> 'r outcome \<Rightarrow> 'h reply_waiter
    \<Rightarrow> bool \<times> ('h \<times> 'r outcome) list \<times> 'h reply_waiter" where
  "rw_call aSerial aResult s = (case map_of (rw_Waiters s) aSerial of
       None \<Rightarrow> (False, [], s)
     | Some h \<Rightarrow> (True, [(h, aResult)], s\<lparr>rw_Waiters := AList.delete aSerial (rw_Waiters s)\<rparr>))"

definition rw_flush_int :: "'h reply_waiter \<Rightarrow> ('h \<times> 'r outcome) list \<times> 'h reply_waiter" where
  "rw_flush_int s =
     (map (\<lambda>x. (snd x, Failed (case rw_Error s of Some e \<Rightarrow> e | None \<Rightarrow> Undefined))) (rw_Waiters s),
      s\<lparr>rw_Timeouts := [], rw_Waiters := []\<rparr>)"

definition timed_out :: exn where
  "timed_out = NetworkError ''timed out''"

fun rw_expire :: "u64 \<Rightarrow> (u64 \<times> u64) list \<Rightarrow> (u64 \<times> 'h) list
    \<Rightarrow> ('h \<times> 'r outcome) list \<times> (u64 \<times> u64) list \<times> (u64 \<times> 'h) list" where
  "rw_expire now [] w = ([], [], w)"
| "rw_expire now ((t, serial) # ts) w =
     (if t < now then
        (case map_of w serial of
           None \<Rightarrow> rw_expire now ts w
         | Some h \<Rightarrow> (let (calls, ts', w') = rw_expire now ts (AList.delete serial w)
                     in ((h, Failed timed_out) # calls, ts', w')))
      else ([], (t, serial) # ts, w))"

definition rw_on_timer :: "u64 \<Rightarrow> 'h reply_waiter \<Rightarrow> ('h \<times> 'r outcome) list \<times> 'h reply_waiter" where
  "rw_on_timer now s =
     (if rw_Error s \<noteq> None then rw_flush_int s
      else let (calls, ts, w) = rw_expire now (rw_Timeouts s) (rw_Waiters s)
           in (calls, s\<lparr>rw_Timeouts := ts, rw_Waiters := w\<rparr>))"

definition rw_flush :: "exn \<Rightarrow> 'h reply_waiter \<Rightarrow> ('h \<times> 'r outcome) list \<times> 'h reply_waiter" where
  "rw_flush e s = rw_flush_int (s\<lparr>rw_Error := Some e\<rparr>)"

definition rw_reset :: "'h reply_waiter \<Rightarrow> 'h reply_waiter" where
  "rw_reset s = s\<lparr>rw_Error := None\<rparr>"

section \<open>The header of a request\<close>

lemma reads_tnt_fields_0: "reads (tnt_fields field 0 x) [] x"
  using reads_return [of x] by (simp add: reads_def)

lemma reads_tnt_fields_Suc:
  assumes "reads (mp_read_uint 32) bs tmp" and "reads (field tmp x) cs y" and "reads (tnt_fields field n y) ds z"
  shows "reads (tnt_fields field (Suc n) x) (bs @ cs @ ds) z"
proof -
  have "reads (\<lambda>s. bindr (field tmp x s) (\<lambda>(x, s). tnt_fields field n x s)) (cs @ ds) z"
    using assms(2,3) by (rule reads_bind)
  from reads_bind [where f = "\<lambda>tmp s. bindr (field tmp x s) (\<lambda>(x, s). tnt_fields field n x s)", OF assms(1) this]
  show ?thesis by (simp add: reads_def)
qed

lemma reads_header_field:
  "reads (header_field IPROTO_REQUEST_TYPE h) (mp_write_uint [] v) (h\<lparr>h_code := v\<rparr>)"
  "reads (header_field IPROTO_SYNC h) (mp_write_uint [] v) (h\<lparr>h_sync := v\<rparr>)"
  using reads_map [OF mp_u64.wr_rd [of v], of "\<lambda>v. h\<lparr>h_code := v\<rparr>"]
    reads_map [OF mp_u64.wr_rd [of v], of "\<lambda>v. h\<lparr>h_sync := v\<rparr>"]
  by (simp_all add: header_field_def [abs_def])

lemma formatHeader_eq:
  "formatHeader out code sync = out @ mp_write_map_size [] 2 @ mp_write_uint [] 0 @ mp_write_uint [] (scast code)
     @ mp_write_uint [] 1 @ mp_write_uint [] (scast sync)"
  by (simp add: formatHeader_def mp_write_uint_append [of "mp_write_uint _ _"]
      mp_write_uint_append [of "_ @ _"] mp_write_uint_append [of "mp_write_map_size _ _"] mp_write_map_size_append [of out])

lemma reads_small_uint: "v < 0x80 \<Longrightarrow> reads (mp_read_uint 32) (mp_write_uint [] v) v"
proof -
  assume "v < 0x80"
  then have "take_bit 32 v = v"
    by (simp add: word_less_nat_alt word_unat_eq_iff unsigned_take_bit_eq take_bit_nat_eq_self)
  then show ?thesis using reads_uint [of 32 v] by simp
qed

lemma reads_header:
  "reads (header_from_msgpack h) (formatHeader [] code sync) (h\<lparr>h_code := scast code, h_sync := scast sync\<rparr>)"
proof -
  have "reads (tnt_fields header_field 2 h)
      (mp_write_uint [] 0 @ mp_write_uint [] (scast code) @ mp_write_uint [] 1 @ mp_write_uint [] (scast sync) @ [])
      (h\<lparr>h_code := scast code, h_sync := scast sync\<rparr>)"
    unfolding numeral_2_eq_2
    by (rule reads_tnt_fields_Suc [where field = header_field, OF reads_small_uint reads_header_field(1)
          reads_tnt_fields_Suc [where field = header_field, OF reads_small_uint reads_header_field(2)
            reads_tnt_fields_0]]) simp_all
  then have "reads (\<lambda>s. bindr (mp_read_map_size s) (\<lambda>(size, s). tnt_fields header_field (nat (sint size)) h s))
      (mp_write_map_size [] 2 @ mp_write_uint [] 0 @ mp_write_uint [] (scast code) @ mp_write_uint [] 1
        @ mp_write_uint [] (scast sync)) (h\<lparr>h_code := scast code, h_sync := scast sync\<rparr>)"
    by (intro reads_bind [OF reads_map_size]) simp
  then show ?thesis by (simp add: header_from_msgpack_def [abs_def] formatHeader_eq)
qed

text \<open>A request body only ever appends to the header.\<close>

definition appends :: "(omemstream \<Rightarrow> omemstream) \<Rightarrow> bool" where
  "appends f \<longleftrightarrow> (\<forall>out. f out = out @ f [])"

lemma format_request_header:
  assumes "appends body" and "length (rq_body (fst (format_request P code body))) < 2 ^ 63"
  shows "\<exists>s'. header_from_msgpack h (im_open (rq_body (fst (format_request P code body))))
           = Inr (h\<lparr>h_code := scast code, h_sync := scast (ucast (p_Serial P) :: u32)\<rparr>, s')
         \<and> im_unread s' = body []"
proof -
  let ?b = "rq_body (fst (format_request P code body))"
  have "?b = formatHeader [] code (ucast (p_Serial P)) @ body []"
    unfolding format_request_def Let_def fst_conv request.simps
    using assms(1) unfolding appends_def by (rule spec)
  then have "im_unread (im_open ?b) = formatHeader [] code (ucast (p_Serial P)) @ body []"
    by simp
  from readsE [OF reads_header [of h code "ucast (p_Serial P)"] im_ok_open [OF assms(2)] this]
  show ?thesis by blast
qed

lemma tnt_write_append: "tnt_write out v = out @ tnt_write [] v"
  by (cases v) (simp_all add: mp_write_string_append [of out] mp_write_uint_append [of out])

lemma append_pushes:
  "mp_write_uint (a @ b) v = a @ mp_write_uint b v"
  "mp_write_array_size (a @ b) n = a @ mp_write_array_size b n"
  "mp_write_string (a @ b) str = a @ mp_write_string b str"
  "tnt_write (a @ b) k = a @ tnt_write b k"
  "foldl tnt_write (a @ b) ks = a @ foldl tnt_write b ks"
  using mp_write_uint_append [of "a @ b"] mp_write_uint_append [of b]
    mp_write_array_size_append [of "a @ b"] mp_write_array_size_append [of b]
    mp_write_string_append [of "a @ b"] mp_write_string_append [of b]
    tnt_write_append [of "a @ b"] tnt_write_append [of b]
    foldl_emit [of tnt_write, OF tnt_write_append, of "a @ b"] foldl_emit [of tnt_write, OF tnt_write_append, of b]
  by (metis append_assoc)+

lemma appends_bodies:
  "appends (\<lambda>out. tnt_write (formatSelectBody P out ix) k)"
  "appends (\<lambda>out. tnt_write (formatDeleteBody P out ix) k)"
  "appends (\<lambda>out. formatCallBody out aName aArgs)"
  unfolding appends_def formatSelectBody_def formatDeleteBody_def formatCallBody_def Let_def
  by (rule allI, subst mp_write_map_size_append, simp only: append_pushes)+

lemma appends_insert:
  assumes "appends serialize"
  shows "appends (\<lambda>out. formatInsertBody P out serialize)"
  unfolding appends_def formatInsertBody_def Let_def
proof (rule allI, subst mp_write_map_size_append)
  fix out
  have "serialize (out @ b) = out @ serialize b" for b
    using assms unfolding appends_def by (metis append_assoc)
  then show "serialize (mp_write_uint (mp_write_uint (mp_write_uint (out @ mp_write_map_size [] 2) 0x10)
      (ucast (p_Space P))) 0x21) = out @ serialize (mp_write_uint (mp_write_uint (mp_write_uint
      (mp_write_map_size [] 2) 0x10) (ucast (p_Space P))) 0x21)"
    by (simp only: append_pushes)
qed

text \<open>The serial goes through an \<open>int\<close>.\<close>

lemma uint_sync: "uint (scast (ucast (x :: u64) :: u32) :: u64) = signed_take_bit 31 (uint x) mod 2 ^ 64"
  by (simp add: scast_eq uint_word_of_int signed_ucast_eq)

lemma sync_small: "x < 0x80000000 \<Longrightarrow> scast (ucast (x :: u64) :: u32) = x"
  unfolding word_less_def word_uint_eq_iff uint_sync
  using signed_take_bit_int_eq_self [of 31 "uint x"] uint_ge_0 [of x] by simp

lemma sync_large:
  assumes "0x80000000 \<le> x" and "x < 0xFFFFFFFF80000000"
  shows "scast (ucast (x :: u64) :: u32) \<noteq> x"
proof -
  define k where "k = signed_take_bit 31 (uint x)"
  have k: "- (2 ^ 31) \<le> k" "k < 2 ^ 31"
    unfolding k_def by (rule signed_take_bit_int_greater_eq_minus_exp, rule signed_take_bit_int_less_exp)
  have x: "2 ^ 31 \<le> uint x" "uint x < 2 ^ 64 - 2 ^ 31"
    using assms by (simp_all add: word_le_def word_less_def)
  have "k mod 2 ^ 64 \<noteq> uint x"
  proof (cases "0 \<le> k")
    case True
    then show ?thesis using k x by simp
  next
    case False
    then have "k mod 2 ^ 64 = k + 2 ^ 64"
      using k mod_pos_pos_trivial [of "k + 2 ^ 64" "2 ^ 64"] mod_add_self2 [of k "2 ^ 64"] by simp
    then show ?thesis using k x by simp
  qed
  then show ?thesis by (simp add: word_uint_eq_iff uint_sync k_def)
qed

section \<open>Arbitrary replies\<close>

lemma good_protocol_error [simp]: "good_exn protocol_error"
  by (simp add: good_exn_def protocol_error_def)

lemma safe_tnt_fields:
  assumes "\<And>tmp x. im_safe (field tmp x)"
  shows "im_safe (tnt_fields field n x)"
proof (induction n arbitrary: x)
  case 0
  show ?case by (rule safe_cong [OF safe_return]) (rule tnt_fields.simps)
next
  case (Suc n)
  then have "im_safe (\<lambda>s. bindr (mp_read_uint 32 s) (\<lambda>(tmp, s).
      bindr (field tmp x s) (\<lambda>(x, s). tnt_fields field n x s)))"
    using assms by (intro safe_bind safe_mp_read_uint)
  then show ?case by (rule safe_cong) (rule tnt_fields.simps)
qed

lemma safe_header_field: "im_safe (header_field tmp h)"
  unfolding header_field_def [abs_def] by (intro safe_intro; simp)

lemma safe_header [safe_intro]: "im_safe (header_from_msgpack h)"
  unfolding header_from_msgpack_def [abs_def] by (intro safe_intro safe_tnt_fields safe_header_field)

lemma safe_detail_field: "im_safe (detail_field tmp d)"
  unfolding detail_field_def [abs_def] by (intro safe_intro; simp)

lemma safe_detail [safe_intro]: "im_safe detail_from_msgpack"
  unfolding detail_from_msgpack_def [abs_def] by (intro safe_intro safe_tnt_fields safe_detail_field)

lemma safe_error [safe_intro]: "im_safe error_from_msgpack"
  unfolding error_from_msgpack_def [abs_def] by (intro safe_intro)

lemma safe_reply_field: "im_safe (reply_field tmp r)"
  unfolding reply_field_def [abs_def] by (intro safe_intro; simp)

lemma safe_reply [safe_intro]: "im_safe (reply_from_msgpack r)"
  unfolding reply_from_msgpack_def [abs_def] by (intro safe_intro safe_tnt_fields safe_reply_field)

lemma im_safe_result: "im_safe f \<Longrightarrow> im_ok s \<Longrightarrow> f s \<noteq> Inl Undefined \<and> f s \<noteq> Inl OutOfFuel"
  by (cases "f s") (force simp: safe_reader_def safe_at_def good_exn_def)+

section \<open>The table of outstanding calls\<close>

datatype ('h, 'r) rw_op =
    RInsert u64 u32 u64 'h
  | RCall u64 "'r outcome"
  | RTimer u64
  | RFlush exn
  | RReset

fun rw_step :: "('h, 'r) rw_op \<Rightarrow> 'h reply_waiter \<Rightarrow> ('h \<times> 'r outcome) list \<times> 'h reply_waiter" where
  "rw_step (RInsert serial timeout now h) s = ([], rw_insert serial timeout now h s)"
| "rw_step (RCall serial r) s = snd (rw_call serial r s)"
| "rw_step (RTimer now) s = rw_on_timer now s"
| "rw_step (RFlush e) s = rw_flush e s"
| "rw_step RReset s = ([], rw_reset s)"

fun rw_run :: "('h, 'r) rw_op list \<Rightarrow> 'h reply_waiter \<Rightarrow> ('h \<times> 'r outcome) list \<times> 'h reply_waiter" where
  "rw_run [] s = ([], s)"
| "rw_run (a # as) s = (let (c, s) = rw_step a s; (cs, s) = rw_run as s in (c @ cs, s))"

fun inserted :: "('h, 'r) rw_op \<Rightarrow> (u64 \<times> 'h) list" where
  "inserted (RInsert serial timeout now h) = [(serial, h)]"
| "inserted _ = []"

text \<open>Both tables are in key order and every waiter has a deadline.\<close>

definition rw_ok :: "'h reply_waiter \<Rightarrow> bool" where
  "rw_ok s \<longleftrightarrow> omap_ok (rw_Waiters s) \<and> sorted (map fst (rw_Timeouts s))
     \<and> fst ` set (rw_Waiters s) \<subseteq> snd ` set (rw_Timeouts s)"

definition expired :: "u64 \<Rightarrow> (u64 \<times> u64) list \<Rightarrow> u64 set" where
  "expired now ts = snd ` {p \<in> set ts. fst p < now}"

lemma expired_Cons: "expired now ((t, k) # ts) = (if t < now then insert k (expired now ts) else expired now ts)"
  by (auto simp: expired_def image_iff)

lemma not_expired: "k \<notin> expired now ts \<longleftrightarrow> (\<forall>t. (t, k) \<in> set ts \<longrightarrow> now \<le> t)"
  by (force simp: expired_def not_less)

lemma keys_filter: "k \<in> fst ` set (filter (\<lambda>p. P (fst p)) m) \<longleftrightarrow> k \<in> fst ` set m \<and> P k"
  by force

lemma omap_ok_distinct: "omap_ok m \<Longrightarrow> distinct (map fst m)"
  by (simp add: strict_sorted_iff)

lemma delete_keys_subset: "fst ` set (AList.delete k m) \<subseteq> fst ` set m"
  by (simp add: AList.delete_eq image_mono)

lemma delete_conserves:
  "distinct (map fst m) \<Longrightarrow> map_of m k = Some h \<Longrightarrow>
   mset (map snd m) = add_mset h (mset (map snd (AList.delete k m)))"
proof (induction m)
  case (Cons p m)
  have "AList.delete k m = m" if "k \<notin> fst ` set m"
    using that by (simp add: AList.delete_eq filter_id_conv image_iff) fastforce
  with Cons show ?case by (cases p) (auto split: if_splits)
qed simp

lemma rw_expire_waiters:
  "sorted (map fst ts) \<Longrightarrow> rw_expire now ts w = (calls, ts', w') \<Longrightarrow>
   w' = filter (\<lambda>p. fst p \<notin> expired now ts) w \<and> ts' = filter (\<lambda>p. \<not> fst p < now) ts"
proof (induction ts arbitrary: w calls)
  case (Cons p ts)
  obtain t k where p: "p = (t, k)" by force
  show ?case
  proof (cases "t < now")
    case False
    then have "\<forall>q\<in>set ts. \<not> fst q < now" using Cons.prems(1) p by force
    then have "expired now (p # ts) = {}" "filter (\<lambda>p. \<not> fst p < now) ts = ts"
      using False p by (auto simp: expired_def filter_id_conv)
    then show ?thesis using False p Cons.prems(2) by auto
  next
    case True
    then have "k \<notin> fst ` set w" if "map_of w k = None"
      using that by (simp add: map_of_eq_None_iff)
    then show ?thesis
      using Cons.IH [of w] Cons.IH [of "AList.delete k w"] Cons.prems True p
      by (force simp: expired_Cons AList.delete_eq split: option.splits prod.splits
          intro!: filter_cong)
  qed
qed (simp add: expired_def)

lemma rw_expire_conserves:
  "omap_ok w \<Longrightarrow> rw_expire now ts w = (calls, ts', w') \<Longrightarrow>
   mset (map fst calls) + mset (map snd w') = mset (map snd w) \<and> omap_ok w'"
proof (induction now ts w arbitrary: calls rule: rw_expire.induct)
  case (2 now t serial ts w)
  then show ?case
    using delete_conserves [OF omap_ok_distinct, of w serial]
    by (fastforce split: if_splits option.splits prod.splits)
qed simp

text \<open>One step: what it inserts is either still waiting or has been called.\<close>

lemma rw_call_ok:
  assumes "rw_ok s" and "rw_call k r s = (b, c, s')"
  shows "rw_ok s' \<and> mset (map fst c) + mset (map snd (rw_Waiters s')) = mset (map snd (rw_Waiters s))
    \<and> fst ` set (rw_Waiters s') \<subseteq> fst ` set (rw_Waiters s)"
proof (cases "map_of (rw_Waiters s) k")
  case None
  then show ?thesis using assms by (simp add: rw_call_def)
next
  case (Some h)
  then have s': "s' = s\<lparr>rw_Waiters := AList.delete k (rw_Waiters s)\<rparr>" and c: "c = [(h, r)]"
    using assms(2) by (auto simp: rw_call_def)
  have "distinct (map fst (rw_Waiters s))"
    using assms(1) omap_ok_distinct [of "rw_Waiters s"] by (simp add: rw_ok_def)
  from delete_conserves [OF this Some] show ?thesis
    using assms(1) delete_keys_subset [of k "rw_Waiters s"] subset_trans [OF delete_keys_subset [of k "rw_Waiters s"]]
    by (simp add: rw_ok_def s' c del: mset_map)
qed

lemma rw_flush_int_ok:
  assumes "rw_flush_int s = (c, s')"
  shows "rw_ok s' \<and> mset (map fst c) + mset (map snd (rw_Waiters s')) = mset (map snd (rw_Waiters s))
    \<and> fst ` set (rw_Waiters s') \<subseteq> fst ` set (rw_Waiters s)"
  using assms by (auto simp: rw_flush_int_def rw_ok_def multiset.map_comp comp_def)

lemma rw_timer_ok:
  assumes "rw_ok s" and "rw_on_timer now s = (c, s')"
  shows "rw_ok s' \<and> mset (map fst c) + mset (map snd (rw_Waiters s')) = mset (map snd (rw_Waiters s))
    \<and> fst ` set (rw_Waiters s') \<subseteq> fst ` set (rw_Waiters s)"
proof (cases "rw_Error s")
  case (Some e)
  then show ?thesis using assms rw_flush_int_ok [of s c s'] by (simp add: rw_on_timer_def)
next
  case None
  obtain ts w where e: "rw_expire now (rw_Timeouts s) (rw_Waiters s) = (c, ts, w)"
    and s': "s' = s\<lparr>rw_Timeouts := ts, rw_Waiters := w\<rparr>"
    using assms(2) None by (auto simp: rw_on_timer_def split: prod.splits)
  have w: "w = filter (\<lambda>p. fst p \<notin> expired now (rw_Timeouts s)) (rw_Waiters s)"
    and ts: "ts = filter (\<lambda>p. \<not> fst p < now) (rw_Timeouts s)"
    using rw_expire_waiters [OF _ e] assms(1) by (auto simp: rw_ok_def)
  have "sorted (map fst ts)" and "fst ` set w \<subseteq> snd ` set ts"
    using assms(1) by (auto simp: ts w rw_ok_def sorted_filter expired_def image_iff) fastforce+
  then show ?thesis
    using rw_expire_conserves [OF _ e] assms(1) by (auto simp: s' rw_ok_def w)
qed

lemma rw_insert_ok:
  assumes "rw_ok s"
  shows "rw_ok (rw_insert k d now h s)"
    and "fst ` set (rw_Waiters (rw_insert k d now h s)) = insert k (fst ` set (rw_Waiters s))"
    and "k \<notin> fst ` set (rw_Waiters s) \<Longrightarrow>
      mset (map snd (rw_Waiters (rw_insert k d now h s))) = add_mset h (mset (map snd (rw_Waiters s)))"
  using assms omap_put_fresh [of k "rw_Waiters s" h]
  by (simp_all add: rw_insert_def rw_ok_def multimap_insert_sorted subset_insertI2)

lemma rw_step_all:
  assumes "rw_ok s" and "rw_step a s = (c, s')"
  shows "rw_ok s' \<and> fst ` set (rw_Waiters s') \<subseteq> fst ` set (rw_Waiters s) \<union> fst ` set (inserted a)
    \<and> (fst ` set (inserted a) \<inter> fst ` set (rw_Waiters s) = {} \<longrightarrow>
       mset (map fst c) + mset (map snd (rw_Waiters s')) = mset (map snd (rw_Waiters s)) + mset (map snd (inserted a)))"
proof (cases a)
  case (RInsert k d now h)
  then have "s' = rw_insert k d now h s" "c = []" using assms(2) by simp_all
  then show ?thesis using RInsert rw_insert_ok [OF assms(1), of k d now h] by simp
next
  case (RCall k r)
  then obtain b where "rw_call k r s = (b, c, s')" using assms(2) by (cases "rw_call k r s") simp
  from rw_call_ok [OF assms(1) this] RCall show ?thesis by simp
next
  case (RTimer now)
  then show ?thesis using assms(2) rw_timer_ok [OF assms(1), of now c s'] by simp
next
  case (RFlush e)
  then show ?thesis using assms(2) rw_flush_int_ok [of "s\<lparr>rw_Error := Some e\<rparr>" c s'] by (simp add: rw_flush_def)
next
  case RReset
  then have "s' = rw_reset s" "c = []" using assms(2) by simp_all
  then show ?thesis using RReset assms(1) by (simp add: rw_reset_def rw_ok_def)
qed

lemmas rw_step_ok = rw_step_all [THEN conjunct1]
  rw_step_all [THEN conjunct2, THEN conjunct1] rw_step_all [THEN conjunct2, THEN conjunct2, THEN mp]

lemma fresh_step:
  "A \<inter> B = {} \<Longrightarrow> (A \<union> B) \<inter> W = {} \<Longrightarrow> W1 \<subseteq> W \<union> A \<Longrightarrow> A \<inter> W = {} \<and> B \<inter> W1 = {}"
  by blast

lemma rw_run_ok: "rw_ok s \<Longrightarrow> rw_run as s = (c, s') \<Longrightarrow> rw_ok s'"
proof (induction as arbitrary: s c)
  case (Cons a as)
  obtain c1 s1 where 1: "rw_step a s = (c1, s1)" by force
  then obtain c2 where "rw_run as s1 = (c2, s')"
    using Cons.prems(2) by (auto simp: Let_def split: prod.splits)
  then show ?case using Cons.IH rw_step_ok(1) [OF Cons.prems(1) 1] by blast
qed simp

lemma rw_run_conserves:
  assumes "rw_ok s" and "rw_run as s = (c, s')"
    and "distinct (map fst (concat (map inserted as)))"
    and "fst ` set (concat (map inserted as)) \<inter> fst ` set (rw_Waiters s) = {}"
  shows "mset (map fst c) + mset (map snd (rw_Waiters s'))
       = mset (map snd (rw_Waiters s)) + mset (map snd (concat (map inserted as)))"
  using assms
proof (induction as arbitrary: s c)
  case (Cons a as)
  obtain c1 s1 where 1: "rw_step a s = (c1, s1)" by force
  obtain c2 where 2: "rw_run as s1 = (c2, s')" "c = c1 @ c2"
    using Cons.prems(2) 1 by (auto simp: Let_def split: prod.splits)
  note st = rw_step_ok [OF Cons.prems(1) 1]
  have dj: "fst ` set (inserted a) \<inter> fst ` set (concat (map inserted as)) = {}"
    and d: "distinct (map fst (concat (map inserted as)))"
    using Cons.prems(3) by simp_all
  have un: "(fst ` set (inserted a) \<union> fst ` set (concat (map inserted as))) \<inter> fst ` set (rw_Waiters s) = {}"
    using Cons.prems(4) by (simp only: list.map concat.simps set_append image_Un)
  have fr: "fst ` set (inserted a) \<inter> fst ` set (rw_Waiters s) = {}
      \<and> fst ` set (concat (map inserted as)) \<inter> fst ` set (rw_Waiters s1) = {}"
    by (rule fresh_step [OF dj un st(2)])
  show ?case using Cons.IH [OF st(1) 2(1) d conjunct2 [OF fr]] st(3) [OF conjunct1 [OF fr]] 2(2)
    by (simp add: add.assoc add.left_commute add.commute)
qed simp

lemma has_deadline: "rw_ok s \<Longrightarrow> \<forall>k\<in>fst ` set (rw_Waiters s). \<exists>t. (t, k) \<in> set (rw_Timeouts s)"
  unfolding rw_ok_def by (metis (no_types, lifting) image_iff subset_iff prod.collapse)

lemma rw_ok_init: "rw_ok rw_init"
  by (simp add: rw_ok_def rw_init_def)

section \<open>Properties\<close>

text \<open>
  the header of a select request decodes to the code and the serial of the request, for
  the first \<open>2^31\<close> serials, and leaves the stream at the body.
\<close>

theorem tnt_request_header:
  assumes "p_Serial P < 0x80000000" and "length (rq_body (fst (formatSelect P ix k))) < 2 ^ 63"
  shows "\<exists>s'. header_from_msgpack h (im_open (rq_body (fst (formatSelect P ix k))))
           = Inr (h\<lparr>h_code := 1, h_sync := rq_serial (fst (formatSelect P ix k))\<rparr>, s')
         \<and> im_unread s' = tnt_write (formatSelectBody P [] ix) k"
proof -
  have "scast CODE_SELECT = (1 :: u64)" by (simp add: CODE_SELECT_def)
  with format_request_header [OF appends_bodies(1) assms(2) [unfolded formatSelect_def], of h] show ?thesis
    using sync_small [OF assms(1)] by (simp add: formatSelect_def format_request_def Let_def)
qed

theorem tnt_request_header_witness:
  "\<exists>s'. header_from_msgpack \<lparr>h_code = 0, h_sync = 0, h_schema_id = 0\<rparr>
      (im_open (rq_body (fst (formatSelect \<lparr>p_Serial = 7, p_Space = 512\<rparr> index_spec_default (TUint 5)))))
    = Inr (\<lparr>h_code = 1, h_sync = 7, h_schema_id = 0\<rparr>, s')"
proof -
  let ?P = "\<lparr>p_Serial = 7, p_Space = 512\<rparr> :: protocol"
  have "p_Serial ?P < 0x80000000" by simp
  moreover have "length (rq_body (fst (formatSelect ?P index_spec_default (TUint 5)))) < 2 ^ 63"
    by (simp add: formatSelect_def format_request_def formatSelectBody_def formatHeader_def Let_def
        mp_write_uint_def mp_write_map_size_def mp_write_array_size_def mp_store_defs index_spec_default_def)
  ultimately have "\<exists>s'. header_from_msgpack \<lparr>h_code = 0, h_sync = 0, h_schema_id = 0\<rparr>
      (im_open (rq_body (fst (formatSelect ?P index_spec_default (TUint 5)))))
      = Inr (\<lparr>h_code = 0, h_sync = 0, h_schema_id = 0\<rparr>\<lparr>h_code := 1,
          h_sync := rq_serial (fst (formatSelect ?P index_spec_default (TUint 5)))\<rparr>, s')"
    using tnt_request_header by blast
  then show ?thesis by (simp add: formatSelect_def format_request_def Let_def)
qed

text \<open>
  The serial passes through an \<open>int\<close> parameter of \<open>formatHeader\<close>, so from serial \<open>2^31\<close> on
  the number sent differs from the one under which the caller waits for the reply.
\<close>

theorem tnt_sync_mismatch:
  assumes "0x80000000 \<le> p_Serial P" and "p_Serial P < 0xFFFFFFFF80000000"
    and "length (rq_body (fst (formatCall P aName aArgs))) < 2 ^ 63"
  shows "\<exists>s' sync. header_from_msgpack h (im_open (rq_body (fst (formatCall P aName aArgs))))
           = Inr (h\<lparr>h_code := 0xa, h_sync := sync\<rparr>, s') \<and> sync \<noteq> rq_serial (fst (formatCall P aName aArgs))"
proof -
  have "scast CODE_CALL = (0xa :: u64)" by (simp add: CODE_CALL_def)
  with format_request_header [OF appends_bodies(3) assms(3) [unfolded formatCall_def], of h] show ?thesis
    using sync_large [OF assms(1,2)] by (auto simp: formatCall_def format_request_def Let_def)
qed

theorem tnt_sync_mismatch_witness:
  "\<exists>s' sync. header_from_msgpack \<lparr>h_code = 0, h_sync = 0, h_schema_id = 0\<rparr>
      (im_open (rq_body (fst (formatCall \<lparr>p_Serial = 0x80000000, p_Space = 512\<rparr> [] []))))
    = Inr (\<lparr>h_code = 0xa, h_sync = sync, h_schema_id = 0\<rparr>, s') \<and> sync \<noteq> 0x80000000"
proof -
  let ?P = "\<lparr>p_Serial = 0x80000000, p_Space = 512\<rparr> :: protocol"
  have "0x80000000 \<le> p_Serial ?P" "p_Serial ?P < 0xFFFFFFFF80000000" by simp_all
  moreover have "length (rq_body (fst (formatCall ?P [] []))) < 2 ^ 63"
    by (simp add: formatCall_def format_request_def formatCallBody_def formatHeader_def Let_def CODE_CALL_def
        mp_write_uint_def mp_write_map_size_def mp_write_array_size_def mp_write_string_def mp_store_defs)
  ultimately show ?thesis
    using tnt_sync_mismatch [of ?P "[]" "[]" "\<lparr>h_code = 0, h_sync = 0, h_schema_id = 0\<rparr>"]
    by (simp add: formatCall_def format_request_def Let_def)
qed

text \<open>
  parsing the header and the reply of an arbitrary packet terminates and never reads
  outside of it.
\<close>

theorem tnt_parse_safe:
  assumes "length str < 2 ^ 63"
  shows "header_from_msgpack h (im_open str) \<noteq> Inl Undefined
    \<and> reply_from_msgpack r (im_open str) \<noteq> Inl Undefined
    \<and> reply_from_msgpack r (im_open str) \<noteq> Inl OutOfFuel"
  using im_safe_result [OF safe_header im_ok_open [OF assms]] im_safe_result [OF safe_reply im_ok_open [OF assms]]
  by blast

theorem tnt_parse_safe_witness:
  "reply_from_msgpack \<lparr>r_ok = False, r_error = []\<rparr> (im_open [0x82, 0x30]) \<noteq> Inl Undefined"
  using tnt_parse_safe [of "[0x82, 0x30]"] by simp

text \<open>
  C7: over any sequence of inserts with distinct serials, replies, timer ticks and flushes,
  every handler is either still waiting or has been called exactly once.
\<close>

theorem reply_exactly_once:
  assumes "rw_run as rw_init = (calls, s)" and "distinct (map fst (concat (map inserted as)))"
  shows "mset (map fst calls) + mset (map snd (rw_Waiters s)) = mset (map snd (concat (map inserted as)))"
  using rw_run_conserves [OF rw_ok_init assms] by (simp add: rw_init_def)

theorem reply_exactly_once_witness:
  "mset (map fst (fst (rw_run [RInsert 1 10 100 ''a'', RInsert 2 50 100 ''b'', RTimer 120, RCall 2 (Reply ())] rw_init)))
   = {# ''a'', ''b'' #}"
  using reply_exactly_once [of "[RInsert 1 10 100 ''a'', RInsert 2 50 100 ''b'', RTimer 120, RCall 2 (Reply ())]"]
  by (simp add: rw_init_def rw_insert_def rw_on_timer_def rw_call_def)

text \<open>
  in every reachable state without an error a timer tick removes exactly the waiters that
  have a deadline in the past, and every waiter has a deadline, so none waits for ever.
\<close>

theorem reply_timeouts:
  assumes "rw_run as rw_init = (calls :: ('h \<times> 'r outcome) list, s)" and "rw_Error s = None"
  shows "(\<forall>k. k \<in> fst ` set (rw_Waiters (snd (rw_on_timer now s :: ('h \<times> 'r outcome) list \<times> _))) \<longleftrightarrow>
            k \<in> fst ` set (rw_Waiters s) \<and> (\<forall>t. (t, k) \<in> set (rw_Timeouts s) \<longrightarrow> now \<le> t))
    \<and> (\<forall>k \<in> fst ` set (rw_Waiters s). \<exists>t. (t, k) \<in> set (rw_Timeouts s))"
proof -
  have ok: "rw_ok s" using rw_run_ok [OF rw_ok_init assms(1)] .
  obtain c :: "('h \<times> 'r outcome) list" and ts w where e: "rw_expire now (rw_Timeouts s) (rw_Waiters s) = (c, ts, w)"
    by (metis prod_cases3)
  have "w = filter (\<lambda>p. fst p \<notin> expired now (rw_Timeouts s)) (rw_Waiters s)"
    using rw_expire_waiters [OF _ e] ok by (simp add: rw_ok_def)
  moreover have "rw_Waiters (snd (rw_on_timer now s :: ('h \<times> 'r outcome) list \<times> _)) = w"
    using e assms(2) by (simp add: rw_on_timer_def)
  ultimately show ?thesis
    using has_deadline [OF ok] keys_filter [of _ "\<lambda>k. k \<notin> expired now (rw_Timeouts s)" "rw_Waiters s"]
    by (simp only: not_expired) blast
qed

theorem reply_timeouts_witness:
  "\<forall>k. k \<in> fst ` set (rw_Waiters (snd (rw_on_timer 120
          (snd (rw_run [RInsert 1 10 100 ''a'', RInsert 2 50 100 ''b'' :: (string, unit) rw_op] rw_init))
            :: (string \<times> unit outcome) list \<times> _))) \<longleftrightarrow> k = 2"
proof -
  let ?as = "[RInsert 1 10 100 ''a'', RInsert 2 50 100 ''b''] :: (string, unit) rw_op list"
  have "rw_Error (snd (rw_run ?as rw_init)) = None" by (simp add: rw_init_def rw_insert_def)
  from reply_timeouts [OF surjective_pairing this, of 120] show ?thesis
    by (auto simp: rw_init_def rw_insert_def)
qed

end
