(* ===== verification/Protobuf.thy ===== *)
theory Protobuf
  imports Prelude
begin

text \<open>
  The protocol buffers reader and writer of \<open>protobuf/Protobuf.hpp\<close>. The reader is the
  unread rest of its buffer; integers of the C++ type \<open>T\<close> are words of its width, and a
  shift by at least the width is undefined. \<open>parse\<close> takes the callback as a parameter.
\<close>

section \<open>Field headers\<close>

datatype action = ACT_USED | ACT_SKIP | ACT_BREAK

record field_info =
  fi_tag :: byte
  fi_id :: u64

abbreviation TAG_VARIANT :: byte where "TAG_VARIANT \<equiv> 0"
abbreviation TAG_FIXED64 :: byte where "TAG_FIXED64 \<equiv> 1"
abbreviation TAG_FIXED32 :: byte where "TAG_FIXED32 \<equiv> 5"
abbreviation TAG_LENGTH :: byte where "TAG_LENGTH \<equiv> 2"

definition FieldInfo :: "u64 \<Rightarrow> field_info" where
  "FieldInfo aTag = \<lparr>fi_tag = ucast (aTag AND 0x07), fi_id = drop_bit 3 aTag\<rparr>"

definition decodeSize :: "field_info \<Rightarrow> u64 result" where
  "decodeSize f =
     (if fi_tag f = TAG_VARIANT then Inr 1
      else if fi_tag f = TAG_FIXED32 then Inr 4
      else if fi_tag f = TAG_FIXED64 then Inr 8
      else if fi_tag f = TAG_LENGTH then Inr 0
      else Inl BadTag)"

section \<open>Reader\<close>

definition readByte :: "byte list \<Rightarrow> (byte \<times> byte list) result" where
  "readByte buf = (case buf of [] \<Rightarrow> Inl EndOfBuffer | b # bs \<Rightarrow> Inr (b, bs))"

text \<open>The loop of \<open>readVarInt<T>\<close>, with the value so far and the shift.\<close>

fun readVarInt_loop :: "'a::len word \<Rightarrow> nat \<Rightarrow> byte list \<Rightarrow> ('a word \<times> byte list) result" where
  "readVarInt_loop sValue sShift buf =
     (if 63 < sShift then Inl BadInput
      else case buf of
        [] \<Rightarrow> Inl EndOfBuffer
      | sByte # bs \<Rightarrow>
          if LENGTH('a) \<le> sShift then Inl Undefined
          else let sValue = sValue OR push_bit sShift (ucast sByte AND 0x7F)
               in if 0x80 \<le> sByte then readVarInt_loop sValue (sShift + 7) bs
                  else Inr (sValue, bs))"

declare readVarInt_loop.simps [simp del]

definition readVarInt :: "byte list \<Rightarrow> ('a::len word \<times> byte list) result" where
  "readVarInt buf = readVarInt_loop 0 0 buf"

definition readTag :: "byte list \<Rightarrow> (field_info \<times> byte list) result" where
  "readTag buf = bindr (readVarInt buf) (\<lambda>(v, buf). Inr (FieldInfo v, buf))"

definition remove_prefix :: "u64 \<Rightarrow> byte list \<Rightarrow> byte list result" where
  "remove_prefix n buf = (if length buf < unat n then Inl BadInput else Inr (drop (unat n) buf))"

definition skip :: "field_info \<Rightarrow> byte list \<Rightarrow> byte list result" where
  "skip aField buf =
     bindr (decodeSize aField) (\<lambda>sSize.
       if sSize = 4 \<or> sSize = 8 then remove_prefix sSize buf
       else if sSize = 1 then bindr (readVarInt buf :: (u64 \<times> byte list) result) (\<lambda>(_, buf). Inr buf)
       else bindr (readVarInt buf) (\<lambda>(sSize, buf). remove_prefix sSize buf))"

definition ZigZagDecode :: "'a::len word \<Rightarrow> 'a word" where
  "ZigZagDecode n = drop_bit 1 n XOR (- (n AND 1))"

text \<open>\<open>memcpy\<close> into a variable of \<open>k\<close> bytes on a little-endian machine.\<close>

definition readFixed :: "nat \<Rightarrow> byte list \<Rightarrow> ('a::len word \<times> byte list) result" where
  "readFixed k buf = (if length buf < k then Inl BadInput
                      else Inr (of_nat (le_dec (take k buf)), drop k buf))"

datatype int_type = VARIANT | FIXED | ZIGZAG

definition read_int :: "int_type \<Rightarrow> byte list \<Rightarrow> ('a::len word \<times> byte list) result" where
  "read_int mode buf = (case mode of
       VARIANT \<Rightarrow> readVarInt buf
     | FIXED \<Rightarrow> readFixed (LENGTH('a) div 8) buf
     | ZIGZAG \<Rightarrow> bindr (readVarInt buf) (\<lambda>(v, buf). Inr (ZigZagDecode v, buf)))"

definition read_bytes :: "byte list \<Rightarrow> (byte list \<times> byte list) result" where
  "read_bytes buf =
     bindr (readVarInt buf) (\<lambda>(sSize :: u64, buf).
       if length buf < unat sSize then Inl BadInput
       else Inr (take (unat sSize) buf, drop (unat sSize) buf))"

text \<open>
  \<open>parse\<close>: the callback gets the field and the reader and updates its own state \<open>'u\<close>. Every turn
  reads a tag of at least one byte, so the length of the buffer is enough fuel.
\<close>

fun parse_loop :: "(field_info \<Rightarrow> 'u \<Rightarrow> byte list \<Rightarrow> (action \<times> 'u \<times> byte list) result) \<Rightarrow> nat \<Rightarrow> 'u \<Rightarrow> byte list
    \<Rightarrow> ('u \<times> byte list) result" where
  "parse_loop cb fuel u buf =
     (if buf = [] then Inr (u, buf)
      else case fuel of 0 \<Rightarrow> Inl OutOfFuel
      | Suc n \<Rightarrow>
          bindr (readTag buf) (\<lambda>(sField, buf).
          bindr (cb sField u buf) (\<lambda>(act, u, buf).
            case act of
              ACT_USED \<Rightarrow> parse_loop cb n u buf
            | ACT_SKIP \<Rightarrow> bindr (skip sField buf) (\<lambda>buf. parse_loop cb n u buf)
            | ACT_BREAK \<Rightarrow> Inr (u, buf))))"

declare parse_loop.simps [simp del]

definition parse :: "(field_info \<Rightarrow> 'u \<Rightarrow> byte list \<Rightarrow> (action \<times> 'u \<times> byte list) result) \<Rightarrow> 'u \<Rightarrow> byte list
    \<Rightarrow> ('u \<times> byte list) result" where
  "parse cb u buf = parse_loop cb (length buf) u buf"

section \<open>Writer\<close>

text \<open>
  \<open>writeVarInt<T>\<close> on the value of the variable: \<open>& 0x7F\<close> and \<open>>> 7\<close> work on the two's
  complement, so a negative value stays negative.
\<close>

function writeVarInt :: "byte list \<Rightarrow> int \<Rightarrow> byte list" where
  "writeVarInt buf aVar =
     (let sByte = word_of_int (take_bit 7 aVar);
          aVar' = drop_bit 7 aVar;
          sByte = (if aVar' \<noteq> 0 then sByte OR 0x80 else sByte);
          buf = buf @ [sByte]
      in if 0 < aVar' then writeVarInt buf aVar' else buf)"
  by auto

termination
  by (relation "measure (\<lambda>(_, v). nat v)") (auto simp: drop_bit_eq_div)

declare writeVarInt.simps [simp del]

definition writeTag :: "byte list \<Rightarrow> field_info \<Rightarrow> byte list" where
  "writeTag buf f = writeVarInt buf (uint (ucast (fi_tag f) OR push_bit 3 (fi_id f)))"

definition write_int :: "byte list \<Rightarrow> u64 \<Rightarrow> int \<Rightarrow> int_type \<Rightarrow> byte list result" where
  "write_int buf aId aVal mode = (case mode of
       VARIANT \<Rightarrow> Inr (writeVarInt (writeTag buf \<lparr>fi_tag = TAG_VARIANT, fi_id = aId\<rparr>) aVal)
     | FIXED \<Rightarrow> Inl (InvalidArgument ''fixed not implemented'')
     | ZIGZAG \<Rightarrow> Inl (InvalidArgument ''zigzag not implemented''))"

definition write_bytes :: "byte list \<Rightarrow> u64 \<Rightarrow> byte list \<Rightarrow> byte list" where
  "write_bytes buf aId aStr =
     writeVarInt (writeTag buf \<lparr>fi_tag = TAG_LENGTH, fi_id = aId\<rparr>) (uint (of_nat (length aStr) :: u64)) @ aStr"

section \<open>Variable-length integers\<close>

definition varint_byte :: "int \<Rightarrow> byte" where
  "varint_byte v = (if drop_bit 7 v \<noteq> 0 then word_of_int (take_bit 7 v) OR 0x80 else word_of_int (take_bit 7 v))"

lemma writeVarInt_step:
  "writeVarInt buf v = (if 0 < drop_bit 7 v then writeVarInt (buf @ [varint_byte v]) (drop_bit 7 v)
                        else buf @ [varint_byte v])"
  by (subst writeVarInt.simps) (simp add: varint_byte_def Let_def)

lemma writeVarInt_append: "writeVarInt buf v = buf @ writeVarInt [] v"
proof (induction "nat v" arbitrary: v buf rule: less_induct)
  case less
  show ?case
  proof (cases "0 < drop_bit 7 v")
    case False
    then show ?thesis using writeVarInt_step [of _ v] by simp
  next
    case True
    then have lt: "nat (drop_bit 7 v) < nat v" by (auto simp: drop_bit_eq_div)
    show ?thesis
      using less [OF lt, of "buf @ [varint_byte v]"] less [OF lt, of "[varint_byte v]"] True
        writeVarInt_step [of buf v] writeVarInt_step [of "[]" v] by simp
  qed
qed

lemma writeVarInt_Cons:
  "writeVarInt [] v = varint_byte v # (if 0 < drop_bit 7 v then writeVarInt [] (drop_bit 7 v) else [])"
  using writeVarInt_step [of "[]" v] writeVarInt_append [of "[varint_byte v]"] by simp

lemma writeVarInt_not_Nil [simp]: "writeVarInt [] v \<noteq> []"
  by (subst writeVarInt_Cons) simp

lemma byte_msb: "0x80 \<le> (y :: byte) \<longleftrightarrow> bit y 7"
proof -
  have "bit y 7 \<longleftrightarrow> bit (unat y) 7" by (simp add: bit_unsigned_iff)
  also have "\<dots> \<longleftrightarrow> odd (unat y div 128)" by (simp add: bit_iff_odd)
  also have "\<dots> \<longleftrightarrow> 128 \<le> unat y"
  proof (cases "128 \<le> unat y")
    case True
    then have "unat y div 128 = 1" using unat_byte_less [of y] by (intro div_nat_eqI) simp_all
    then show ?thesis using True by simp
  qed simp
  finally show ?thesis by (simp add: word_le_nat_alt)
qed

lemma varint_byte_value:
  "(ucast (varint_byte v) AND 0x7F :: 'a::len word) = word_of_int (take_bit 7 v)"
  unfolding mask7 varint_byte_def
  by (rule bit_word_eqI) (auto simp: bit_simps bit80)

lemma varint_byte_more: "0x80 \<le> varint_byte v \<longleftrightarrow> drop_bit 7 v \<noteq> 0"
  unfolding byte_msb varint_byte_def by (auto simp: bit_simps bit80)

lemma varint_split:
  "push_bit s (word_of_int v :: 'a::len word)
   = push_bit s (word_of_int (take_bit 7 v)) OR push_bit (s + 7) (word_of_int (drop_bit 7 v))"
proof (rule bit_word_eqI)
  fix n
  show "bit (push_bit s (word_of_int v :: 'a word)) n = bit (push_bit s (word_of_int (take_bit 7 v))
      OR push_bit (s + 7) (word_of_int (drop_bit 7 v)) :: 'a word) n"
  proof (cases "n - s < 7")
    case False
    then have "7 + (n - (s + 7)) = n - s" by linarith
    with False show ?thesis by (auto simp: bit_simps)
  qed (auto simp: bit_simps)
qed

lemma readVarInt_loop_write:
  fixes acc :: "'a::len word"
  assumes "0 \<le> v" and "v * 2 ^ s < 2 ^ LENGTH('a)" and "LENGTH('a) \<le> 64" and "s < LENGTH('a)"
  shows "readVarInt_loop acc s (writeVarInt [] v @ r) = Inr (acc OR push_bit s (word_of_int v), r)"
  using assms
proof (induction "nat v" arbitrary: v s acc rule: less_induct)
  case less
  let ?acc = "acc OR push_bit s (word_of_int (take_bit 7 v))"
  have step: "readVarInt_loop acc s (writeVarInt [] v @ r)
      = (if drop_bit 7 v \<noteq> 0 then readVarInt_loop ?acc (s + 7)
             ((if 0 < drop_bit 7 v then writeVarInt [] (drop_bit 7 v) else []) @ r)
         else Inr (?acc, (if 0 < drop_bit 7 v then writeVarInt [] (drop_bit 7 v) else []) @ r))"
    using less.prems(3,4)
    by (subst writeVarInt_Cons, subst readVarInt_loop.simps) (simp add: varint_byte_value varint_byte_more Let_def)
  have pos: "0 \<le> drop_bit 7 v" using less.prems(1) by (simp add: drop_bit_eq_div)
  show ?case
  proof (cases "drop_bit 7 v = 0")
    case True
    then show ?thesis using step varint_split [of s v, where ?'a = 'a] by simp
  next
    case False
    with pos have gt: "0 < drop_bit 7 v" by linarith
    then have v: "128 \<le> v" and lt: "nat (drop_bit 7 v) < nat v"
      using less.prems(1) by (auto simp: drop_bit_eq_div)
    have le: "drop_bit 7 v * 128 \<le> v" by (simp add: drop_bit_eq_div)
    have b: "drop_bit 7 v * 2 ^ (s + 7) < 2 ^ LENGTH('a)"
    proof -
      have "drop_bit 7 v * 2 ^ (s + 7) = (drop_bit 7 v * 128) * 2 ^ s" by (simp add: power_add)
      also have "\<dots> \<le> v * 2 ^ s" using le by (intro mult_right_mono) simp_all
      finally show ?thesis using less.prems(2) by linarith
    qed
    have "(2::int) ^ (s + 7) \<le> drop_bit 7 v * 2 ^ (s + 7)" using gt by simp
    with b have "(2::int) ^ (s + 7) < 2 ^ LENGTH('a)" by linarith
    then have s: "s + 7 < LENGTH('a)" by simp
    show ?thesis
      using less.hyps [OF lt pos b less.prems(3) s, of ?acc] step gt varint_split [of s v, where ?'a = 'a]
      by (simp add: or.assoc)
  qed
qed

lemma readVarInt_write:
  fixes v :: "'a::len word"
  assumes "LENGTH('a) \<le> 64"
  shows "readVarInt (writeVarInt [] (uint v) @ r) = Inr (v, r)"
proof -
  have "uint v * 2 ^ 0 < 2 ^ LENGTH('a)" by (simp add: uint_bounded)
  from readVarInt_loop_write [OF uint_ge_0 this assms, of 0 r] show ?thesis
    by (simp add: readVarInt_def)
qed

section \<open>Messages\<close>

text \<open>
  The fields a message is written from, and a callback of the kind the generated code has: it
  takes the fields whose number it knows and asks to skip the others.
\<close>

datatype pfield = PInt u64 u64 | PStr u64 "byte list"

fun pf_id :: "pfield \<Rightarrow> u64" where
  "pf_id (PInt i v) = i"
| "pf_id (PStr i str) = i"

fun pf_ok :: "pfield \<Rightarrow> bool" where
  "pf_ok (PInt i v) = (i < 2 ^ 61)"
| "pf_ok (PStr i str) = (i < 2 ^ 61 \<and> length str < 2 ^ 64)"

fun pf_write :: "byte list \<Rightarrow> pfield \<Rightarrow> byte list" where
  "pf_write buf (PInt i v) = (case write_int buf i (uint v) VARIANT of Inr b \<Rightarrow> b | Inl _ \<Rightarrow> buf)"
| "pf_write buf (PStr i str) = write_bytes buf i str"

definition collect :: "(u64 \<Rightarrow> bool) \<Rightarrow> field_info \<Rightarrow> pfield list \<Rightarrow> byte list
    \<Rightarrow> (action \<times> pfield list \<times> byte list) result" where
  "collect known f u buf =
     (if \<not> known (fi_id f) then Inr (ACT_SKIP, u, buf)
      else if fi_tag f = TAG_VARIANT
      then bindr (readVarInt buf) (\<lambda>(v, buf). Inr (ACT_USED, u @ [PInt (fi_id f) v], buf))
      else bindr (read_bytes buf) (\<lambda>(str, buf). Inr (ACT_USED, u @ [PStr (fi_id f) str], buf)))"

lemma field_info_tag:
  assumes "i < 2 ^ 61" and "tag = TAG_VARIANT \<or> tag = TAG_LENGTH"
  shows "FieldInfo (ucast tag OR push_bit 3 i) = \<lparr>fi_tag = tag, fi_id = i\<rparr>"
proof -
  have m: "(0x07 :: u64) = mask 3" by (simp add: mask_eq_exp_minus_1)
  have "take_bit 61 i = i"
    using assms(1) by (simp add: word_less_nat_alt word_unat_eq_iff unsigned_take_bit_eq take_bit_nat_eq_self)
  then have i: "bit i n \<Longrightarrow> n < 61" for n by (metis bit_take_bit_iff)
  have t: "bit tag n \<Longrightarrow> n < 3" for n
    using assms(2) bit_exp_iff [of 1 n, where ?'a = byte] by auto
  have "ucast ((ucast tag OR push_bit 3 i) AND 0x07) = tag"
    unfolding m by (rule bit_word_eqI) (auto simp: bit_simps dest: t)
  moreover have "drop_bit 3 (ucast tag OR push_bit 3 i) = i"
    by (rule bit_word_eqI) (auto simp: bit_simps dest: i t)
  ultimately show ?thesis by (simp add: FieldInfo_def)
qed

lemma readTag_write:
  "i < 2 ^ 61 \<Longrightarrow> tag = TAG_VARIANT \<or> tag = TAG_LENGTH \<Longrightarrow>
   readTag (writeTag [] \<lparr>fi_tag = tag, fi_id = i\<rparr> @ r) = Inr (\<lparr>fi_tag = tag, fi_id = i\<rparr>, r)"
  by (simp add: readTag_def writeTag_def readVarInt_write field_info_tag)

lemma read_bytes_write:
  "length str < 2 ^ 64 \<Longrightarrow>
   read_bytes (writeVarInt [] (uint (of_nat (length str) :: u64)) @ str @ r) = Inr (str, r)"
  using readVarInt_write [of "of_nat (length str) :: u64" "str @ r"]
  by (simp add: read_bytes_def unat_of_nat)

lemma writeTag_append: "writeTag buf f = buf @ writeTag [] f"
  unfolding writeTag_def by (rule writeVarInt_append)

lemma pf_write_eq:
  "pf_write buf (PInt i v) = buf @ writeTag [] \<lparr>fi_tag = TAG_VARIANT, fi_id = i\<rparr> @ writeVarInt [] (uint v)"
  "pf_write buf (PStr i str) = buf @ writeTag [] \<lparr>fi_tag = TAG_LENGTH, fi_id = i\<rparr>
     @ writeVarInt [] (uint (of_nat (length str) :: u64)) @ str"
  using writeVarInt_append [of "writeTag buf \<lparr>fi_tag = TAG_VARIANT, fi_id = i\<rparr>"]
    writeVarInt_append [of "writeTag buf \<lparr>fi_tag = TAG_LENGTH, fi_id = i\<rparr>"]
    writeTag_append [of buf "\<lparr>fi_tag = TAG_VARIANT, fi_id = i\<rparr>"]
    writeTag_append [of buf "\<lparr>fi_tag = TAG_LENGTH, fi_id = i\<rparr>"]
  by (simp_all add: write_int_def write_bytes_def)

declare pf_write.simps [simp del]

lemma skip_write:
  "skip \<lparr>fi_tag = TAG_VARIANT, fi_id = i\<rparr> (writeVarInt [] (uint (v :: u64)) @ r) = Inr r"
  "length str < 2 ^ 64 \<Longrightarrow>
   skip \<lparr>fi_tag = TAG_LENGTH, fi_id = i\<rparr> (writeVarInt [] (uint (of_nat (length str) :: u64)) @ str @ r) = Inr r"
  using readVarInt_write [of v r] readVarInt_write [of "of_nat (length str) :: u64" "str @ r"]
  by (simp_all add: skip_def decodeSize_def remove_prefix_def unat_of_nat)

lemma pf_write_nonempty: "pf_write [] f \<noteq> []"
  by (cases f) (simp_all add: pf_write_eq)

lemma pf_write_append: "pf_write buf f = buf @ pf_write [] f"
  by (cases f) (simp_all add: pf_write_eq)

text \<open>One turn of the loop takes one field off the message.\<close>

lemma parse_loop_field:
  assumes "pf_ok f"
  shows "parse_loop (collect known) (Suc n) u (pf_write [] f @ r)
    = parse_loop (collect known) n (u @ filter (\<lambda>f. known (pf_id f)) [f]) r"
  using assms pf_write_nonempty [of f]
  by (cases f; subst parse_loop.simps)
    (simp_all add: pf_write_eq readTag_write collect_def skip_write readVarInt_write read_bytes_write)

lemma parse_loop_fields:
  "list_all pf_ok fs \<Longrightarrow> length fs \<le> n \<Longrightarrow>
   parse_loop (collect known) n u (concat (map (pf_write []) fs)) = Inr (u @ filter (\<lambda>f. known (pf_id f)) fs, [])"
proof (induction fs arbitrary: n u)
  case Nil
  then show ?case by (simp add: parse_loop.simps)
next
  case (Cons f fs)
  then obtain m where "n = Suc m" "length fs \<le> m" by (cases n) auto
  then show ?case using Cons parse_loop_field [of f known m u] by simp
qed

lemma fields_length: "length fs \<le> length (concat (map (pf_write []) fs))"
proof (induction fs)
  case (Cons f fs)
  have "1 \<le> length (pf_write [] f)" using pf_write_nonempty [of f] by (simp add: Suc_leI)
  with Cons show ?case by simp
qed simp

lemma foldl_pf_write: "foldl pf_write buf fs = buf @ concat (map (pf_write []) fs)"
proof (induction fs arbitrary: buf)
  case (Cons f fs)
  then show ?case using pf_write_append [of buf f] by simp
qed simp

section \<open>Arbitrary input\<close>

lemma readVarInt_loop_u64: "readVarInt_loop (acc :: u64) s buf \<noteq> Inl Undefined
    \<and> readVarInt_loop acc s buf \<noteq> Inl OutOfFuel"
proof (induction buf arbitrary: acc s)
  case Nil
  show ?case by (subst (1 2) readVarInt_loop.simps) simp
next
  case (Cons b buf)
  then show ?case by (subst (1 2) readVarInt_loop.simps) (simp add: Let_def)
qed

lemma readVarInt_loop_shorter:
  "readVarInt_loop acc s buf = Inr (v, buf') \<Longrightarrow> length buf' < length buf"
proof (induction buf arbitrary: acc s)
  case Nil
  then show ?case by (subst (asm) readVarInt_loop.simps) (simp split: if_splits)
next
  case (Cons b buf)
  from Cons.prems show ?case
    by (subst (asm) readVarInt_loop.simps) (auto simp: Let_def split: if_splits dest!: Cons.IH)
qed

text \<open>The bound on the shift is that of 64-bit variables: a 32-bit one is shifted out of range.\<close>

lemma varint_u32_undefined:
  "(readVarInt [0x80, 0x80, 0x80, 0x80, 0x80, 0] :: (u32 \<times> byte list) result) = Inl Undefined"
  by (simp add: readVarInt_def readVarInt_loop.simps)

section \<open>Zigzag\<close>

lemma sint_half: "sint (drop_bit 1 n :: 'a::len word) = uint n div 2"
proof -
  have "uint (drop_bit 1 n) = drop_bit 1 (uint n)" 
    using take_bit_int_eq_self [OF uint_ge_0 uint_bounded, of n] by (simp add: unsigned_drop_bit_eq)
  then have u: "uint (drop_bit 1 n) = uint n div 2" by (simp add: drop_bit_eq_div)
  have "uint n < 2 ^ LENGTH('a)" by (rule uint_bounded)
  then have "uint n div 2 < 2 ^ (LENGTH('a) - 1)"
    by (cases "LENGTH('a)") auto
  moreover have "- (2 ^ (LENGTH('a) - 1)) \<le> uint n div 2"
    by (rule order_trans [of _ 0]) simp_all
  ultimately show ?thesis
    using u signed_take_bit_int_eq_self by (simp add: sint_uint)
qed

lemma zigzag_value: "sint (ZigZagDecode (n :: 'a::len word)) = (if even n then uint n div 2 else - (uint n div 2) - 1)"
proof (cases "even n")
  case True
  then have "n AND 1 = 0" by (simp add: and_one_eq mod_2_eq_odd)
  then show ?thesis using True sint_half [of n] by (simp add: ZigZagDecode_def)
next
  case False
  then have "n AND 1 = 1" by (simp add: and_one_eq mod_2_eq_odd)
  then have "ZigZagDecode n = NOT (drop_bit 1 n)" by (simp add: ZigZagDecode_def)
  moreover have "signed_take_bit LENGTH('a) (- (uint n div 2) - 1) = - (uint n div 2) - 1"
    using uint_bounded [of n] uint_ge_0 [of n] by (intro signed_take_bit_int_eq_self) linarith+
  ultimately show ?thesis using False sint_half [of n] by (simp add: signed_not_eq not_int_def)
qed

section \<open>Properties\<close>



text \<open>
  a variable-length integer of an unsigned type of up to 64 bits reads back as the value
  written, whatever follows it.
\<close>

theorem varint_roundtrip:
  fixes v :: "'a::len word"
  assumes "LENGTH('a) \<le> 64"
  shows "readVarInt (writeVarInt [] (uint v) @ r) = Inr (v, r)"
  using readVarInt_write [OF assms] .

theorem varint_roundtrip_witness:
  "readVarInt (writeVarInt [] (uint (300 :: u32)) @ [9]) = Inr (300 :: u32, [9])"
  using varint_roundtrip [of "300 :: u32" "[9]"] by simp

text \<open>
  A negative value is written as one byte with the continuation bit set, so the message
  ends inside the integer and reading it back fails.
\<close>

theorem varint_negative:
  assumes "v < 0"
  shows "\<exists>b. writeVarInt [] v = [b] \<and> (readVarInt [b] :: (u64 \<times> byte list) result) = Inl EndOfBuffer"
proof -
  have neg: "drop_bit 7 v < 0" using assms by (simp add: drop_bit_eq_div div_neg_pos_less0)
  then have "\<not> 0 < drop_bit 7 v" and "drop_bit 7 v \<noteq> 0" by linarith+
  then have w: "writeVarInt [] v = [varint_byte v]" and "0x80 \<le> varint_byte v"
    using writeVarInt_Cons [of v] varint_byte_more [of v] by simp_all
  then have "(readVarInt [varint_byte v] :: (u64 \<times> byte list) result) = Inl EndOfBuffer"
    unfolding readVarInt_def by (subst readVarInt_loop.simps) (simp add: Let_def readVarInt_loop.simps)
  with w show ?thesis by blast
qed

theorem varint_negative_witness:
  "\<exists>b. writeVarInt [] (- 1) = [b] \<and> (readVarInt [b] :: (u64 \<times> byte list) result) = Inl EndOfBuffer"
  using varint_negative [of "- 1"] by simp

text \<open>
  reading a variable-length integer from arbitrary bytes into a 64-bit variable never shifts
  out of range and consumes at least one byte, and \<open>skip\<close> of any field never goes past the end.
\<close>

theorem protobuf_read_safe:
  "(readVarInt buf :: (u64 \<times> byte list) result) \<noteq> Inl Undefined
   \<and> (\<forall>v buf'. (readVarInt buf :: (u64 \<times> byte list) result) = Inr (v, buf') \<longrightarrow> length buf' < length buf)
   \<and> (\<forall>buf'. skip f buf = Inr buf' \<longrightarrow> length buf' \<le> length buf)"
proof -
  have lt: "length b < length buf" if "(readVarInt buf :: (u64 \<times> byte list) result) = Inr (v, b)" for v b buf
    using that readVarInt_loop_shorter by (auto simp: readVarInt_def)
  have "length b \<le> length buf" if "skip f buf = Inr b" for b
    using that by (auto simp: skip_def bindr_eq_Inr remove_prefix_def split: if_splits dest!: lt)
  then show ?thesis using lt readVarInt_loop_u64 by (auto simp: readVarInt_def)
qed

theorem protobuf_read_safe_witness:
  "(readVarInt [0xFF, 0xFF] :: (u64 \<times> byte list) result) \<noteq> Inl Undefined"
  using protobuf_read_safe [of "[0xFF, 0xFF]"] by blast

text \<open>Zigzag decoding maps even numbers to the non-negative and odd numbers to the negative integers.\<close>

theorem zigzag_decode:
  "sint (ZigZagDecode n) = (if even n then uint n div 2 else - (uint n div 2) - 1)"
  by (rule zigzag_value)

end
