(* ===== verification/Utf8.thy ===== *)
theory Utf8
  imports Prelude
begin

text \<open>
  The UTF-8 decoder of \<open>utf/UTF8.hpp\<close>: the iterator that decodes one character per step, and the
  functions built on it. The reference is \<open>utf8_encode\<close>, the shortest encoding of a code point;
  the decoder accepts exactly the concatenations of such encodings.
\<close>

section \<open>Bytes\<close>

definition trailSize :: "byte \<Rightarrow> byte result" where
  "trailSize c =
     (if c \<le> 0x7F then Inr 0
      else if c \<le> 0xBF then Inl BadCharacter
      else if c \<le> 0xDF then Inr 1
      else if c \<le> 0xEF then Inr 2
      else if c \<le> 0xF7 then Inr 3
      else Inl BadCharacter)"

definition checkTrail :: "byte \<Rightarrow> unit result" where
  "checkTrail c = (if c AND 0xC0 \<noteq> 0x80 then Inl BadCharacter else Inr ())"

section \<open>Iterator\<close>

record utf_iter =
  it_Str :: "byte list"
  it_Char :: u32
  it_TrailSize :: byte
  it_XSize :: byte
  it_Eol :: bool

definition utf_init :: "byte \<Rightarrow> utf_iter \<Rightarrow> utf_iter result" where
  "utf_init c it =
     bindr (trailSize c) (\<lambda>n.
       Inr (it\<lparr>it_Char := (if c \<le> 0x7F then ucast c
                           else if c \<le> 0xDF then ucast (c AND 0x1F)
                           else if c \<le> 0xEF then ucast (c AND 0x0F)
                           else if c \<le> 0xF7 then ucast (c AND 0x07)
                           else 0),
               it_TrailSize := n, it_XSize := n\<rparr>))"

definition utf_append :: "byte \<Rightarrow> utf_iter \<Rightarrow> utf_iter result" where
  "utf_append c it =
     bindr (checkTrail c) (\<lambda>_. Inr (it\<lparr>it_Char := push_bit 6 (it_Char it) OR ucast (c AND 0x3F)\<rparr>))"

definition utf_check :: "utf_iter \<Rightarrow> unit result" where
  "utf_check it =
     (if 0 < it_TrailSize it \<and> it_Char it \<le> 0x7F then Inl BadCharacter
      else if 1 < it_TrailSize it \<and> it_Char it \<le> 0x7FF then Inl BadCharacter
      else if 2 < it_TrailSize it \<and> it_Char it \<le> 0xFFFF then Inl BadCharacter
      else if 0x1FFFFF < it_Char it then Inl BadCharacter
      else if 0xD800 \<le> it_Char it \<and> it_Char it \<le> 0xDFFF then Inl BadCharacter
      else Inr ())"

text \<open>The loop of \<open>step\<close>, over the bytes of \<open>m_Str\<close>.\<close>

fun utf_loop :: "byte list \<Rightarrow> utf_iter \<Rightarrow> utf_iter result" where
  "utf_loop [] it = Inl BadCharacter"
| "utf_loop (sChar # str) it =
     bindr (if 0 < it_XSize it then utf_append sChar (it\<lparr>it_XSize := it_XSize it - 1\<rparr>)
            else utf_init sChar it) (\<lambda>it.
     bindr (if it_XSize it = 0 then utf_check it else Inr ()) (\<lambda>_.
       if it_XSize it = 0 then Inr (it\<lparr>it_Str := str\<rparr>) else utf_loop str (it\<lparr>it_Str := str\<rparr>)))"

definition utf_step :: "utf_iter \<Rightarrow> utf_iter result" where
  "utf_step it = (if it_Str it = [] then Inr (it\<lparr>it_Char := 0, it_Eol := True\<rparr>)
                  else utf_loop (it_Str it) it)"

definition utf_begin :: "byte list \<Rightarrow> utf_iter result" where
  "utf_begin aStr = utf_step \<lparr>it_Str = aStr, it_Char = 0, it_TrailSize = 0, it_XSize = 0, it_Eol = False\<rparr>"

definition utf_eq :: "utf_iter \<Rightarrow> utf_iter \<Rightarrow> bool" where
  "utf_eq a b \<longleftrightarrow> it_Str a = it_Str b \<and> it_Char a = it_Char b \<and> it_Eol a = it_Eol b"

definition utf_end :: utf_iter where
  "utf_end = \<lparr>it_Str = [], it_Char = 0, it_TrailSize = 0, it_XSize = 0, it_Eol = True\<rparr>"

section \<open>Loops over the characters\<close>

text \<open>
  \<open>for (auto x : CharDecoder(aStr))\<close> with a body that may return early: \<open>go\<close> tells whether the
  loop goes on after a character. The result is the characters seen, and whether the loop ran
  to the end. Every step but the last takes a byte off the string, which bounds the fuel.
\<close>

fun utf_for :: "(u32 \<Rightarrow> bool) \<Rightarrow> nat \<Rightarrow> utf_iter \<Rightarrow> (u32 list \<times> bool) result" where
  "utf_for go 0 it = Inl OutOfFuel"
| "utf_for go (Suc n) it =
     (if utf_eq it utf_end then Inr ([], True)
      else if \<not> go (it_Char it) then Inr ([it_Char it], False)
      else bindr (utf_step it) (\<lambda>it'.
           bindr (utf_for go n it') (\<lambda>(cs, b). Inr (it_Char it # cs, b))))"

definition utf_run :: "(u32 \<Rightarrow> bool) \<Rightarrow> byte list \<Rightarrow> (u32 list \<times> bool) result" where
  "utf_run go aStr = bindr (utf_begin aStr) (utf_for go (length aStr + 2))"

definition utf_chars :: "byte list \<Rightarrow> u32 list result" where
  "utf_chars aStr = bindr (utf_run (\<lambda>_. True) aStr) (\<lambda>(cs, _). Inr cs)"

definition Validate :: "byte list \<Rightarrow> unit result" where
  "Validate aStr = bindr (utf_chars aStr) (\<lambda>_. Inr ())"

definition Length :: "byte list \<Rightarrow> u32 result" where
  "Length aStr = bindr (utf_chars aStr) (\<lambda>cs. Inr (of_nat (length cs)))"

definition Decode :: "byte list \<Rightarrow> u32 result" where
  "Decode aStr =
     bindr (utf_begin aStr) (\<lambda>it.
       if utf_eq it utf_end then Inl (InvalidArgument ''utf8 decode: string is empty'')
       else bindr (utf_step it) (\<lambda>it'.
         if \<not> utf_eq it' utf_end then Inl (InvalidArgument ''utf8 decode: not a single character'')
         else Inr (it_Char it)))"

definition IsBMP :: "byte list \<Rightarrow> bool result" where
  "IsBMP aStr = bindr (utf_run (\<lambda>x. \<not> 0xFFFF < x) aStr) (\<lambda>(_, b). Inr b)"

record range =
  rg_begin :: u32
  rg_end :: u32

definition range_test :: "range \<Rightarrow> u32 \<Rightarrow> bool" where
  "range_test r x \<longleftrightarrow> rg_begin r \<le> x \<and> x \<le> rg_end r"

definition BasicLatin :: range where
  "BasicLatin = \<lparr>rg_begin = 0x0000, rg_end = 0x007F\<rparr>"

definition BasicCyr :: range where
  "BasicCyr = \<lparr>rg_begin = 0x0400, rg_end = 0x04FF\<rparr>"

definition InRange :: "byte list \<Rightarrow> range list \<Rightarrow> bool result" where
  "InRange aStr aSet =
     bindr (utf_run (\<lambda>x. foldl (\<lambda>sHit r. if \<not> sHit then range_test r x else sHit) False aSet) aStr)
       (\<lambda>(_, b). Inr b)"

section \<open>The encoding\<close>

definition utf8_valid :: "nat \<Rightarrow> bool" where
  "utf8_valid cp \<longleftrightarrow> cp < 0x200000 \<and> \<not> (0xD800 \<le> cp \<and> cp \<le> 0xDFFF)"

definition utf8_encode :: "nat \<Rightarrow> byte list" where
  "utf8_encode cp =
     (if cp < 0x80 then [of_nat cp]
      else if cp < 0x800 then [of_nat (0xC0 + cp div 64), of_nat (0x80 + cp mod 64)]
      else if cp < 0x10000 then
        [of_nat (0xE0 + cp div 4096), of_nat (0x80 + cp div 64 mod 64), of_nat (0x80 + cp mod 64)]
      else [of_nat (0xF0 + cp div 262144), of_nat (0x80 + cp div 4096 mod 64),
            of_nat (0x80 + cp div 64 mod 64), of_nat (0x80 + cp mod 64)])"

section \<open>Bit patterns as numbers\<close>

lemma mask_values: "(0x1F :: byte) = mask 5" "(0x0F :: byte) = mask 4" "(0x07 :: byte) = mask 3" "(0x3F :: byte) = mask 6"
  by (simp_all add: mask_eq_exp_minus_1)

lemma unat_masks:
  "unat (c AND (0x1F :: byte)) = unat c mod 32" "unat (c AND (0x0F :: byte)) = unat c mod 16"
  "unat (c AND (0x07 :: byte)) = unat c mod 8" "unat (c AND (0x3F :: byte)) = unat c mod 64"
  unfolding mask_values by (simp_all add: take_bit_eq_mod unat_mod flip: take_bit_eq_mask)

lemma checkTrail_iff: "c AND 0xC0 = (0x80 :: byte) \<longleftrightarrow> 0x80 \<le> unat c \<and> unat c < 0xC0"
proof -
  have "list_all (\<lambda>c. (c AND 0xC0 = (0x80 :: byte)) = (0x80 \<le> unat c \<and> unat c < 0xC0)) (map of_nat [0..<256])"
    by code_simp
  then have "\<forall>n<256. (of_nat n AND 0xC0 = (0x80 :: byte)) = (0x80 \<le> unat (of_nat n :: byte) \<and> unat (of_nat n :: byte) < 0xC0)"
    by (simp add: list_all_iff)
  then show ?thesis using unat_byte_less [of c] by (metis byte_of_nat_unat)
qed

lemma unat_append:
  assumes "unat (v :: u32) < 2 ^ 26"
  shows "unat (push_bit 6 v OR ucast (c AND (0x3F :: byte))) = unat v * 64 + unat c mod 64"
proof -
  have d: "push_bit 6 v AND ucast (c AND (0x3F :: byte)) = 0"
    unfolding mask_values by (rule bit_word_eqI) (auto simp: bit_simps)
  have "unat (push_bit 6 v) = unat v * 64"
    using assms by (simp add: push_bit_eq_mult unat_word_ariths)
  moreover have "unat (ucast (c AND (0x3F :: byte)) :: u32) = unat c mod 64"
    by (simp add: unsigned_ucast_eq unat_masks take_bit_nat_eq_self)
  ultimately show ?thesis
    using assms by (simp add: unat_word_ariths flip: disjunctive_add_eq_or [OF d])
qed

section \<open>Decoding one character\<close>

definition trail :: "byte \<Rightarrow> bool" where
  "trail c \<longleftrightarrow> 0x80 \<le> unat c \<and> unat c < 0xC0"

definition utf_done :: "byte \<Rightarrow> u32 \<Rightarrow> byte list \<Rightarrow> utf_iter \<Rightarrow> utf_iter" where
  "utf_done n v r it = it\<lparr>it_Str := r, it_Char := v, it_TrailSize := n, it_XSize := 0\<rparr>"

text \<open>The checks of \<open>check()\<close> as conditions on the trail size and the value.\<close>

definition utf_fits :: "nat \<Rightarrow> nat \<Rightarrow> bool" where
  "utf_fits n v \<longleftrightarrow> (n = 0 \<or> 0x80 \<le> v) \<and> (n \<le> 1 \<or> 0x800 \<le> v) \<and> (n \<le> 2 \<or> 0x10000 \<le> v) \<and> utf8_valid v"

lemma utf_append_trail:
  "utf_append c it = (if trail c then Inr (it\<lparr>it_Char := push_bit 6 (it_Char it) OR ucast (c AND 0x3F)\<rparr>)
                      else Inl BadCharacter)"
  by (simp add: utf_append_def checkTrail_def trail_def checkTrail_iff)

lemma utf_check_fits:
  "utf_check it = (if utf_fits (unat (it_TrailSize it)) (unat (it_Char it)) then Inr () else Inl BadCharacter)"
  by (auto simp: utf_check_def utf_fits_def utf8_valid_def word_less_nat_alt word_le_nat_alt)

lemma utf_fits_u32: "v < 2 ^ 32 \<Longrightarrow> unat (of_nat v :: u32) = v"
  by (simp add: unat_of_nat)

text \<open>What the loop does on a character with one, two, three and four bytes.\<close>

lemma utf_loop_1:
  assumes "it_XSize it = 0" and "unat c < 0x80"
  shows "utf_loop (c # r) it = Inr (utf_done 0 (ucast c) r it)"
  using assms
  by (simp add: utf_init_def trailSize_def utf_check_fits utf_fits_def utf8_valid_def utf_done_def
      word_le_nat_alt unsigned_ucast_eq take_bit_nat_eq_self)

lemma utf_loop_bad:
  assumes "it_XSize it = 0" and "0x80 \<le> unat c" and "unat c < 0xC0 \<or> 0xF8 \<le> unat c"
  shows "utf_loop (c # r) it = Inl BadCharacter"
  using assms by (auto simp: utf_init_def trailSize_def word_le_nat_alt)

lemma utf_loop_more:
  assumes "it_XSize it = 0" and "0xC0 \<le> unat c" and "unat c < 0xF8"
  shows "utf_loop (c # r) it = utf_loop r (it\<lparr>it_Str := r,
      it_Char := (if unat c < 0xE0 then ucast (c AND 0x1F) else if unat c < 0xF0 then ucast (c AND 0x0F)
                  else ucast (c AND 0x07)),
      it_TrailSize := (if unat c < 0xE0 then 1 else if unat c < 0xF0 then 2 else 3),
      it_XSize := (if unat c < 0xE0 then 1 else if unat c < 0xF0 then 2 else 3)\<rparr>)"
  using assms by (cases it) (auto simp: utf_init_def trailSize_def word_le_nat_alt not_less)

lemma utf_loop_last:
  assumes "it_XSize it = 1" and "unat (it_Char it) < 2 ^ 26"
  shows "utf_loop (d # r) it =
    (let v = unat (it_Char it) * 64 + unat d mod 64 in
     if trail d \<and> utf_fits (unat (it_TrailSize it)) v then Inr (utf_done (it_TrailSize it) (of_nat v) r it)
     else Inl BadCharacter)"
proof -
  let ?w = "push_bit 6 (it_Char it) OR ucast (d AND 0x3F)"
  have v: "unat ?w = unat (it_Char it) * 64 + unat d mod 64" using unat_append [OF assms(2)] .
  then have "?w = of_nat (unat (it_Char it) * 64 + unat d mod 64)" by (metis of_nat_unat ucast_id)
  then show ?thesis
    using assms(1) v by (simp add: utf_append_trail utf_check_fits utf_done_def Let_def)
qed

lemma utf_loop_inner:
  assumes "1 < it_XSize it" and "unat (it_Char it) < 2 ^ 26"
  shows "utf_loop (d # r) it =
    (if trail d then utf_loop r (it\<lparr>it_Str := r, it_XSize := it_XSize it - 1,
         it_Char := of_nat (unat (it_Char it) * 64 + unat d mod 64)\<rparr>)
     else Inl BadCharacter)"
proof -
  let ?w = "push_bit 6 (it_Char it) OR ucast (d AND 0x3F)"
  have "unat ?w = unat (it_Char it) * 64 + unat d mod 64" using unat_append [OF assms(2)] .
  then have w: "?w = of_nat (unat (it_Char it) * 64 + unat d mod 64)" by (metis of_nat_unat ucast_id)
  have "0 < it_XSize it" "it_XSize it - 1 \<noteq> 0"
    using assms(1) by (auto simp: word_less_nat_alt)
  then show ?thesis using w by (cases it) (simp add: utf_append_trail)
qed

lemma utf_loop_short:
  assumes "it_XSize it \<noteq> 0" and "length str < unat (it_XSize it)"
  shows "utf_loop str it = Inl BadCharacter"
  using assms
proof (induction str arbitrary: it)
  case (Cons d str)
  let ?x = "it_XSize it"
  let ?it = "it\<lparr>it_XSize := ?x - 1, it_Char := push_bit 6 (it_Char it) OR ucast (d AND 63), it_Str := str\<rparr>"
  have x: "unat (?x - 1) = unat ?x - 1" using Cons.prems(1) by (intro unat_minus_one)
  have nz: "?x - 1 \<noteq> 0" using Cons.prems(2) x by auto
  have "utf_loop str ?it = Inl BadCharacter"
    by (rule Cons.IH) (use x nz Cons.prems(2) in simp_all)
  then show ?case
    using Cons.prems(1) nz by (simp add: utf_append_trail word_neq_0_conv)
qed simp

declare utf_loop.simps(2) [simp del]

lemma unat_lead:
  "unat (ucast (c AND (0x1F :: byte)) :: u32) = unat c mod 32" "unat (ucast (c AND (0x0F :: byte)) :: u32) = unat c mod 16"
  "unat (ucast (c AND (0x07 :: byte)) :: u32) = unat c mod 8"
  by (simp_all add: unsigned_ucast_eq unat_masks take_bit_nat_eq_self)

definition cont :: "byte \<Rightarrow> nat" where
  "cont d = unat d mod 64"

lemma cont_less: "cont d < 64"
  by (simp add: cont_def)

lemma utf_loop_2:
  assumes "it_XSize it = 0" and "0xC0 \<le> unat c" and "unat c < 0xE0"
  shows "utf_loop (c # d # r) it =
    (let v = unat c mod 32 * 64 + cont d in
     if trail d \<and> utf_fits 1 v then Inr (utf_done 1 (of_nat v) r it) else Inl BadCharacter)"
proof -
  have "unat c mod 32 < 2 ^ 26" by (rule less_trans [of _ 32]) simp_all
  then show ?thesis
    using assms by (simp add: utf_loop_more utf_loop_last unat_lead cont_def utf_done_def Let_def del: of_nat_add of_nat_mult)
qed

lemma utf_loop_3:
  assumes "it_XSize it = 0" and "0xE0 \<le> unat c" and "unat c < 0xF0"
  shows "utf_loop (c # d # e # r) it =
    (let v = (unat c mod 16 * 64 + cont d) * 64 + cont e in
     if trail d \<and> trail e \<and> utf_fits 2 v then Inr (utf_done 2 (of_nat v) r it) else Inl BadCharacter)"
proof -
  let ?v = "unat c mod 16 * 64 + cont d"
  have b: "unat c mod 16 < 2 ^ 26" "?v < 2 ^ 26"
    using cont_less [of d] mod_less_divisor [of 16 "unat c"] by simp_all
  have u: "unat (of_nat ?v :: u32) = ?v" by (rule utf_fits_u32) (use b in simp)
  let ?it = "it\<lparr>it_Str := d # e # r, it_Char := ucast (c AND 0x0F), it_TrailSize := 2, it_XSize := 2\<rparr>"
  have "utf_loop (d # e # r) ?it = (if trail d then utf_loop (e # r)
      (?it\<lparr>it_Str := e # r, it_XSize := 1, it_Char := of_nat ?v\<rparr>) else Inl BadCharacter)"
    using utf_loop_inner [of ?it d "e # r"] b(1) by (simp add: unat_lead cont_def)
  also have "\<dots> = (let v = ?v * 64 + cont e in
      if trail d \<and> trail e \<and> utf_fits 2 v then Inr (utf_done 2 (of_nat v) r it) else Inl BadCharacter)"
    using b(2) u by (simp add: utf_loop_last cont_def utf_done_def Let_def del: of_nat_add of_nat_mult)
  finally show ?thesis using assms by (simp add: utf_loop_more)
qed

lemma utf_loop_4:
  assumes "it_XSize it = 0" and "0xF0 \<le> unat c" and "unat c < 0xF8"
  shows "utf_loop (c # d # e # f # r) it =
    (let v = ((unat c mod 8 * 64 + cont d) * 64 + cont e) * 64 + cont f in
     if trail d \<and> trail e \<and> trail f \<and> utf_fits 3 v then Inr (utf_done 3 (of_nat v) r it) else Inl BadCharacter)"
proof -
  let ?v = "unat c mod 8 * 64 + cont d"
  let ?w = "?v * 64 + cont e"
  have b: "unat c mod 8 < 2 ^ 26" "?v < 2 ^ 26" "?w < 2 ^ 26"
    using cont_less [of d] cont_less [of e] mod_less_divisor [of 8 "unat c"] by simp_all
  have u: "unat (of_nat ?v :: u32) = ?v" "unat (of_nat ?w :: u32) = ?w"
    by (rule utf_fits_u32, use b in simp)+
  let ?it = "it\<lparr>it_Str := d # e # f # r, it_Char := ucast (c AND 0x07), it_TrailSize := 3, it_XSize := 3\<rparr>"
  have "utf_loop (d # e # f # r) ?it = (if trail d then utf_loop (e # f # r)
      (?it\<lparr>it_Str := e # f # r, it_XSize := 2, it_Char := of_nat ?v\<rparr>) else Inl BadCharacter)"
    using utf_loop_inner [of ?it d "e # f # r"] b(1) by (simp add: unat_lead cont_def)
  also have "utf_loop (e # f # r) (?it\<lparr>it_Str := e # f # r, it_XSize := 2, it_Char := of_nat ?v\<rparr>)
      = (if trail e then utf_loop (f # r) (?it\<lparr>it_Str := f # r, it_XSize := 1, it_Char := of_nat ?w\<rparr>)
         else Inl BadCharacter)"
    using utf_loop_inner [of "?it\<lparr>it_Str := e # f # r, it_XSize := 2, it_Char := of_nat ?v\<rparr>" e "f # r"] b(2) u(1)
    by (simp add: cont_def del: of_nat_add of_nat_mult)
  also have "utf_loop (f # r) (?it\<lparr>it_Str := f # r, it_XSize := 1, it_Char := of_nat ?w\<rparr>)
      = (let v = ?w * 64 + cont f in
         if trail f \<and> utf_fits 3 v then Inr (utf_done 3 (of_nat v) r it) else Inl BadCharacter)"
    using b(3) u(2) by (simp add: utf_loop_last cont_def utf_done_def Let_def del: of_nat_add of_nat_mult)
  finally show ?thesis using assms by (simp add: utf_loop_more Let_def)
qed

section \<open>Decoder and encoding agree\<close>

lemma mod_base: "k dvd b \<Longrightarrow> b \<le> u \<Longrightarrow> u < b + k \<Longrightarrow> b + u mod k = (u :: nat)"
  using mod_nat_eqI [of "u - b" k u] by simp

lemma base_mod: "k dvd b \<Longrightarrow> x < k \<Longrightarrow> (b + x) mod k = (x :: nat)"
  using mod_base [of k b "b + x"] by simp

lemma digit: "y < 64 \<Longrightarrow> (m * 64 + y) div 64 = (m :: nat)" "y < 64 \<Longrightarrow> (m * 64 + y) mod 64 = (y :: nat)"
  by simp_all

lemma enc_trail: "x < 64 \<Longrightarrow> trail (of_nat (0x80 + x)) \<and> cont (of_nat (0x80 + x)) = x"
  using base_mod [of 64 "0x80" x] by (simp add: trail_def cont_def unat_of_nat_byte_mod del: of_nat_add)

lemma dec_trail: "trail d \<Longrightarrow> of_nat (0x80 + cont d) = d"
  using mod_base [of 64 "0x80" "unat d"] byte_of_nat_unat [of d] by (simp add: trail_def cont_def)

lemma lead_bytes:
  "x < 32 \<Longrightarrow> unat (of_nat (0xC0 + x) :: byte) = 0xC0 + x"
  "x < 16 \<Longrightarrow> unat (of_nat (0xE0 + x) :: byte) = 0xE0 + x"
  "x < 8 \<Longrightarrow> unat (of_nat (0xF0 + x) :: byte) = 0xF0 + x"
  by (simp_all add: unat_of_nat_byte_mod del: of_nat_add)

lemma dec_lead:
  "0xC0 \<le> unat c \<Longrightarrow> unat c < 0xE0 \<Longrightarrow> of_nat (0xC0 + unat c mod 32) = (c :: byte)"
  "0xE0 \<le> unat c \<Longrightarrow> unat c < 0xF0 \<Longrightarrow> of_nat (0xE0 + unat c mod 16) = (c :: byte)"
  "0xF0 \<le> unat c \<Longrightarrow> unat c < 0xF8 \<Longrightarrow> of_nat (0xF0 + unat c mod 8) = (c :: byte)"
  using mod_base [of 32 "0xC0" "unat c"] mod_base [of 16 "0xE0" "unat c"] mod_base [of 8 "0xF0" "unat c"]
    byte_of_nat_unat [of c]
  by (simp_all del: of_nat_add)

lemma lead_mod:
  "x < 32 \<Longrightarrow> (0xC0 + x) mod 32 = (x :: nat)" "x < 16 \<Longrightarrow> (0xE0 + x) mod 16 = (x :: nat)"
  "x < 8 \<Longrightarrow> (0xF0 + x) mod 8 = (x :: nat)"
  by (rule base_mod; simp)+

text \<open>The encodings by length, with the pieces named.\<close>

lemma encode_2: "0x80 \<le> a * 64 + x \<Longrightarrow> a < 32 \<Longrightarrow> x < 64 \<Longrightarrow>
   utf8_encode (a * 64 + x) = [of_nat (0xC0 + a), of_nat (0x80 + x)]"
  unfolding utf8_encode_def by (simp add: digit del: of_nat_add)

lemma encode_3:
  assumes "0x800 \<le> (a * 64 + x) * 64 + y" and "a < 16" and "x < 64" and "y < 64"
  shows "utf8_encode ((a * 64 + x) * 64 + y) = [of_nat (0xE0 + a), of_nat (0x80 + x), of_nat (0x80 + y)]"
proof -
  define v where "v = (a * 64 + x) * 64 + y"
  have 1: "v div 64 = a * 64 + x" "v mod 64 = y" unfolding v_def by (rule digit, rule assms)+
  have 2: "v div 4096 = a" "v div 64 mod 64 = x"
    using 1(1) assms(3) div_mult2_eq [of v 64 64] by (simp_all add: digit)
  have "0x800 \<le> v" "v < 0x10000" using assms by (simp_all add: v_def)
  then show ?thesis unfolding v_def [symmetric] utf8_encode_def using 1(2) 2 by (simp del: of_nat_add)
qed

lemma encode_4:
  assumes "0x10000 \<le> ((a * 64 + x) * 64 + y) * 64 + z" and "x < 64" and "y < 64" and "z < 64"
  shows "utf8_encode (((a * 64 + x) * 64 + y) * 64 + z)
    = [of_nat (0xF0 + a), of_nat (0x80 + x), of_nat (0x80 + y), of_nat (0x80 + z)]"
proof -
  define v where "v = ((a * 64 + x) * 64 + y) * 64 + z"
  have 1: "v div 64 = (a * 64 + x) * 64 + y" "v mod 64 = z" unfolding v_def by (rule digit, rule assms)+
  have 2: "v div 4096 = a * 64 + x" "v div 64 mod 64 = y"
    using digit [OF assms(3), of "a * 64 + x"] 1(1) div_mult2_eq [of v 64 64] by simp_all
  have 3: "v div 262144 = a" "v div 4096 mod 64 = x"
    using 2(1) assms(2) div_mult2_eq [of v 4096 64] by (simp_all add: digit)
  have "0x10000 \<le> v" using assms by (simp add: v_def)
  then show ?thesis unfolding v_def [symmetric] utf8_encode_def using 1(2) 2(2) 3 by (simp del: of_nat_add)
qed

definition utf_decoded :: "nat \<Rightarrow> byte list \<Rightarrow> utf_iter \<Rightarrow> utf_iter" where
  "utf_decoded cp r it = utf_done (of_nat (length (utf8_encode cp) - 1)) (of_nat cp) r it"

lemma utf_loop_encode:
  assumes x: "it_XSize it = 0" and v: "utf8_valid cp"
  shows "utf_loop (utf8_encode cp @ r) it = Inr (utf_decoded cp r it)"
proof -
  consider (a) "cp < 0x80" | (b) "0x80 \<le> cp" "cp < 0x800" | (c) "0x800 \<le> cp" "cp < 0x10000" | (d) "0x10000 \<le> cp"
    by linarith
  then show ?thesis
  proof cases
    case a
    then have "unat (of_nat cp :: byte) = cp" by (simp add: unat_of_nat_byte_mod)
    moreover have "ucast (of_nat cp :: byte) = (of_nat cp :: u32)"
      using a by (simp add: word_unat_eq_iff unsigned_ucast_eq unsigned_of_nat take_bit_nat_eq_self)
    ultimately show ?thesis
      using a utf_loop_1 [OF x, of "of_nat cp" r] by (simp add: utf8_encode_def utf_decoded_def)
  next
    case b
    define p q where "p = cp div 64" and "q = cp mod 64"
    have cp: "cp = p * 64 + q" and "p < 32" and "q < 64" using b by (auto simp: p_def q_def)
    then show ?thesis
      using b x v enc_trail [of q] lead_bytes(1) [of p] encode_2 [of p q] utf_loop_2 [OF x, of "of_nat (0xC0 + p)" "of_nat (0x80 + q)" r]
      by (simp add: utf_decoded_def utf_fits_def Let_def lead_mod del: of_nat_add of_nat_mult)
  next
    case c
    define p q s where "p = cp div 4096" and "q = cp div 64 mod 64" and "s = cp mod 64"
    have "cp = cp div 64 * 64 + s" "cp div 64 = p * 64 + q" by (simp_all add: p_def q_def s_def div_mult2_eq [of _ 64 64, simplified])
    then have cp: "cp = (p * 64 + q) * 64 + s" by simp
    have "p < 16" "q < 64" "s < 64" using c by (auto simp: p_def q_def s_def)
    then show ?thesis
      using c x v cp enc_trail [of q] enc_trail [of s] lead_bytes(2) [of p] encode_3 [of p q s]
        utf_loop_3 [OF x, of "of_nat (0xE0 + p)" "of_nat (0x80 + q)" "of_nat (0x80 + s)" r]
      by (simp add: utf_decoded_def utf_fits_def Let_def lead_mod del: of_nat_add of_nat_mult)
  next
    case d
    define p q s u where "p = cp div 262144" and "q = cp div 4096 mod 64" and "s = cp div 64 mod 64" and "u = cp mod 64"
    have "cp = cp div 64 * 64 + u" "cp div 64 = cp div 4096 * 64 + s" "cp div 4096 = p * 64 + q"
      using div_mult2_eq [of cp 64 64] div_mult2_eq [of cp 4096 64] by (simp_all add: p_def q_def s_def u_def)
    then have cp: "cp = ((p * 64 + q) * 64 + s) * 64 + u" by simp
    have "p < 8" "q < 64" "s < 64" "u < 64" using v by (auto simp: p_def q_def s_def u_def utf8_valid_def)
    then show ?thesis
      using d x v cp enc_trail [of q] enc_trail [of s] enc_trail [of u] lead_bytes(3) [of p] encode_4 [of p q s u]
        utf_loop_4 [OF x, of "of_nat (0xF0 + p)" "of_nat (0x80 + q)" "of_nat (0x80 + s)" "of_nat (0x80 + u)" r]
      by (simp add: utf_decoded_def utf_fits_def Let_def lead_mod del: of_nat_add of_nat_mult)
  qed
qed

lemma utf_loop_truncated:
  assumes "it_XSize it = 0" and "0xC0 \<le> unat c" and "unat c < 0xF8"
    and "length r < (if unat c < 0xE0 then 1 else if unat c < 0xF0 then 2 else 3)"
  shows "utf_loop (c # r) it = Inl BadCharacter"
  unfolding utf_loop_more [OF assms(1-3)] by (rule utf_loop_short) (use assms(4) in \<open>simp_all split: if_splits\<close>)

lemma utf_loop_decode_2:
  assumes x: "it_XSize it = 0" and c: "0xC0 \<le> unat c" "unat c < 0xE0" and ok: "utf_loop (c # str) it = Inr it'"
  shows "\<exists>cp r. utf8_valid cp \<and> c # str = utf8_encode cp @ r \<and> it' = utf_decoded cp r it"
proof -
  obtain d r where str: "str = d # r"
    using utf_loop_truncated [OF x c(1), of str] c ok by (cases str) auto
  let ?v = "unat c mod 32 * 64 + cont d"
  have t: "trail d" and f: "utf_fits 1 ?v" and it': "it' = utf_done 1 (of_nat ?v) r it"
    using ok utf_loop_2 [OF x c, of d r] unfolding str by (auto simp: Let_def split: if_splits)
  have e: "utf8_encode ?v = [c, d]"
    using encode_2 [of "unat c mod 32" "cont d"] f cont_less [of d] dec_lead(1) [OF c] dec_trail [OF t]
    by (simp add: utf_fits_def del: of_nat_add)
  have "utf8_valid ?v" using f by (simp add: utf_fits_def)
  moreover have "c # str = utf8_encode ?v @ r" using e str by simp
  moreover have "it' = utf_decoded ?v r it" using e it' by (simp add: utf_decoded_def)
  ultimately show ?thesis by blast
qed

lemma utf_loop_decode_3:
  assumes x: "it_XSize it = 0" and c: "0xE0 \<le> unat c" "unat c < 0xF0" and ok: "utf_loop (c # str) it = Inr it'"
  shows "\<exists>cp r. utf8_valid cp \<and> c # str = utf8_encode cp @ r \<and> it' = utf_decoded cp r it"
proof -
  have "\<not> length str < 2" using utf_loop_truncated [OF x, of c str] c ok by auto
  then obtain d e r where str: "str = d # e # r" by (cases str; cases "tl str") auto
  let ?v = "(unat c mod 16 * 64 + cont d) * 64 + cont e"
  have t: "trail d" "trail e" and f: "utf_fits 2 ?v" and it': "it' = utf_done 2 (of_nat ?v) r it"
    using ok utf_loop_3 [OF x c, of d e r] unfolding str by (auto simp: Let_def split: if_splits)
  have e: "utf8_encode ?v = [c, d, e]"
    using encode_3 [of "unat c mod 16" "cont d" "cont e"] f cont_less [of d] cont_less [of e] dec_lead(2) [OF c]
      dec_trail [OF t(1)] dec_trail [OF t(2)]
    by (simp add: utf_fits_def del: of_nat_add)
  have "utf8_valid ?v" using f by (simp add: utf_fits_def)
  moreover have "c # str = utf8_encode ?v @ r" using e str by simp
  moreover have "it' = utf_decoded ?v r it" using e it' by (simp add: utf_decoded_def)
  ultimately show ?thesis by blast
qed

lemma utf_loop_decode_4:
  assumes x: "it_XSize it = 0" and c: "0xF0 \<le> unat c" "unat c < 0xF8" and ok: "utf_loop (c # str) it = Inr it'"
  shows "\<exists>cp r. utf8_valid cp \<and> c # str = utf8_encode cp @ r \<and> it' = utf_decoded cp r it"
proof -
  have "\<not> length str < 3" using utf_loop_truncated [OF x, of c str] c ok by auto
  then obtain d e g r where str: "str = d # e # g # r" by (cases str; cases "tl str"; cases "tl (tl str)") auto
  let ?v = "((unat c mod 8 * 64 + cont d) * 64 + cont e) * 64 + cont g"
  have t: "trail d" "trail e" "trail g" and f: "utf_fits 3 ?v" and it': "it' = utf_done 3 (of_nat ?v) r it"
    using ok utf_loop_4 [OF x c, of d e g r] unfolding str by (auto simp: Let_def split: if_splits)
  have e: "utf8_encode ?v = [c, d, e, g]"
    using encode_4 [of "unat c mod 8" "cont d" "cont e" "cont g"] f cont_less [of d] cont_less [of e] cont_less [of g]
      dec_lead(3) [OF c] dec_trail [OF t(1)] dec_trail [OF t(2)] dec_trail [OF t(3)]
    by (simp add: utf_fits_def del: of_nat_add)
  have "utf8_valid ?v" using f by (simp add: utf_fits_def)
  moreover have "c # str = utf8_encode ?v @ r" using e str by simp
  moreover have "it' = utf_decoded ?v r it" using e it' by (simp add: utf_decoded_def)
  ultimately show ?thesis by blast
qed

lemma utf_loop_decode:
  assumes x: "it_XSize it = 0" and ok: "utf_loop str it = Inr it'"
  shows "\<exists>cp r. utf8_valid cp \<and> str = utf8_encode cp @ r \<and> it' = utf_decoded cp r it"
proof (cases str)
  case Nil
  then show ?thesis using ok by simp
next
  case (Cons c r)
  consider (a) "unat c < 0x80" | (bad) "0x80 \<le> unat c" "unat c < 0xC0 \<or> 0xF8 \<le> unat c"
    | (b) "0xC0 \<le> unat c" "unat c < 0xE0" | (c) "0xE0 \<le> unat c" "unat c < 0xF0" | (d) "0xF0 \<le> unat c" "unat c < 0xF8"
    by linarith
  then show ?thesis
  proof cases
    case a
    have e: "utf8_encode (unat c) = [c]" "utf8_valid (unat c)"
      using a by (simp_all add: utf8_encode_def utf8_valid_def)
    moreover have "(of_nat (unat c) :: u32) = ucast c"
      by (simp add: word_unat_eq_iff unsigned_ucast_eq unsigned_of_nat)
    ultimately have "it' = utf_decoded (unat c) r it"
      using ok Cons utf_loop_1 [OF x a, of r] by (simp add: utf_decoded_def)
    then show ?thesis using e Cons by (intro exI [of _ "unat c"] exI [of _ r]) simp
  next
    case bad
    then show ?thesis using ok Cons utf_loop_bad [OF x bad, of r] by simp
  next
    case b
    then show ?thesis using ok Cons utf_loop_decode_2 [OF x b, of r it'] by simp
  next
    case c
    then show ?thesis using ok Cons utf_loop_decode_3 [OF x c, of r it'] by simp
  next
    case d
    then show ?thesis using ok Cons utf_loop_decode_4 [OF x d, of r it'] by simp
  qed
qed

lemma utf_loop_error: "utf_loop str it = Inl e \<Longrightarrow> e = BadCharacter"
proof (induction str arbitrary: it)
  case (Cons c str)
  from Cons.prems show ?case
    by (simp add: utf_loop.simps)
      (auto simp: bindr_eq_Inl utf_append_trail utf_init_def trailSize_def utf_check_fits
        split: if_splits dest: Cons.IH)
qed simp

lemma utf8_encode_nonempty: "utf8_encode cp \<noteq> []"
  by (simp add: utf8_encode_def)

section \<open>Whole strings\<close>

abbreviation utf8_string :: "nat list \<Rightarrow> byte list" where
  "utf8_string cps \<equiv> concat (map utf8_encode cps)"

text \<open>An iterator that stands on a character, with the rest of the string still to come.\<close>

definition utf_at :: "utf_iter \<Rightarrow> bool" where
  "utf_at it \<longleftrightarrow> it_XSize it = 0 \<and> \<not> it_Eol it"

lemma utf_decoded_simps [simp]:
  "it_Str (utf_decoded cp r it) = r" "it_Char (utf_decoded cp r it) = of_nat cp"
  "it_XSize (utf_decoded cp r it) = 0" "it_Eol (utf_decoded cp r it) = it_Eol it"
  by (simp_all add: utf_decoded_def utf_done_def utf_at_def)

lemma utf_at_not_end: "utf_at it \<Longrightarrow> \<not> utf_eq it utf_end"
  by (simp add: utf_at_def utf_eq_def utf_end_def)

lemma utf_step_next:
  assumes "utf_at it" and "utf8_valid cp" and "it_Str it = utf8_encode cp @ r"
  shows "utf_step it = Inr (utf_decoded cp r it)"
  using assms utf_loop_encode [of it cp r] utf8_encode_nonempty [of cp] by (simp add: utf_step_def utf_at_def)

lemma utf_step_eol: "it_Str it = [] \<Longrightarrow> \<exists>it'. utf_step it = Inr it' \<and> utf_eq it' utf_end"
  by (simp add: utf_step_def utf_eq_def utf_end_def)

lemma utf_for_valid:
  assumes "utf_at it" and "list_all utf8_valid cps" and "it_Str it = utf8_string cps" and "length cps + 2 \<le> n"
  shows "\<exists>cs. utf_for go n it = Inr (cs, list_all go (it_Char it # map of_nat cps))
    \<and> (list_all go (it_Char it # map of_nat cps) \<longrightarrow> cs = it_Char it # map of_nat cps)"
  using assms
proof (induction cps arbitrary: it n)
  case Nil
  then obtain m where n: "n = Suc (Suc m)" by (cases n; cases "n - 1") auto
  obtain it' where "utf_step it = Inr it'" "utf_eq it' utf_end"
    using utf_step_eol [of it] Nil by auto
  then show ?case using utf_at_not_end [OF Nil.prems(1)] n by simp
next
  case (Cons cp cps)
  then obtain m where n: "n = Suc m" "length cps + 2 \<le> m" by (cases n) auto
  let ?it = "utf_decoded cp (utf8_string cps) it"
  have st: "utf_step it = Inr ?it"
    using utf_step_next [OF Cons.prems(1), of cp "utf8_string cps"] Cons.prems(2,3) by simp
  have "utf_at ?it" using Cons.prems(1) by (simp add: utf_at_def)
  then obtain cs where "utf_for go m ?it = Inr (cs, list_all go (of_nat cp # map of_nat cps))"
    "list_all go (of_nat cp # map of_nat cps) \<longrightarrow> cs = of_nat cp # map of_nat cps"
    using Cons.IH [of ?it m] Cons.prems(2) n(2) by auto
  then show ?case using st n(1) utf_at_not_end [OF Cons.prems(1)] by auto
qed

lemma utf_for_only:
  assumes "utf_at it" and "utf_for (\<lambda>_. True) n it = Inr (cs, b)"
  shows "\<exists>cps. list_all utf8_valid cps \<and> it_Str it = utf8_string cps \<and> cs = it_Char it # map of_nat cps"
  using assms
proof (induction n arbitrary: it cs)
  case (Suc n)
  obtain it' cs' where st: "utf_step it = Inr it'" and f: "utf_for (\<lambda>_. True) n it' = Inr (cs', b)"
    and cs: "cs = it_Char it # cs'"
    using Suc.prems utf_at_not_end [OF Suc.prems(1)] by (auto simp: bindr_eq_Inr split: if_splits)
  show ?case
  proof (cases "it_Str it = []")
    case True
    then have "utf_eq it' utf_end" using utf_step_eol [of it] st by auto
    then have "cs' = []" using f by (cases n) auto
    then show ?thesis using True cs by (intro exI [of _ "[]"]) simp
  next
    case False
    then obtain cp r where r: "utf8_valid cp" "it_Str it = utf8_encode cp @ r" "it' = utf_decoded cp r it"
      using utf_loop_decode [of it "it_Str it" it'] st Suc.prems(1) by (auto simp: utf_step_def utf_at_def)
    have "utf_at it'" using r(3) Suc.prems(1) by (simp add: utf_at_def)
    from Suc.IH [OF this f] obtain cps where "list_all utf8_valid cps" "r = utf8_string cps"
      "cs' = of_nat cp # map of_nat cps" using r(3) by auto
    then show ?thesis using r(1,2) cs by (intro exI [of _ "cp # cps"]) simp
  qed
qed simp

lemma utf_for_fuel:
  assumes "utf_at it" and "length (it_Str it) + 2 \<le> n" and "utf_for go n it = Inl e"
  shows "e = BadCharacter"
  using assms
proof (induction n arbitrary: it)
  case (Suc n)
  show ?case
  proof (cases "utf_step it")
    case (Inl e')
    then show ?thesis
      using Suc.prems utf_at_not_end [OF Suc.prems(1)] utf_loop_error
      by (auto simp: utf_step_def split: if_splits)
  next
    case (Inr it')
    then have f: "utf_for go n it' = Inl e"
      using Suc.prems(3) utf_at_not_end [OF Suc.prems(1)] by (auto simp: bindr_eq_Inl split: if_splits)
    show ?thesis
    proof (cases "it_Str it = []")
      case True
      then have "utf_eq it' utf_end" using utf_step_eol [of it] Inr by auto
      then show ?thesis using f Suc.prems(2) by (cases n) auto
    next
      case False
      then obtain cp r where r: "it_Str it = utf8_encode cp @ r" "it' = utf_decoded cp r it"
        using utf_loop_decode [of it "it_Str it" it'] Inr Suc.prems(1) by (auto simp: utf_step_def utf_at_def)
      moreover have "1 \<le> length (utf8_encode cp)" using utf8_encode_nonempty [of cp] by (simp add: Suc_leI)
      ultimately have "utf_at it'" and "length (it_Str it') + 2 \<le> n"
        using Suc.prems(1,2) by (simp_all add: utf_at_def)
      then show ?thesis using Suc.IH [OF _ _ f] by blast
    qed
  qed
qed simp

text \<open>The first character, read by the constructor of the iterator.\<close>

definition utf_fresh :: "byte list \<Rightarrow> utf_iter" where
  "utf_fresh aStr = \<lparr>it_Str = aStr, it_Char = 0, it_TrailSize = 0, it_XSize = 0, it_Eol = False\<rparr>"

lemma utf_begin_step: "utf_begin aStr = utf_step (utf_fresh aStr)"
  by (simp add: utf_begin_def utf_fresh_def)

lemma utf_fresh_simps [simp]: "utf_at (utf_fresh aStr)" "it_Str (utf_fresh aStr) = aStr"
  by (simp_all add: utf_fresh_def utf_at_def)

lemma utf_fresh_for: "utf_for (\<lambda>_. True) (Suc n) (utf_fresh aStr)
   = bindr (bindr (utf_begin aStr) (utf_for (\<lambda>_. True) n)) (\<lambda>(cs, b). Inr (0 # cs, b))"
  using utf_at_not_end [OF utf_fresh_simps(1), of aStr]
  by (cases "utf_begin aStr") (auto simp: utf_begin_step utf_fresh_def)

lemma utf8_string_length: "length xs \<le> length (utf8_string xs)"
proof (induction xs)
  case (Cons x xs)
  have "1 \<le> length (utf8_encode x)" using utf8_encode_nonempty [of x] by (simp add: Suc_leI)
  then show ?case using Cons by simp
qed simp

lemma utf_run_valid:
  assumes "list_all utf8_valid cps"
  shows "\<exists>cs. utf_run go (utf8_string cps) = Inr (cs, list_all go (map of_nat cps))"
proof (cases cps)
  case Nil
  then show ?thesis by (simp add: utf_run_def utf_begin_def utf_step_def utf_eq_def utf_end_def)
next
  case (Cons cp r)
  let ?it = "utf_decoded cp (utf8_string r) (utf_fresh (utf8_string cps))"
  have b: "utf_begin (utf8_string cps) = Inr ?it"
    unfolding utf_begin_step using assms Cons by (intro utf_step_next) simp_all
  have at: "utf_at ?it" by (simp add: utf_fresh_def utf_at_def)
  have len: "length r \<le> length (utf8_string cps)"
    using utf8_string_length [of r] Cons by simp
  from utf_for_valid [OF at, of r "length (utf8_string cps) + 2" go] assms Cons len b
  show ?thesis by (auto simp: utf_run_def)
qed

lemma utf_chars_valid:
  assumes "list_all utf8_valid cps"
  shows "utf_chars (utf8_string cps) = Inr (map of_nat cps)"
proof -
  let ?n = "length (utf8_string cps) + 2"
  define X where "X = bindr (utf_begin (utf8_string cps)) (utf_for (\<lambda>_. True) ?n)"
  have "length cps + 2 \<le> Suc ?n" using utf8_string_length [of cps] by simp
  from utf_for_valid [OF utf_fresh_simps(1) assms utf_fresh_simps(2) this, of "\<lambda>_. True"]
  have "bindr X (\<lambda>(cs, b). Inr (0 # cs, b)) = Inr (0 # map of_nat cps, True)"
    unfolding utf_fresh_for X_def by (auto simp: list_all_iff utf_fresh_def simp del: utf_for.simps)
  then have "X = Inr (map of_nat cps, True)" by (cases X) auto
  then show ?thesis unfolding utf_chars_def utf_run_def X_def [symmetric] by simp
qed

lemma utf_chars_only:
  assumes "utf_chars aStr = Inr cs"
  shows "\<exists>cps. list_all utf8_valid cps \<and> aStr = utf8_string cps \<and> cs = map of_nat cps"
proof -
  obtain b where "bindr (utf_begin aStr) (utf_for (\<lambda>_. True) (length aStr + 2)) = Inr (cs, b)"
    using assms by (auto simp: utf_chars_def utf_run_def bindr_eq_Inr)
  then have "utf_for (\<lambda>_. True) (Suc (length aStr + 2)) (utf_fresh aStr) = Inr (0 # cs, b)"
    unfolding utf_fresh_for by simp
  from utf_for_only [OF utf_fresh_simps(1) this] show ?thesis by (auto simp: utf_fresh_def)
qed

lemma utf_chars_error:
  assumes "utf_chars aStr = Inl e"
  shows "e = BadCharacter"
proof -
  have "bindr (utf_begin aStr) (utf_for (\<lambda>_. True) (length aStr + 2)) = Inl e"
    using assms by (auto simp: utf_chars_def utf_run_def bindr_eq_Inl)
  then have "utf_for (\<lambda>_. True) (Suc (length aStr + 2)) (utf_fresh aStr) = Inl e"
    unfolding utf_fresh_for by simp
  from utf_for_fuel [OF utf_fresh_simps(1) _ this] show ?thesis by simp
qed

text \<open>The upper bound of \<open>check()\<close> is that of 21 bits, not the last code point U+10FFFF.\<close>

lemma utf8_beyond_unicode: "utf_chars [0xF7, 0xBF, 0xBF, 0xBF] = Inr [0x1FFFFF]"
  using utf_chars_valid [of "[0x1FFFFF]"] by (simp add: utf8_valid_def utf8_encode_def)

lemma bmp_code_point: "cp < 0x200000 \<Longrightarrow> 0xFFFF < (of_nat cp :: u32) \<longleftrightarrow> 0xFFFF < cp"
  using utf_fits_u32 [of cp] by (simp add: word_less_nat_alt)

section \<open>Properties\<close>

text \<open>
  C10: the decoder accepts exactly the concatenations of shortest encodings of code points below
  \<open>2^21\<close> other than surrogates, yields those code points in order, and on every other input
  throws \<open>BadCharacter\<close>.
\<close>

theorem utf8_accepts:
  "(utf_chars aStr = Inr cs \<longleftrightarrow>
      (\<exists>cps. list_all utf8_valid cps \<and> aStr = utf8_string cps \<and> cs = map of_nat cps))
   \<and> (utf_chars aStr = Inl e \<longrightarrow> e = BadCharacter)"
  using utf_chars_valid utf_chars_only utf_chars_error by blast

theorem utf8_accepts_witness: "utf_chars [0x24, 0xD0, 0x96] = Inr [0x24, 0x416]"
proof -
  have "\<exists>cps. list_all utf8_valid cps \<and> [0x24, 0xD0, 0x96] = utf8_string cps \<and> ([0x24, 0x416] :: u32 list) = map of_nat cps"
    by (rule exI [of _ "[0x24, 0x416]"]) (simp add: utf8_valid_def utf8_encode_def)
  then show ?thesis by (rule utf8_accepts [THEN conjunct1, THEN iffD2])
qed

text \<open>
  on a well-formed string \<open>Length\<close> is the number of code points modulo \<open>2^32\<close>, \<open>IsBMP\<close> tells
  whether all of them are below \<open>0x10000\<close>, and \<open>InRange\<close> whether each lies in one of the ranges.
\<close>

theorem utf8_functions:
  assumes "list_all utf8_valid cps"
  shows "Length (utf8_string cps) = Inr (of_nat (length cps))
    \<and> IsBMP (utf8_string cps) = Inr (list_all (\<lambda>cp. cp \<le> 0xFFFF) cps)
    \<and> InRange (utf8_string cps) rs = Inr (list_all (\<lambda>cp. \<exists>r\<in>set rs. range_test r (of_nat cp)) cps)"
proof (intro conjI)
  show "Length (utf8_string cps) = Inr (of_nat (length cps))"
    by (simp add: Length_def utf_chars_valid [OF assms])
  have "list_all (\<lambda>x :: u32. \<not> 0xFFFF < x) (map of_nat cps) = list_all (\<lambda>cp. cp \<le> 0xFFFF) cps"
    using assms bmp_code_point by (auto simp: list_all_iff utf8_valid_def)
  then show "IsBMP (utf8_string cps) = Inr (list_all (\<lambda>cp. cp \<le> 0xFFFF) cps)"
    using utf_run_valid [OF assms, of "\<lambda>x. \<not> 0xFFFF < x"] by (auto simp: IsBMP_def)
  have hit: "foldl (\<lambda>sHit r. if \<not> sHit then range_test r x else sHit) b rs \<longleftrightarrow> b \<or> (\<exists>r\<in>set rs. range_test r x)" for x b
    by (induction rs arbitrary: b) auto
  show "InRange (utf8_string cps) rs = Inr (list_all (\<lambda>cp. \<exists>r\<in>set rs. range_test r (of_nat cp)) cps)"
    using utf_run_valid [OF assms, of "\<lambda>x. \<exists>r\<in>set rs. range_test r x"]
    by (auto simp: InRange_def hit list_all_iff)
qed

theorem utf8_functions_witness:
  "IsBMP (utf8_string [0x416, 0x1F600]) = Inr False"
  using utf8_functions [of "[0x416, 0x1F600]" "[]"] by (simp add: utf8_valid_def)

end
