(* ===== verification/Text_Codecs.thy ===== *)
theory Text_Codecs
  imports Prelude
begin

text \<open>
  Hexadecimal, percent, Base64 and ULEB128 encoders (\<open>format/Hex.hpp\<close>, \<open>Url.hpp\<close>, \<open>Base64.hpp\<close>,
  \<open>ULeb128.hpp\<close>) with the decoders of \<open>parser/\<close>. Characters are bytes; the literals of the source
  are given by their ASCII codes.
\<close>

section \<open>Hexadecimal\<close>

definition sDict :: "byte list" where
  "sDict = [0x30, 0x31, 0x32, 0x33, 0x34, 0x35, 0x36, 0x37, 0x38, 0x39, 0x61, 0x62, 0x63, 0x64, 0x65, 0x66]"

definition hex_pair :: "byte \<Rightarrow> byte list" where
  "hex_pair i = [sDict ! unat (drop_bit 4 i), sDict ! unat (i AND 0x0F)]"

definition to_hex :: "byte list \<Rightarrow> byte list" where
  "to_hex x = concat (map hex_pair x)"

text \<open>\<open>to_hex\<close> of an integer of \<open>k\<close> bytes works on its memory.\<close>

definition to_hex_int :: "nat \<Rightarrow> nat \<Rightarrow> byte list" where
  "to_hex_int k v = to_hex (le_enc k v)"

definition to_hex_c_string :: "byte list \<Rightarrow> byte list" where
  "to_hex_c_string aData = concat (map (\<lambda>i. [0x5C, 0x78] @ hex_pair i) aData)"

definition restore :: "byte \<Rightarrow> byte result" where
  "restore a =
     (if 0x30 \<le> a \<and> a \<le> 0x39 then Inr (a - 0x30)
      else if 0x61 \<le> a \<and> a \<le> 0x66 then Inr (a - 0x61 + 10)
      else if 0x41 \<le> a \<and> a \<le> 0x46 then Inr (a - 0x41 + 10)
      else Inl (InvalidArgument ''bad hex value''))"

definition restore_pair :: "byte \<Rightarrow> byte \<Rightarrow> byte result" where
  "restore_pair a1 a2 = bindr (restore a1) (\<lambda>h. bindr (restore a2) (\<lambda>l. Inr (push_bit 4 h + l)))"

fun from_hex_loop :: "byte list \<Rightarrow> byte list result" where
  "from_hex_loop (a1 # a2 # x) =
     bindr (restore_pair a1 a2) (\<lambda>b. bindr (from_hex_loop x) (\<lambda>r. Inr (b # r)))"
| "from_hex_loop _ = Inr []"

definition from_hex :: "byte list \<Rightarrow> byte list result" where
  "from_hex x = (if length x mod 2 \<noteq> 0 then Inl (InvalidArgument ''Parser::from_hex'') else from_hex_loop x)"

definition from_hex_int :: "nat \<Rightarrow> byte list \<Rightarrow> nat result" where
  "from_hex_int k x = bindr (from_hex x) (\<lambda>t.
     if length t \<noteq> k then Inl (InvalidArgument ''Parser::from_hex'') else Inr (le_dec t))"

datatype mixed_state = IGNORE | STARTED | CHAR1 | CHAR2 byte

text \<open>One character of \<open>from_hex_mixed\<close>; the state \<open>CHAR2\<close> holds the first digit.\<close>

fun mixed_step :: "byte \<Rightarrow> mixed_state \<times> byte list \<Rightarrow> (mixed_state \<times> byte list) result" where
  "mixed_step c (IGNORE, r) = (if c = 0x5C then Inr (STARTED, r) else Inr (IGNORE, r @ [c]))"
| "mixed_step c (STARTED, r) =
     (if c = 0x78 then Inr (CHAR1, r)
      else if c = 0x6E then Inr (IGNORE, r @ [0x0A])
      else if c = 0x74 then Inr (IGNORE, r @ [0x09])
      else Inl (InvalidArgument (''unexpected: '' @ [CHR 0x5C, char_of (unat c)])))"
| "mixed_step c (CHAR1, r) = Inr (CHAR2 c, r)"
| "mixed_step c (CHAR2 a1, r) = bindr (restore_pair a1 c) (\<lambda>b. Inr (IGNORE, r @ [b]))"

fun mixed_loop :: "byte list \<Rightarrow> mixed_state \<times> byte list \<Rightarrow> (mixed_state \<times> byte list) result" where
  "mixed_loop [] s = Inr s"
| "mixed_loop (c # x) s = bindr (mixed_step c s) (mixed_loop x)"

definition from_hex_mixed :: "byte list \<Rightarrow> byte list result" where
  "from_hex_mixed x =
     bindr (mixed_loop x (IGNORE, [])) (\<lambda>(st, r).
       if st \<noteq> IGNORE then Inl (InvalidArgument ''unexpected: eol'') else Inr r)"

section \<open>Percent encoding\<close>

definition unreserved :: "byte \<Rightarrow> bool" where
  "unreserved c \<longleftrightarrow> 0x41 \<le> c \<and> c \<le> 0x5A \<or> 0x61 \<le> c \<and> c \<le> 0x7A \<or> 0x30 \<le> c \<and> c \<le> 0x39
     \<or> c = 0x2D \<or> c = 0x5F \<or> c = 0x2E \<or> c = 0x7E"

definition url_encode :: "byte list \<Rightarrow> byte list" where
  "url_encode aData = concat (map (\<lambda>i. if unreserved i then [i] else 0x25 # hex_pair i) aData)"

datatype url_stage = STAGE_INITIAL | STAGE_FIRST | STAGE_SECOND byte

fun url_step :: "byte \<Rightarrow> url_stage \<times> byte list \<Rightarrow> (url_stage \<times> byte list) result" where
  "url_step i (STAGE_INITIAL, r) = (if i \<noteq> 0x25 then Inr (STAGE_INITIAL, r @ [i]) else Inr (STAGE_FIRST, r))"
| "url_step i (STAGE_FIRST, r) = bindr (restore i) (\<lambda>h. Inr (STAGE_SECOND (push_bit 4 h), r))"
| "url_step i (STAGE_SECOND decode, r) = bindr (restore i) (\<lambda>l. Inr (STAGE_INITIAL, r @ [decode + l]))"

fun url_loop :: "byte list \<Rightarrow> url_stage \<times> byte list \<Rightarrow> (url_stage \<times> byte list) result" where
  "url_loop [] s = Inr s"
| "url_loop (i # x) s = bindr (url_step i s) (url_loop x)"

text \<open>A percent sign with fewer than two digits behind it at the end is dropped.\<close>

definition url_decode :: "byte list \<Rightarrow> byte list result" where
  "url_decode aData = bindr (url_loop aData (STAGE_INITIAL, [])) (\<lambda>(_, r). Inr r)"

section \<open>Base64\<close>

record base64_flags =
  NO_PADDING :: bool
  URL_SAFE :: bool

definition b64_letters :: "byte list" where
  "b64_letters = map of_nat ([65..<91] @ [97..<123] @ [48..<58])"

definition b64_lookup :: "base64_flags \<Rightarrow> byte list" where
  "b64_lookup fl = b64_letters @ (if URL_SAFE fl then [0x2D, 0x5F] else [0x2B, 0x2F])"

definition b64_pad :: "base64_flags \<Rightarrow> byte" where
  "b64_pad fl = (if URL_SAFE fl then 0x2E else 0x3D)"

definition b64_at :: "base64_flags \<Rightarrow> u32 \<Rightarrow> byte" where
  "b64_at fl i = b64_lookup fl ! unat i"

fun b64_encode :: "base64_flags \<Rightarrow> byte list \<Rightarrow> byte list" where
  "b64_encode fl (a # b # c # str) =
     (let temp = push_bit 16 (ucast a) + push_bit 8 (ucast b) + ucast c
      in [b64_at fl (drop_bit 18 (temp AND 0x00FC0000)), b64_at fl (drop_bit 12 (temp AND 0x0003F000)),
          b64_at fl (drop_bit 6 (temp AND 0x00000FC0)), b64_at fl (temp AND 0x0000003F)]
         @ b64_encode fl str)"
| "b64_encode fl [a] =
     (let temp = push_bit 16 (ucast a)
      in [b64_at fl (drop_bit 18 (temp AND 0x00FC0000)), b64_at fl (drop_bit 12 (temp AND 0x0003F000))]
         @ (if NO_PADDING fl then [] else [b64_pad fl, b64_pad fl]))"
| "b64_encode fl [a, b] =
     (let temp = push_bit 16 (ucast a) + push_bit 8 (ucast b)
      in [b64_at fl (drop_bit 18 (temp AND 0x00FC0000)), b64_at fl (drop_bit 12 (temp AND 0x0003F000)),
          b64_at fl (drop_bit 6 (temp AND 0x00000FC0))]
         @ (if NO_PADDING fl then [] else [b64_pad fl]))"
| "b64_encode fl [] = []"

text \<open>The value of a character of the alphabet, in the order of the tests of the decoder.\<close>

definition b64_value :: "base64_flags \<Rightarrow> byte \<Rightarrow> u32 option" where
  "b64_value fl c =
     (if 0x41 \<le> c \<and> c \<le> 0x5A then Some (ucast c - 0x41)
      else if 0x61 \<le> c \<and> c \<le> 0x7A then Some (ucast c - 0x61 + 26)
      else if 0x30 \<le> c \<and> c \<le> 0x39 then Some (ucast c - 0x30 + 52)
      else if c = (if URL_SAFE fl then 0x2D else 0x2B) then Some 0x3E
      else if c = (if URL_SAFE fl then 0x5F else 0x2F) then Some 0x3F
      else None)"

text \<open>
  The inner loop: \<open>n\<close> characters of the group are still to be read, \<open>sz\<close> is the length of the
  whole input. The result is either the value of a full group with the rest of the input, or,
  at a padding character, the last bytes of the output.
\<close>

fun b64_group :: "base64_flags \<Rightarrow> nat \<Rightarrow> nat \<Rightarrow> u32 \<Rightarrow> byte list \<Rightarrow> (u32 \<times> byte list + byte list) result" where
  "b64_group fl sz 0 temp it = Inr (Inl (temp, it))"
| "b64_group fl sz (Suc n) temp it =
     (let c = (case it of [] \<Rightarrow> b64_pad fl | c # _ \<Rightarrow> c);
          temp = push_bit 6 temp
      in case b64_value fl c of
           Some v \<Rightarrow> b64_group fl sz n (temp OR v) (tl it)
         | None \<Rightarrow>
             if c = b64_pad fl then
               bindr (if NO_PADDING fl
                      then if sz mod 4 = 3 then Inr 1 else if sz mod 4 = 2 then Inr 2
                           else Inl (InvalidArgument ''Format::Base64: invalid input'')
                      else Inr (length it)) (\<lambda>sPadSize.
                 if sPadSize = 1 then Inr (Inr [ucast (drop_bit 16 temp), ucast (drop_bit 8 temp)])
                 else if sPadSize = 2 then Inr (Inr [ucast (drop_bit 10 temp)])
                 else Inl (InvalidArgument ''Format::Base64: invalid padding''))
             else Inl (InvalidArgument (''Format::Base64: invalid character: '' @ [char_of (unat c)])))"

text \<open>The outer loop. A turn reads at least one character, so the length of the input is enough fuel.\<close>

fun b64_loop :: "base64_flags \<Rightarrow> nat \<Rightarrow> nat \<Rightarrow> u32 \<Rightarrow> byte list \<Rightarrow> byte list result" where
  "b64_loop fl sz fuel temp it =
     (if it = [] then Inr []
      else case fuel of 0 \<Rightarrow> Inl OutOfFuel
      | Suc f \<Rightarrow>
          bindr (b64_group fl sz 4 temp it) (\<lambda>g. case g of
            Inr tail \<Rightarrow> Inr tail
          | Inl (temp, it) \<Rightarrow>
              bindr (b64_loop fl sz f temp it) (\<lambda>r.
                Inr ([ucast (drop_bit 16 temp), ucast (drop_bit 8 temp), ucast temp] @ r))))"

declare b64_loop.simps [simp del]

definition b64_decode :: "base64_flags \<Rightarrow> byte list \<Rightarrow> byte list result" where
  "b64_decode fl aStr =
     (if \<not> NO_PADDING fl \<and> length aStr mod 4 \<noteq> 0 then Inl (InvalidArgument ''Format::Base64: invalid size'')
      else b64_loop fl (length aStr) (length aStr) 0 aStr)"

section \<open>ULEB128\<close>

function uleb_write :: "u64 \<Rightarrow> byte list" where
  "uleb_write aValue =
     (if 0 < aValue then
        (let sByte = ucast (aValue AND 0x7F); aValue = drop_bit 7 aValue;
             sByte = (if aValue \<noteq> 0 then sByte OR 0x80 else sByte)
         in sByte # uleb_write aValue)
      else [])"
  by auto

termination
proof (relation "measure unat", goal_cases)
  case (2 v x y z)
  then have "drop_bit 7 v = v div 128" and "0 < unat v"
    by (simp_all add: drop_bit_eq_div word_less_nat_alt)
  then show ?case using 2 by (simp add: unat_div)
qed simp

declare uleb_write.simps [simp del]

text \<open>
  The reader adds \<open>(sByte & 0x7f) << sShift\<close>, a 32-bit \<open>int\<close>, to a 64-bit sum: the shift is
  undefined from 32 on, and below it the sign of the 32-bit result is extended. At the end of the
  stream \<open>read\<close> leaves \<open>sByte\<close> as it was, so an unfinished number goes on until the shift is
  out of range.
\<close>

fun uleb_read_loop :: "u64 \<Rightarrow> nat \<Rightarrow> byte \<Rightarrow> byte list \<Rightarrow> (u64 \<times> byte list) result" where
  "uleb_read_loop sValue sShift sByte [] =
     (if 32 \<le> sShift then Inl Undefined
      else if sByte AND 0x80 = 0
      then Inr (sValue + scast (push_bit sShift (ucast (sByte AND 0x7F) :: u32)), [])
      else Inl Undefined)"
| "uleb_read_loop sValue sShift _ (sByte # s) =
     (if 32 \<le> sShift then Inl Undefined
      else let sValue = sValue + scast (push_bit sShift (ucast (sByte AND 0x7F) :: u32))
           in if sByte AND 0x80 = 0 then Inr (sValue, s)
              else uleb_read_loop sValue (sShift + 7) sByte s)"

definition uleb_read :: "byte list \<Rightarrow> (u64 \<times> byte list) result" where
  "uleb_read s = uleb_read_loop 0 0 0 s"

section \<open>Hexadecimal and percent encoding round trip\<close>

lemma restore_hex_pair: "restore_pair (hex_pair b ! 0) (hex_pair b ! 1) = Inr b"
  by (rule byte_all) code_simp

lemma restore_pair_dict: "restore_pair (sDict ! unat (drop_bit 4 b)) (sDict ! unat (b AND 0x0F)) = Inr b"
  using restore_hex_pair [of b] by (simp add: hex_pair_def)

lemma from_hex_loop_hex: "from_hex_loop (to_hex x) = Inr x"
  by (induction x) (simp_all add: to_hex_def hex_pair_def restore_pair_dict)

lemma length_to_hex: "length (to_hex x) = 2 * length x"
  by (induction x) (simp_all add: to_hex_def hex_pair_def)

lemma from_hex_to_hex: "from_hex (to_hex x) = Inr x"
  by (simp add: from_hex_def length_to_hex from_hex_loop_hex)

lemma mixed_loop_c_string: "mixed_loop (to_hex_c_string x) (IGNORE, r) = Inr (IGNORE, r @ x)"
  by (induction x arbitrary: r) (simp_all add: to_hex_c_string_def hex_pair_def restore_pair_dict)

lemma url_step_pair:
  "bindr (url_step (sDict ! unat (drop_bit 4 b)) (STAGE_FIRST, r)) (url_step (sDict ! unat (b AND 0x0F)))
   = Inr (STAGE_INITIAL, r @ [b])"
  using restore_pair_dict [of b] by (auto simp: restore_pair_def bindr_eq_Inr)

lemma unreserved_not_percent: "unreserved b \<Longrightarrow> b \<noteq> 0x25"
  by (auto simp: unreserved_def)

lemma url_loop_two: "url_loop (a # b # x) s = bindr (bindr (url_step a s) (url_step b)) (url_loop x)"
  by (cases "url_step a s") simp_all

lemma url_loop_encode: "url_loop (url_encode x) (STAGE_INITIAL, r) = Inr (STAGE_INITIAL, r @ x)"
proof (induction x arbitrary: r)
  case (Cons b x)
  show ?case
  proof (cases "unreserved b")
    case True
    then show ?thesis using Cons unreserved_not_percent [OF True] by (simp add: url_encode_def)
  next
    case False
    have "url_loop (url_encode (b # x)) (STAGE_INITIAL, r)
        = bindr (bindr (url_step (sDict ! unat (drop_bit 4 b)) (STAGE_FIRST, r)) (url_step (sDict ! unat (b AND 0x0F))))
            (url_loop (url_encode x))"
      using False url_loop_two [of "sDict ! unat (drop_bit 4 b)" "sDict ! unat (b AND 0x0F)" "url_encode x" "(STAGE_FIRST, r)"]
      by (simp add: url_encode_def hex_pair_def)
    also have "\<dots> = Inr (STAGE_INITIAL, r @ b # x)"
      by (simp only: url_step_pair bindr_Inr Cons append_assoc append_Cons append_Nil)
    finally show ?thesis .
  qed
qed (simp add: url_encode_def)

section \<open>Base64 as arithmetic\<close>

lemma b64_indices:
  "drop_bit 18 (x AND 0x00FC0000) = take_bit 6 (drop_bit 18 (x :: u32))"
  "drop_bit 12 (x AND 0x0003F000) = take_bit 6 (drop_bit 12 (x :: u32))"
  "drop_bit 6 (x AND 0x00000FC0) = take_bit 6 (drop_bit 6 (x :: u32))"
  "x AND 0x0000003F = take_bit 6 (x :: u32)"
  by (simp_all add: take_bit_eq_mask drop_bit_and mask_eq_exp_minus_1)

lemma unat_drop: "unat (drop_bit k (x :: u32)) = unat x div 2 ^ k"
  using unsigned_less [of x, where 'a = nat]
  by (simp add: unsigned_drop_bit_eq take_bit_nat_eq_self flip: drop_bit_eq_div)

lemma unat_index: "unat (take_bit 6 (drop_bit k (x :: u32))) = unat x div 2 ^ k mod 64"
  using unat_drop [of k x] by (simp add: unsigned_take_bit_eq flip: take_bit_eq_mod)
    (simp add: take_bit_eq_mod)

lemma unat_out: "unat (ucast (drop_bit k (x :: u32)) :: byte) = unat x div 2 ^ k mod 256"
  using unat_drop [of k x] by (simp add: unsigned_ucast_eq take_bit_eq_mod)

lemma unat_shift_in:
  assumes "unat (v :: u32) < 64"
  shows "unat (push_bit 6 t OR v) mod 2 ^ 24 = (unat t * 64 + unat v) mod 2 ^ 24"
proof -
  have "take_bit 6 v = v" using assms by (simp add: word_unat_eq_iff unsigned_take_bit_eq take_bit_nat_eq_self)
  then have "bit v n \<Longrightarrow> n < 6" for n by (metis bit_take_bit_iff)
  then have d: "push_bit 6 t AND v = 0" by (intro bit_word_eqI) (fastforce simp: bit_simps not_less)
  have p: "unat (push_bit 6 t) mod 2 ^ 24 = unat t * 64 mod 2 ^ 24"
    by (simp add: push_bit_eq_mult unat_word_ariths mod_mod_cancel)
  have "unat (push_bit 6 t OR v) = unat (push_bit 6 t + v)"
    by (simp add: disjunctive_add_eq_or [OF d])
  then have "unat (push_bit 6 t OR v) mod 2 ^ 24 = (unat (push_bit 6 t) + unat v) mod 2 ^ 24"
    by (simp add: unat_word_ariths mod_mod_cancel)
  also have "\<dots> = (unat t * 64 + unat v) mod 2 ^ 24"
    using p by (metis mod_add_left_eq)
  finally show ?thesis .
qed

text \<open>The low 24 bits after a group do not depend on what was in front of it.\<close>

lemma group_value:
  assumes "unat (v0 :: u32) < 64" "unat v1 < 64" "unat v2 < 64" "unat v3 < 64"
  shows "unat (push_bit 6 (push_bit 6 (push_bit 6 (push_bit 6 t OR v0) OR v1) OR v2) OR v3) mod 2 ^ 24
    = ((unat v0 * 64 + unat v1) * 64 + unat v2) * 64 + unat v3"
proof -
  let ?a = "push_bit 6 t OR v0" and ?b = "push_bit 6 (push_bit 6 t OR v0) OR v1"
  let ?c = "push_bit 6 ?b OR v2"
  have lift: "x mod 2 ^ 24 = y mod 2 ^ 24 \<Longrightarrow> (x * 64 + z) mod 2 ^ 24 = (y * 64 + z) mod 2 ^ 24" for x y z :: nat
    by (metis mod_add_left_eq mod_mult_left_eq)
  have "unat (push_bit 6 ?c OR v3) mod 2 ^ 24
      = ((((unat t * 64 + unat v0) * 64 + unat v1) * 64 + unat v2) * 64 + unat v3) mod 2 ^ 24"
    using unat_shift_in [OF assms(4), of ?c] lift [OF unat_shift_in [OF assms(3), of ?b], of "unat v3"]
      lift [OF lift [OF unat_shift_in [OF assms(2), of ?a], of "unat v2"], of "unat v3"]
      lift [OF lift [OF lift [OF unat_shift_in [OF assms(1), of t], of "unat v1"], of "unat v2"], of "unat v3"]
    by (simp only:)
  also have "\<dots> = (unat t * 2 ^ 24 + (((unat v0 * 64 + unat v1) * 64 + unat v2) * 64 + unat v3)) mod 2 ^ 24"
    by (simp add: algebra_simps)
  also have "\<dots> = ((unat v0 * 64 + unat v1) * 64 + unat v2) * 64 + unat v3"
    using assms by simp
  finally show ?thesis .
qed

lemma b64_value_URL_SAFE:
  "b64_value fl c = b64_value \<lparr>NO_PADDING = False, URL_SAFE = URL_SAFE fl\<rparr> c"
  "b64_lookup fl = b64_lookup \<lparr>NO_PADDING = False, URL_SAFE = URL_SAFE fl\<rparr>"
  "b64_pad fl = b64_pad \<lparr>NO_PADDING = False, URL_SAFE = URL_SAFE fl\<rparr>"
  by (simp_all add: b64_value_def b64_lookup_def b64_pad_def)

lemma b64_alphabet:
  "list_all (\<lambda>v. b64_value \<lparr>NO_PADDING = False, URL_SAFE = u\<rparr> (b64_lookup \<lparr>NO_PADDING = False, URL_SAFE = u\<rparr> ! v)
     = Some (of_nat v)) [0..<64] \<and> b64_value \<lparr>NO_PADDING = False, URL_SAFE = u\<rparr> (b64_pad \<lparr>NO_PADDING = False, URL_SAFE = u\<rparr>) = None"
proof -
  have "list_all (\<lambda>u. list_all (\<lambda>v. b64_value \<lparr>NO_PADDING = False, URL_SAFE = u\<rparr> (b64_lookup \<lparr>NO_PADDING = False, URL_SAFE = u\<rparr> ! v)
     = Some (of_nat v)) [0..<64] \<and> b64_value \<lparr>NO_PADDING = False, URL_SAFE = u\<rparr> (b64_pad \<lparr>NO_PADDING = False, URL_SAFE = u\<rparr>) = None)
     [True, False]" by code_simp
  then show ?thesis by (cases u) simp_all
qed

lemma b64_value_at: "unat i < 64 \<Longrightarrow> b64_value fl (b64_at fl i) = Some i"
  using b64_alphabet [of "URL_SAFE fl"] unfolding b64_at_def b64_value_URL_SAFE(1,2) [of fl]
  by (simp add: list_all_iff)

lemma b64_value_pad [simp]: "b64_value fl (b64_pad fl) = None"
  using b64_alphabet [of "URL_SAFE fl"] unfolding b64_value_URL_SAFE(1,3) [of fl] by simp

text \<open>A number of 24 bits from its four sextets and its three bytes.\<close>

lemma sextets:
  assumes "n < 2 ^ 24"
  shows "((n div 262144 mod 64 * 64 + n div 4096 mod 64) * 64 + n div 64 mod 64) * 64 + n mod 64 = (n :: nat)"
proof -
  have 1: "n div 64 * 64 + n mod 64 = n" by simp
  have 2: "n div 64 = n div 4096 * 64 + n div 64 mod 64"
    using div_mult2_eq [of n 64 64] by simp
  have 3: "n div 4096 = n div 262144 * 64 + n div 4096 mod 64"
    using div_mult2_eq [of n 4096 64] by simp
  have "n div 262144 mod 64 = n div 262144" using assms by simp
  then show ?thesis using 1 2 3 by metis
qed

lemma three_bytes:
  fixes a b c :: nat
  assumes "a < 256" "b < 256" "c < 256"
  shows "(a * 65536 + b * 256 + c) div 65536 = a" "(a * 65536 + b * 256 + c) div 256 = a * 256 + b"
    "(a * 65536 + b * 256 + c) mod 256 = c" "(a * 256 + b) mod 256 = b" "a * 65536 + b * 256 + c < 2 ^ 24"
proof -
  show "(a * 65536 + b * 256 + c) div 65536 = a" using assms by (intro div_nat_eqI) simp_all
  show 2: "(a * 65536 + b * 256 + c) div 256 = a * 256 + b" using assms by (intro div_nat_eqI) simp_all
  show "(a * 65536 + b * 256 + c) mod 256 = c"
    using 2 div_mult_mod_eq [of "a * 65536 + b * 256 + c" 256] by simp
  show "(a * 256 + b) mod 256 = b" using assms by simp
  show "a * 65536 + b * 256 + c < 2 ^ 24" using assms by simp
qed

lemmas three_unat = three_bytes [OF unat_byte_less unat_byte_less unat_byte_less]

lemma out_bytes:
  assumes "unat (T :: u32) mod 2 ^ 24 = unat a * 65536 + unat b * 256 + unat c"
  shows "ucast (drop_bit 16 T) = (a :: byte)" "ucast (drop_bit 8 T) = (b :: byte)" "ucast T = (c :: byte)"
proof -
  have "unat T div 65536 mod 256 = unat a"
    using mod_mult2_eq [of "unat T" 65536 256] assms three_unat(1) [of a b c] by simp
  moreover have "unat T div 256 mod 65536 = unat a * 256 + unat b"
    using mod_mult2_eq [of "unat T" 256 65536] assms three_unat(2) [of a b c] by simp
  then have "unat T div 256 mod 256 = unat b"
    using mod_mod_cancel [of 256 65536 "unat T div 256"] three_unat(4) [of a b] by simp
  moreover have "unat T mod 256 = unat c"
    using assms mod_mod_cancel [of 256 "2 ^ 24" "unat T"] three_unat(3) [of a b c] by simp
  ultimately show "ucast (drop_bit 16 T) = a" "ucast (drop_bit 8 T) = b" "ucast T = c"
    using unat_out [of 16 T] unat_out [of 8 T] unat_out [of 0 T] by (simp_all add: word_unat_eq_iff)
qed

lemma unat_ucast_byte: "unat (ucast (a :: byte) :: u32) = unat a"
proof -
  have "unat a < 2 ^ 32" by (rule less_trans [OF unat_byte_less]) simp
  then show ?thesis by (simp add: unsigned_ucast_eq take_bit_nat_eq_self)
qed

lemma three_temp:
  fixes x y z :: nat
  assumes "x < 256" "y < 256" "z < 256"
  shows "((x * 65536 mod 4294967296 + y * 256 mod 4294967296) mod 4294967296 + z) mod 4294967296 = x * 65536 + y * 256 + z"
  using assms by simp

lemma unat_temp:
  "unat (push_bit 16 (ucast (a :: byte)) + push_bit 8 (ucast (b :: byte)) + ucast (c :: byte) :: u32)
   = unat a * 65536 + unat b * 256 + unat c"
  using three_temp [OF unat_byte_less unat_byte_less unat_byte_less, of a b c]
  by (simp only: push_bit_eq_mult unat_word_ariths unat_ucast_byte)
    (simp add: unat_word_ariths)

section \<open>Base64 round trip\<close>

lemma four_Suc: "(4 :: nat) = Suc (Suc (Suc (Suc 0)))"
  by simp

lemma b64_group_step:
  "unat v < 64 \<Longrightarrow> b64_group fl sz (Suc n) t (b64_at fl v # r) = b64_group fl sz n (push_bit 6 t OR v) r"
  by (simp add: b64_value_at)

lemma b64_group_full:
  assumes "unat v0 < 64" "unat v1 < 64" "unat v2 < 64" "unat v3 < 64"
  shows "b64_group fl sz 4 t (b64_at fl v0 # b64_at fl v1 # b64_at fl v2 # b64_at fl v3 # r)
    = Inr (Inl (push_bit 6 (push_bit 6 (push_bit 6 (push_bit 6 t OR v0) OR v1) OR v2) OR v3, r))"
  using assms by (simp only: four_Suc b64_group_step b64_group.simps(1))

text \<open>The last group: with padding characters, or without in the unpadded form.\<close>

lemma b64_group_end1:
  assumes "NO_PADDING fl \<longrightarrow> sz mod 4 = 3"
  shows "b64_group fl sz (Suc n) t (if NO_PADDING fl then [] else [b64_pad fl])
    = Inr (Inr [ucast (drop_bit 16 (push_bit 6 t)), ucast (drop_bit 8 (push_bit 6 t))])"
  using assms by (cases "NO_PADDING fl") (simp_all add: Let_def)

lemma b64_group_end2:
  assumes "NO_PADDING fl \<longrightarrow> sz mod 4 = 2"
  shows "b64_group fl sz (Suc n) t (if NO_PADDING fl then [] else [b64_pad fl, b64_pad fl])
    = Inr (Inr [ucast (drop_bit 10 (push_bit 6 t))])"
  using assms by (cases "NO_PADDING fl") (simp_all add: Let_def)

lemma index_less: "unat (take_bit 6 (x :: u32)) < 64"
  by (simp add: unsigned_take_bit_eq take_bit_nat_less_exp [of 6, simplified])

text \<open>The four sextets of a 24-bit number, shifted in one after the other, give the number.\<close>

lemma sextets_in:
  assumes "unat (x :: u32) < 2 ^ 24"
  shows "unat (push_bit 6 (push_bit 6 (push_bit 6 (push_bit 6 t OR take_bit 6 (drop_bit 18 x))
      OR take_bit 6 (drop_bit 12 x)) OR take_bit 6 (drop_bit 6 x)) OR take_bit 6 x) mod 2 ^ 24 = unat x"
  using group_value [OF index_less index_less index_less index_less, of t "drop_bit 18 x" "drop_bit 12 x" "drop_bit 6 x" x]
    unat_index [of 18 x] unat_index [of 12 x] unat_index [of 6 x] unat_index [of 0 x] sextets [OF assms]
  by simp

lemma low_sextet_0: "unat (x :: u32) mod 64 = 0 \<Longrightarrow> take_bit 6 x = 0"
  using unat_index [of 0 x] by (simp add: unat_eq_0 [symmetric])

lemma unat_temp1: "unat (push_bit 16 (ucast (a :: byte)) :: u32) = unat a * 65536"
  using unat_temp [of a 0 0] by simp

lemma unat_temp2: "unat (push_bit 16 (ucast (a :: byte)) + push_bit 8 (ucast (b :: byte)) :: u32) = unat a * 65536 + unat b * 256"
  using unat_temp [of a b 0] by simp

lemma pad1_bytes:
  fixes a b :: byte
  defines "x \<equiv> push_bit 16 (ucast a) + push_bit 8 (ucast b) :: u32"
  defines "T \<equiv> \<lambda>t. push_bit 6 (push_bit 6 (push_bit 6 (push_bit 6 t OR take_bit 6 (drop_bit 18 x))
      OR take_bit 6 (drop_bit 12 x)) OR take_bit 6 (drop_bit 6 x))"
  shows "[ucast (drop_bit 16 (T t)), ucast (drop_bit 8 (T t))] = [a, b]"
proof -
  have ux: "unat x = unat a * 65536 + unat b * 256 + unat (0 :: byte)"
    by (simp add: x_def unat_temp2)
  then have "unat x < 2 ^ 24" using three_unat(5) [of a b 0] by simp
  moreover have "unat x = (unat a * 1024 + unat b * 4) * 64" using ux by simp
  then have "unat x mod 64 = 0" by (simp only: mod_mult_self2_is_0)
  ultimately have "unat (T t) mod 2 ^ 24 = unat x"
    using sextets_in [of x t] low_sextet_0 [of x] by (simp only: T_def or.right_neutral)
  then show ?thesis using out_bytes(1,2) [of "T t" a b 0] ux by simp
qed

lemma pad2_bytes:
  fixes a :: byte
  defines "x \<equiv> push_bit 16 (ucast a) :: u32"
  defines "T \<equiv> \<lambda>t. push_bit 6 (push_bit 6 (push_bit 6 t OR take_bit 6 (drop_bit 18 x))
      OR take_bit 6 (drop_bit 12 x))"
  shows "ucast (drop_bit 10 (T t)) = a"
proof -
  have ux: "unat x = unat a * 65536" by (simp add: x_def unat_temp1)
  then have "unat x < 2 ^ 24" using three_unat(5) [of a 0 0] by simp
  moreover have "unat x = (unat a * 1024) * 64" using ux by simp
  then have "take_bit 6 x = 0" by (intro low_sextet_0) (simp only: mod_mult_self2_is_0)
  moreover have "unat (drop_bit 6 x) = (unat a * 16) * 64" using ux unat_drop [of 6 x] by simp
  then have "take_bit 6 (drop_bit 6 x) = 0" by (intro low_sextet_0) (simp only: mod_mult_self2_is_0)
  ultimately have "unat (push_bit 6 (T t)) mod 2 ^ 24 = unat a * 65536"
    using sextets_in [of x t] ux by (simp only: T_def or.right_neutral)
  then have "64 * (unat (T t) mod 2 ^ 18) = unat a * 65536"
    by (simp add: push_bit_eq_mult unat_word_ariths mod_mod_cancel mult_mod_right mult.commute)
  then have "unat (T t) mod 262144 = unat a * 1024" by simp
  then have "unat (T t) div 1024 mod 256 = unat a"
    using mod_mult2_eq [of "unat (T t)" 1024 256] by simp
  then show ?thesis using unat_out [of 10 "T t"] by (simp add: word_unat_eq_iff)
qed

lemma length_b64_encode_padded: "\<not> NO_PADDING fl \<Longrightarrow> length (b64_encode fl x) mod 4 = 0"
  by (induction fl x rule: b64_encode.induct) (simp_all add: Let_def)

lemma b64_loop_Nil [simp]: "b64_loop fl sz fuel t [] = Inr []"
  by (simp add: b64_loop.simps)

lemma b64_loop_encode:
  assumes "length (b64_encode fl x) \<le> fuel"
    and "NO_PADDING fl \<longrightarrow> sz mod 4 = length (b64_encode fl x) mod 4"
  shows "b64_loop fl sz fuel t (b64_encode fl x) = Inr x"
  using assms
proof (induction fl x arbitrary: fuel t rule: b64_encode.induct)
  case (1 fl a b c x)
  let ?x = "push_bit 16 (ucast a) + push_bit 8 (ucast b) + ucast c :: u32"
  let ?T = "push_bit 6 (push_bit 6 (push_bit 6 (push_bit 6 t OR take_bit 6 (drop_bit 18 ?x))
      OR take_bit 6 (drop_bit 12 ?x)) OR take_bit 6 (drop_bit 6 ?x)) OR take_bit 6 ?x"
  have "unat ?T mod 2 ^ 24 = unat a * 65536 + unat b * 256 + unat c"
    using sextets_in [of ?x t] unat_temp [of a b c] three_unat(5) [of a b c] by (simp only:)
  note out = out_bytes [OF this]
  from "1.prems" obtain f where f: "fuel = Suc f" by (cases fuel) (simp_all add: Let_def)
  have "b64_loop fl sz f ?T (b64_encode fl x) = Inr x"
    using "1.prems" f by (intro "1.IH") (simp_all add: Let_def)
  then show ?case
    by (subst b64_loop.simps) (simp only: f b64_encode.simps Let_def b64_indices append_Cons append_Nil
        b64_group_full index_less bindr_Inr sum.case prod.case nat.case list.distinct if_False out)
next
  case (2 fl a)
  then obtain f where f: "fuel = Suc f" by (cases fuel) (simp_all add: Let_def)
  have "NO_PADDING fl \<longrightarrow> sz mod 4 = 2" using "2.prems" by (simp add: Let_def)
  then show ?case
    by (subst b64_loop.simps) (simp only: f b64_encode.simps Let_def b64_indices append_Cons append_Nil four_Suc
        b64_group_step b64_group_end2 index_less bindr_Inr sum.case nat.case list.distinct if_False pad2_bytes)
next
  case (3 fl a b)
  then obtain f where f: "fuel = Suc f" by (cases fuel) (simp_all add: Let_def)
  have "NO_PADDING fl \<longrightarrow> sz mod 4 = 3" using "3.prems" by (simp add: Let_def)
  then show ?case
    by (subst b64_loop.simps) (simp only: f b64_encode.simps Let_def b64_indices append_Cons append_Nil four_Suc
        b64_group_step b64_group_end1 index_less bindr_Inr sum.case nat.case list.distinct if_False pad1_bytes)
next
  case (4 fl)
  then show ?case by simp
qed

section \<open>ULEB128 round trip\<close>

lemma uleb_sByte: "(ucast (v AND 0x7F :: u64) :: byte) = ucast v AND 0x7F"
  unfolding mask7 by (rule bit_word_eqI) (auto simp: bit_simps)

lemma bit_80: "bit (0x80 :: byte) n \<longleftrightarrow> n = 7"
  using bit_exp_iff [of 7 n, where ?'a = byte] by auto

lemma uleb_more: "((b AND 0x7F) OR 0x80) AND 0x80 \<noteq> (0 :: byte)"
proof
  assume "((b AND 0x7F) OR 0x80) AND 0x80 = (0 :: byte)"
  then have "\<not> bit (((b AND 0x7F) OR 0x80) AND 0x80) 7" by simp
  then show False by (simp add: bit_simps bit_80)
qed

lemma uleb_bits:
  "((b AND 0x7F) OR 0x80) AND 0x7F = b AND (0x7F :: byte)"
  "(b AND 0x7F) AND 0x80 = (0 :: byte)" "(b AND 0x7F) AND 0x7F = b AND (0x7F :: byte)"
  unfolding mask7 by (auto intro!: bit_word_eqI simp: bit_simps bit_80 bit80)

lemma scast_ucast_u32:
  assumes "unat (w :: u32) < 2 ^ 31"
  shows "(scast w :: u64) = ucast w"
proof -
  have "int (unat w) < int (2 ^ 31)" using assms by (rule iffD2 [OF of_nat_less_iff])
  moreover have "- (2 ^ 31) \<le> uint w" by (rule order_trans [OF _ uint_nonnegative]) simp
  ultimately have "sint w = uint w" by (simp add: sint_uint signed_take_bit_int_eq_self)
  then show ?thesis by (metis scast_eq ucast_eq)
qed

text \<open>One byte of the reader, where the number stays below \<open>2 ^ 31\<close>.\<close>

lemma uleb_add:
  assumes "unat v mod 128 * 2 ^ s < 2 ^ 31"
  shows "(scast (push_bit s (ucast (ucast (v :: u64) AND 0x7F :: byte) :: u32)) :: u64) = of_nat (unat v mod 128 * 2 ^ s)"
proof -
  have "(ucast v AND 0x7F :: byte) = take_bit 7 (ucast v)"
    unfolding mask7 by (rule take_bit_eq_mask [symmetric])
  then have "unat (ucast v AND 0x7F :: byte) = unat v mod 128"
    by (simp only: unsigned_take_bit_eq unsigned_ucast_eq) (simp add: take_bit_eq_mod mod_mod_cancel)
  then have "unat (ucast (ucast v AND 0x7F :: byte) :: u32) = unat v mod 128"
    using unat_ucast_byte [of "ucast v AND 0x7F"] by simp
  then have u: "(ucast (ucast v AND 0x7F :: byte) :: u32) = of_nat (unat v mod 128)"
    by (metis of_nat_unat ucast_id)
  let ?w = "of_nat (unat v mod 128 * 2 ^ s) :: u32"
  have w: "push_bit s (of_nat (unat v mod 128)) = ?w" by (simp add: push_bit_eq_mult)
  have uw: "unat ?w = unat v mod 128 * 2 ^ s"
    using assms by (simp only: unat_of_nat) simp
  then have "(scast ?w :: u64) = ucast ?w"
    using assms by (intro scast_ucast_u32) simp
  also have "\<dots> = of_nat (unat v mod 128 * 2 ^ s)"
    using uw by (metis of_nat_unat)
  finally show ?thesis unfolding u w .
qed

lemma uleb_read_loop_write:
  assumes "0 < v" and "unat v * 2 ^ s < 2 ^ 31"
  shows "uleb_read_loop S s c (uleb_write v @ r) = Inr (S + of_nat (unat v * 2 ^ s), r)"
  using assms
proof (induction "unat v" arbitrary: v S s c rule: less_induct)
  case less
  have pos: "0 < unat v" using less.prems(1) by (simp add: word_less_nat_alt)
  have s: "\<not> 32 \<le> s"
  proof
    assume "32 \<le> s"
    then have "(2 :: nat) ^ 31 \<le> 1 * 2 ^ s" by (simp only: mult_1) (rule power_increasing, simp_all)
    also have "\<dots> \<le> unat v * 2 ^ s" using pos by (intro mult_right_mono) simp_all
    finally show False using less.prems(2) by simp
  qed
  have le: "unat v mod 128 * 2 ^ s < 2 ^ 31"
    by (rule le_less_trans [OF mult_right_mono less.prems(2)]) simp_all
  have d: "unat (drop_bit 7 v) = unat v div 128"
    by (simp add: drop_bit_eq_div unat_div)
  have v: "unat v = unat v div 128 * 128 + unat v mod 128" by simp
  note byte = uleb_sByte uleb_more uleb_bits uleb_add [OF le]
  show ?case
  proof (cases "drop_bit 7 v = 0")
    case True
    then have "unat v div 128 = 0" using d by (simp add: unat_eq_0)
    with v have m: "unat v mod 128 = unat v" by simp
    show ?thesis
      using True less.prems(1) s
      by (subst uleb_write.simps) (simp only: byte Let_def if_True append_Cons uleb_read_loop.simps m
        uleb_write.simps [of 0] less_irrefl if_False append_Nil simp_thms)
  next
    case False
    let ?S = "S + of_nat (unat v mod 128 * 2 ^ s)"
    have "q * 2 ^ (s + 7) + m * 2 ^ s = (q * 128 + m) * 2 ^ s" for q m :: nat
      by (simp add: power_add algebra_simps)
    from this [of "unat v div 128" "unat v mod 128"]
    have eq: "unat v div 128 * 2 ^ (s + 7) + unat v mod 128 * 2 ^ s = unat v * 2 ^ s"
      unfolding v [symmetric] .
    then have lt: "unat (drop_bit 7 v) * 2 ^ (s + 7) < 2 ^ 31"
      using less.prems(2) unfolding d by linarith
    have "uleb_read_loop S s c (uleb_write v @ r)
        = uleb_read_loop ?S (s + 7) ((ucast v AND 0x7F) OR 0x80) (uleb_write (drop_bit 7 v) @ r)"
      using False less.prems(1) s
      by (subst uleb_write.simps) (simp only: byte Let_def if_True append_Cons uleb_read_loop.simps if_False simp_thms)
    also have "\<dots> = Inr (?S + of_nat (unat (drop_bit 7 v) * 2 ^ (s + 7)), r)"
      using False lt pos d by (intro less.hyps) (simp_all add: word_gt_0)
    also have "?S + of_nat (unat (drop_bit 7 v) * 2 ^ (s + 7)) = S + of_nat (unat v * 2 ^ s)"
      unfolding d eq [symmetric] of_nat_add by (simp only: ac_simps)
    finally show ?thesis .
  qed
qed

section \<open>Properties\<close>

lemma base64_roundtrip: "b64_decode fl (b64_encode fl x) = Inr x"
proof (cases "NO_PADDING fl")
  case False
  then show ?thesis using length_b64_encode_padded [OF False, of x] by (simp add: b64_decode_def b64_loop_encode)
qed (simp add: b64_decode_def b64_loop_encode)

text \<open>
  the hexadecimal, percent and Base64 codecs lose nothing for any byte sequence: \<open>from_hex\<close> of
  \<open>to_hex\<close>, \<open>from_hex_mixed\<close> of the C string form, \<open>url_decode\<close> of \<open>url_encode\<close> and, for every
  combination of the padding and URL flags, the Base64 decoder after the encoder return the data
  and never throw.
\<close>

theorem text_roundtrip:
  "from_hex (to_hex x) = Inr x \<and> from_hex_mixed (to_hex_c_string x) = Inr x \<and> url_decode (url_encode x) = Inr x
    \<and> b64_decode fl (b64_encode fl x) = Inr x"
  by (simp_all add: from_hex_to_hex from_hex_mixed_def mixed_loop_c_string url_decode_def url_loop_encode base64_roundtrip)

text \<open>
  \<open>Parser::uleb128\<close> reads back what \<open>Format::uleb128\<close> wrote, and leaves the rest of the
  stream, for every positive value below \<open>2 ^ 31\<close>. Outside this range it does not: the writer
  emits no byte for 0, and the reader adds a shifted 32-bit \<open>int\<close>.
\<close>

theorem uleb_roundtrip:
  assumes "0 < v" and "unat v < 2 ^ 31"
  shows "uleb_read (uleb_write v @ r) = Inr (v, r)"
  using uleb_read_loop_write [of v 0] assms by (simp add: uleb_read_def)

theorem uleb_roundtrip_witness: "uleb_read (uleb_write 624485 @ [1]) = Inr (624485, [1])"
  by (rule uleb_roundtrip) simp_all

end
