(* ===== verification/Text_Parsers.thy ===== *)
theory Text_Parsers
  imports Text_Codecs
begin

text \<open>
  The string helpers of \<open>string/String.hpp\<close> and the text parsers of \<open>parser/\<close>: the splitter
  \<open>Parser::simple\<close>, the integer parsers, CSV, URLs with their queries and path parameters, and
  multipart forms. A parser that reports through a callback returns the list of the calls.
\<close>

section \<open>Strings\<close>

text \<open>
  \<open>std::isspace\<close>, \<open>tolower\<close>, \<open>toupper\<close> in the \<open>C\<close> locale; a byte from 128 on, which reaches them
  as a negative \<open>char\<close>, is in no class, as the tables of the C library have it.
\<close>

definition isspace :: "byte \<Rightarrow> bool" where
  "isspace c \<longleftrightarrow> c = 0x20 \<or> 0x09 \<le> c \<and> c \<le> 0x0D"

definition ltrim :: "byte list \<Rightarrow> byte list" where
  "ltrim s = dropWhile isspace s"

definition rtrim :: "byte list \<Rightarrow> byte list" where
  "rtrim s = rev (dropWhile isspace (rev s))"

definition trim :: "byte list \<Rightarrow> byte list" where
  "trim s = rtrim (ltrim s)"

definition char_lower :: "byte \<Rightarrow> byte" where
  "char_lower x = (if 0x41 \<le> x \<and> x \<le> 0x5A then x + 0x20 else x)"

definition char_upper :: "byte \<Rightarrow> byte" where
  "char_upper x = (if 0x61 \<le> x \<and> x \<le> 0x7A then x - 0x20 else x)"

definition str_tolower :: "byte list \<Rightarrow> byte list" where
  "str_tolower s = map char_lower s"

definition str_toupper :: "byte list \<Rightarrow> byte list" where
  "str_toupper s = map char_upper s"

definition starts_with :: "byte list \<Rightarrow> byte list \<Rightarrow> bool" where
  "starts_with s pa \<longleftrightarrow> take (length pa) s = pa"

definition ends_with :: "byte list \<Rightarrow> byte list \<Rightarrow> bool" where
  "ends_with s pa \<longleftrightarrow> (if length s < length pa then False else drop (length s - length pa) s = pa)"

text \<open>\<open>find\<close> of a character and of a string, \<open>None\<close> for \<open>npos\<close>.\<close>

fun find_byte :: "byte \<Rightarrow> byte list \<Rightarrow> nat option" where
  "find_byte c [] = None"
| "find_byte c (b # s) = (if b = c then Some 0 else map_option Suc (find_byte c s))"

fun find_sub :: "byte list \<Rightarrow> byte list \<Rightarrow> nat option" where
  "find_sub p [] = (if p = [] then Some 0 else None)"
| "find_sub p (b # s) = (if starts_with (b # s) p then Some 0 else map_option Suc (find_sub p s))"

definition find_from :: "byte list \<Rightarrow> byte list \<Rightarrow> nat \<Rightarrow> nat option" where
  "find_from p s k = (if length s < k then None else map_option ((+) k) (find_sub p (drop k s)))"

definition str_replace_at :: "byte list \<Rightarrow> nat \<Rightarrow> nat \<Rightarrow> byte list \<Rightarrow> byte list" where
  "str_replace_at s pos n aTo = take pos s @ aTo @ drop (pos + n) s"

definition replace :: "byte list \<Rightarrow> byte list \<Rightarrow> byte list \<Rightarrow> byte list" where
  "replace aSrc aFrom aTo =
     (case find_sub aFrom aSrc of None \<Rightarrow> aSrc | Some sPos \<Rightarrow> str_replace_at aSrc sPos (length aFrom) aTo)"

text \<open>The loop of \<open>replace_all\<close>; it need not end, so it takes fuel.\<close>

fun replace_loop :: "nat \<Rightarrow> byte list \<Rightarrow> byte list \<Rightarrow> byte list \<Rightarrow> nat \<Rightarrow> byte list result" where
  "replace_loop 0 aFrom aTo sResult sFrom = Inl OutOfFuel"
| "replace_loop (Suc fuel) aFrom aTo sResult sFrom =
     (case find_from aFrom sResult sFrom of
        None \<Rightarrow> Inr sResult
      | Some sPos \<Rightarrow>
          replace_loop fuel aFrom aTo (str_replace_at sResult sPos (length aFrom) aTo) (sPos + length aTo))"

definition replace_all :: "nat \<Rightarrow> byte list \<Rightarrow> byte list \<Rightarrow> byte list \<Rightarrow> byte list result" where
  "replace_all fuel aSrc aFrom aTo = replace_loop fuel aFrom aTo aSrc 0"

section \<open>Parser::simple\<close>

lemma find_byte_less: "find_byte c s = Some i \<Longrightarrow> i < length s"
  by (induction s arbitrary: i) (auto split: if_splits)

function simple :: "byte list \<Rightarrow> byte \<Rightarrow> byte list list" where
  "simple str sep =
     (if str = [] then []
      else let pos = (case find_byte sep str of None \<Rightarrow> length str | Some pos \<Rightarrow> pos)
           in take pos str # simple (drop (min (pos + 1) (length str)) str) sep)"
  by auto

termination by (relation "measure (length \<circ> fst)") auto

declare simple.simps [simp del]

section \<open>Numbers\<close>

text \<open>
  \<open>Atoi<T>\<close> for a signed \<open>T\<close> of \<open>w\<close> bits, 32 or 64: the steps of \<open>sResult * 10 + x - '0'\<close> that
  leave the range are undefined. The minus sign is accepted anywhere.
\<close>

definition s_range :: "nat \<Rightarrow> int \<Rightarrow> bool" where
  "s_range w v \<longleftrightarrow> - (2 ^ (w - 1)) \<le> v \<and> v < 2 ^ (w - 1)"

definition s_digit :: "nat \<Rightarrow> int \<Rightarrow> int \<Rightarrow> byte \<Rightarrow> int result" where
  "s_digit w base r x =
     (if s_range w (r * base) \<and> s_range w (r * base + uint x) then Inr (r * base + uint x - 0x30)
      else Inl Undefined)"

fun Atoi_loop :: "nat \<Rightarrow> bool \<Rightarrow> int \<Rightarrow> byte list \<Rightarrow> int result" where
  "Atoi_loop w neg r [] = Inr (if neg then - r else r)"
| "Atoi_loop w neg r (x # s) =
     (if x = 0x2D then Atoi_loop w True r s
      else if 0x39 < x \<or> x < 0x30 then Inl NotNumber
      else bindr (s_digit w 10 r x) (\<lambda>r. Atoi_loop w neg r s))"

definition Atoi :: "nat \<Rightarrow> byte list \<Rightarrow> int result" where
  "Atoi w aString = Atoi_loop w False 0 aString"

text \<open>For an unsigned \<open>T\<close> the arithmetic wraps, the final minus included.\<close>

fun Atoi_u_loop :: "bool \<Rightarrow> 'a::len word \<Rightarrow> byte list \<Rightarrow> 'a word result" where
  "Atoi_u_loop neg r [] = Inr (if neg then - r else r)"
| "Atoi_u_loop neg r (x # s) =
     (if x = 0x2D then Atoi_u_loop True r s
      else if 0x39 < x \<or> x < 0x30 then Inl NotNumber
      else Atoi_u_loop neg (r * 10 + ucast x - 0x30) s)"

definition Atoi_u :: "byte list \<Rightarrow> 'a::len word result" where
  "Atoi_u aString = Atoi_u_loop False 0 aString"

fun Atoi8 :: "'a::len word \<Rightarrow> byte list \<Rightarrow> 'a word result" where
  "Atoi8 r [] = Inr r"
| "Atoi8 r (x # s) =
     (if x = 0 then Inr r
      else if 0x37 < x \<or> x < 0x30 then Inl NotNumber
      else Atoi8 (r * 8 + ucast x - 0x30) s)"

text \<open>
  \<open>Atof\<close> up to its last step: the digits as a 128-bit integer and the divisor as a 64-bit one.
  The quotient is a floating-point number and is left out.
\<close>

fun Atof_loop :: "bool \<Rightarrow> int \<Rightarrow> int \<Rightarrow> byte list \<Rightarrow> (int \<times> int) result" where
  "Atof_loop sPoint sResult sOrder [] = Inr (sResult, sOrder)"
| "Atof_loop sPoint sResult sOrder (x # s) =
     (if x = 0x2E then Atof_loop True sResult sOrder s
      else if 0x39 < x \<or> x < 0x30 then Inl NotNumber
      else bindr (s_digit 128 10 sResult x) (\<lambda>r.
        if sPoint then if s_range 64 (sOrder * 10) then Atof_loop sPoint r (sOrder * 10) s else Inl Undefined
        else Atof_loop sPoint r sOrder s))"

definition Atof :: "byte list \<Rightarrow> (int \<times> int) result" where
  "Atof aString =
     (case aString of
        x # s \<Rightarrow> if x = 0x2D then Atof_loop False 0 (- 1) s else Atof_loop False 0 1 (x # s)
      | [] \<Rightarrow> Atof_loop False 0 1 [])"

section \<open>CSV\<close>

record csv_state =
  current :: "byte list"
  first_character :: bool
  quoted_string :: bool
  previous :: byte
  tokens :: "byte list list"

text \<open>
  The separator of the last character ends a token only when the next character comes. The step
  is in two parts: the start of a new token, then the character itself; \<open>Inl\<close> is \<open>return false\<close>.
\<close>

definition csv_begin :: "byte \<Rightarrow> csv_state \<Rightarrow> csv_state" where
  "csv_begin sep s =
     (if previous s = sep
      then s\<lparr>tokens := tokens s @ [current s], current := [], first_character := True,
             quoted_string := False, previous := 0\<rparr>
      else s)"

definition csv_char :: "byte \<Rightarrow> byte \<Rightarrow> byte \<Rightarrow> byte \<Rightarrow> csv_state \<Rightarrow> byte list list + csv_state" where
  "csv_char sep quote esc c s =
     (if previous s = esc then Inr (s\<lparr>current := current s @ [c], previous := 0\<rparr>)
      else if quoted_string s then
        if previous s = quote then
          if c = sep then Inr (s\<lparr>previous := sep\<rparr>)
          else if c = quote then Inr (s\<lparr>current := current s @ [quote], previous := 0\<rparr>)
          else Inl (tokens s)
        else if c = esc then Inr (s\<lparr>previous := esc\<rparr>)
        else if c = quote then Inr (s\<lparr>previous := quote\<rparr>)
        else Inr (s\<lparr>current := current s @ [c]\<rparr>)
      else if c = esc then Inr (s\<lparr>previous := esc\<rparr>)
      else if c = sep then Inr (s\<lparr>previous := sep\<rparr>)
      else Inr (s\<lparr>current := current s @ [c]\<rparr>))"

definition csv_step :: "byte \<Rightarrow> byte \<Rightarrow> byte \<Rightarrow> byte \<Rightarrow> csv_state \<Rightarrow> byte list list + csv_state" where
  "csv_step sep quote esc c s =
     (let s = csv_begin sep s
      in if first_character s then
           let s = s\<lparr>first_character := False\<rparr>
           in if c = quote then Inr (s\<lparr>quoted_string := True\<rparr>) else csv_char sep quote esc c s
         else csv_char sep quote esc c s)"

text \<open>The loop, with the last character read, then the tokens and the answer.\<close>

fun csv_loop :: "byte \<Rightarrow> byte \<Rightarrow> byte \<Rightarrow> byte \<Rightarrow> csv_state \<Rightarrow> byte list \<Rightarrow> byte list list \<times> bool" where
  "csv_loop sep quote esc c s [] =
     (if previous s = esc then (tokens s, False)
      else if quoted_string s \<and> previous s \<noteq> sep \<and> previous s \<noteq> quote then (tokens s, False)
      else (tokens s @ [current s] @ (if c = sep then [[]] else []), True))"
| "csv_loop sep quote esc _ s (c # str) =
     (case csv_step sep quote esc c s of
        Inl ts \<Rightarrow> (ts, False)
      | Inr s \<Rightarrow> csv_loop sep quote esc c s str)"

definition csv_init :: csv_state where
  "csv_init = \<lparr>current = [], first_character = True, quoted_string = False, previous = 0, tokens = []\<rparr>"

definition csv_line :: "byte list \<Rightarrow> byte \<Rightarrow> byte \<Rightarrow> byte \<Rightarrow> byte list list \<times> bool" where
  "csv_line str sep quote esc = csv_loop sep quote esc 0 csv_init str"

definition csv_header :: "byte list \<Rightarrow> byte list list result" where
  "csv_header aHeader =
     (case csv_line aHeader 0x2C 0x22 0x5C of
        (ts, ok) \<Rightarrow> if ok then Inr (map trim ts) else Inl (RuntimeError ''bad csv header line''))"

text \<open>The callbacks of \<open>object\<close>: one per column, some of them empty; further columns are ignored.\<close>

fun csv_columns :: "(byte list \<Rightarrow> 'o \<Rightarrow> 'o result) option list \<Rightarrow> byte list list \<Rightarrow> 'o \<Rightarrow> 'o result" where
  "csv_columns (Some f # idx) (t # ts) aObj = bindr (f (trim t) aObj) (csv_columns idx ts)"
| "csv_columns (None # idx) (t # ts) aObj = csv_columns idx ts aObj"
| "csv_columns _ _ aObj = Inr aObj"

definition csv_object :: "byte list \<Rightarrow> (byte list \<Rightarrow> 'o \<Rightarrow> 'o result) option list \<Rightarrow> 'o \<Rightarrow> 'o result" where
  "csv_object aStr sIndex aObj =
     (case csv_line aStr 0x2C 0x22 0x5C of
        (ts, ok) \<Rightarrow> bindr (csv_columns sIndex ts aObj) (\<lambda>o'.
          if ok then Inr o' else Inl (RuntimeError ''bad csv data line'')))"

text \<open>\<open>from_file\<close> on the lines of the file: the first is the header, the others are objects.\<close>

fun csv_rows :: "(byte list \<Rightarrow> 'o \<Rightarrow> 'o result) option list \<Rightarrow> 'o \<Rightarrow> ('o \<Rightarrow> bool) \<Rightarrow> byte list list \<Rightarrow> 'o list result" where
  "csv_rows sIndex new aTest [] = Inr []"
| "csv_rows sIndex new aTest (l # ls) =
     bindr (csv_object l sIndex new) (\<lambda>sTmp.
     bindr (csv_rows sIndex new aTest ls) (\<lambda>r. Inr (if aTest sTmp then sTmp # r else r)))"

definition from_file ::
  "(byte list list \<Rightarrow> (byte list \<Rightarrow> 'o \<Rightarrow> 'o result) option list result) \<Rightarrow> 'o \<Rightarrow> ('o \<Rightarrow> bool) \<Rightarrow> byte list list \<Rightarrow> 'o list result" where
  "from_file prepare new aTest ls =
     (case ls of
        [] \<Rightarrow> Inr []
      | l # ls \<Rightarrow> bindr (csv_header l) (\<lambda>h. bindr (prepare h) (\<lambda>sIndex. csv_rows sIndex new aTest ls)))"

section \<open>URLs\<close>

record parsed_url =
  host :: "byte list"
  port :: "byte list"
  path :: "byte list"

datatype url_state = HOST | PORT | QUERY

fun parse_url_loop :: "url_state \<Rightarrow> parsed_url \<Rightarrow> byte list \<Rightarrow> parsed_url" where
  "parse_url_loop st u [] = u"
| "parse_url_loop HOST u (c # s) =
     (if c = 0x3A then parse_url_loop PORT (u\<lparr>port := []\<rparr>) s
      else if c = 0x2F then parse_url_loop QUERY u s
      else parse_url_loop HOST (u\<lparr>host := host u @ [c]\<rparr>) s)"
| "parse_url_loop PORT u (c # s) =
     (if c = 0x2F then parse_url_loop QUERY u s else parse_url_loop PORT (u\<lparr>port := port u @ [c]\<rparr>) s)"
| "parse_url_loop QUERY u (c # s) = parse_url_loop QUERY (u\<lparr>path := path u @ [c]\<rparr>) s"

definition parse_url :: "byte list \<Rightarrow> parsed_url result" where
  "parse_url aUrl =
     (if \<not> starts_with aUrl (bytes_of ''http://'') then Inl (InvalidArgument ''url must start with http://'')
      else Inr (parse_url_loop HOST \<lparr>host = [], port = bytes_of ''80'', path = bytes_of ''/''\<rparr> (drop 7 aUrl)))"

definition query_item :: "byte list \<Rightarrow> (byte list \<times> byte list) result" where
  "query_item aStr =
     (case find_byte 0x3D aStr of
        Some sEnd \<Rightarrow> bindr (url_decode (drop (sEnd + 1) aStr)) (\<lambda>v. Inr (take sEnd aStr, v))
      | None \<Rightarrow> Inr (aStr, []))"

text \<open>The calls of the handler, in order; a bad percent sequence ends them with an exception.\<close>

fun query_items :: "byte list list \<Rightarrow> (byte list \<times> byte list) list result" where
  "query_items [] = Inr []"
| "query_items (x # xs) = bindr (query_item x) (\<lambda>kv. bindr (query_items xs) (\<lambda>r. Inr (kv # r)))"

definition http_query :: "byte list \<Rightarrow> (byte list \<times> byte list) list result" where
  "http_query aQuery =
     (case find_byte 0x3F aQuery of
        None \<Rightarrow> Inr []
      | Some sBegin \<Rightarrow> query_items (simple (drop (sBegin + 1) aQuery) 0x26))"

definition http_header_kv :: "byte list \<Rightarrow> (byte list \<times> byte list) list" where
  "http_header_kv aHeader =
     map (\<lambda>s. case find_byte 0x3D s of
                Some sEnd \<Rightarrow> (take sEnd s, drop (sEnd + 1) s)
              | None \<Rightarrow> (s, [])) (simple aHeader 0x2C)"

text \<open>
  \<open>remove_prefix\<close> and \<open>remove_suffix\<close> of a \<open>string_view\<close> are undefined beyond its size. The
  counts are 64-bit sizes; those of the code that would be negative wrap to a huge number, which
  is beyond every size.
\<close>

definition remove_prefix :: "int \<Rightarrow> byte list \<Rightarrow> byte list result" where
  "remove_prefix n s = (if 0 \<le> n \<and> n \<le> int (length s) then Inr (drop (nat n) s) else Inl Undefined)"

definition remove_suffix :: "int \<Rightarrow> byte list \<Rightarrow> byte list result" where
  "remove_suffix n s = (if 0 \<le> n \<and> n \<le> int (length s) then Inr (take (length s - nat n) s) else Inl Undefined)"

definition path_param :: "byte list \<Rightarrow> byte list \<Rightarrow> (byte list \<times> byte list) list result" where
  "path_param sName sValue =
     (case (find_byte 0x7B sName, find_byte 0x7D sName) of
        (Some sLeft, Some sRight) \<Rightarrow>
          bindr (remove_prefix (int sLeft) sValue) (\<lambda>v.
          bindr (remove_suffix (int (length sName) - int sRight - 1) v) (\<lambda>v.
          bindr (remove_prefix (int sLeft + 1) sName) (\<lambda>n.
          bindr (remove_suffix (int (length n) + int sLeft - int sRight + 1) n) (\<lambda>n.
          bindr (url_decode v) (\<lambda>v. Inr [(n, v)])))))
      | _ \<Rightarrow> Inr [])"

fun path_params :: "byte list list \<Rightarrow> byte list list \<Rightarrow> (byte list \<times> byte list) list result" where
  "path_params (n # ns) (v # vs) =
     bindr (if n = [] then Inr [] else path_param n v) (\<lambda>p. bindr (path_params ns vs) (\<lambda>r. Inr (p @ r)))"
| "path_params _ _ = Inr []"

definition http_path_params :: "byte list \<Rightarrow> byte list \<Rightarrow> (byte list \<times> byte list) list result" where
  "http_path_params aTarget aPattern =
     (case find_byte 0x7B aPattern of
        None \<Rightarrow> Inr []
      | Some sPos \<Rightarrow>
          bindr (remove_prefix (int sPos) aTarget) (\<lambda>aTarget.
            let aPattern = drop sPos aPattern;
                aTarget = (case find_byte 0x3F aTarget of Some p \<Rightarrow> take p aTarget | None \<Rightarrow> aTarget);
                sNames = simple aPattern 0x2F;
                sValues = simple aTarget 0x2F
            in if length sNames \<noteq> length sValues
               then Inl (InvalidArgument (''expect '' @ to_string (length sNames) @ '' parameters, but got '' @ to_string (length sValues)))
               else path_params sNames sValues))"

section \<open>Multipart forms\<close>

record multipart_meta =
  mp_name :: "byte list"
  filename :: "byte list"
  content_type :: "byte list"

datatype mp_phase = IDLE | HEADER | COLLECT | DONE

text \<open>
  \<open>sData\<close> is a view into the input: \<open>None\<close> is the null view, otherwise the offset of its first
  character and its size. The calls of the handler are collected.
\<close>

record multipart_state =
  sState :: mp_phase
  sMeta :: multipart_meta
  sData :: "(nat \<times> nat) option"
  mp_calls :: "(multipart_meta \<times> byte list) list"

definition empty_meta :: multipart_meta where
  "empty_meta = \<lparr>mp_name = [], filename = [], content_type = []\<rparr>"

definition sDisposition :: "byte list" where
  "sDisposition = bytes_of ''Content-Disposition: form-data;''"

definition sType :: "byte list" where
  "sType = bytes_of ''Content-Type: ''"

definition disposition_item :: "byte list \<Rightarrow> multipart_meta \<Rightarrow> multipart_meta" where
  "disposition_item aItem m =
     (let aItem = trim aItem
      in case find_sub [0x3D, 0x22] aItem of
           None \<Rightarrow> m
         | Some sPos \<Rightarrow>
             if length aItem \<le> sPos + 3 then m
             else let sName = take sPos aItem;
                      sValue = take (length aItem - sPos - 3) (drop (sPos + 2) aItem)
                  in if sName = bytes_of ''name'' then m\<lparr>mp_name := sValue\<rparr>
                     else if sName = bytes_of ''filename'' then m\<lparr>filename := sValue\<rparr>
                     else m)"

definition sParseDisposition :: "byte list \<Rightarrow> multipart_meta \<Rightarrow> multipart_meta" where
  "sParseDisposition aLine m = fold disposition_item (simple (drop (length sDisposition) aLine) 0x3B) m"

text \<open>One line, given with its offset in the data.\<close>

definition multipart_line ::
  "byte list \<Rightarrow> byte list \<Rightarrow> nat \<times> byte list \<Rightarrow> multipart_state \<Rightarrow> multipart_state result" where
  "multipart_line aData aBoundary l s =
     (let (off, aLine) = l
      in case sState s of
           IDLE \<Rightarrow> Inr (if aLine = aBoundary then s\<lparr>sState := HEADER\<rparr> else s)
         | HEADER \<Rightarrow>
             Inr (if aLine = [] then s\<lparr>sState := COLLECT\<rparr>
                  else if starts_with aLine sDisposition then s\<lparr>sMeta := sParseDisposition aLine (sMeta s)\<rparr>
                  else if starts_with aLine sType
                  then s\<lparr>sMeta := (sMeta s)\<lparr>content_type := drop (length sType) aLine\<rparr>\<rparr>
                  else s)
         | COLLECT \<Rightarrow>
             if starts_with aLine aBoundary then
               (case sData s of
                  None \<Rightarrow> Inl (InvalidArgument ''unexpected boundary'')
                | Some (p, n) \<Rightarrow>
                    Inr (s\<lparr>mp_calls := mp_calls s @ [(sMeta s, take (off - p - 1) (drop p aData))],
                           sState := (if drop (length aBoundary) aLine = bytes_of ''--'' then DONE else HEADER),
                           sMeta := empty_meta, sData := None\<rparr>))
             else Inr (case sData s of
                         Some (p, Suc n) \<Rightarrow> s
                       | _ \<Rightarrow> s\<lparr>sData := Some (off, length aLine)\<rparr>)
         | DONE \<Rightarrow> Inl (InvalidArgument ''unexpected data after end marker''))"

text \<open>The lines of \<open>simple\<close> with their offsets.\<close>

fun with_offsets :: "nat \<Rightarrow> byte list list \<Rightarrow> (nat \<times> byte list) list" where
  "with_offsets off [] = []"
| "with_offsets off (l # ls) = (off, l) # with_offsets (off + length l + 1) ls"

fun multipart_lines ::
  "byte list \<Rightarrow> byte list \<Rightarrow> (nat \<times> byte list) list \<Rightarrow> multipart_state \<Rightarrow> multipart_state result" where
  "multipart_lines aData aBoundary [] s = Inr s"
| "multipart_lines aData aBoundary (l # ls) s =
     bindr (multipart_line aData aBoundary l s) (multipart_lines aData aBoundary ls)"

definition multipart :: "byte list \<Rightarrow> byte list \<Rightarrow> (multipart_meta \<times> byte list) list result" where
  "multipart aData aBoundary =
     bindr (multipart_lines aData aBoundary (with_offsets 0 (simple aData 0x0A))
             \<lparr>sState = IDLE, sMeta = empty_meta, sData = None, mp_calls = []\<rparr>) (\<lambda>s.
       case sState s of
         IDLE \<Rightarrow> Inl (InvalidArgument ''not multipart data'')
       | COLLECT \<Rightarrow> Inl (InvalidArgument ''incomplete data'')
       | HEADER \<Rightarrow> Inl (InvalidArgument ''no termination marker'')
       | DONE \<Rightarrow> Inr (mp_calls s))"

section \<open>Substitution as a recursive function\<close>

text \<open>What \<open>replace_all\<close> is meant to compute: the occurrences from the left, none inside a replacement.\<close>

function subst_all :: "byte list \<Rightarrow> byte list \<Rightarrow> byte list \<Rightarrow> byte list" where
  "subst_all p t s =
     (if p = [] \<or> s = [] then s
      else if starts_with s p then t @ subst_all p t (drop (length p) s)
      else hd s # subst_all p t (tl s))"
  by auto

termination by (relation "measure (\<lambda>(p, t, s). length s)") auto

declare subst_all.simps [simp del]

lemma subst_all_Nil [simp]: "subst_all p t [] = []"
  by (simp add: subst_all.simps)

lemma starts_with_length: "starts_with s p \<Longrightarrow> length p \<le> length s"
  unfolding starts_with_def by (metis length_take min.cobounded1)

lemma find_sub_Some: "find_sub p s = Some i \<Longrightarrow> i + length p \<le> length s"
  by (induction s arbitrary: i) (auto split: if_splits dest: starts_with_length)

lemma subst_all_None: "find_sub p s = None \<Longrightarrow> subst_all p t s = s"
  by (induction s) (simp_all add: subst_all.simps [of p t "_ # _"] split: if_splits)

lemma subst_all_Some:
  assumes "p \<noteq> []" and "find_sub p s = Some i"
  shows "subst_all p t s = take i s @ t @ subst_all p t (drop (i + length p) s)"
  using assms(2)
proof (induction s arbitrary: i)
  case (Cons b s)
  then show ?case using assms(1)
    by (auto simp: subst_all.simps [of p t "b # s"] split: if_splits)
qed (use assms(1) in simp)

lemma find_from_append: "find_from p (d @ s) (length d) = map_option ((+) (length d)) (find_sub p s)"
  by (simp add: find_from_def)

lemma str_replace_at_append:
  "str_replace_at (d @ s) (length d + i) n t = (d @ take i s @ t) @ drop (i + n) s"
  by (simp add: str_replace_at_def)

lemma replace_loop_subst:
  assumes "p \<noteq> []"
  shows "length s < fuel \<Longrightarrow> replace_loop fuel p t (d @ s) (length d) = Inr (d @ subst_all p t s)"
proof (induction fuel arbitrary: d s)
  case (Suc fuel)
  show ?case
  proof (cases "find_sub p s")
    case None
    then show ?thesis by (simp add: find_from_append subst_all_None)
  next
    case (Some i)
    let ?d = "d @ take i s @ t"
    have "i + length p \<le> length s" using Some by (rule find_sub_Some)
    then have "length (drop (i + length p) s) < fuel" and len: "length ?d = length d + i + length t"
      using Suc.prems assms by (cases p; simp)+
    from Suc.IH [OF this(1), of ?d] show ?thesis
      using Some len by (simp add: find_from_append str_replace_at_append subst_all_Some [OF assms Some] add.assoc)
  qed
qed simp

lemma replace_loop_empty:
  "k \<le> length s \<Longrightarrow> replace_loop fuel [] t s k = Inl OutOfFuel"
proof (induction fuel arbitrary: s k)
  case (Suc fuel)
  have "find_sub [] (drop k s) = Some 0" by (cases "drop k s") (simp_all add: starts_with_def)
  then show ?case using Suc by (simp add: find_from_def str_replace_at_def)
qed simp

section \<open>Quoted CSV\<close>

text \<open>A field in quotes, with quotes doubled and escapes escaped; a line is its fields joined.\<close>

definition csv_quote :: "byte \<Rightarrow> byte \<Rightarrow> byte list \<Rightarrow> byte list" where
  "csv_quote quote esc x =
     quote # concat (map (\<lambda>c. if c = quote then [quote, quote] else if c = esc then [esc, esc] else [c]) x) @ [quote]"

fun csv_join :: "byte \<Rightarrow> byte \<Rightarrow> byte \<Rightarrow> byte list list \<Rightarrow> byte list" where
  "csv_join sep quote esc [] = []"
| "csv_join sep quote esc [x] = csv_quote quote esc x"
| "csv_join sep quote esc (x # xs) = csv_quote quote esc x @ sep # csv_join sep quote esc xs"

definition csv_distinct :: "byte \<Rightarrow> byte \<Rightarrow> byte \<Rightarrow> bool" where
  "csv_distinct sep quote esc \<longleftrightarrow> distinct [0, sep, quote, esc]"

lemma csv_loop_body:
  assumes "csv_distinct sep quote esc"
  shows "csv_loop sep quote esc c \<lparr>current = a, first_character = False, quoted_string = True, previous = 0, tokens = ts\<rparr>
      (concat (map (\<lambda>c. if c = quote then [quote, quote] else if c = esc then [esc, esc] else [c]) x) @ quote # r)
    = csv_loop sep quote esc quote
        \<lparr>current = a @ x, first_character = False, quoted_string = True, previous = quote, tokens = ts\<rparr> r"
  using assms
  by (induction x arbitrary: a c) (auto simp: csv_step_def csv_begin_def csv_char_def csv_distinct_def Let_def)

lemma csv_loop_fields:
  assumes "csv_distinct sep quote esc"
  shows "csv_loop sep quote esc quote
      \<lparr>current = a, first_character = False, quoted_string = True, previous = quote, tokens = ts\<rparr>
      (concat (map (\<lambda>x. sep # csv_quote quote esc x) xs))
    = (ts @ a # xs, True)"
proof (induction xs arbitrary: a ts)
  case (Cons x xs)
  have "quote \<noteq> sep" using assms by (auto simp: csv_distinct_def)
  with Cons show ?case
    using assms csv_loop_body [OF assms, of _ "[]" "ts @ [a]" x]
    by (simp add: csv_quote_def csv_step_def csv_begin_def csv_char_def csv_distinct_def Let_def)
qed (use assms in \<open>auto simp: csv_distinct_def\<close>)

lemma csv_join_Cons: "csv_join sep quote esc (x # xs) = csv_quote quote esc x @ concat (map (\<lambda>x. sep # csv_quote quote esc x) xs)"
  by (induction xs arbitrary: x) simp_all

section \<open>Splitting and queries\<close>

fun join :: "byte \<Rightarrow> byte list list \<Rightarrow> byte list" where
  "join sep [] = []"
| "join sep [x] = x"
| "join sep (x # xs) = x @ sep # join sep xs"

lemma find_byte_None [simp]: "c \<notin> set s \<Longrightarrow> find_byte c s = None"
  by (induction s) auto

lemma find_byte_append [simp]: "c \<notin> set s \<Longrightarrow> find_byte c (s @ c # r) = Some (length s)"
  by (induction s) auto

lemma simple_Nil [simp]: "simple [] sep = []"
  by (simp add: simple.simps)

lemma simple_single: "sep \<notin> set x \<Longrightarrow> x \<noteq> [] \<Longrightarrow> simple x sep = [x]"
  by (subst simple.simps) simp

lemma simple_Cons: "sep \<notin> set x \<Longrightarrow> simple (x @ sep # r) sep = x # simple r sep"
  by (subst simple.simps) simp

text \<open>The splitter inverts joining, for tokens that are not empty and do not hold the separator.\<close>

lemma simple_join:
  assumes "\<forall>x \<in> set xs. sep \<notin> set x \<and> x \<noteq> []"
  shows "simple (join sep xs) sep = xs"
  using assms by (induction sep xs rule: join.induct) (simp_all add: simple_single simple_Cons)

definition query_text :: "(byte list \<times> byte list) list \<Rightarrow> byte list" where
  "query_text kvs = join 0x26 (map (\<lambda>(k, v). k @ 0x3D # url_encode v) kvs)"

lemma hex_digit_plain: "hex_pair b ! 0 \<noteq> 0x26 \<and> hex_pair b ! 1 \<noteq> 0x26"
  by (rule byte_all) code_simp

lemma url_encode_plain: "0x26 \<notin> set (url_encode v)"
proof -
  have "0x26 \<notin> set (if unreserved b then [b] else 0x25 # hex_pair b)" for b
    using hex_digit_plain [of b] by (auto simp: unreserved_def hex_pair_def)
  then show ?thesis by (induction v) (simp_all add: url_encode_def del: set_simps(2))
qed

lemma url_decode_encode: "url_decode (url_encode v) = Inr v"
  by (simp add: url_decode_def url_loop_encode)

lemma query_items_text:
  "\<forall>(k, v) \<in> set kvs. 0x3D \<notin> set k \<Longrightarrow> query_items (map (\<lambda>(k, v). k @ 0x3D # url_encode v) kvs) = Inr kvs"
  by (induction kvs) (auto simp: query_item_def url_decode_encode)

section \<open>Properties\<close>

text \<open>
  C30: a line of fields in quotes, with quotes doubled and escape characters escaped, is parsed
  back to exactly its fields, whatever bytes the fields hold, and \<open>line\<close> answers true. The
  separator, the quote and the escape character are different and not the zero character, which
  the parser uses for no previous character.
\<close>

theorem csv_roundtrip:
  assumes "distinct [0, sep, quote, esc]" and "xs \<noteq> []"
  shows "csv_line (csv_join sep quote esc xs) sep quote esc = (xs, True)"
proof -
  have d: "csv_distinct sep quote esc" using assms(1) by (simp only: csv_distinct_def)
  from assms(2) obtain x ys where xs: "xs = x # ys" by (cases xs) auto
  have "csv_step sep quote esc quote csv_init
      = Inr \<lparr>current = [], first_character = False, quoted_string = True, previous = 0, tokens = []\<rparr>"
    using assms(1) by (simp add: csv_step_def csv_begin_def csv_init_def Let_def)
  then show ?thesis
    using csv_loop_body [OF d, of quote "[]" "[]" x] csv_loop_fields [OF d, of x "[]" ys]
    by (simp add: csv_line_def xs csv_join_Cons csv_quote_def)
qed

theorem csv_roundtrip_witness:
  "csv_line (csv_join 0x2C 0x22 0x5C [[0x61, 0x2C], [], [0x22, 0x5C]]) 0x2C 0x22 0x5C = ([[0x61, 0x2C], [], [0x22, 0x5C]], True)"
  by (rule csv_roundtrip) simp_all

text \<open>
  C35: \<open>replace_all\<close> ends and substitutes every occurrence from the left, leaving the inserted
  text alone, when the pattern is not empty; with an empty pattern it never ends.
\<close>

theorem replace_all_subst:
  "(aFrom \<noteq> [] \<longrightarrow> (\<forall>fuel > length aSrc. replace_all fuel aSrc aFrom aTo = Inr (subst_all aFrom aTo aSrc)))
   \<and> (\<forall>fuel. replace_all fuel aSrc [] aTo = Inl OutOfFuel)"
  using replace_loop_subst [of aFrom aSrc _ aTo "[]"] by (simp add: replace_all_def replace_loop_empty)

theorem replace_all_subst_witness:
  "replace_all 7 [1, 2, 1, 1, 2, 3] [1, 2] [1] = Inr [1, 1, 1, 3]"
proof -
  have "subst_all [1, 2] [1] [1, 2, 1, 1, 2, 3] = [1, 1, 1, 3]"
    by (simp add: subst_all.simps starts_with_def)
  then show ?thesis
    using replace_all_subst [of "[1, 2]" "[1, 2, 1, 1, 2, 3]" "[1]"] by simp
qed

text \<open>
  \<open>http_query\<close> returns, in order, every key with its value from a target whose query is
  rendered with percent-encoded values: the values may hold any byte; the path has no question
  mark and the keys no equals sign or ampersand.
\<close>

theorem http_query_roundtrip:
  assumes "0x3F \<notin> set p" and "\<forall>(k, v) \<in> set kvs. 0x3D \<notin> set k \<and> 0x26 \<notin> set k"
  shows "http_query (p @ 0x3F # query_text kvs) = Inr kvs"
proof -
  have "simple (query_text kvs) 0x26 = map (\<lambda>(k, v). k @ 0x3D # url_encode v) kvs"
    unfolding query_text_def using assms(2) url_encode_plain by (intro simple_join) auto
  then show ?thesis
    using assms query_items_text [of kvs] by (auto simp: http_query_def)
qed

theorem http_query_roundtrip_witness:
  "http_query ([0x2F, 0x61] @ 0x3F # query_text [([0x6B], [0x26, 0x3D]), ([], [])]) = Inr [([0x6B], [0x26, 0x3D]), ([], [])]"
  by (rule http_query_roundtrip) simp_all

end
