(* ===== verification/Aws.thy ===== *)
theory Aws
  imports Streams
begin

text \<open>
  The reader of AWS event streams (\<open>parser/AWS.hpp\<close>) over the in-memory stream. The checksum
  \<open>Hash::CRC32::sum\<close> wraps a template of an external library and is a parameter: a function from
  the bytes it is fed to a 32-bit value.
\<close>

section \<open>The reader\<close>

record aws_prelude =
  total :: u32
  headers :: u32

text \<open>
  The three numbers of the prelude are kept in the byte order of the stream until the checksum
  of the first two is verified.
\<close>

definition aws_prelude_read :: "(byte list \<Rightarrow> u32) \<Rightarrow> imemstream \<Rightarrow> (aws_prelude \<times> imemstream) result" where
  "aws_prelude_read crc s =
     bindr (im_read 4 s) (\<lambda>(t, s).
     bindr (im_read 4 s) (\<lambda>(h, s).
     bindr (im_read 4 s) (\<lambda>(c, s).
       if crc (t @ h) \<noteq> of_nat (be_dec c) then Inl (InvalidArgument ''Parser::AWS invalid prelude checksum'')
       else Inr (\<lparr>total = of_nat (be_dec t), headers = of_nat (be_dec h)\<rparr>, s))))"

definition aws_data_size :: "aws_prelude \<Rightarrow> u32" where
  "aws_data_size p = total p - headers p - 16"

definition aws_kv_read :: "imemstream \<Rightarrow> ((byte list \<times> byte list) \<times> imemstream) result" where
  "aws_kv_read s =
     bindr (im_read 1 s) (\<lambda>(sHSize, s).
     bindr (im_substring (of_nat (le_dec sHSize)) s) (\<lambda>(name, s).
     bindr (im_read 1 s) (\<lambda>(sSeven, s).
       if sSeven = [0x37] then Inl (InvalidArgument ''Parser::AWS invalid kv entry'')
       else bindr (im_read 2 s) (\<lambda>(sVSize, s).
            bindr (im_substring (of_nat (be_dec sVSize)) s) (\<lambda>(value, s). Inr ((name, value), s))))))"

text \<open>The checksum of a message; the subtraction of the size of the checksum wraps at 32 bits.\<close>

definition aws_check :: "(byte list \<Rightarrow> u32) \<Rightarrow> u64 \<Rightarrow> aws_prelude \<Rightarrow> imemstream \<Rightarrow> unit result" where
  "aws_check crc sOffset sPre s =
     bindr (im_substr_at sOffset (ucast (total sPre - 4)) s) (\<lambda>sMessage.
     bindr (im_substr_at (sOffset + of_nat (length sMessage)) 4 s) (\<lambda>sRemote.
       if length sRemote < 4 then Inl Undefined
       else if crc sMessage \<noteq> of_nat (be_dec (take 4 sRemote))
       then Inl (InvalidArgument ''Parser::AWS invalid message checksum'')
       else Inr ()))"

definition event_type :: "byte list \<times> byte list" where
  "event_type = (bytes_of '':event-type'', bytes_of ''Records'')"

definition error_name :: "byte list" where
  "error_name = bytes_of '':error-message''"

definition text_of :: "byte list \<Rightarrow> string" where
  "text_of b = map (\<lambda>x. char_of (unat x)) b"

fun aws_headers :: "nat \<Rightarrow> imemstream \<Rightarrow> bool \<Rightarrow> bool result" where
  "aws_headers fuel sHeader sRecords =
     (if im_eof sHeader then Inr sRecords
      else case fuel of 0 \<Rightarrow> Inl OutOfFuel
      | Suc fuel \<Rightarrow>
          bindr (aws_kv_read sHeader) (\<lambda>(sKV, sHeader).
            let sRecords = (sKV = event_type \<or> sRecords)
            in if fst sKV = error_name then Inl (InvalidArgument (''Parser::AWS '' @ text_of (snd sKV)))
               else aws_headers fuel sHeader sRecords))"

declare aws_headers.simps [simp del]

text \<open>One message: the bytes it adds to the result, and the stream behind it.\<close>

definition aws_message :: "(byte list \<Rightarrow> u32) \<Rightarrow> imemstream \<Rightarrow> (byte list \<times> imemstream) result" where
  "aws_message crc s =
     (let sOffset = m_Offset s
      in bindr (aws_prelude_read crc s) (\<lambda>(sPre, s).
         bindr (aws_check crc sOffset sPre s) (\<lambda>_.
         bindr (im_substring (ucast (headers sPre)) s) (\<lambda>(h, s).
         bindr (aws_headers (length h) (im_open h) False) (\<lambda>sRecords.
         bindr (im_substring (ucast (aws_data_size sPre)) s) (\<lambda>(d, s).
         bindr (im_skip 4 s) (\<lambda>s. Inr (if sRecords then d else [], s))))))))"

fun aws_loop :: "nat \<Rightarrow> (byte list \<Rightarrow> u32) \<Rightarrow> imemstream \<Rightarrow> byte list \<Rightarrow> byte list result" where
  "aws_loop fuel crc s sStr =
     (if im_eof s then Inr sStr
      else case fuel of 0 \<Rightarrow> Inl OutOfFuel
      | Suc fuel \<Rightarrow> bindr (aws_message crc s) (\<lambda>(d, s). aws_loop fuel crc s (sStr @ d)))"

declare aws_loop.simps [simp del]

text \<open>A header takes four bytes or more and a message sixteen, so the length is enough fuel.\<close>

definition aws_stream :: "(byte list \<Rightarrow> u32) \<Rightarrow> byte list \<Rightarrow> byte list result" where
  "aws_stream crc aData = aws_loop (length aData) crc (im_open aData) []"

section \<open>Reads of sizes below \<open>2 ^ 63\<close>\<close>

abbreviation no_crash :: "'a result \<Rightarrow> bool" where
  "no_crash r \<equiv> r \<noteq> Inl Undefined \<and> r \<noteq> Inl OutOfFuel"

text \<open>An operation consumes \<open>n\<close> bytes: it fails with an exception or leaves the rest.\<close>

lemma im_substring_small:
  assumes "im_ok s" and "unat n < 2 ^ 63"
  shows "im_substring n s =
     (if unat n \<le> length (im_unread s)
      then Inr (take (unat n) (im_unread s), s\<lparr>m_Offset := m_Offset s + n\<rparr>)
      else Inl EndOfBuffer)"
proof -
  have "unat n + unat (m_Offset s) < 2 ^ 64" using assms by (simp add: im_ok_def)
  then show ?thesis
    using im_ensure_fits(1) [OF assms(1), of n] im_ensure_short [OF assms(1), of n] assms(1)
    by (simp add: im_substring_def sv_substr_def im_unread_def im_ok_def)
qed

lemma im_read_small:
  assumes "im_ok s" and "unat n < 2 ^ 63"
  shows "im_read n s =
     (if unat n \<le> length (im_unread s)
      then Inr (take (unat n) (im_unread s), s\<lparr>m_Offset := m_Offset s + n\<rparr>)
      else Inl EndOfBuffer)"
  using im_read_fits(1) [OF assms(1), of n] im_read_short [OF assms(1), of n] assms(2) by auto

lemma im_skip_small:
  assumes "im_ok s" and "unat n < 2 ^ 63"
  shows "im_skip n s =
     (if unat n \<le> length (im_unread s) then Inr (s\<lparr>m_Offset := m_Offset s + n\<rparr>) else Inl EndOfBuffer)"
proof -
  have "unat n + unat (m_Offset s) < 2 ^ 64" using assms by (simp add: im_ok_def)
  then show ?thesis
    using im_ensure_fits(1) [OF assms(1), of n] im_ensure_short [OF assms(1), of n]
    by (simp add: im_skip_def)
qed

lemmas im_small = im_read_small im_substring_small im_skip_small

lemma im_unread_eof: "im_ok s \<Longrightarrow> im_eof s \<longleftrightarrow> im_unread s = []"
  using unat_im_size [of s] by (simp add: im_eof_def im_unread_def word_le_nat_alt)

text \<open>The three readers with the state they leave, by the unread bytes.\<close>

lemma im_take:
  assumes "im_ok s" and "unat n < 2 ^ 63" and "im_unread s = x @ r" and "length x = unat n"
  shows "\<exists>s'. im_read n s = Inr (x, s') \<and> im_substring n s = Inr (x, s') \<and> im_skip n s = Inr s'
    \<and> im_ok s' \<and> im_unread s' = r \<and> m_Data s' = m_Data s \<and> m_Offset s' = m_Offset s + n"
  using assms im_read_fits(2,3) [OF assms(1), of n] by (simp add: im_small)

section \<open>No crash, no endless loop\<close>

text \<open>
  \<open>consumes k s m\<close>: the computation \<open>m\<close> on the stream \<open>s\<close> neither touches memory outside the
  buffer nor runs out of fuel, and when it returns it has used up at least \<open>k\<close> bytes.
\<close>

definition consumes :: "nat \<Rightarrow> imemstream \<Rightarrow> ('a \<times> imemstream) result \<Rightarrow> bool" where
  "consumes k s m \<longleftrightarrow> no_crash m \<and> (\<forall>x s'. m = Inr (x, s') \<longrightarrow> im_ok s' \<and> length (im_unread s') + k \<le> length (im_unread s))"

lemma consumes_bind:
  assumes "consumes k s m"
    and "\<And>x s'. m = Inr (x, s') \<Longrightarrow> im_ok s' \<Longrightarrow> consumes j s' (f x s')"
  shows "consumes (k + j) s (bindr m (\<lambda>(x, s). f x s))"
proof (cases m)
  case (Inr p)
  obtain x s' where p: "p = (x, s')" by (cases p)
  then show ?thesis
    using assms(1) assms(2) [of x s'] Inr by (fastforce simp: consumes_def)
qed (use assms(1) in \<open>simp add: consumes_def\<close>)

lemma consumes_throw: "e \<noteq> Undefined \<Longrightarrow> e \<noteq> OutOfFuel \<Longrightarrow> consumes k s (Inl e)"
  by (simp add: consumes_def)

lemma consumes_return: "im_ok s \<Longrightarrow> consumes 0 s (Inr (x, s))"
  by (simp add: consumes_def)

lemma consumes_read: "im_ok s \<Longrightarrow> unat n < 2 ^ 63 \<Longrightarrow> consumes (unat n) s (im_read n s)"
  using im_read_fits(2,3) [of s n] by (simp add: consumes_def im_small)

lemma consumes_substring: "im_ok s \<Longrightarrow> unat n < 2 ^ 63 \<Longrightarrow> consumes 0 s (im_substring n s)"
  using im_read_fits(2,3) [of s n] by (simp add: consumes_def im_small)

lemma unat_u32_u64: "unat (ucast (w :: u32) :: u64) = unat w"
proof -
  have "unat w < 2 ^ 64" by (rule less_trans [OF unsigned_less]) simp
  then show ?thesis by (simp add: unsigned_ucast_eq take_bit_nat_eq_self)
qed

lemma u32_small: "unat (ucast (w :: u32) :: u64) < 2 ^ 63"
  unfolding unat_u32_u64 by (rule less_trans [OF unsigned_less]) simp

lemma be_dec_small:
  assumes "length bs \<le> 2"
  shows "unat (of_nat (be_dec bs) :: u64) < 2 ^ 63"
proof -
  have "be_dec bs < 256 ^ 2"
    by (rule less_le_trans [OF be_dec_less power_increasing]) (use assms in simp_all)
  then show ?thesis by (simp add: unat_of_nat_u64)
qed

lemma im_read_length: "im_ok s \<Longrightarrow> unat n < 2 ^ 63 \<Longrightarrow> im_read n s = Inr (x, s') \<Longrightarrow> length x = unat n"
  by (auto simp: im_small split: if_splits)

lemma consumes_mono: "consumes k s m \<Longrightarrow> j \<le> k \<Longrightarrow> consumes j s m"
  by (auto simp: consumes_def)

lemma consumes_byte: "im_ok s \<Longrightarrow> consumes 1 s (im_read 1 s)" "im_ok s \<Longrightarrow> im_read 1 s = Inr (x, s') \<Longrightarrow> length x = 1"
  using consumes_read [of s 1] im_read_length [of s 1] by simp_all

lemma consumes_word: "im_ok s \<Longrightarrow> consumes 2 s (im_read 2 s)" "im_ok s \<Longrightarrow> im_read 2 s = Inr (x, s') \<Longrightarrow> length x = 2"
  using consumes_read [of s 2] im_read_length [of s 2] by simp_all

lemma consumes_kv:
  assumes "im_ok s"
  shows "consumes 4 s (aws_kv_read s)"
proof -
  have val: "consumes (2 + 0) s3 (bindr (im_read 2 s3) (\<lambda>(v, s).
      bindr (im_substring (of_nat (be_dec v)) s) (\<lambda>(value, s). Inr ((name, value), s))))"
    if "im_ok s3" for s3 and name :: "byte list"
  proof (rule consumes_bind [OF consumes_word(1) [OF that]])
    fix v s4 assume v: "im_read 2 s3 = Inr (v, s4)" "im_ok s4"
    have "consumes (0 + 0) s4 (bindr (im_substring (of_nat (be_dec v)) s4) (\<lambda>(value, s). Inr ((name, value), s)))"
      using v consumes_word(2) [OF that v(1)]
      by (intro consumes_bind [OF consumes_substring] consumes_return be_dec_small) simp_all
    then show "consumes 0 s4 (bindr (im_substring (of_nat (be_dec v)) s4) (\<lambda>(value, s). Inr ((name, value), s)))"
      by simp
  qed
  have rest: "consumes (1 + 2) s2 (bindr (im_read 1 s2) (\<lambda>(sSeven, s).
       if sSeven = [0x37] then Inl (InvalidArgument ''Parser::AWS invalid kv entry'')
       else bindr (im_read 2 s) (\<lambda>(v, s).
            bindr (im_substring (of_nat (be_dec v)) s) (\<lambda>(value, s). Inr ((name, value), s)))))"
    if "im_ok s2" for s2 and name :: "byte list"
    by (rule consumes_bind [OF consumes_byte(1) [OF that]]) (use val in \<open>simp add: consumes_throw\<close>)
  have "consumes (1 + (0 + (1 + 2))) s (aws_kv_read s)"
    unfolding aws_kv_read_def
  proof (rule consumes_bind [OF consumes_byte(1) [OF assms]])
    fix h s1 assume "im_read 1 s = Inr (h, s1)" and ok: "im_ok s1"
    then have "length h = 1" using consumes_byte(2) [OF assms] by simp
    then have "consumes 0 s1 (im_substring (of_nat (le_dec h)) s1)"
      unfolding le_dec_def using ok by (intro consumes_substring be_dec_small) simp_all
    from consumes_bind [OF this rest]
    show "consumes (0 + (1 + 2)) s1 (bindr (im_substring (of_nat (le_dec h)) s1) (\<lambda>(name, s).
       bindr (im_read 1 s) (\<lambda>(sSeven, s).
       if sSeven = [0x37] then Inl (InvalidArgument ''Parser::AWS invalid kv entry'')
       else bindr (im_read 2 s) (\<lambda>(v, s).
            bindr (im_substring (of_nat (be_dec v)) s) (\<lambda>(value, s). Inr ((name, value), s))))))" .
  qed
  then show ?thesis by (rule consumes_mono) simp
qed

lemma aws_headers_no_crash:
  "im_ok s \<Longrightarrow> length (im_unread s) \<le> fuel \<Longrightarrow> no_crash (aws_headers fuel s r)"
proof (induction fuel arbitrary: s r)
  case (Suc fuel)
  show ?case
  proof (cases "aws_kv_read s")
    case (Inr p)
    obtain kv s' where p: "p = (kv, s')" by (cases p)
    have "im_ok s'" and "length (im_unread s') \<le> fuel"
      using consumes_kv [OF Suc.prems(1)] Suc.prems(2) Inr p by (auto simp: consumes_def)
    with Suc.IH Inr p show ?thesis by (simp add: aws_headers.simps [of "Suc fuel"] Let_def)
  qed (use consumes_kv [OF Suc.prems(1)] in \<open>simp add: aws_headers.simps [of "Suc fuel"] consumes_def\<close>)
qed (simp add: aws_headers.simps im_unread_eof)

text \<open>\<open>substr_at\<close> of a small size at an offset below \<open>2 ^ 63\<close> returns exactly that many bytes.\<close>

lemma im_substr_at_small:
  assumes "length (m_Data s) < 2 ^ 63" and "unat off < 2 ^ 63" and "unat n < 2 ^ 63"
  shows "im_substr_at off n s =
    (if unat off + unat n \<le> length (m_Data s) then Inr (take (unat n) (drop (unat off) (m_Data s))) else Inl EndOfBuffer)"
proof -
  have "unat (n + off) = unat n + unat off" using assms by (intro unat_add_no_wrap) simp
  moreover have "unat (im_size s) = length (m_Data s)" using assms(1) by (simp add: im_size_def unat_of_nat_u64)
  ultimately show ?thesis by (auto simp: im_substr_at_def word_less_nat_alt sv_substr_def)
qed

lemma aws_check_no_crash:
  assumes len: "length (m_Data s) < 2 ^ 63" and off: "unat off \<le> length (m_Data s)"
  shows "no_crash (aws_check crc off p s)"
proof -
  let ?n = "ucast (total p - 4) :: u64"
  note at = im_substr_at_small [OF len _ u32_small, of off "total p - 4"]
  show ?thesis
  proof (cases "unat off + unat ?n \<le> length (m_Data s)")
    case True
    let ?m = "take (unat ?n) (drop (unat off) (m_Data s))"
    have m: "length ?m = unat ?n" using True by simp
    then have "unat (off + of_nat (length ?m)) = unat off + unat ?n"
      using True len by (simp add: unat_add_no_wrap)
    then have "im_substr_at (off + of_nat (length ?m)) 4 s
        = (if unat off + unat ?n + 4 \<le> length (m_Data s) then Inr (take 4 (drop (unat off + unat ?n) (m_Data s))) else Inl EndOfBuffer)"
      using True len im_substr_at_small [OF len, of "off + of_nat (length ?m)" 4] by simp
    then show ?thesis using at True len off by (simp add: aws_check_def)
  next
    case False
    then show ?thesis using at len off by (simp add: aws_check_def)
  qed
qed

lemma consumes_four: "im_ok s \<Longrightarrow> consumes 4 s (im_read 4 s)"
  using consumes_read [of s 4] by simp

lemma consumes_prelude:
  assumes "im_ok s"
  shows "consumes 12 s (aws_prelude_read crc s)"
proof -
  have "consumes (4 + (4 + (4 + 0))) s (aws_prelude_read crc s)"
    unfolding aws_prelude_read_def
    by (rule consumes_bind [OF consumes_four [OF assms]], rule consumes_bind [OF consumes_four], assumption,
        rule consumes_bind [OF consumes_four], assumption) (simp add: consumes_throw consumes_return)
  then show ?thesis by simp
qed

lemma m_Data_read: "im_read n s = Inr (x, s') \<Longrightarrow> m_Data s' = m_Data s"
  by (auto simp: im_read_def bindr_eq_Inr split: if_splits)

lemma m_Data_prelude: "aws_prelude_read crc s = Inr (p, s') \<Longrightarrow> m_Data s' = m_Data s"
  by (auto simp: aws_prelude_read_def bindr_eq_Inr dest!: m_Data_read split: if_splits)

lemma consumes_unit:
  "no_crash m \<Longrightarrow> (\<And>x. m = Inr x \<Longrightarrow> consumes k s (f x)) \<Longrightarrow> consumes k s (bindr m f)"
  by (cases m) (simp_all add: consumes_def)

lemma im_substring_length: "im_ok s \<Longrightarrow> unat n < 2 ^ 63 \<Longrightarrow> im_substring n s = Inr (x, s') \<Longrightarrow> length x \<le> length (m_Data s)"
  by (auto simp: im_small im_unread_def split: if_splits)

lemma im_skip_tail: "im_ok s \<Longrightarrow> consumes 4 s (bindr (im_skip 4 s) (\<lambda>s. Inr (x, s)))"
  using im_read_fits(2,3) [of s 4] by (simp add: consumes_def im_small)

lemma consumes_message:
  assumes ok: "im_ok s"
  shows "consumes 16 s (aws_message crc s)"
proof -
  have "consumes (12 + (0 + (0 + 4))) s (aws_message crc s)"
    unfolding aws_message_def Let_def
  proof (rule consumes_bind [OF consumes_prelude [OF ok]], rule consumes_unit, goal_cases)
    case (1 p s1)
    have "m_Data s1 = m_Data s" using 1 by (simp add: m_Data_prelude)
    then show ?case using ok by (intro aws_check_no_crash) (simp_all add: im_ok_def)
  next
    case (2 p s1)
    show ?case
    proof (rule consumes_bind [OF consumes_substring [OF 2(2) u32_small]], rule consumes_unit, goal_cases)
      case (1 h s2)
      have "length h < 2 ^ 63" using im_substring_length [OF 2(2) u32_small 1(1)] 2(2) by (simp add: im_ok_def)
      then show ?case by (intro aws_headers_no_crash) (simp_all add: im_ok_open)
    next
      case 3: (2 h s2)
      show ?case
        by (rule consumes_bind [OF consumes_substring [OF 3(2) u32_small]]) (rule im_skip_tail)
    qed
  qed
  then show ?thesis by simp
qed

lemma aws_loop_no_crash:
  "im_ok s \<Longrightarrow> length (im_unread s) \<le> fuel \<Longrightarrow> no_crash (aws_loop fuel crc s r)"
proof (induction fuel arbitrary: s r)
  case (Suc fuel)
  show ?case
  proof (cases "aws_message crc s")
    case (Inr p)
    obtain d s' where p: "p = (d, s')" by (cases p)
    have "im_ok s'" and "length (im_unread s') \<le> fuel"
      using consumes_message [OF Suc.prems(1), of crc] Suc.prems(2) Inr p by (auto simp: consumes_def)
    with Suc.IH Inr p show ?thesis by (simp add: aws_loop.simps [of "Suc fuel"])
  qed (use consumes_message [OF Suc.prems(1), of crc] in \<open>simp add: aws_loop.simps [of "Suc fuel"] consumes_def\<close>)
qed (simp add: aws_loop.simps im_unread_eof)

section \<open>The format\<close>

text \<open>A message as the format describes it: prelude, headers, payload, and both checksums.\<close>

definition aws_field :: "byte list \<times> byte list \<Rightarrow> byte list" where
  "aws_field f = of_nat (length (fst f)) # fst f @ 7 # be_enc 2 (length (snd f)) @ snd f"

definition aws_head :: "(byte list \<times> byte list) list \<times> byte list \<Rightarrow> byte list" where
  "aws_head m = concat (map aws_field (fst m))"

definition aws_size :: "(byte list \<times> byte list) list \<times> byte list \<Rightarrow> nat" where
  "aws_size m = 16 + length (aws_head m) + length (snd m)"

definition aws_pre :: "(byte list \<times> byte list) list \<times> byte list \<Rightarrow> byte list" where
  "aws_pre m = be_enc 4 (aws_size m) @ be_enc 4 (length (aws_head m))"

definition aws_body :: "(byte list \<Rightarrow> u32) \<Rightarrow> (byte list \<times> byte list) list \<times> byte list \<Rightarrow> byte list" where
  "aws_body crc m = aws_pre m @ be_enc 4 (unat (crc (aws_pre m))) @ aws_head m @ snd m"

definition aws_encode :: "(byte list \<Rightarrow> u32) \<Rightarrow> (byte list \<times> byte list) list \<times> byte list \<Rightarrow> byte list" where
  "aws_encode crc m = aws_body crc m @ be_enc 4 (unat (crc (aws_body crc m)))"

definition aws_field_ok :: "byte list \<times> byte list \<Rightarrow> bool" where
  "aws_field_ok f \<longleftrightarrow> length (fst f) < 256 \<and> length (snd f) < 65536 \<and> fst f \<noteq> error_name"

definition aws_message_ok :: "(byte list \<times> byte list) list \<times> byte list \<Rightarrow> bool" where
  "aws_message_ok m \<longleftrightarrow> list_all aws_field_ok (fst m) \<and> aws_size m < 2 ^ 32"

lemma le_dec_byte [simp]: "le_dec [b] = unat b"
  using be_dec_snoc [of "[]" b] by (simp add: le_dec_def)

lemma kv_field:
  assumes ok: "im_ok s" and u: "im_unread s = aws_field f @ r" and f: "aws_field_ok f"
  shows "\<exists>s'. aws_kv_read s = Inr (f, s') \<and> im_ok s' \<and> im_unread s' = r"
proof -
  obtain n v where nv: "f = (n, v)" by (cases f)
  have n: "unat (of_nat (unat (of_nat (length n) :: byte)) :: u64) = length n" and n63: "length n < 2 ^ 63"
    using f by (simp_all add: aws_field_ok_def nv unat_of_nat)
  have v: "unat (of_nat (be_dec (be_enc 2 (length v))) :: u64) = length v" and v63: "length v < 2 ^ 63"
    using f by (simp_all add: aws_field_ok_def nv unat_of_nat)
  obtain s1 where s1: "im_read 1 s = Inr ([of_nat (length n)], s1)" "im_ok s1"
      "im_unread s1 = n @ 7 # be_enc 2 (length v) @ v @ r"
    using im_take [OF ok, of 1 "[of_nat (length n)]" "n @ 7 # be_enc 2 (length v) @ v @ r"] u
    by (auto simp: aws_field_def nv)
  obtain s2 where s2: "im_substring (of_nat (unat (of_nat (length n) :: byte))) s1 = Inr (n, s2)" "im_ok s2"
      "im_unread s2 = [7] @ be_enc 2 (length v) @ v @ r"
    using im_take [OF s1(2) _ s1(3), of "of_nat (unat (of_nat (length n) :: byte))"] n n63 by auto
  obtain s3 where s3: "im_read 1 s2 = Inr ([7], s3)" "im_ok s3" "im_unread s3 = be_enc 2 (length v) @ v @ r"
    using im_take [OF s2(2) _ s2(3), of 1] by auto
  obtain s4 where s4: "im_read 2 s3 = Inr (be_enc 2 (length v), s4)" "im_ok s4" "im_unread s4 = v @ r"
    using im_take [OF s3(2) _ s3(3), of 2] by auto
  obtain s5 where "im_substring (of_nat (be_dec (be_enc 2 (length v)))) s4 = Inr (v, s5)" "im_ok s5" "im_unread s5 = r"
    using im_take [OF s4(2) _ s4(3), of "of_nat (be_dec (be_enc 2 (length v)))"] v v63 by auto
  with s1 s2 s3 s4 show ?thesis by (simp add: aws_kv_read_def nv)
qed

lemma aws_field_length: "4 \<le> length (aws_field f)"
  by (simp add: aws_field_def)

lemma headers_fields:
  assumes "im_ok s" and "im_unread s = concat (map aws_field fs)" and "list_all aws_field_ok fs"
    and "length (im_unread s) \<le> fuel"
  shows "aws_headers fuel s r = Inr (r \<or> event_type \<in> set fs)"
  using assms
proof (induction fs arbitrary: s fuel r)
  case (Cons f fs)
  obtain s' where s': "aws_kv_read s = Inr (f, s')" "im_ok s'" "im_unread s' = concat (map aws_field fs)"
    using kv_field [of s f "concat (map aws_field fs)"] Cons.prems by auto
  have "im_unread s \<noteq> []" using Cons.prems(2) aws_field_length [of f] by auto
  moreover obtain k where k: "fuel = Suc k" "length (im_unread s') \<le> k"
    using Cons.prems(2,4) s'(3) aws_field_length [of f] by (cases fuel) auto
  moreover have "fst f \<noteq> error_name" using Cons.prems(3) by (simp add: aws_field_ok_def)
  ultimately show ?case
    using Cons.IH [OF s'(2,3) _ k(2)] Cons.prems(1,3) s'(1)
    by (subst aws_headers.simps) (auto simp: im_unread_eof Let_def)
qed (simp add: aws_headers.simps im_unread_eof)

lemma u32_image: "of_nat (be_dec (be_enc 4 (unat (w :: u32)))) = w"
proof -
  have "unat w < 256 ^ 4" using unsigned_less [of w, where 'a = nat] by simp
  then show ?thesis by simp
qed

lemma prelude_encoded:
  assumes ok: "im_ok s" and u: "im_unread s = aws_pre m @ be_enc 4 (unat (crc (aws_pre m))) @ r"
    and m: "aws_message_ok m"
  shows "\<exists>s'. aws_prelude_read crc s = Inr (\<lparr>total = of_nat (aws_size m), headers = of_nat (length (aws_head m))\<rparr>, s')
    \<and> im_ok s' \<and> im_unread s' = r \<and> m_Data s' = m_Data s"
proof -
  let ?t = "be_enc 4 (aws_size m)" and ?h = "be_enc 4 (length (aws_head m))" and ?c = "be_enc 4 (unat (crc (aws_pre m)))"
  have d: "be_dec ?t = aws_size m" "be_dec ?h = length (aws_head m)"
    using m by (simp_all add: aws_message_ok_def aws_size_def)
  have u1: "im_unread s = ?t @ ?h @ ?c @ r" using u by (simp add: aws_pre_def)
  obtain s1 where s1: "im_read 4 s = Inr (?t, s1)" "im_ok s1" "im_unread s1 = ?h @ ?c @ r" "m_Data s1 = m_Data s"
    using im_take [OF ok _ u1, of 4] by auto
  obtain s2 where s2: "im_read 4 s1 = Inr (?h, s2)" "im_ok s2" "im_unread s2 = ?c @ r" "m_Data s2 = m_Data s"
    using im_take [OF s1(2) _ s1(3), of 4] s1(4) by auto
  obtain s3 where s3: "im_read 4 s2 = Inr (?c, s3)" "im_ok s3" "im_unread s3 = r" "m_Data s3 = m_Data s"
    using im_take [OF s2(2) _ s2(3), of 4] s2(4) by auto
  have "crc (?t @ ?h) = of_nat (be_dec ?c)" unfolding u32_image aws_pre_def ..
  with s1 s2 s3 d show ?thesis by (simp add: aws_prelude_read_def)
qed

lemma length_aws_body: "length (aws_body crc m) = aws_size m - 4"
  by (simp add: aws_body_def aws_pre_def aws_size_def)

lemma check_encoded:
  assumes ok: "im_ok s" and u: "im_unread s = aws_encode crc m @ r" and m: "aws_message_ok m"
    and d: "m_Data s1 = m_Data s"
  shows "aws_check crc (m_Offset s) \<lparr>total = of_nat (aws_size m), headers = h\<rparr> s1 = Inr ()"
proof -
  let ?n = "ucast (of_nat (aws_size m) - 4 :: u32) :: u64" and ?off = "m_Offset s"
  let ?c = "be_enc 4 (unat (crc (aws_body crc m)))"
  have "of_nat (aws_size m) - 4 = (of_nat (aws_size m - 4) :: u32)"
    by (simp add: of_nat_diff aws_size_def)
  moreover have "aws_size m - 4 < 2 ^ 32" using m by (simp add: aws_message_ok_def less_imp_diff_less)
  ultimately have n: "unat ?n = length (aws_body crc m)"
    by (simp add: unat_u32_u64 length_aws_body aws_message_ok_def unat_of_nat)
  have data: "drop (unat ?off) (m_Data s) = aws_body crc m @ ?c @ r"
    using u by (simp add: im_unread_def aws_encode_def)
  have len: "length (m_Data s1) < 2 ^ 63" and off: "unat ?off \<le> length (m_Data s)"
    using ok d by (simp_all add: im_ok_def)
  have total: "unat ?off + length (aws_body crc m) + 4 + length r = length (m_Data s)"
    using arg_cong [OF data, of length] off by simp
  have msg: "im_substr_at ?off ?n s1 = Inr (aws_body crc m)"
    using im_substr_at_small [OF len _ u32_small, of ?off] n d data total len off by simp
  have "unat (of_nat (length (aws_body crc m)) :: u64) = length (aws_body crc m)"
    using total len d by (intro unat_of_nat_u64) simp
  then have o2: "unat (?off + of_nat (length (aws_body crc m))) = unat ?off + length (aws_body crc m)"
    using total len d by (simp add: unat_add_no_wrap)
  have "drop (unat ?off + length (aws_body crc m)) (m_Data s) = ?c @ r"
    using arg_cong [OF data, of "drop (length (aws_body crc m))"] by (simp add: add.commute)
  then have "im_substr_at (?off + of_nat (length (aws_body crc m))) 4 s1 = Inr ?c"
    using im_substr_at_small [OF len, of "?off + of_nat (length (aws_body crc m))" 4] o2 d total len by simp
  with msg show ?thesis using u32_image [of "crc (aws_body crc m)"] by (simp add: aws_check_def)
qed

lemma data_size_encoded:
  assumes "aws_message_ok m"
  shows "unat (ucast (aws_data_size \<lparr>total = of_nat (aws_size m), headers = of_nat (length (aws_head m))\<rparr>) :: u64) = length (snd m)"
proof -
  have "aws_data_size \<lparr>total = of_nat (aws_size m), headers = of_nat (length (aws_head m))\<rparr> = of_nat (length (snd m))"
    by (simp add: aws_data_size_def aws_size_def)
  moreover have "length (snd m) < 2 ^ 32" using assms by (simp add: aws_message_ok_def aws_size_def)
  ultimately show ?thesis by (simp add: unat_u32_u64 unat_of_nat)
qed

definition aws_records :: "(byte list \<times> byte list) list \<times> byte list \<Rightarrow> byte list" where
  "aws_records m = (if event_type \<in> set (fst m) then snd m else [])"

lemma message_encoded:
  assumes ok: "im_ok s" and u: "im_unread s = aws_encode crc m @ r" and m: "aws_message_ok m"
  shows "\<exists>s'. aws_message crc s = Inr (aws_records m, s') \<and> im_ok s' \<and> im_unread s' = r"
proof -
  let ?p = "\<lparr>total = of_nat (aws_size m), headers = of_nat (length (aws_head m))\<rparr>"
  let ?c = "be_enc 4 (unat (crc (aws_body crc m)))"
  have u1: "im_unread s = aws_pre m @ be_enc 4 (unat (crc (aws_pre m))) @ aws_head m @ snd m @ ?c @ r"
    using u by (simp add: aws_encode_def aws_body_def)
  obtain s1 where s1: "aws_prelude_read crc s = Inr (?p, s1)" "im_ok s1"
      "im_unread s1 = aws_head m @ snd m @ ?c @ r" "m_Data s1 = m_Data s"
    using prelude_encoded [of s m crc, OF ok u1 m] by auto
  have chk: "aws_check crc (m_Offset s) ?p s1 = Inr ()" by (rule check_encoded [OF ok u m s1(4)])
  have h: "length (aws_head m) = unat (ucast (of_nat (length (aws_head m)) :: u32) :: u64)"
    using m by (simp add: unat_u32_u64 aws_message_ok_def aws_size_def unat_of_nat)
  obtain s2 where s2: "im_substring (ucast (headers ?p)) s1 = Inr (aws_head m, s2)" "im_ok s2"
      "im_unread s2 = snd m @ ?c @ r"
    using im_take [OF s1(2) u32_small s1(3) h] by auto
  have "length (aws_head m) < 2 ^ 63" using m by (simp add: aws_message_ok_def aws_size_def)
  then have hd: "aws_headers (length (aws_head m)) (im_open (aws_head m)) False = Inr (event_type \<in> set (fst m))"
    using headers_fields [of "im_open (aws_head m)" "fst m" "length (aws_head m)" False] m
    by (simp add: im_ok_open aws_head_def aws_message_ok_def)
  obtain s3 where s3: "im_substring (ucast (aws_data_size ?p)) s2 = Inr (snd m, s3)" "im_ok s3" "im_unread s3 = ?c @ r"
    using im_take [OF s2(2) u32_small s2(3) data_size_encoded [OF m, symmetric]] by auto
  obtain s4 where "im_skip 4 s3 = Inr s4" "im_ok s4" "im_unread s4 = r"
    using im_take [OF s3(2) _ s3(3), of 4] by auto
  with s1 chk s2 hd s3 show ?thesis
    by (simp add: aws_message_def aws_records_def Let_def)
qed

lemma loop_encoded:
  assumes "im_ok s" and "im_unread s = concat (map (aws_encode crc) ms)" and "list_all aws_message_ok ms"
    and "length (im_unread s) \<le> fuel"
  shows "aws_loop fuel crc s r = Inr (r @ concat (map aws_records ms))"
  using assms
proof (induction ms arbitrary: s fuel r)
  case (Cons m ms)
  obtain s' where s': "aws_message crc s = Inr (aws_records m, s')" "im_ok s'" "im_unread s' = concat (map (aws_encode crc) ms)"
    using message_encoded [of s crc m "concat (map (aws_encode crc) ms)"] Cons.prems by auto
  have "4 \<le> length (aws_encode crc m)" by (simp add: aws_encode_def)
  then obtain k where k: "fuel = Suc k" "length (im_unread s') \<le> k" and "im_unread s \<noteq> []"
    using Cons.prems(2,4) s'(3) by (cases fuel) fastforce+
  then show ?case
    using Cons.IH [OF s'(2,3) _ k(2)] Cons.prems(1,3) s'(1)
    by (subst aws_loop.simps) (auto simp: im_unread_eof)
qed (simp add: aws_loop.simps im_unread_eof)

section \<open>Properties\<close>

text \<open>
  on every input, and whatever the checksum function answers, the reader ends, never reads
  outside its buffer and never copies a checksum from too few bytes: it returns the payload or
  throws.
\<close>

theorem aws_stream_safe:
  assumes "length aData < 2 ^ 63"
  shows "aws_stream crc aData \<noteq> Inl Undefined \<and> aws_stream crc aData \<noteq> Inl OutOfFuel"
  unfolding aws_stream_def using assms by (intro aws_loop_no_crash im_ok_open) simp_all

theorem aws_stream_safe_witness: "aws_stream (\<lambda>_. 0) [0, 0, 0] \<noteq> Inl Undefined"
  using aws_stream_safe [of "[0, 0, 0]" "\<lambda>_. 0"] by simp

text \<open>
  C31: on a sequence of well-formed messages the reader returns the payloads of exactly those
  that carry the header of a record event, in order; the others are skipped. This holds for every
  checksum function, messages up to \<open>2 ^ 32\<close> bytes and headers that are not error messages.
\<close>

theorem aws_stream_records:
  assumes "list_all aws_message_ok ms" and "length (concat (map (aws_encode crc) ms)) < 2 ^ 63"
  shows "aws_stream crc (concat (map (aws_encode crc) ms)) = Inr (concat (map aws_records ms))"
  unfolding aws_stream_def using loop_encoded [of "im_open (concat (map (aws_encode crc) ms))" crc ms] assms
  by (simp add: im_ok_open)

theorem aws_stream_records_witness:
  "aws_stream (\<lambda>b. of_nat (length b)) (concat (map (aws_encode (\<lambda>b. of_nat (length b))) [([event_type], [1, 2]), ([], [3])])) = Inr [1, 2]"
  by (subst aws_stream_records)
    (simp_all add: aws_message_ok_def aws_field_ok_def event_type_def error_name_def bytes_of_def aws_size_def
      aws_head_def aws_field_def aws_encode_def aws_body_def aws_pre_def aws_records_def)

end
