(* ===== verification/Std_List.thy ===== *)
theory Std_List
  imports Prelude
begin

text \<open>
  \<open>std::list\<close> with its stable iterators, and the index of \<open>std::unordered_map\<close> from keys to
  iterators that the caches keep beside it. A list is the sequence of its nodes, each with the
  identity that an iterator holds; a node keeps its identity while \<open>splice\<close> moves it, also to
  another list. The locale \<open>cache_spec\<close> states what a cache promises to its users.
\<close>

section \<open>Lists of nodes\<close>

type_synonym node_id = nat
type_synonym 'a nodes = "(node_id \<times> 'a) list"

text \<open>Dereferencing an iterator; an iterator whose node is gone is undefined.\<close>

definition deref :: "node_id \<Rightarrow> 'a nodes \<Rightarrow> 'a result" where
  "deref i xs = (case map_of xs i of Some x \<Rightarrow> Inr x | None \<Rightarrow> Inl Undefined)"

definition assign :: "node_id \<Rightarrow> 'a \<Rightarrow> 'a nodes \<Rightarrow> 'a nodes" where
  "assign i x xs = map (\<lambda>(j, y). (j, if j = i then x else y)) xs"

definition list_erase :: "node_id \<Rightarrow> 'a nodes \<Rightarrow> 'a nodes" where
  "list_erase i xs = filter (\<lambda>p. fst p \<noteq> i) xs"

text \<open>\<open>splice\<close> of one node: taken out of its list, given back to be put elsewhere.\<close>

definition list_take :: "node_id \<Rightarrow> 'a nodes \<Rightarrow> ((node_id \<times> 'a) \<times> 'a nodes) result" where
  "list_take i xs = bindr (deref i xs) (\<lambda>x. Inr ((i, x), list_erase i xs))"

text \<open>The node of \<open>--(rbegin().base())\<close>.\<close>

definition last_node :: "'a nodes \<Rightarrow> (node_id \<times> 'a) result" where
  "last_node xs = (if xs = [] then Inl Undefined else Inr (last xs))"

section \<open>The index\<close>

type_synonym 'k index = "('k \<times> node_id) list"

text \<open>
  \<open>index_ok key ix xs\<close>: the index holds exactly one entry for every node of \<open>xs\<close>, under the key
  of the node, and no two nodes share a key or an identity.
\<close>

definition index_ok :: "('a \<Rightarrow> 'k) \<Rightarrow> 'k index \<Rightarrow> 'a nodes \<Rightarrow> bool" where
  "index_ok key ix xs \<longleftrightarrow> mset ix = mset (map (\<lambda>(i, x). (key x, i)) xs)
     \<and> distinct (map fst xs) \<and> distinct (map (key \<circ> snd) xs)"

lemma index_ok_distinct:
  assumes "index_ok key ix xs"
  shows "distinct (map fst ix)"
proof -
  have "mset (map fst ix) = image_mset fst (mset (map (\<lambda>(i, x). (key x, i)) xs))"
    using assms by (simp add: index_ok_def)
  also have "\<dots> = mset (map fst (map (\<lambda>(i, x). (key x, i)) xs))" by (rule mset_map [symmetric])
  also have "map fst (map (\<lambda>(i, x). (key x, i)) xs) = map (key \<circ> snd) xs" by auto
  finally have "mset (map fst ix) = mset (map (key \<circ> snd) xs)" .
  then show ?thesis using assms unfolding index_ok_def by (metis mset_eq_imp_distinct_iff)
qed

lemma index_ok_size: "index_ok key ix xs \<Longrightarrow> length ix = length xs"
  unfolding index_ok_def by (metis length_map size_mset)

lemma index_lookup:
  assumes ok: "index_ok key ix xs"
  shows "map_of ix k = Some i \<longleftrightarrow> (\<exists>x. (i, x) \<in> set xs \<and> key x = k)"
proof -
  have "set ix = (\<lambda>(i, x). (key x, i)) ` set xs"
    using ok unfolding index_ok_def by (metis set_map set_mset_mset)
  then show ?thesis
    using index_ok_distinct [OF ok] by (auto simp: map_of_eq_Some_iff)
qed

lemma index_miss:
  assumes "index_ok key ix xs"
  shows "map_of ix k = None \<longleftrightarrow> k \<notin> key ` snd ` set xs"
proof -
  have "map_of ix k = None \<longleftrightarrow> (\<nexists>i. map_of ix k = Some i)" by auto
  then show ?thesis unfolding index_lookup [OF assms] by force
qed

lemma index_ok_deref:
  "index_ok key ix xs \<Longrightarrow> (i, x) \<in> set xs \<Longrightarrow> deref i xs = Inr x"
  by (auto simp: index_ok_def deref_def dest: map_of_is_SomeI)

lemma index_ok_perm: "index_ok key ix xs \<Longrightarrow> mset ys = mset xs \<Longrightarrow> index_ok key ix ys"
  unfolding index_ok_def by (metis mset_eq_imp_distinct_iff mset_map)

text \<open>The index looks at keys and identities only.\<close>

lemma index_ok_cong:
  assumes "index_ok key ix xs"
    and "mset (map (\<lambda>(i, x). (key x, i)) ys) = mset (map (\<lambda>(i, x). (key x, i)) xs)"
  shows "index_ok key ix ys"
proof -
  have m: "map fst zs = map snd (map (\<lambda>(i, x). (key x, i)) zs)"
    "map (key \<circ> snd) zs = map fst (map (\<lambda>(i, x). (key x, i)) zs)" for zs by auto
  have "mset (map fst ys) = mset (map fst xs)" "mset (map (key \<circ> snd) ys) = mset (map (key \<circ> snd) xs)"
    unfolding m [of ys] m [of xs] mset_map [of snd] mset_map [of fst] using assms(2) by (simp_all only:)
  then show ?thesis using assms unfolding index_ok_def by (metis mset_eq_imp_distinct_iff)
qed

lemma index_ok_insert:
  assumes "index_ok key ix xs" and "key x \<notin> key ` snd ` set xs" and "i \<notin> fst ` set xs"
  shows "index_ok key (AList.update (key x) i ix) ((i, x) # xs)"
proof -
  have "key x \<notin> fst ` set ix"
    using index_miss [OF assms(1), of "key x"] assms(2) by (metis map_of_eq_None_iff)
  then have "mset (AList.update (key x) i ix) = add_mset (key x, i) (mset ix)"
    by (induction ix) auto
  then show ?thesis using assms by (auto simp: index_ok_def)
qed

lemma index_ok_delete:
  assumes "index_ok key ix (as @ (i, x) # bs)"
  shows "index_ok key (AList.delete (key x) ix) (as @ bs)"
proof -
  have d: "distinct (map fst ix)" using assms by (rule index_ok_distinct)
  have "(key x, i) \<in> set ix" using assms unfolding index_ok_def
    by (metis (no_types, lifting) case_prod_conv in_set_conv_decomp list.simps(9) map_append set_mset_mset)
  then obtain us vs where ix: "ix = us @ (key x, i) # vs" by (meson in_set_conv_decomp)
  with d have "key x \<notin> fst ` set us" "key x \<notin> fst ` set vs" by auto
  then have "AList.delete (key x) ix = us @ vs"
    by (simp add: ix AList.delete_eq filter_id_conv case_prod_unfold image_iff)
  then have "add_mset (key x, i) (mset (AList.delete (key x) ix)) = mset ix" by (simp add: ix)
  then show ?thesis using assms by (auto simp: index_ok_def)
qed

lemma index_ok_assign:
  assumes "index_ok key ix xs" and "(i, x) \<in> set xs" and "key y = key x"
  shows "index_ok key ix (assign i y xs)"
proof -
  have d: "distinct (map fst xs)" using assms(1) by (simp add: index_ok_def)
  have same: "j = i \<Longrightarrow> (j, z) \<in> set xs \<Longrightarrow> z = x" for j z
    using d assms(2) by (metis eq_key_imp_eq_value)
  have "map (\<lambda>(i, x). (key x, i)) (assign i y xs) = map (\<lambda>(i, x). (key x, i)) xs"
    "map (key \<circ> snd) (assign i y xs) = map (key \<circ> snd) xs" "map fst (assign i y xs) = map fst xs"
    using same assms(3) by (auto simp: assign_def)
  then show ?thesis using assms(1) by (simp add: index_ok_def)
qed

text \<open>A node in the middle of a list.\<close>

lemma erase_absent: "i \<notin> fst ` set xs \<Longrightarrow> list_erase i xs = xs"
  by (auto simp: list_erase_def filter_id_conv)

lemma assign_absent: "i \<notin> fst ` set xs \<Longrightarrow> assign i y xs = xs"
  by (induction xs) (auto simp: assign_def)

lemma list_erase_simps [simp]:
  "list_erase i [] = []" "list_erase i (p # xs) = (if fst p = i then list_erase i xs else p # list_erase i xs)"
  "list_erase i (xs @ ys) = list_erase i xs @ list_erase i ys"
  by (simp_all add: list_erase_def)

lemma assign_simps [simp]:
  "assign i y [] = []" "assign i y (p # xs) = (fst p, if fst p = i then y else snd p) # assign i y xs"
  "assign i y (xs @ ys) = assign i y xs @ assign i y ys"
  by (simp_all add: assign_def case_prod_unfold)

lemma split_erase:
  "distinct (map fst (as @ (i, x) # bs)) \<Longrightarrow> list_erase i (as @ (i, x) # bs) = as @ bs"
  by (auto simp: erase_absent)

lemma split_assign:
  "distinct (map fst (as @ (i, x) # bs)) \<Longrightarrow> assign i y (as @ (i, x) # bs) = as @ (i, y) # bs"
  by (auto simp: assign_absent)

lemma index_ok_distinct_ids: "index_ok key ix xs \<Longrightarrow> distinct (map fst xs)"
  by (simp add: index_ok_def)

lemma split_take:
  "distinct (map fst (as @ (i, x) # bs)) \<Longrightarrow> list_take i (as @ (i, x) # bs) = Inr ((i, x), as @ bs)"
  using split_erase [of as i x bs] map_of_is_SomeI [of "as @ (i, x) # bs" i x] by (simp add: list_take_def deref_def)

section \<open>What a cache promises\<close>

text \<open>
  The contents of a cache are a finite map of at most \<open>cap\<close> entries. \<open>Get\<close> answers from it and
  leaves it alone; \<open>Put\<close> stores the pair and may drop entries, but invents none.
\<close>

locale cache_spec =
  fixes get :: "'k \<Rightarrow> 's \<Rightarrow> ('v option \<times> 's) result"
    and put :: "'k \<Rightarrow> 'v \<Rightarrow> 's \<Rightarrow> 's result"
    and look :: "'s \<Rightarrow> 'k \<Rightarrow> 'v option"
    and cap :: "'s \<Rightarrow> nat"
    and ok :: "'s \<Rightarrow> bool"
  assumes get_spec: "ok s \<Longrightarrow> \<exists>s'. get k s = Inr (look s k, s') \<and> ok s' \<and> look s' = look s \<and> cap s' = cap s"
    and put_spec: "ok s \<Longrightarrow> \<exists>s'. put k v s = Inr s' \<and> ok s' \<and> look s' \<subseteq>\<^sub>m (look s)(k \<mapsto> v) \<and> cap s' = cap s"
    and bounded: "ok s \<Longrightarrow> finite (dom (look s)) \<and> card (dom (look s)) \<le> cap s"
begin

lemma get_hit_or_miss: "ok s \<Longrightarrow> get k s = Inr (r, s') \<Longrightarrow> r = look s k \<and> ok s' \<and> look s' = look s"
  using get_spec [of s k] by auto

lemma put_not_stale: "ok s \<Longrightarrow> put k v s = Inr s' \<Longrightarrow> look s' k \<in> {None, Some v} \<and> ok s'"
  using put_spec [of s k v] by (cases "look s' k") (auto simp: map_le_def dom_def)

lemma put_keeps_others: "ok s \<Longrightarrow> put k v s = Inr s' \<Longrightarrow> j \<noteq> k \<Longrightarrow> look s' j \<in> {None, look s j}"
  using put_spec [of s k v] by (cases "look s' j") (auto simp: map_le_def dom_def)

end

locale cache_remove = cache_spec +
  fixes remove :: "'k \<Rightarrow> 's \<Rightarrow> 's result"
  assumes remove_spec: "ok s \<Longrightarrow> look s k \<noteq> None \<Longrightarrow>
      \<exists>s'. remove k s = Inr s' \<and> ok s' \<and> look s' = (look s)(k := None) \<and> cap s' = cap s"

end
