(* ===== verification/Cache_Lru.thy ===== *)
theory Cache_Lru
  imports Std_List
begin

text \<open>
  \<open>Cache::LRU\<close> (\<open>cache/LRU.hpp\<close>): a list of entries, the most recently used first, and an index
  of iterators into it. It is refined by the plain list of pairs that a least-recently-used cache
  is meant to be.
\<close>

section \<open>The class\<close>

record ('k, 'v) lru =
  m_Lru :: "('k \<times> 'v) nodes"
  lru_Index :: "'k index"
  lru_MaxSize :: nat
  lru_Next :: node_id

text \<open>\<open>lru_Next\<close> is the identity of the next node; it is no member of the class.\<close>

definition lru_new :: "nat \<Rightarrow> ('k, 'v) lru" where
  "lru_new aSize = \<lparr>m_Lru = [], lru_Index = [], lru_MaxSize = aSize, lru_Next = 0\<rparr>"

definition lru_Update :: "node_id \<Rightarrow> ('k, 'v) lru \<Rightarrow> ('k, 'v) lru result" where
  "lru_Update i s = bindr (list_take i (m_Lru s)) (\<lambda>(n, xs). Inr (s\<lparr>m_Lru := n # xs\<rparr>))"

definition lru_Insert :: "'k \<Rightarrow> 'v \<Rightarrow> ('k, 'v) lru \<Rightarrow> ('k, 'v) lru" where
  "lru_Insert key value s =
     s\<lparr>m_Lru := (lru_Next s, (key, value)) # m_Lru s,
       lru_Index := AList.update key (lru_Next s) (lru_Index s), lru_Next := lru_Next s + 1\<rparr>"

text \<open>\<open>Remove\<close> dereferences the result of \<open>find\<close> without a test: undefined when the key is absent.\<close>

definition lru_Remove :: "'k \<Rightarrow> ('k, 'v) lru \<Rightarrow> ('k, 'v) lru result" where
  "lru_Remove key s =
     (case map_of (lru_Index s) key of
        None \<Rightarrow> Inl Undefined
      | Some i \<Rightarrow>
          bindr (list_take i (m_Lru s)) (\<lambda>(_, xs).
            Inr (s\<lparr>m_Lru := xs, lru_Index := AList.delete key (lru_Index s)\<rparr>)))"

definition lru_Shrink :: "('k, 'v) lru \<Rightarrow> ('k, 'v) lru result" where
  "lru_Shrink s =
     (if length (m_Lru s) \<le> lru_MaxSize s then Inr s
      else bindr (last_node (m_Lru s)) (\<lambda>(_, k, _). lru_Remove k s))"

definition lru_Get :: "'k \<Rightarrow> ('k, 'v) lru \<Rightarrow> ('v option \<times> ('k, 'v) lru) result" where
  "lru_Get key s =
     (case map_of (lru_Index s) key of
        Some i \<Rightarrow> bindr (lru_Update i s) (\<lambda>s. bindr (deref i (m_Lru s)) (\<lambda>(_, v). Inr (Some v, s)))
      | None \<Rightarrow> Inr (None, s))"

definition lru_Put :: "'k \<Rightarrow> 'v \<Rightarrow> ('k, 'v) lru \<Rightarrow> ('k, 'v) lru result" where
  "lru_Put key value s =
     (case map_of (lru_Index s) key of
        Some i \<Rightarrow>
          bindr (lru_Update i s) (\<lambda>s. bindr (deref i (m_Lru s)) (\<lambda>(k, _).
            Inr (s\<lparr>m_Lru := assign i (k, value) (m_Lru s)\<rparr>)))
      | None \<Rightarrow> lru_Shrink (lru_Insert key value s))"

definition lru_Size :: "('k, 'v) lru \<Rightarrow> nat" where
  "lru_Size s = length (lru_Index s)"

section \<open>The specification\<close>

text \<open>The contents in order of use, with the operations on that list.\<close>

definition spec_Get :: "'k \<Rightarrow> ('k \<times> 'v) list \<Rightarrow> 'v option \<times> ('k \<times> 'v) list" where
  "spec_Get k xs =
     (case map_of xs k of Some v \<Rightarrow> (Some v, (k, v) # AList.delete k xs) | None \<Rightarrow> (None, xs))"

definition spec_Put :: "nat \<Rightarrow> 'k \<Rightarrow> 'v \<Rightarrow> ('k \<times> 'v) list \<Rightarrow> ('k \<times> 'v) list" where
  "spec_Put n k v xs =
     (if map_of xs k = None then take n ((k, v) # xs) else (k, v) # AList.delete k xs)"

text \<open>The operations of a user, as data, and their effect on both sides.\<close>

datatype ('k, 'v) cache_op = OpGet 'k | OpPut 'k 'v | OpRemove 'k

fun lru_step :: "('k, 'v) cache_op \<Rightarrow> ('k, 'v) lru \<Rightarrow> ('v option \<times> ('k, 'v) lru) result" where
  "lru_step (OpGet k) s = lru_Get k s"
| "lru_step (OpPut k v) s = bindr (lru_Put k v s) (\<lambda>s. Inr (None, s))"
| "lru_step (OpRemove k) s = bindr (lru_Remove k s) (\<lambda>s. Inr (None, s))"

fun spec_step :: "nat \<Rightarrow> ('k, 'v) cache_op \<Rightarrow> ('k \<times> 'v) list \<Rightarrow> ('v option \<times> ('k \<times> 'v) list) result" where
  "spec_step n (OpGet k) xs = Inr (spec_Get k xs)"
| "spec_step n (OpPut k v) xs = Inr (None, spec_Put n k v xs)"
| "spec_step n (OpRemove k) xs = (if map_of xs k = None then Inl Undefined else Inr (None, AList.delete k xs))"

fun lru_run :: "('k, 'v) cache_op list \<Rightarrow> ('k, 'v) lru \<Rightarrow> 'v option list result" where
  "lru_run [] s = Inr []"
| "lru_run (p # ps) s = bindr (lru_step p s) (\<lambda>(r, s). bindr (lru_run ps s) (\<lambda>rs. Inr (r # rs)))"

fun spec_run :: "nat \<Rightarrow> ('k, 'v) cache_op list \<Rightarrow> ('k \<times> 'v) list \<Rightarrow> 'v option list result" where
  "spec_run n [] xs = Inr []"
| "spec_run n (p # ps) xs = bindr (spec_step n p xs) (\<lambda>(r, xs). bindr (spec_run n ps xs) (\<lambda>rs. Inr (r # rs)))"

section \<open>Invariant and refinement\<close>

definition lru_ok :: "('k, 'v) lru \<Rightarrow> bool" where
  "lru_ok s \<longleftrightarrow> index_ok fst (lru_Index s) (m_Lru s) \<and> (\<forall>p \<in> set (m_Lru s). fst p < lru_Next s)
     \<and> length (m_Lru s) \<le> lru_MaxSize s"

definition lru_abs :: "('k, 'v) lru \<Rightarrow> ('k \<times> 'v) list" where
  "lru_abs s = map snd (m_Lru s)"

lemma lru_new_ok: "lru_ok (lru_new n)" "lru_abs (lru_new n) = []" "lru_MaxSize (lru_new n) = n"
  by (simp_all add: lru_ok_def lru_new_def lru_abs_def index_ok_def)

lemma nodes_split:
  assumes ok: "index_ok fst ix xs" and i: "map_of ix k = Some i"
  obtains as v bs where "xs = as @ (i, k, v) # bs" "distinct (map fst (as @ (i, k, v) # bs))"
    "map_of (map snd xs) k = Some v" "AList.delete k (map snd xs) = map snd (as @ bs)"
proof -
  obtain v where "(i, k, v) \<in> set xs" using index_lookup [OF ok, of k i] i by auto
  then obtain as bs where xs: "xs = as @ (i, k, v) # bs" by (meson in_set_conv_decomp)
  have d: "distinct (map fst (map snd xs))" using ok by (simp add: index_ok_def)
  then have m: "map_of (map snd xs) k = Some v" by (rule map_of_is_SomeI) (simp add: xs)
  have "k \<notin> fst ` set (map snd as)" "k \<notin> fst ` set (map snd bs)" using d by (force simp: xs)+
  note this [THEN AList.delete_id]
  moreover have "AList.delete k (map snd xs) = AList.delete k (map snd as) @ AList.delete k (map snd bs)"
    by (simp add: xs AList.delete_eq)
  ultimately have "AList.delete k (map snd xs) = map snd (as @ bs)" by simp
  then show ?thesis using that [OF xs] m index_ok_distinct_ids [OF ok] xs by simp
qed

lemma lookup_abs:
  assumes "index_ok fst ix xs"
  shows "map_of ix k = None \<longleftrightarrow> map_of (map snd xs) k = None"
  using index_miss [OF assms, of k] by (simp add: map_of_eq_None_iff)

text \<open>Moving a node to the front, with a new value when the entry is overwritten.\<close>

lemma index_ok_front:
  assumes "index_ok fst ix (as @ (i, k, v) # bs)"
  shows "index_ok fst ix ((i, k, w) # as @ bs)"
proof -
  have "index_ok fst ix ((i, k, v) # as @ bs)" using assms by (rule index_ok_perm) simp
  from index_ok_assign [OF this, of i "(k, v)" "(k, w)"]
  have "index_ok fst ix (assign i (k, w) ((i, k, v) # as @ bs))" by simp
  moreover have "assign i (k, w) ((i, k, v) # as @ bs) = (i, k, w) # as @ bs"
    using index_ok_distinct_ids [OF assms] by (auto simp: assign_absent)
  ultimately show ?thesis by simp
qed

lemma lru_Get_refines:
  assumes ok: "lru_ok s"
  shows "\<exists>s'. lru_Get k s = Inr (fst (spec_Get k (lru_abs s)), s') \<and> lru_ok s'
    \<and> lru_abs s' = snd (spec_Get k (lru_abs s)) \<and> lru_MaxSize s' = lru_MaxSize s"
proof (cases "map_of (lru_Index s) k")
  case None
  then show ?thesis using ok lookup_abs [of "lru_Index s" "m_Lru s" k]
    by (simp add: lru_Get_def spec_Get_def lru_ok_def lru_abs_def)
next
  case (Some i)
  have ix: "index_ok fst (lru_Index s) (m_Lru s)" using ok by (simp add: lru_ok_def)
  obtain as v bs where sp: "m_Lru s = as @ (i, k, v) # bs" "distinct (map fst (as @ (i, k, v) # bs))"
    "map_of (map snd (m_Lru s)) k = Some v" "AList.delete k (map snd (m_Lru s)) = map snd (as @ bs)"
    using nodes_split [OF ix Some] .
  let ?s = "s\<lparr>m_Lru := (i, k, v) # as @ bs\<rparr>"
  have "lru_Get k s = Inr (Some v, ?s)"
    using Some split_take [OF sp(2)] by (simp add: lru_Get_def lru_Update_def sp(1) deref_def)
  moreover have "lru_ok ?s" using ok index_ok_front [of _ as i k v bs v] by (simp add: lru_ok_def sp(1))
  moreover have "lru_abs ?s = snd (spec_Get k (lru_abs s))" "fst (spec_Get k (lru_abs s)) = Some v"
    using sp(3,4) by (simp_all add: spec_Get_def lru_abs_def)
  ultimately show ?thesis by simp
qed

lemma lru_Remove_refines:
  assumes ok: "lru_ok s" and k: "map_of (lru_abs s) k \<noteq> None"
  shows "\<exists>s'. lru_Remove k s = Inr s' \<and> lru_ok s'
    \<and> lru_abs s' = AList.delete k (lru_abs s) \<and> lru_MaxSize s' = lru_MaxSize s"
proof -
  have ix: "index_ok fst (lru_Index s) (m_Lru s)" using ok by (simp add: lru_ok_def)
  obtain i where i: "map_of (lru_Index s) k = Some i"
    using k lookup_abs [OF ix, of k] by (auto simp: lru_abs_def)
  obtain as v bs where sp: "m_Lru s = as @ (i, k, v) # bs" "distinct (map fst (as @ (i, k, v) # bs))"
    "map_of (map snd (m_Lru s)) k = Some v" "AList.delete k (map snd (m_Lru s)) = map snd (as @ bs)"
    using nodes_split [OF ix i] .
  let ?s = "s\<lparr>m_Lru := as @ bs, lru_Index := AList.delete k (lru_Index s)\<rparr>"
  have "lru_Remove k s = Inr ?s" using i split_take [OF sp(2)] by (simp add: lru_Remove_def sp(1))
  moreover have "lru_ok ?s"
    using ok index_ok_delete [of fst "lru_Index s" as i "(k, v)" bs] by (auto simp: lru_ok_def sp(1))
  moreover have "lru_abs ?s = AList.delete k (lru_abs s)" using sp(4) by (simp add: lru_abs_def)
  ultimately show ?thesis by simp
qed

text \<open>The node that \<open>Shrink\<close> removes is the last one.\<close>

lemma delete_last:
  assumes "distinct (map fst (xs @ [(k, v)]))"
  shows "AList.delete k (xs @ [(k, v)]) = xs"
  using assms by (force simp: AList.delete_eq filter_id_conv case_prod_unfold)

lemma lru_Put_refines:
  assumes ok: "lru_ok s"
  shows "\<exists>s'. lru_Put k v s = Inr s' \<and> lru_ok s'
    \<and> lru_abs s' = spec_Put (lru_MaxSize s) k v (lru_abs s) \<and> lru_MaxSize s' = lru_MaxSize s"
proof (cases "map_of (lru_Index s) k")
  case (Some i)
  have ix: "index_ok fst (lru_Index s) (m_Lru s)" using ok by (simp add: lru_ok_def)
  obtain as w bs where sp: "m_Lru s = as @ (i, k, w) # bs" "distinct (map fst (as @ (i, k, w) # bs))"
    "map_of (map snd (m_Lru s)) k = Some w" "AList.delete k (map snd (m_Lru s)) = map snd (as @ bs)"
    using nodes_split [OF ix Some] .
  let ?s = "s\<lparr>m_Lru := (i, k, v) # as @ bs\<rparr>"
  have "assign i (k, v) (as @ bs) = as @ bs" using sp(2) by (intro assign_absent) auto
  then have "lru_Put k v s = Inr ?s"
    using Some split_take [OF sp(2)] by (simp add: lru_Put_def lru_Update_def sp(1) deref_def)
  moreover have "lru_ok ?s" using ok index_ok_front [of _ as i k w bs v] by (simp add: lru_ok_def sp(1))
  moreover have "lru_abs ?s = spec_Put (lru_MaxSize s) k v (lru_abs s)"
    using sp(3,4) by (simp add: spec_Put_def lru_abs_def)
  ultimately show ?thesis by simp
next
  case None
  have ix: "index_ok fst (lru_Index s) (m_Lru s)" using ok by (simp add: lru_ok_def)
  let ?s = "lru_Insert k v s"
  have new: "k \<notin> fst ` snd ` set (m_Lru s)" "map_of (lru_abs s) k = None"
    using None index_miss [OF ix, of k] lookup_abs [OF ix, of k] by (simp_all add: lru_abs_def)
  have "lru_Next s \<notin> fst ` set (m_Lru s)" using ok by (fastforce simp: lru_ok_def)
  then have ix': "index_ok fst (lru_Index ?s) (m_Lru ?s)"
    using index_ok_insert [OF ix, of "(k, v)" "lru_Next s"] new by (simp add: lru_Insert_def)
  have abs: "lru_abs ?s = (k, v) # lru_abs s" by (simp add: lru_abs_def lru_Insert_def)
  have mx: "lru_MaxSize ?s = lru_MaxSize s" by (simp add: lru_Insert_def)
  have put: "lru_Put k v s = lru_Shrink ?s" using None by (simp add: lru_Put_def)
  show ?thesis
  proof (cases "length (m_Lru ?s) \<le> lru_MaxSize s")
    case True
    then have "lru_Shrink ?s = Inr ?s" "lru_ok ?s"
      using ix' ok by (auto simp: lru_Shrink_def lru_ok_def lru_Insert_def)
    then show ?thesis using put abs new True by (simp add: spec_Put_def lru_Insert_def lru_abs_def)
  next
    case False
    let ?t = "?s\<lparr>lru_MaxSize := Suc (lru_MaxSize s)\<rparr>"
    have len: "length (m_Lru s) = lru_MaxSize s" using False ok by (simp add: lru_ok_def lru_Insert_def)
    have okt: "lru_ok ?t" using ix' ok len by (auto simp: lru_ok_def lru_Insert_def)
    obtain ys i kk vv where ys: "m_Lru ?s = ys @ [(i, kk, vv)]"
      by (metis lru_Insert_def lru.simps(1) lru.surjective lru.update_convs(1) False length_0_conv list.size(3) prod_cases3 rev_exhaust le0)
    have d: "distinct (map fst (lru_abs ?s))" using ix' by (simp add: index_ok_def lru_abs_def)
    have "map_of (lru_abs ?t) kk \<noteq> None" by (auto simp: lru_abs_def ys map_of_eq_None_iff)
    from lru_Remove_refines [OF okt this]
    obtain s' where s': "lru_Remove kk ?t = Inr s'" "lru_ok s'" "lru_abs s' = AList.delete kk (lru_abs ?s)"
      by (auto simp: lru_abs_def)
    have rm: "lru_Remove kk ?s = Inr (s'\<lparr>lru_MaxSize := lru_MaxSize s\<rparr>)"
      using s'(1) by (auto simp: lru_Remove_def bindr_def lru_Insert_def split: option.splits sum.splits)
    have sh: "lru_abs s' = take (lru_MaxSize s) ((k, v) # lru_abs s)"
      using s'(3) delete_last [of "map snd ys" kk vv] d ys len abs
      by (simp add: lru_abs_def) (metis append_eq_conv_conj length_map length_append_singleton length_Cons nat.inject)
    have "lru_Shrink ?s = Inr (s'\<lparr>lru_MaxSize := lru_MaxSize s\<rparr>)"
      using False rm ys mx by (simp add: lru_Shrink_def last_node_def)
    moreover have "lru_ok (s'\<lparr>lru_MaxSize := lru_MaxSize s\<rparr>)"
      using s'(2) arg_cong [OF sh, of length] by (simp add: lru_ok_def lru_abs_def)
    ultimately show ?thesis using put sh new by (simp add: spec_Put_def lru_abs_def)
  qed
qed

lemma lru_Remove_absent: "lru_ok s \<Longrightarrow> map_of (lru_abs s) k = None \<Longrightarrow> lru_Remove k s = Inl Undefined"
  using lookup_abs [of "lru_Index s" "m_Lru s" k] by (simp add: lru_ok_def lru_abs_def lru_Remove_def)

lemma lru_step_refines:
  assumes ok: "lru_ok s"
  shows "(\<exists>r s'. lru_step p s = Inr (r, s') \<and> spec_step (lru_MaxSize s) p (lru_abs s) = Inr (r, lru_abs s')
            \<and> lru_ok s' \<and> lru_MaxSize s' = lru_MaxSize s)
       \<or> (\<exists>e. lru_step p s = Inl e \<and> spec_step (lru_MaxSize s) p (lru_abs s) = Inl e)"
proof (cases p)
  case (OpGet k)
  then show ?thesis using lru_Get_refines [OF ok, of k] by fastforce
next
  case (OpPut k v)
  then show ?thesis using lru_Put_refines [OF ok, of k v] by fastforce
next
  case (OpRemove k)
  then show ?thesis
    using lru_Remove_refines [OF ok, of k] lru_Remove_absent [OF ok, of k]
    by (cases "map_of (lru_abs s) k") fastforce+
qed

lemma lru_run_refines: "lru_ok s \<Longrightarrow> lru_run ps s = spec_run (lru_MaxSize s) ps (lru_abs s)"
proof (induction ps arbitrary: s)
  case (Cons p ps)
  then show ?case using lru_step_refines [OF Cons.prems, of p] by fastforce
qed simp

section \<open>The cache contract\<close>

definition lru_look :: "('k, 'v) lru \<Rightarrow> 'k \<Rightarrow> 'v option" where
  "lru_look s = map_of (lru_abs s)"

lemma spec_Get_look: "map_of (snd (spec_Get k xs)) = map_of xs" "fst (spec_Get k xs) = map_of xs k"
  by (auto simp: spec_Get_def fun_eq_iff AList.delete_conv' split: option.splits)

lemma map_of_take_le: "map_of (take n xs) \<subseteq>\<^sub>m map_of xs"
  using map_of_append [of "take n xs" "drop n xs"] by (simp add: map_le_map_add)

lemma spec_Put_look: "map_of (spec_Put n k v xs) \<subseteq>\<^sub>m (map_of xs)(k \<mapsto> v)"
  using map_of_take_le [of n "(k, v) # xs"] by (simp add: spec_Put_def AList.delete_conv')

lemma lru_look_bounded: "lru_ok s \<Longrightarrow> finite (dom (lru_look s)) \<and> card (dom (lru_look s)) \<le> lru_MaxSize s"
proof -
  assume ok: "lru_ok s"
  have "card (dom (lru_look s)) \<le> length (lru_abs s)"
    unfolding lru_look_def dom_map_of_conv_image_fst
    by (metis card_length length_map set_map)
  then show ?thesis using ok by (simp add: lru_look_def lru_ok_def lru_abs_def finite_dom_map_of)
qed

interpretation lru: cache_remove lru_Get lru_Put lru_look lru_MaxSize lru_ok lru_Remove
proof (unfold_locales, goal_cases)
  case (1 s k)
  then show ?case using lru_Get_refines [of s k] by (auto simp: lru_look_def spec_Get_look)
next
  case (2 s k v)
  then show ?case using lru_Put_refines [of s k v] spec_Put_look by (fastforce simp: lru_look_def)
next
  case (3 s)
  then show ?case by (rule lru_look_bounded)
next
  case (4 s k)
  then show ?case using lru_Remove_refines [of s k] by (auto simp: lru_look_def AList.delete_conv')
qed

section \<open>Properties\<close>

text \<open>
  C6: \<open>Cache::LRU\<close> with its list, its index and its iterators behaves as the plain list of pairs
  in order of use: for every sequence of operations on a fresh cache the answers are those of the
  specification, which drops the least recently used pair when it is full, and removing an absent
  key is the only undefined step.
\<close>

theorem lru_refines_spec: "lru_run ps (lru_new n) = spec_run n ps []"
  using lru_run_refines [OF lru_new_ok(1), of ps n] by (simp add: lru_new_ok)

end
