(* ===== verification/Cache_SLru.thy ===== *)
theory Cache_SLru
  imports Cache_Lru
begin

text \<open>
  \<open>Cache::S_LRU\<close> (\<open>cache/S_LRU.hpp\<close>): a segmented cache. A new entry enters the normal list; a
  hit moves it to the protected list, whose oldest entry falls back to the normal one when the
  segment is full.
\<close>

section \<open>The class\<close>

record ('k, 'v) slru_entry =
  se_key :: 'k
  se_value :: 'v
  se_prot :: bool

record ('k, 'v) slru =
  m_Normal :: "('k, 'v) slru_entry nodes"
  m_Protected :: "('k, 'v) slru_entry nodes"
  slru_Index :: "'k index"
  slru_MaxSize :: nat
  slru_Next :: node_id

definition slru_new :: "nat \<Rightarrow> ('k, 'v) slru" where
  "slru_new aSize = \<lparr>m_Normal = [], m_Protected = [], slru_Index = [], slru_MaxSize = aSize, slru_Next = 0\<rparr>"

definition slru_deref :: "node_id \<Rightarrow> ('k, 'v) slru \<Rightarrow> ('k, 'v) slru_entry result" where
  "slru_deref i s = deref i (m_Protected s @ m_Normal s)"

text \<open>An iterator is spliced out of the list that its flag names: undefined if it is not there.\<close>

definition slru_Demote :: "('k, 'v) slru \<Rightarrow> ('k, 'v) slru result" where
  "slru_Demote s =
     (if slru_MaxSize s div 2 < length (m_Protected s) then
        bindr (last_node (m_Protected s)) (\<lambda>(j, e).
        bindr (list_take j (m_Protected s)) (\<lambda>(_, ps).
          Inr (s\<lparr>m_Protected := ps, m_Normal := (j, e\<lparr>se_prot := False\<rparr>) # m_Normal s\<rparr>)))
      else Inr s)"

definition slru_Update :: "node_id \<Rightarrow> ('k, 'v) slru \<Rightarrow> ('k, 'v) slru result" where
  "slru_Update i s =
     bindr (slru_deref i s) (\<lambda>e.
       if se_prot e then
         bindr (list_take i (m_Protected s)) (\<lambda>(n, ps). Inr (s\<lparr>m_Protected := n # ps\<rparr>))
       else
         bindr (list_take i (m_Normal s)) (\<lambda>((_, e), ns).
           slru_Demote (s\<lparr>m_Protected := (i, e\<lparr>se_prot := True\<rparr>) # m_Protected s, m_Normal := ns\<rparr>)))"

definition slru_Insert :: "'k \<Rightarrow> 'v \<Rightarrow> ('k, 'v) slru \<Rightarrow> ('k, 'v) slru" where
  "slru_Insert key value s =
     s\<lparr>m_Normal := (slru_Next s, \<lparr>se_key = key, se_value = value, se_prot = False\<rparr>) # m_Normal s,
       slru_Index := AList.update key (slru_Next s) (slru_Index s), slru_Next := slru_Next s + 1\<rparr>"

definition slru_Remove :: "'k \<Rightarrow> ('k, 'v) slru \<Rightarrow> ('k, 'v) slru result" where
  "slru_Remove key s =
     (case map_of (slru_Index s) key of
        None \<Rightarrow> Inl Undefined
      | Some i \<Rightarrow>
          bindr (slru_deref i s) (\<lambda>e.
            if se_prot e then Inl (LogicError ''S_LRU::Remove on protected list'')
            else bindr (list_take i (m_Normal s)) (\<lambda>(_, ns).
                   Inr (s\<lparr>m_Normal := ns, slru_Index := AList.delete key (slru_Index s)\<rparr>))))"

definition slru_Shrink :: "('k, 'v) slru \<Rightarrow> ('k, 'v) slru result" where
  "slru_Shrink s =
     (if length (m_Normal s) \<le> slru_MaxSize s div 2 then Inr s
      else bindr (last_node (m_Normal s)) (\<lambda>(_, e). slru_Remove (se_key e) s))"

definition slru_Get :: "'k \<Rightarrow> ('k, 'v) slru \<Rightarrow> ('v option \<times> ('k, 'v) slru) result" where
  "slru_Get key s =
     (case map_of (slru_Index s) key of
        Some i \<Rightarrow> bindr (slru_Update i s) (\<lambda>s. bindr (slru_deref i s) (\<lambda>e. Inr (Some (se_value e), s)))
      | None \<Rightarrow> Inr (None, s))"

definition slru_assign :: "node_id \<Rightarrow> 'v \<Rightarrow> ('k, 'v) slru \<Rightarrow> ('k, 'v) slru result" where
  "slru_assign i value s =
     bindr (slru_deref i s) (\<lambda>e.
       Inr (s\<lparr>m_Protected := assign i (e\<lparr>se_value := value\<rparr>) (m_Protected s),
              m_Normal := assign i (e\<lparr>se_value := value\<rparr>) (m_Normal s)\<rparr>))"

definition slru_Put :: "'k \<Rightarrow> 'v \<Rightarrow> ('k, 'v) slru \<Rightarrow> ('k, 'v) slru result" where
  "slru_Put key value s =
     (case map_of (slru_Index s) key of
        Some i \<Rightarrow> bindr (slru_Update i s) (slru_assign i value)
      | None \<Rightarrow> slru_Shrink (slru_Insert key value s))"

definition slru_Size :: "('k, 'v) slru \<Rightarrow> nat" where
  "slru_Size s = length (slru_Index s)"

section \<open>The specification\<close>

text \<open>The two segments as lists of pairs; a hit with the value to store.\<close>

type_synonym ('k, 'v) segments = "('k \<times> 'v) list \<times> ('k \<times> 'v) list"

definition seg_hit :: "nat \<Rightarrow> 'k \<Rightarrow> 'v \<Rightarrow> ('k, 'v) segments \<Rightarrow> ('k, 'v) segments" where
  "seg_hit c k v s =
     (let (P, N) = s
      in if map_of P k \<noteq> None then ((k, v) # AList.delete k P, N)
         else let P = (k, v) # P; N = AList.delete k N
              in if c < length P then (butlast P, last P # N) else (P, N))"

definition seg_look :: "('k, 'v) segments \<Rightarrow> 'k \<Rightarrow> 'v option" where
  "seg_look s = map_of (fst s @ snd s)"

definition seg_Get :: "nat \<Rightarrow> 'k \<Rightarrow> ('k, 'v) segments \<Rightarrow> 'v option \<times> ('k, 'v) segments" where
  "seg_Get c k s = (case seg_look s k of Some v \<Rightarrow> (Some v, seg_hit c k v s) | None \<Rightarrow> (None, s))"

definition seg_Put :: "nat \<Rightarrow> 'k \<Rightarrow> 'v \<Rightarrow> ('k, 'v) segments \<Rightarrow> ('k, 'v) segments" where
  "seg_Put c k v s =
     (if seg_look s k \<noteq> None then seg_hit c k v s else (fst s, take c ((k, v) # snd s)))"

text \<open>A key of the normal segment can be removed, one of the protected segment cannot.\<close>

definition seg_Remove :: "'k \<Rightarrow> ('k, 'v) segments \<Rightarrow> ('k, 'v) segments result" where
  "seg_Remove k s =
     (if seg_look s k = None then Inl Undefined
      else if map_of (fst s) k \<noteq> None then Inl (LogicError ''S_LRU::Remove on protected list'')
      else Inr (fst s, AList.delete k (snd s)))"

fun slru_step :: "('k, 'v) cache_op \<Rightarrow> ('k, 'v) slru \<Rightarrow> ('v option \<times> ('k, 'v) slru) result" where
  "slru_step (OpGet k) s = slru_Get k s"
| "slru_step (OpPut k v) s = bindr (slru_Put k v s) (\<lambda>s. Inr (None, s))"
| "slru_step (OpRemove k) s = bindr (slru_Remove k s) (\<lambda>s. Inr (None, s))"

fun seg_step :: "nat \<Rightarrow> ('k, 'v) cache_op \<Rightarrow> ('k, 'v) segments \<Rightarrow> ('v option \<times> ('k, 'v) segments) result" where
  "seg_step c (OpGet k) s = Inr (seg_Get c k s)"
| "seg_step c (OpPut k v) s = Inr (None, seg_Put c k v s)"
| "seg_step c (OpRemove k) s = bindr (seg_Remove k s) (\<lambda>s. Inr (None, s))"

fun slru_run :: "('k, 'v) cache_op list \<Rightarrow> ('k, 'v) slru \<Rightarrow> 'v option list result" where
  "slru_run [] s = Inr []"
| "slru_run (p # ps) s = bindr (slru_step p s) (\<lambda>(r, s). bindr (slru_run ps s) (\<lambda>rs. Inr (r # rs)))"

fun seg_run :: "nat \<Rightarrow> ('k, 'v) cache_op list \<Rightarrow> ('k, 'v) segments \<Rightarrow> 'v option list result" where
  "seg_run c [] s = Inr []"
| "seg_run c (p # ps) s = bindr (seg_step c p s) (\<lambda>(r, s). bindr (seg_run c ps s) (\<lambda>rs. Inr (r # rs)))"

section \<open>Invariant and refinement\<close>

definition slru_ok :: "('k, 'v) slru \<Rightarrow> bool" where
  "slru_ok s \<longleftrightarrow> index_ok se_key (slru_Index s) (m_Protected s @ m_Normal s)
     \<and> (\<forall>p \<in> set (m_Protected s @ m_Normal s). fst p < slru_Next s)
     \<and> (\<forall>p \<in> set (m_Protected s). se_prot (snd p)) \<and> (\<forall>p \<in> set (m_Normal s). \<not> se_prot (snd p))
     \<and> length (m_Protected s) \<le> slru_MaxSize s div 2 \<and> length (m_Normal s) \<le> slru_MaxSize s div 2"

definition kv :: "node_id \<times> ('k, 'v) slru_entry \<Rightarrow> 'k \<times> 'v" where
  "kv p = (se_key (snd p), se_value (snd p))"

definition slru_abs :: "('k, 'v) slru \<Rightarrow> ('k, 'v) segments" where
  "slru_abs s = (map kv (m_Protected s), map kv (m_Normal s))"

abbreviation slru_cap :: "('k, 'v) slru \<Rightarrow> nat" where
  "slru_cap s \<equiv> slru_MaxSize s div 2"

lemma slru_new_ok: "slru_ok (slru_new n)" "slru_abs (slru_new n) = ([], [])" "slru_MaxSize (slru_new n) = n"
  by (simp_all add: slru_ok_def slru_new_def slru_abs_def index_ok_def)

lemma kv_distinct: "index_ok se_key ix xs \<Longrightarrow> distinct (map fst (map kv xs))"
  by (simp add: index_ok_def kv_def o_def)

lemma kv_lookup:
  assumes "index_ok se_key ix xs"
  shows "map_of (map kv xs) k = None \<longleftrightarrow> map_of ix k = None"
  using index_miss [OF assms, of k] by (auto simp: map_of_eq_None_iff kv_def image_iff)

lemma kv_delete:
  assumes "distinct (map fst (map kv (as @ (i, e) # bs)))"
  shows "AList.delete (se_key e) (map kv (as @ (i, e) # bs)) = map kv (as @ bs)"
proof -
  have "se_key e \<notin> fst ` set (map kv as)" "se_key e \<notin> fst ` set (map kv bs)"
    using assms by (force simp: kv_def)+
  note this [THEN AList.delete_id]
  then show ?thesis by (simp add: AList.delete_eq kv_def)
qed

lemma slru_index: "slru_ok s \<Longrightarrow> index_ok se_key (slru_Index s) (m_Protected s @ m_Normal s)"
  by (simp add: slru_ok_def)

lemma deref_in: "distinct (map fst xs) \<Longrightarrow> (i, x) \<in> set xs \<Longrightarrow> deref i xs = Inr x"
  by (simp add: deref_def map_of_is_SomeI)

text \<open>
  What a hit does: the node goes to the front of the protected list, and the specification with
  any value to store describes the rest.
\<close>

definition slru_hit_post :: "'k \<Rightarrow> node_id \<Rightarrow> ('k, 'v) slru \<Rightarrow> ('k, 'v) slru \<Rightarrow> bool" where
  "slru_hit_post k i s s' \<longleftrightarrow> (\<exists>e Q. m_Protected s' = (i, e) # Q \<and> se_key e = k
     \<and> seg_look (slru_abs s) k = Some (se_value e)
     \<and> (\<forall>v. seg_hit (slru_cap s) k v (slru_abs s) = ((k, v) # map kv Q, map kv (m_Normal s'))))
     \<and> slru_ok s' \<and> slru_MaxSize s' = slru_MaxSize s"

lemma slru_hit_protected:
  assumes ok: "slru_ok s" and P: "m_Protected s = as @ (i, e) # bs"
  shows "\<exists>s'. slru_Update i s = Inr s' \<and> slru_hit_post (se_key e) i s s'"
proof -
  let ?s = "s\<lparr>m_Protected := (i, e) # as @ bs\<rparr>" and ?k = "se_key e"
  note ix = slru_index [OF ok]
  have dp: "distinct (map fst (as @ (i, e) # bs))" using index_ok_distinct_ids [OF ix] by (auto simp: P)
  have dk: "distinct (map fst (map kv (as @ (i, e) # bs)))" using kv_distinct [OF ix] by (auto simp: P)
  have "slru_deref i s = Inr e"
    unfolding slru_deref_def using index_ok_distinct_ids [OF ix] by (intro deref_in) (simp_all add: P)
  moreover have "se_prot e" using ok by (simp add: slru_ok_def P)
  ultimately have upd: "slru_Update i s = Inr ?s"
    using split_take [OF dp] by (simp add: slru_Update_def P)
  have "index_ok se_key (slru_Index s) ((i, e) # (as @ bs) @ m_Normal s)"
    using ix by (rule index_ok_perm) (simp add: P)
  then have ok': "slru_ok ?s" using ok by (auto simp: slru_ok_def P)
  have look: "map_of (map kv (m_Protected s)) ?k = Some (se_value e)"
    using dk by (intro map_of_is_SomeI) (simp_all add: P kv_def)
  then have "seg_look (slru_abs s) ?k = Some (se_value e)"
    using kv_distinct [OF ix] unfolding seg_look_def slru_abs_def
    by (intro map_of_is_SomeI) (auto dest: map_of_SomeD)
  moreover have "seg_hit (slru_cap s) ?k v (slru_abs s) = ((?k, v) # map kv (as @ bs), map kv (m_Normal s))" for v
    using look kv_delete [OF dk] by (simp add: seg_hit_def slru_abs_def P)
  ultimately show ?thesis using upd ok' by (auto simp: slru_hit_post_def)
qed

lemma slru_hit_normal:
  assumes ok: "slru_ok s" and N: "m_Normal s = as @ (i, e) # bs"
  shows "\<exists>s'. slru_Update i s = Inr s' \<and> slru_hit_post (se_key e) i s s'"
proof -
  let ?k = "se_key e" and ?e = "e\<lparr>se_prot := True\<rparr>"
  let ?s = "s\<lparr>m_Protected := (i, ?e) # m_Protected s, m_Normal := as @ bs\<rparr>"
  note ix = slru_index [OF ok]
  have dn: "distinct (map fst (as @ (i, e) # bs))" using index_ok_distinct_ids [OF ix] by (simp add: N)
  have dk: "distinct (map fst (map kv (as @ (i, e) # bs)))" using kv_distinct [OF ix] by (simp add: N)
  have "slru_deref i s = Inr e"
    unfolding slru_deref_def using index_ok_distinct_ids [OF ix] by (intro deref_in) (simp_all add: N)
  moreover have "\<not> se_prot e" using ok by (simp add: slru_ok_def N)
  ultimately have upd: "slru_Update i s = slru_Demote ?s"
    using split_take [OF dn] by (simp add: slru_Update_def N)
  have ix': "index_ok se_key (slru_Index s) ((i, ?e) # m_Protected s @ as @ bs)"
    using ix by (rule index_ok_cong) (simp add: N)
  have look: "seg_look (slru_abs s) ?k = Some (se_value e)"
    unfolding seg_look_def slru_abs_def using kv_distinct [OF ix]
    by (intro map_of_is_SomeI) (simp_all add: N kv_def)
  have absent: "map_of (map kv (m_Protected s)) ?k = None"
    using kv_distinct [OF ix] by (auto simp: N kv_def map_of_eq_None_iff image_iff)
  have e: "kv (i, ?e) = (?k, se_value e)" "kv (i, e) = (?k, se_value e)" by (simp_all add: kv_def)
  note hit = seg_hit_def [of "slru_cap s" ?k] slru_abs_def [of s] absent kv_delete [OF dk, folded N]
  show ?thesis
  proof (cases "slru_cap s < length ((i, ?e) # m_Protected s)")
    case False
    then have "slru_Demote ?s = Inr ?s" "slru_ok ?s"
      using ok ix' by (auto simp: slru_Demote_def slru_ok_def N)
    moreover have "seg_hit (slru_cap s) ?k v (slru_abs s) = ((?k, v) # map kv (m_Protected s), map kv (as @ bs))" for v
      using False by (simp add: hit)
    ultimately show ?thesis using upd look by (auto simp: slru_hit_post_def)
  next
    case True
    have len: "length (m_Protected s) = slru_cap s" and "0 < slru_cap s"
      using True ok by (auto simp: slru_ok_def N)
    then obtain Q j f where Q: "m_Protected s = Q @ [(j, f)]"
      by (metis length_greater_0_conv rev_exhaust surj_pair)
    let ?t = "s\<lparr>m_Protected := (i, ?e) # Q, m_Normal := (j, f\<lparr>se_prot := False\<rparr>) # as @ bs\<rparr>"
    have "distinct (map fst (((i, ?e) # Q) @ (j, f) # []))" using index_ok_distinct_ids [OF ix'] by (simp add: Q)
    from split_take [OF this] have "slru_Demote ?s = Inr ?t"
      using True by (simp add: slru_Demote_def Q last_node_def)
    moreover have "index_ok se_key (slru_Index s) ((i, ?e) # Q @ (j, f\<lparr>se_prot := False\<rparr>) # as @ bs)"
      using ix' by (rule index_ok_cong) (simp add: Q)
    then have "slru_ok ?t" using ok len by (auto simp: slru_ok_def N Q)
    moreover have "seg_hit (slru_cap s) ?k v (slru_abs s)
        = (butlast ((?k, v) # map kv (m_Protected s)), last ((?k, v) # map kv (m_Protected s)) # map kv (as @ bs))" for v
      using True by (simp add: hit)
    then have "seg_hit (slru_cap s) ?k v (slru_abs s)
        = ((?k, v) # map kv Q, map kv ((j, f\<lparr>se_prot := False\<rparr>) # as @ bs))" for v
      by (simp add: Q kv_def)
    ultimately show ?thesis using upd look by (auto simp: slru_hit_post_def)
  qed
qed

lemma slru_hit:
  assumes ok: "slru_ok s" and i: "map_of (slru_Index s) k = Some i"
  shows "\<exists>s'. slru_Update i s = Inr s' \<and> slru_hit_post k i s s'"
proof -
  obtain e where e: "(i, e) \<in> set (m_Protected s @ m_Normal s)" "se_key e = k"
    using index_lookup [OF slru_index [OF ok], of k i] i by auto
  then consider as bs where "m_Protected s = as @ (i, e) # bs" | as bs where "m_Normal s = as @ (i, e) # bs"
    by (metis Un_iff in_set_conv_decomp set_append)
  then show ?thesis
    using slru_hit_protected [OF ok] slru_hit_normal [OF ok] e(2) by cases blast+
qed

lemma slru_miss: "slru_ok s \<Longrightarrow> map_of (slru_Index s) k = None \<longleftrightarrow> seg_look (slru_abs s) k = None"
  using kv_lookup [OF slru_index, of s k] by (simp add: seg_look_def slru_abs_def)

lemma slru_Get_refines:
  assumes ok: "slru_ok s"
  shows "\<exists>s'. slru_Get k s = Inr (fst (seg_Get (slru_cap s) k (slru_abs s)), s') \<and> slru_ok s'
    \<and> slru_abs s' = snd (seg_Get (slru_cap s) k (slru_abs s)) \<and> slru_MaxSize s' = slru_MaxSize s"
proof (cases "map_of (slru_Index s) k")
  case None
  then show ?thesis using ok slru_miss [OF ok, of k] by (simp add: slru_Get_def seg_Get_def)
next
  case (Some i)
  obtain s' where s': "slru_Update i s = Inr s'" "slru_hit_post k i s s'" using slru_hit [OF ok Some] by blast
  then obtain e Q where Q: "m_Protected s' = (i, e) # Q" "se_key e = k" "seg_look (slru_abs s) k = Some (se_value e)"
    "seg_hit (slru_cap s) k (se_value e) (slru_abs s) = ((k, se_value e) # map kv Q, map kv (m_Normal s'))"
    by (auto simp: slru_hit_post_def)
  then have "slru_deref i s' = Inr e" "slru_abs s' = ((k, se_value e) # map kv Q, map kv (m_Normal s'))"
    by (simp_all add: slru_deref_def deref_def slru_abs_def kv_def)
  then show ?thesis using Some s' Q by (simp add: slru_Get_def seg_Get_def slru_hit_post_def)
qed

lemma slru_assign_refines:
  assumes ok: "slru_ok s" and P: "m_Protected s = (i, e) # Q"
  shows "\<exists>s'. slru_assign i v s = Inr s' \<and> slru_ok s' \<and> slru_MaxSize s' = slru_MaxSize s
    \<and> slru_abs s' = ((se_key e, v) # map kv Q, map kv (m_Normal s))"
proof -
  let ?s = "s\<lparr>m_Protected := (i, e\<lparr>se_value := v\<rparr>) # Q\<rparr>"
  note ix = slru_index [OF ok]
  have "assign i x Q = Q" "assign i x (m_Normal s) = m_Normal s" for x
    using index_ok_distinct_ids [OF ix] by (auto simp: P intro!: assign_absent)
  moreover have "slru_deref i s = Inr e" by (simp add: slru_deref_def deref_def P)
  ultimately have "slru_assign i v s = Inr ?s" by (simp add: slru_assign_def P)
  moreover have "index_ok se_key (slru_Index s) ((i, e\<lparr>se_value := v\<rparr>) # Q @ m_Normal s)"
    using ix by (rule index_ok_cong) (simp add: P)
  then have "slru_ok ?s" using ok by (simp add: slru_ok_def P)
  ultimately show ?thesis by (simp add: slru_abs_def kv_def)
qed

lemma slru_Remove_refines:
  assumes ok: "slru_ok s"
  shows "(case seg_Remove k (slru_abs s) of
            Inr t \<Rightarrow> \<exists>s'. slru_Remove k s = Inr s' \<and> slru_ok s' \<and> slru_abs s' = t \<and> slru_MaxSize s' = slru_MaxSize s
          | Inl x \<Rightarrow> slru_Remove k s = Inl x)"
proof (cases "map_of (slru_Index s) k")
  case None
  then show ?thesis using slru_miss [OF ok, of k] by (simp add: slru_Remove_def seg_Remove_def)
next
  case (Some i)
  note ix = slru_index [OF ok]
  obtain e where e: "(i, e) \<in> set (m_Protected s @ m_Normal s)" "se_key e = k"
    using index_lookup [OF ix, of k i] Some by auto
  have de: "slru_deref i s = Inr e"
    unfolding slru_deref_def using index_ok_distinct_ids [OF ix] e(1) by (rule deref_in)
  have look: "seg_look (slru_abs s) k \<noteq> None" using slru_miss [OF ok, of k] Some by simp
  show ?thesis
  proof (cases "(i, e) \<in> set (m_Protected s)")
    case True
    then have "(k, se_value e) \<in> set (map kv (m_Protected s))" using e(2) by (force simp: kv_def)
    then have "map_of (map kv (m_Protected s)) k \<noteq> None" by (metis weak_map_of_SomeI option.distinct(1))
    moreover have "se_prot e" using True ok by (force simp: slru_ok_def)
    ultimately show ?thesis using Some de look by (simp add: slru_Remove_def seg_Remove_def slru_abs_def)
  next
    case False
    then obtain as bs where N: "m_Normal s = as @ (i, e) # bs" using e(1) by (auto dest: split_list)
    let ?s = "s\<lparr>m_Normal := as @ bs, slru_Index := AList.delete k (slru_Index s)\<rparr>"
    have "distinct (map fst (as @ (i, e) # bs))" using index_ok_distinct_ids [OF ix] by (simp add: N)
    from split_take [OF this] have "slru_Remove k s = Inr ?s"
      using Some de ok by (simp add: slru_Remove_def slru_ok_def N)
    moreover have "index_ok se_key (AList.delete k (slru_Index s)) ((m_Protected s @ as) @ bs)"
      unfolding e(2) [symmetric] by (rule index_ok_delete [of _ _ _ i]) (use ix in \<open>simp add: N\<close>)
    then have "slru_ok ?s" using ok by (auto simp: slru_ok_def N)
    moreover have "map_of (map kv (m_Protected s)) k = None"
      using kv_distinct [OF ix] e(2) by (auto simp: N kv_def map_of_eq_None_iff image_iff)
    moreover have "AList.delete k (map kv (m_Normal s)) = map kv (as @ bs)"
      using kv_delete [of as i e bs] kv_distinct [OF ix] e(2) by (simp add: N)
    ultimately show ?thesis using look by (simp add: seg_Remove_def slru_abs_def)
  qed
qed

lemma slru_Put_new:
  assumes ok: "slru_ok s" and new: "map_of (slru_Index s) k = None"
  shows "\<exists>s'. slru_Shrink (slru_Insert k v s) = Inr s' \<and> slru_ok s' \<and> slru_MaxSize s' = slru_MaxSize s
    \<and> slru_abs s' = (map kv (m_Protected s), take (slru_cap s) ((k, v) # map kv (m_Normal s)))"
proof -
  note ix = slru_index [OF ok]
  let ?n = "(slru_Next s, \<lparr>se_key = k, se_value = v, se_prot = False\<rparr>)" and ?s = "slru_Insert k v s"
  have "slru_Next s \<notin> fst ` set (m_Protected s @ m_Normal s)"
    using ok unfolding slru_ok_def by (metis imageE less_irrefl)
  moreover have "k \<notin> se_key ` snd ` set (m_Protected s @ m_Normal s)" using index_miss [OF ix, of k] new by simp
  ultimately have "index_ok se_key (slru_Index ?s) (?n # m_Protected s @ m_Normal s)"
    using index_ok_insert [OF ix, of "snd ?n" "fst ?n"] by (simp add: slru_Insert_def)
  then have ix': "index_ok se_key (slru_Index ?s) (m_Protected ?s @ m_Normal ?s)"
    by (rule index_ok_perm) (simp add: slru_Insert_def)
  have lt: "\<forall>p \<in> set (m_Protected s) \<union> set (m_Normal s). fst p < Suc (slru_Next s)"
    using ok unfolding slru_ok_def by (metis less_SucI set_append)
  have ins: "m_Normal ?s = ?n # m_Normal s" "m_Protected ?s = m_Protected s" "slru_MaxSize ?s = slru_MaxSize s"
    by (simp_all add: slru_Insert_def)
  show ?thesis
  proof (cases "length (m_Normal ?s) \<le> slru_cap s")
    case True
    then have "slru_Shrink ?s = Inr ?s" "slru_ok ?s"
      using ix' ok lt by (simp_all add: slru_Shrink_def slru_ok_def slru_Insert_def)
    then show ?thesis using True by (simp add: slru_abs_def ins kv_def)
  next
    case False
    have len: "length (m_Normal s) = slru_cap s" using False ok by (simp add: slru_ok_def ins)
    obtain Q j f where Q: "m_Normal ?s = Q @ [(j, f)]" by (metis ins(1) list.discI rev_exhaust surj_pair)
    let ?i = "AList.delete (se_key f) (slru_Index ?s)" and ?ids = "map fst ((m_Protected s @ Q) @ (j, f) # [])"
    let ?t = "?s\<lparr>m_Normal := Q, slru_Index := ?i\<rparr>"
    have ixQ: "index_ok se_key (slru_Index ?s) ((m_Protected s @ Q) @ (j, f) # [])" using ix' by (simp add: Q ins)
    have jf: "map_of (slru_Index ?s) (se_key f) = Some j"
      using index_lookup [OF ixQ, of "se_key f" j] by auto
    have "(j, f) \<in> insert ?n (set (m_Normal s))" using Q ins(1) by (metis in_set_conv_decomp list.simps(15))
    then have "\<not> se_prot f" using ok by (auto simp: slru_ok_def)
    note jf = jf this
    have "slru_deref j ?s = Inr f"
      unfolding slru_deref_def using index_ok_distinct_ids [OF ix'] by (rule deref_in) (simp add: Q)
    moreover have "distinct (map fst (Q @ (j, f) # []))" using index_ok_distinct_ids [OF ixQ] by auto
    ultimately have "slru_Remove (se_key f) ?s = Inr ?t"
      using jf split_take [of Q j f "[]"] by (simp add: slru_Remove_def Q)
    then have sh: "slru_Shrink ?s = Inr ?t" using False ins(3) by (simp add: slru_Shrink_def Q last_node_def)
    have "index_ok se_key ?i (m_Protected s @ Q)" using index_ok_delete [OF ixQ] by simp
    moreover have "length Q = slru_cap s" using arg_cong [OF Q, of length] len by (simp add: ins)
    moreover have "\<forall>p \<in> set Q. fst p < Suc (slru_Next s) \<and> \<not> se_prot (snd p)"
    proof
      fix p assume "p \<in> set Q"
      then have "p \<in> set (m_Normal ?s)" by (simp add: Q)
      then have "p = ?n \<or> p \<in> set (m_Normal s)" unfolding ins by simp
      then show "fst p < Suc (slru_Next s) \<and> \<not> se_prot (snd p)"
        using ok lt by (elim disjE) (simp_all add: slru_ok_def)
    qed
    ultimately have "slru_ok ?t" using ok lt by (simp add: slru_ok_def slru_Insert_def ball_Un)
    moreover have "map kv Q = take (slru_cap s) ((k, v) # map kv (m_Normal s))"
    proof -
      have "(k, v) # map kv (m_Normal s) = map kv Q @ [kv (j, f)]"
        using arg_cong [OF Q, of "map kv"] by (simp add: ins kv_def)
      then show ?thesis using \<open>length Q = slru_cap s\<close> by simp
    qed
    ultimately show ?thesis using sh by (simp add: slru_abs_def ins)
  qed
qed

lemma slru_Put_refines:
  assumes ok: "slru_ok s"
  shows "\<exists>s'. slru_Put k v s = Inr s' \<and> slru_ok s'
    \<and> slru_abs s' = seg_Put (slru_cap s) k v (slru_abs s) \<and> slru_MaxSize s' = slru_MaxSize s"
proof (cases "map_of (slru_Index s) k")
  case None
  then show ?thesis using slru_Put_new [OF ok None, of v] slru_miss [OF ok, of k]
    by (auto simp: slru_Put_def seg_Put_def slru_abs_def)
next
  case (Some i)
  obtain s' where s': "slru_Update i s = Inr s'" "slru_hit_post k i s s'" using slru_hit [OF ok Some] by blast
  then obtain e Q where Q: "m_Protected s' = (i, e) # Q" "se_key e = k" "slru_ok s'" "slru_MaxSize s' = slru_MaxSize s"
    "seg_look (slru_abs s) k \<noteq> None" "seg_hit (slru_cap s) k v (slru_abs s) = ((k, v) # map kv Q, map kv (m_Normal s'))"
    by (auto simp: slru_hit_post_def)
  then show ?thesis
    using slru_assign_refines [OF Q(3,1), of v] Some s'(1) by (auto simp: slru_Put_def seg_Put_def)
qed

lemma slru_step_refines:
  assumes ok: "slru_ok s"
  shows "(\<exists>r s'. slru_step p s = Inr (r, s') \<and> seg_step (slru_cap s) p (slru_abs s) = Inr (r, slru_abs s')
            \<and> slru_ok s' \<and> slru_MaxSize s' = slru_MaxSize s)
       \<or> (\<exists>e. slru_step p s = Inl e \<and> seg_step (slru_cap s) p (slru_abs s) = Inl e)"
proof (cases p)
  case (OpGet k)
  then show ?thesis using slru_Get_refines [OF ok, of k] by (cases "seg_Get (slru_cap s) k (slru_abs s)") fastforce
next
  case (OpPut k v)
  then show ?thesis using slru_Put_refines [OF ok, of k v] by fastforce
next
  case (OpRemove k)
  then show ?thesis
    using slru_Remove_refines [OF ok, of k] by (cases "seg_Remove k (slru_abs s)") auto
qed

lemma slru_run_refines: "slru_ok s \<Longrightarrow> slru_run ps s = seg_run (slru_cap s) ps (slru_abs s)"
proof (induction ps arbitrary: s)
  case (Cons p ps)
  then show ?case using slru_step_refines [OF Cons.prems, of p] by fastforce
qed simp

section \<open>The cache contract\<close>

text \<open>
  The segmented cache promises what a cache promises to a user that puts and gets. Removal is not
  part of it: a key that was read is protected, and removing it throws.
\<close>

definition slru_look :: "('k, 'v) slru \<Rightarrow> 'k \<Rightarrow> 'v option" where
  "slru_look s = seg_look (slru_abs s)"

lemma seg_hit_look:
  assumes "distinct (map fst (P @ N))" and "seg_look (P, N) k \<noteq> None"
  shows "seg_look (seg_hit c k v (P, N)) = (seg_look (P, N))(k \<mapsto> v)"
proof (cases "map_of P k = None")
  case False
  then show ?thesis using assms by (auto simp: seg_look_def seg_hit_def fun_eq_iff AList.delete_conv' map_add_def)
next
  case True
  let ?P = "(k, v) # P" and ?N = "AList.delete k N"
  have swap: "map_of (butlast ?P @ last ?P # ?N) = map_of (?P @ ?N)"
    by (metis (no_types, lifting) append.assoc append_Cons append_Nil append_butlast_last_id list.discI)
  have "map_of (?P @ ?N) = (map_of (P @ N))(k \<mapsto> v)"
    using True by (auto simp: fun_eq_iff AList.delete_conv' map_add_def split: option.splits)
  with True swap show ?thesis by (simp add: seg_look_def seg_hit_def Let_def)
qed

lemma slru_abs_distinct: "slru_ok s \<Longrightarrow> distinct (map fst (fst (slru_abs s) @ snd (slru_abs s)))"
  using kv_distinct [OF slru_index, of s] by (simp add: slru_abs_def)

lemma map_le_add_right:
  assumes "f \<subseteq>\<^sub>m g"
  shows "f ++ h \<subseteq>\<^sub>m g ++ h"
  unfolding map_le_def
proof
  fix a assume "a \<in> dom (f ++ h)"
  then show "(f ++ h) a = (g ++ h) a"
    using assms by (cases "h a") (auto simp: map_add_def map_le_def)
qed

lemma seg_Put_look:
  assumes "distinct (map fst (fst s @ snd s))"
  shows "seg_look (seg_Put c k v s) \<subseteq>\<^sub>m (seg_look s)(k \<mapsto> v)"
proof (cases "seg_look s k = None")
  case False
  then show ?thesis using seg_hit_look [of "fst s" "snd s" k c v] assms by (simp add: seg_Put_def)
next
  case True
  have "map_of (fst s @ take c ((k, v) # snd s)) \<subseteq>\<^sub>m map_of (fst s @ (k, v) # snd s)"
    using map_le_add_right [OF map_of_take_le [of c "(k, v) # snd s"], of "map_of (fst s)"] by simp
  also have "map_of (fst s @ (k, v) # snd s) = (seg_look s)(k \<mapsto> v)"
    using True by (auto simp: seg_look_def fun_eq_iff map_add_def split: option.splits)
  finally have "map_of (fst s @ take c ((k, v) # snd s)) \<subseteq>\<^sub>m (seg_look s)(k \<mapsto> v)" .
  then show ?thesis using True by (simp add: seg_Put_def seg_look_def [of "(fst s, _)"])
qed

lemma seg_Get_look:
  assumes "distinct (map fst (fst s @ snd s))"
  shows "seg_look (snd (seg_Get c k s)) = seg_look s" "fst (seg_Get c k s) = seg_look s k"
  using seg_hit_look [of "fst s" "snd s" k c] assms
  by (auto simp: seg_Get_def fun_eq_iff split: option.splits)

interpretation slru: cache_spec slru_Get slru_Put slru_look slru_MaxSize slru_ok
proof (unfold_locales, goal_cases)
  case (1 s k)
  then show ?case using slru_Get_refines [of s k] seg_Get_look [OF slru_abs_distinct, of s "slru_cap s" k]
    by (auto simp: slru_look_def)
next
  case (2 s k v)
  then show ?case using slru_Put_refines [of s k v] seg_Put_look [OF slru_abs_distinct, of s "slru_cap s" k v]
    by (auto simp: slru_look_def)
next
  case (3 s)
  have "card (dom (slru_look s)) \<le> length (fst (slru_abs s) @ snd (slru_abs s))"
    unfolding slru_look_def seg_look_def dom_map_of_conv_image_fst by (metis card_length length_map set_map)
  moreover have "length (m_Protected s) + length (m_Normal s) \<le> slru_MaxSize s"
    using 3 unfolding slru_ok_def by linarith
  ultimately show ?case by (simp add: slru_look_def seg_look_def slru_abs_def finite_dom_map_of)
qed

section \<open>Properties\<close>

text \<open>
  C24: \<open>Cache::S_LRU\<close> behaves as two lists of pairs, each of at most half the size: for every
  sequence of operations on a fresh cache the answers are those of the specification. A hit moves
  the pair to the front of the protected segment and lets its oldest pair fall back to the front
  of the normal one; only the normal segment drops pairs; removing a protected key throws and
  removing an absent one is undefined.
\<close>

theorem slru_refines_spec: "slru_run ps (slru_new n) = seg_run (n div 2) ps ([], [])"
  using slru_run_refines [OF slru_new_ok(1), of ps n] by (simp add: slru_new_ok)

end
