(* ===== verification/Cache_Lfu.thy ===== *)
theory Cache_Lfu
  imports Cache_Lru
begin

text \<open>
  \<open>Cache::LFU\<close> (\<open>cache/LFU.hpp\<close>): entries live in a ring of buckets. A hit moves an entry some
  buckets ahead of the clock; when the cache is full the clock advances to the next bucket with
  entries and drops the first of them.
\<close>

section \<open>RingAge and LFU\<close>

record ('k, 'v) lfu_entry =
  le_key :: 'k
  le_value :: 'v
  bucket :: nat

record ('k, 'v) lfu =
  m_Ring :: "('k, 'v) lfu_entry nodes list"
  m_Clock :: nat
  m_Keys :: "'k index"
  lfu_MaxSize :: nat
  m_Cost :: nat
  lfu_Next :: node_id

definition BUCKET_COUNT :: nat where
  "BUCKET_COUNT = 1024"

definition lfu_new :: "nat \<Rightarrow> nat \<Rightarrow> ('k, 'v) lfu" where
  "lfu_new aSize aCost =
     \<lparr>m_Ring = replicate BUCKET_COUNT [], m_Clock = 0, m_Keys = [], lfu_MaxSize = aSize, m_Cost = aCost, lfu_Next = 0\<rparr>"

text \<open>The number of buckets is a template parameter; the sum of offset and cost wraps at 32 bits.\<close>

definition boundInc :: "nat \<Rightarrow> nat \<Rightarrow> ('k, 'v) lfu \<Rightarrow> nat" where
  "boundInc aPos aW s =
     (let Size = length (m_Ring s);
          aPos = (if aPos < m_Clock s then aPos + Size else aPos);
          sOffset = aPos - m_Clock s;
          sOffset = min ((sOffset + aW) mod 2 ^ 32) (Size - 1)
      in (m_Clock s + sOffset) mod Size)"

fun ring_Shrink :: "nat \<Rightarrow> ('k, 'v) lfu \<Rightarrow> (('k, 'v) lfu_entry \<times> ('k, 'v) lfu) result" where
  "ring_Shrink 0 s = Inl OutOfFuel"
| "ring_Shrink (Suc fuel) s =
     (case m_Ring s ! m_Clock s of
        [] \<Rightarrow> ring_Shrink fuel (s\<lparr>m_Clock := (m_Clock s + 1) mod length (m_Ring s)\<rparr>)
      | (_, sItem) # sList \<Rightarrow> Inr (sItem, s\<lparr>m_Ring := (m_Ring s)[m_Clock s := sList]\<rparr>))"

text \<open>An entry is spliced out of the bucket it names: undefined when it is not there.\<close>

definition ring_take :: "node_id \<Rightarrow> ('k, 'v) lfu \<Rightarrow> (('k, 'v) lfu_entry \<times> ('k, 'v) lfu) result" where
  "ring_take i s =
     bindr (deref i (concat (m_Ring s))) (\<lambda>e.
       if length (m_Ring s) \<le> bucket e then Inl Undefined
       else bindr (list_take i (m_Ring s ! bucket e)) (\<lambda>(_, xs).
              Inr (e, s\<lparr>m_Ring := (m_Ring s)[bucket e := xs]\<rparr>)))"

definition ring_append :: "node_id \<Rightarrow> ('k, 'v) lfu_entry \<Rightarrow> ('k, 'v) lfu \<Rightarrow> ('k, 'v) lfu" where
  "ring_append i e s = s\<lparr>m_Ring := (m_Ring s)[bucket e := m_Ring s ! bucket e @ [(i, e)]]\<rparr>"

definition ring_Refresh :: "node_id \<Rightarrow> nat \<Rightarrow> ('k, 'v) lfu \<Rightarrow> ('k, 'v) lfu result" where
  "ring_Refresh aIt aCost s =
     bindr (ring_take aIt s) (\<lambda>(e, s'). Inr (ring_append aIt (e\<lparr>bucket := boundInc (bucket e) aCost s\<rparr>) s'))"

definition ring_Insert :: "('k, 'v) lfu_entry \<Rightarrow> nat \<Rightarrow> ('k, 'v) lfu \<Rightarrow> node_id \<times> ('k, 'v) lfu" where
  "ring_Insert aEntry aCost s =
     (lfu_Next s, ring_append (lfu_Next s) (aEntry\<lparr>bucket := boundInc (m_Clock s) aCost s\<rparr>) (s\<lparr>lfu_Next := lfu_Next s + 1\<rparr>))"

definition lfu_Shrink :: "('k, 'v) lfu \<Rightarrow> ('k, 'v) lfu result" where
  "lfu_Shrink s =
     (if length (m_Keys s) \<le> lfu_MaxSize s then Inr s
      else bindr (ring_Shrink (length (m_Ring s)) s) (\<lambda>(aItem, s).
             Inr (s\<lparr>m_Keys := AList.delete (le_key aItem) (m_Keys s)\<rparr>)))"

definition lfu_Get :: "'k \<Rightarrow> ('k, 'v) lfu \<Rightarrow> ('v option \<times> ('k, 'v) lfu) result" where
  "lfu_Get aKey s =
     (case map_of (m_Keys s) aKey of
        None \<Rightarrow> Inr (None, s)
      | Some i \<Rightarrow>
          bindr (ring_Refresh i (m_Cost s) s) (\<lambda>s.
          bindr (deref i (concat (m_Ring s))) (\<lambda>e. Inr (Some (le_value e), s))))"

definition lfu_assign :: "node_id \<Rightarrow> 'v \<Rightarrow> ('k, 'v) lfu \<Rightarrow> ('k, 'v) lfu result" where
  "lfu_assign i aValue s =
     bindr (deref i (concat (m_Ring s))) (\<lambda>e.
       Inr (s\<lparr>m_Ring := map (assign i (e\<lparr>le_value := aValue\<rparr>)) (m_Ring s)\<rparr>))"

definition lfu_Put :: "'k \<Rightarrow> 'v \<Rightarrow> nat \<Rightarrow> ('k, 'v) lfu \<Rightarrow> ('k, 'v) lfu result" where
  "lfu_Put aKey aValue aCost s =
     (case map_of (m_Keys s) aKey of
        Some i \<Rightarrow> bindr (lfu_assign i aValue s) (\<lambda>s. ring_Refresh i (m_Cost s) s)
      | None \<Rightarrow>
          let (i, s) = ring_Insert \<lparr>le_key = aKey, le_value = aValue, bucket = 0\<rparr> aCost s
          in lfu_Shrink (s\<lparr>m_Keys := AList.update aKey i (m_Keys s)\<rparr>))"

definition lfu_Remove :: "'k \<Rightarrow> ('k, 'v) lfu \<Rightarrow> ('k, 'v) lfu result" where
  "lfu_Remove aKey s =
     (case map_of (m_Keys s) aKey of
        None \<Rightarrow> Inr s
      | Some i \<Rightarrow> bindr (ring_take i s) (\<lambda>(_, s). Inr (s\<lparr>m_Keys := AList.delete aKey (m_Keys s)\<rparr>)))"

definition lfu_Size :: "('k, 'v) lfu \<Rightarrow> nat" where
  "lfu_Size s = length (m_Keys s)"

section \<open>Invariant\<close>

text \<open>Every entry is in the bucket it names and the index covers exactly the entries of the ring.\<close>

definition ring_ok :: "('k, 'v) lfu_entry nodes list \<Rightarrow> bool" where
  "ring_ok r \<longleftrightarrow> (\<forall>b < length r. \<forall>p \<in> set (r ! b). bucket (snd p) = b)"

definition lfu_wf :: "('k, 'v) lfu \<Rightarrow> bool" where
  "lfu_wf s \<longleftrightarrow> index_ok le_key (m_Keys s) (concat (m_Ring s)) \<and> ring_ok (m_Ring s)
     \<and> m_Clock s < length (m_Ring s) \<and> (\<forall>p \<in> set (concat (m_Ring s)). fst p < lfu_Next s)"

definition lfu_ok :: "('k, 'v) lfu \<Rightarrow> bool" where
  "lfu_ok s \<longleftrightarrow> lfu_wf s \<and> length (m_Keys s) \<le> lfu_MaxSize s"

definition lfu_entries :: "('k, 'v) lfu \<Rightarrow> ('k \<times> 'v) list" where
  "lfu_entries s = map (\<lambda>p. (le_key (snd p), le_value (snd p))) (concat (m_Ring s))"

definition lfu_look :: "('k, 'v) lfu \<Rightarrow> 'k \<Rightarrow> 'v option" where
  "lfu_look s = map_of (lfu_entries s)"

lemma concat_update:
  "b < length r \<Longrightarrow> mset (concat (r[b := xs])) + mset (r ! b) = mset (concat r) + mset xs"
proof -
  assume b: "b < length r"
  have "concat r = concat (take b r) @ r ! b @ concat (drop (Suc b) r)"
    using id_take_nth_drop [OF b] by (metis concat.simps(2) concat_append)
  then show ?thesis using b by (simp add: upd_conv_take_nth_drop)
qed

lemma in_ring: "p \<in> set (concat r) \<longleftrightarrow> (\<exists>b < length r. p \<in> set (r ! b))"
  by (simp add: set_conv_nth [of r]) blast

lemma ring_ok_bucket:
  assumes "ring_ok r" and "(i, e) \<in> set (concat r)"
  shows "bucket e < length r" "(i, e) \<in> set (r ! bucket e)"
  using assms unfolding ring_ok_def in_ring by force+

lemma ring_ok_update:
  assumes "ring_ok r" and "\<forall>p \<in> set xs. bucket (snd p) = b"
  shows "ring_ok (r[b := xs])"
proof (cases "b < length r")
  case True
  with assms show ?thesis by (simp add: ring_ok_def nth_list_update)
qed (use assms in \<open>simp add: not_less list_update_beyond\<close>)

lemma boundInc_less: "m_Clock s < length (m_Ring s) \<Longrightarrow> boundInc p w s < length (m_Ring s)"
  unfolding boundInc_def Let_def by (rule mod_less_divisor) linarith

lemma lfu_new_ok: "lfu_ok (lfu_new n c)"
proof -
  have "concat (replicate m []) = ([] :: 'a list)" for m by (induction m) auto
  then show ?thesis by (auto simp: lfu_ok_def lfu_wf_def lfu_new_def index_ok_def ring_ok_def BUCKET_COUNT_def)
qed

section \<open>Steps on the ring\<close>

abbreviation lfu_nodes :: "('k, 'v) lfu \<Rightarrow> (node_id \<times> ('k, 'v) lfu_entry) multiset" where
  "lfu_nodes s \<equiv> mset (concat (m_Ring s))"

text \<open>The contents depend only on the set of nodes.\<close>

lemma lfu_look_iff:
  assumes "index_ok le_key ix (concat (m_Ring s))"
  shows "lfu_look s k = Some v \<longleftrightarrow> (\<exists>i e. (i, e) \<in># lfu_nodes s \<and> le_key e = k \<and> le_value e = v)"
proof -
  have "distinct (map fst (lfu_entries s))" using assms by (simp add: index_ok_def lfu_entries_def o_def)
  then have "lfu_look s k = Some v \<longleftrightarrow> (k, v) \<in> (\<lambda>p. (le_key (snd p), le_value (snd p))) ` set_mset (lfu_nodes s)"
    unfolding lfu_look_def by (simp add: map_of_eq_Some_iff lfu_entries_def del: set_concat)
  then show ?thesis by force
qed

lemma lfu_look_None:
  assumes "index_ok le_key (m_Keys s) (concat (m_Ring s))"
  shows "lfu_look s k = None \<longleftrightarrow> map_of (m_Keys s) k = None"
  using index_miss [OF assms, of k]
  by (auto simp: lfu_look_def lfu_entries_def map_of_eq_None_iff image_iff)

text \<open>One node more, or one node less.\<close>

lemma lfu_look_add:
  assumes ix: "index_ok le_key ix (concat (m_Ring s))" and ix': "index_ok le_key ix' (concat (m_Ring s'))"
    and nodes: "lfu_nodes s' = add_mset (i, e) (lfu_nodes s)"
  shows "lfu_look s' = (lfu_look s)(le_key e \<mapsto> le_value e)" and "lfu_look s = (lfu_look s')(le_key e := None)"
proof -
  have iff: "lfu_look s' k = Some v \<longleftrightarrow> k = le_key e \<and> v = le_value e \<or> lfu_look s k = Some v" for k v
    unfolding lfu_look_iff [OF ix] lfu_look_iff [OF ix'] nodes by (simp del: set_concat) blast
  have "index_ok le_key ix' ((i, e) # concat (m_Ring s))" by (rule index_ok_perm [OF ix']) (simp only: nodes mset.simps)
  then have "(j, f) \<in># lfu_nodes s \<Longrightarrow> le_key f \<noteq> le_key e" for j f unfolding index_ok_def by (force simp del: set_concat)
  then have none: "lfu_look s (le_key e) = None"
    using lfu_look_iff [OF ix, of "le_key e"] by (metis option.exhaust)
  show "lfu_look s' = (lfu_look s)(le_key e \<mapsto> le_value e)"
  proof
    fix k
    show "lfu_look s' k = ((lfu_look s)(le_key e \<mapsto> le_value e)) k"
    proof (cases "k = le_key e")
      case True
      then show ?thesis using iff [of k "le_value e"] by simp
    next
      case False
      then have "lfu_look s' k = Some v \<longleftrightarrow> lfu_look s k = Some v" for v using iff [of k v] by simp
      then have "lfu_look s' k = lfu_look s k" by (metis option.exhaust)
      then show ?thesis using False by simp
    qed
  qed
  then show "lfu_look s = (lfu_look s')(le_key e := None)" using none by (simp add: fun_upd_idem)
qed

lemma ring_take_node:
  assumes d: "distinct (map fst (concat (m_Ring s)))" and r: "ring_ok (m_Ring s)"
    and e: "(i, e) \<in> set (concat (m_Ring s))"
  obtains r' where "ring_take i s = Inr (e, s\<lparr>m_Ring := r'\<rparr>)" "lfu_nodes s = add_mset (i, e) (mset (concat r'))"
    "ring_ok r'" "length r' = length (m_Ring s)"
proof -
  let ?b = "bucket e"
  note b = ring_ok_bucket [OF r e]
  obtain as bs where sp: "m_Ring s ! ?b = as @ (i, e) # bs" using b(2) by (auto dest: split_list)
  have "concat (m_Ring s) = concat (take ?b (m_Ring s)) @ m_Ring s ! ?b @ concat (drop (Suc ?b) (m_Ring s))"
    using id_take_nth_drop [OF b(1)] by (metis concat.simps(2) concat_append)
  then have "distinct (map fst (as @ (i, e) # bs))" using d sp by (metis distinct_append map_append)
  from split_take [OF this] have "ring_take i s = Inr (e, s\<lparr>m_Ring := (m_Ring s)[?b := as @ bs]\<rparr>)"
    using deref_def map_of_is_SomeI [OF d e] b(1) sp by (simp add: ring_take_def deref_def)
  moreover have "lfu_nodes s = add_mset (i, e) (mset (concat ((m_Ring s)[?b := as @ bs])))"
    using concat_update [OF b(1), of "as @ bs"] by (simp add: sp)
  moreover have "ring_ok ((m_Ring s)[?b := as @ bs])"
    using r b(1) sp by (intro ring_ok_update) (auto simp: ring_ok_def)
  ultimately show ?thesis using that by simp
qed

lemma ring_append_node:
  assumes "bucket e < length (m_Ring s)" and "ring_ok (m_Ring s)"
  shows "lfu_nodes (ring_append i e s) = add_mset (i, e) (lfu_nodes s)"
    "ring_ok (m_Ring (ring_append i e s))" "length (m_Ring (ring_append i e s)) = length (m_Ring s)"
proof -
  show "lfu_nodes (ring_append i e s) = add_mset (i, e) (lfu_nodes s)"
    using concat_update [OF assms(1), of "m_Ring s ! bucket e @ [(i, e)]"] by (simp add: ring_append_def)
  show "ring_ok (m_Ring (ring_append i e s))"
    using ring_ok_update [OF assms(2), of "m_Ring s ! bucket e @ [(i, e)]" "bucket e"] assms
    by (simp add: ring_append_def ring_ok_def)
qed (simp add: ring_append_def)

lemma ring_append_fields [simp]:
  "m_Clock (ring_append i e s) = m_Clock s" "m_Keys (ring_append i e s) = m_Keys s"
  "lfu_MaxSize (ring_append i e s) = lfu_MaxSize s" "lfu_Next (ring_append i e s) = lfu_Next s"
  "m_Cost (ring_append i e s) = m_Cost s"
  by (simp_all add: ring_append_def)

text \<open>\<open>Refresh\<close> changes the bucket of one node and nothing else.\<close>

lemma ring_Refresh_ok:
  assumes ok: "lfu_ok s" and e: "(i, e) \<in> set (concat (m_Ring s))"
  obtains s' M where "ring_Refresh i c s = Inr s'" "lfu_ok s'" "lfu_MaxSize s' = lfu_MaxSize s" "m_Cost s' = m_Cost s"
    "lfu_nodes s = add_mset (i, e) M" "lfu_nodes s' = add_mset (i, e\<lparr>bucket := boundInc (bucket e) c s\<rparr>) M"
proof -
  let ?e = "e\<lparr>bucket := boundInc (bucket e) c s\<rparr>"
  have ix: "index_ok le_key (m_Keys s) (concat (m_Ring s))" and clock: "m_Clock s < length (m_Ring s)"
    using ok by (simp_all add: lfu_ok_def lfu_wf_def)
  obtain r' where r': "ring_take i s = Inr (e, s\<lparr>m_Ring := r'\<rparr>)" "lfu_nodes s = add_mset (i, e) (mset (concat r'))"
    "ring_ok r'" "length r' = length (m_Ring s)"
    using ring_take_node [OF index_ok_distinct_ids [OF ix] _ e] ok unfolding lfu_ok_def lfu_wf_def by blast
  let ?s = "ring_append i ?e (s\<lparr>m_Ring := r'\<rparr>)"
  have b: "bucket ?e < length (m_Ring (s\<lparr>m_Ring := r'\<rparr>))" using boundInc_less [OF clock] r'(4) by simp
  note app = ring_append_node [OF b, of i]
  have nodes: "lfu_nodes ?s = add_mset (i, ?e) (mset (concat r'))" using app(1) r'(3) by simp
  have ks: "mset (map (\<lambda>(i, x). (le_key x, i)) xs) = image_mset (\<lambda>(i, x). (le_key x, i)) (mset xs)" for xs :: "('a, 'b) lfu_entry nodes"
    by simp
  have ix': "index_ok le_key (m_Keys s) (concat (m_Ring ?s))"
    by (rule index_ok_cong [OF ix]) (simp only: ks nodes r'(2) image_mset_add_mset prod.case, simp)
  have "fst ` set (concat (m_Ring ?s)) = fst ` set (concat (m_Ring s))"
    using arg_cong [OF nodes, of set_mset] arg_cong [OF r'(2), of set_mset] by simp
  moreover have "\<forall>j \<in> fst ` set (concat (m_Ring s)). j < lfu_Next s" using ok unfolding lfu_ok_def lfu_wf_def by blast
  ultimately have "\<forall>j \<in> fst ` set (concat (m_Ring ?s)). j < lfu_Next s" by (simp only:)
  then have "\<forall>p \<in> set (concat (m_Ring ?s)). fst p < lfu_Next s" by blast
  then have "lfu_ok ?s"
    using ok ix' app(2,3) r'(3,4) clock by (simp add: lfu_ok_def lfu_wf_def)
  moreover have "ring_Refresh i c s = Inr ?s" using r'(1) by (simp add: ring_Refresh_def)
  ultimately show ?thesis using that [of ?s "mset (concat r')"] nodes r'(2) by simp
qed

lemma lfu_wf_index: "lfu_wf s \<Longrightarrow> index_ok le_key (m_Keys s) (concat (m_Ring s))"
  by (simp add: lfu_wf_def)

lemma lfu_ok_wf: "lfu_ok s \<Longrightarrow> lfu_wf s"
  by (simp add: lfu_ok_def)

lemmas lfu_ok_index = lfu_wf_index [OF lfu_ok_wf]

lemma lfu_find:
  assumes "lfu_wf s" and "map_of (m_Keys s) k = Some i"
  obtains e where "(i, e) \<in> set (concat (m_Ring s))" "le_key e = k"
  using index_lookup [OF lfu_wf_index [OF assms(1)], of k i] assms(2) by auto

lemma lfu_deref: "lfu_wf s \<Longrightarrow> (i, e) \<in># lfu_nodes s \<Longrightarrow> deref i (concat (m_Ring s)) = Inr e"
  using index_ok_distinct_ids [OF lfu_wf_index, of s] by (simp add: deref_def map_of_is_SomeI del: set_concat)

text \<open>Two caches with the same keys and values in their nodes have the same contents.\<close>

lemma lfu_look_cong:
  assumes "lfu_wf s" and "lfu_wf s'"
    and "(\<lambda>p. (le_key (snd p), le_value (snd p))) ` set_mset (lfu_nodes s')
       = (\<lambda>p. (le_key (snd p), le_value (snd p))) ` set_mset (lfu_nodes s)"
  shows "lfu_look s' = lfu_look s"
proof
  fix k
  have "(\<exists>i e. (i, e) \<in># A \<and> le_key e = k \<and> le_value e = v)
      \<longleftrightarrow> (k, v) \<in> (\<lambda>p. (le_key (snd p), le_value (snd p))) ` set_mset A" for v and A :: "(node_id \<times> ('a, 'b) lfu_entry) multiset"
    by force
  then have "lfu_look s' k = Some v \<longleftrightarrow> lfu_look s k = Some v" for v
    unfolding lfu_look_iff [OF lfu_wf_index [OF assms(1)]] lfu_look_iff [OF lfu_wf_index [OF assms(2)]]
    by (simp only: assms(3))
  then show "lfu_look s' k = lfu_look s k" by (metis option.exhaust)
qed

lemma lfu_Get_ok:
  assumes ok: "lfu_ok s"
  shows "\<exists>s'. lfu_Get k s = Inr (lfu_look s k, s') \<and> lfu_ok s' \<and> lfu_look s' = lfu_look s \<and> lfu_MaxSize s' = lfu_MaxSize s"
proof (cases "map_of (m_Keys s) k")
  case None
  then show ?thesis using ok lfu_look_None [OF lfu_ok_index [OF ok], of k] by (simp add: lfu_Get_def)
next
  case (Some i)
  obtain e where e: "(i, e) \<in> set (concat (m_Ring s))" "le_key e = k" using lfu_find [OF lfu_ok_wf [OF ok] Some] .
  obtain s' M where s': "ring_Refresh i (m_Cost s) s = Inr s'" "lfu_ok s'" "lfu_MaxSize s' = lfu_MaxSize s"
    "lfu_nodes s = add_mset (i, e) M" "lfu_nodes s' = add_mset (i, e\<lparr>bucket := boundInc (bucket e) (m_Cost s) s\<rparr>) M"
    using ring_Refresh_ok [OF ok e(1), of "m_Cost s"] .
  have "lfu_look s' = lfu_look s"
    using ok s'(2) by (intro lfu_look_cong) (simp_all only: lfu_ok_wf s'(4,5), simp_all)
  moreover have "lfu_look s k = Some (le_value e)"
    unfolding lfu_look_iff [OF lfu_ok_index [OF ok]] using e s'(4) by auto
  moreover have "deref i (concat (m_Ring s')) = Inr (e\<lparr>bucket := boundInc (bucket e) (m_Cost s) s\<rparr>)"
    by (rule lfu_deref [OF lfu_ok_wf [OF s'(2)]]) (simp only: s'(5), simp)
  ultimately show ?thesis using Some s' by (simp add: lfu_Get_def)
qed

lemma lfu_Remove_ok:
  assumes ok: "lfu_ok s"
  shows "\<exists>s'. lfu_Remove k s = Inr s' \<and> lfu_ok s' \<and> lfu_look s' = (lfu_look s)(k := None) \<and> lfu_MaxSize s' = lfu_MaxSize s"
proof (cases "map_of (m_Keys s) k")
  case None
  then show ?thesis using ok lfu_look_None [OF lfu_ok_index [OF ok], of k] by (auto simp: lfu_Remove_def fun_eq_iff)
next
  case (Some i)
  note ix = lfu_ok_index [OF ok]
  obtain e where e: "(i, e) \<in> set (concat (m_Ring s))" "le_key e = k" using lfu_find [OF lfu_ok_wf [OF ok] Some] .
  obtain r' where r': "ring_take i s = Inr (e, s\<lparr>m_Ring := r'\<rparr>)" "lfu_nodes s = add_mset (i, e) (mset (concat r'))"
    "ring_ok r'" "length r' = length (m_Ring s)"
    using ring_take_node [OF index_ok_distinct_ids [OF ix] _ e(1)] ok unfolding lfu_ok_def lfu_wf_def by blast
  let ?s = "s\<lparr>m_Ring := r', m_Keys := AList.delete k (m_Keys s)\<rparr>"
  have "index_ok le_key (m_Keys s) ([] @ (i, e) # concat r')" by (rule index_ok_perm [OF ix]) (simp only: r'(2) append_Nil mset.simps)
  from index_ok_delete [OF this] have ix': "index_ok le_key (m_Keys ?s) (concat (m_Ring ?s))" by (simp add: e(2))
  have "set (concat r') \<subseteq> set (concat (m_Ring s))" using arg_cong [OF r'(2), of set_mset] by (simp del: set_concat) blast
  then have "\<forall>p \<in> set (concat r'). fst p < lfu_Next s" using ok unfolding lfu_ok_def lfu_wf_def by blast
  moreover have "length (AList.delete k (m_Keys s)) \<le> length (m_Keys s)" by (rule AList.length_delete_le)
  ultimately have ok': "lfu_ok ?s" using ok ix' r'(3,4) by (simp add: lfu_ok_def lfu_wf_def)
  have "lfu_look ?s = (lfu_look s)(k := None)"
    using lfu_look_add(2) [OF ix' ix, of i e] r'(2) e(2) by simp
  then show ?thesis using Some r'(1) ok' by (simp add: lfu_Remove_def)
qed

section \<open>Insertion and eviction\<close>

text \<open>How far a bucket is ahead of the clock.\<close>

definition lfu_dist :: "('k, 'v) lfu \<Rightarrow> nat \<Rightarrow> nat" where
  "lfu_dist s b = (b + length (m_Ring s) - m_Clock s) mod length (m_Ring s)"

lemma lfu_dist_inverse:
  assumes "m_Clock s < length (m_Ring s)" and "b < length (m_Ring s)"
  shows "(m_Clock s + lfu_dist s b) mod length (m_Ring s) = b"
proof -
  have "(m_Clock s + lfu_dist s b) mod length (m_Ring s) = (m_Clock s + (b + length (m_Ring s) - m_Clock s)) mod length (m_Ring s)"
    unfolding lfu_dist_def by (rule mod_add_right_eq)
  then show ?thesis using assms by simp
qed

lemma lfu_dist_step:
  assumes "m_Clock s < length (m_Ring s)" and "d < length (m_Ring s)"
  shows "lfu_dist s ((m_Clock s + d) mod length (m_Ring s)) = d"
proof (cases "m_Clock s + d < length (m_Ring s)")
  case True
  then show ?thesis using assms by (simp add: lfu_dist_def)
next
  case False
  then have "(m_Clock s + d) mod length (m_Ring s) = m_Clock s + d - length (m_Ring s)"
    using assms by (simp add: mod_if [of "m_Clock s + d"])
  then show ?thesis using False assms by (simp add: lfu_dist_def)
qed

text \<open>The loop of \<open>Shrink\<close> stops at the first bucket from the clock on that has an entry.\<close>

lemma ring_Shrink_first:
  assumes "d < fuel" and "m_Ring s ! ((m_Clock s + d) mod length (m_Ring s)) = (i, e) # xs"
    and "\<And>d'. d' < d \<Longrightarrow> m_Ring s ! ((m_Clock s + d') mod length (m_Ring s)) = []"
    and "m_Clock s < length (m_Ring s)"
  shows "ring_Shrink fuel s = Inr (e, s\<lparr>m_Clock := (m_Clock s + d) mod length (m_Ring s),
      m_Ring := (m_Ring s)[(m_Clock s + d) mod length (m_Ring s) := xs]\<rparr>)"
  using assms
proof (induction d arbitrary: fuel s)
  case 0
  then show ?case by (cases fuel) simp_all
next
  case (Suc d)
  let ?n = "length (m_Ring s)" and ?s = "s\<lparr>m_Clock := (m_Clock s + 1) mod length (m_Ring s)\<rparr>"
  obtain f where f: "fuel = Suc f" "d < f" using Suc.prems(1) by (cases fuel) simp_all
  have mod: "((m_Clock s + 1) mod ?n + x) mod ?n = (m_Clock s + Suc x) mod ?n" for x
    by (simp add: mod_add_left_eq)
  have "m_Ring s ! m_Clock s = []" using Suc.prems(3) [of 0] Suc.prems(4) by simp
  then have "ring_Shrink fuel s = ring_Shrink f ?s" by (simp add: f)
  also have "\<dots> = Inr (e, ?s\<lparr>m_Clock := (m_Clock ?s + d) mod length (m_Ring ?s),
      m_Ring := (m_Ring ?s)[(m_Clock ?s + d) mod length (m_Ring ?s) := xs]\<rparr>)"
  proof (rule Suc.IH [OF f(2)])
    show "m_Ring ?s ! ((m_Clock ?s + d) mod length (m_Ring ?s)) = (i, e) # xs"
      using Suc.prems(2) mod [of d] by simp
    show "m_Ring ?s ! ((m_Clock ?s + d') mod length (m_Ring ?s)) = []" if "d' < d" for d'
      using Suc.prems(3) [of "Suc d'"] mod [of d'] that by simp
    have "0 < ?n" using Suc.prems(4) by linarith
    then show "m_Clock ?s < length (m_Ring ?s)" by simp
  qed
  finally show ?case using mod [of d] by simp
qed

text \<open>The victim: the entry nearest ahead of the clock.\<close>

lemma lfu_Shrink_evicts:
  assumes wf: "lfu_wf s" and full: "lfu_MaxSize s < length (m_Keys s)" "length (m_Keys s) \<le> Suc (lfu_MaxSize s)"
  obtains s' i e where "lfu_Shrink s = Inr s'" "lfu_ok s'" "lfu_MaxSize s' = lfu_MaxSize s"
    "(i, e) \<in> set (concat (m_Ring s))" "lfu_look s' = (lfu_look s)(le_key e := None)"
    "\<forall>f \<in> snd ` set (concat (m_Ring s)). lfu_dist s (bucket e) \<le> lfu_dist s (bucket f)"
proof -
  let ?r = "m_Ring s" and ?n = "length (m_Ring s)" and ?c = "m_Clock s"
  note ix = lfu_wf_index [OF wf]
  have clock: "?c < ?n" and ring: "ring_ok ?r" using wf by (simp_all add: lfu_wf_def)
  let ?P = "\<lambda>d. ?r ! ((?c + d) mod ?n) \<noteq> []"
  have at: "?P (lfu_dist s (bucket f))" if "(j, f) \<in> set (concat ?r)" for j f
    using ring_ok_bucket [OF ring that] lfu_dist_inverse [OF clock, of "bucket f"] by auto
  have "0 < length (concat ?r)" using full(1) index_ok_size [OF ix] by linarith
  then have "concat ?r \<noteq> []" by (rule iffD1 [OF length_greater_0_conv])
  then obtain j f where jf: "(j, f) \<in> set (concat ?r)" by (metis list.set_intros(1) neq_Nil_conv surj_pair)
  define d where "d = (LEAST d. ?P d)"
  have Pd: "?P d" unfolding d_def by (rule LeastI [of ?P, OF at [OF jf]])
  have early: "?r ! ((?c + d') mod ?n) = []" if "d' < d" for d'
    using not_less_Least [of d' ?P] that unfolding d_def by blast
  have least: "d \<le> lfu_dist s (bucket g)" if "(l, g) \<in> set (concat ?r)" for l g
    unfolding d_def by (rule Least_le [of ?P, OF at [OF that]])
  have pos: "0 < ?n" using clock by linarith
  then have dn: "d < ?n" by (intro le_less_trans [OF least [OF jf]]) (simp add: lfu_dist_def)
  let ?b = "(?c + d) mod ?n"
  have bn: "?b < ?n" using pos by (rule mod_less_divisor)
  obtain i e xs where hd: "?r ! ?b = (i, e) # xs" using Pd by (metis neq_Nil_conv surj_pair)
  then have ie: "(i, e) \<in> set (concat ?r)" using bn by (auto simp: in_ring simp del: set_concat)
  have be: "bucket e = ?b" using ring hd bn by (force simp: ring_ok_def)
  let ?t = "s\<lparr>m_Clock := ?b, m_Ring := ?r[?b := xs]\<rparr>" and ?k = "AList.delete (le_key e) (m_Keys s)"
  have "ring_Shrink ?n s = Inr (e, ?t)"
    by (rule ring_Shrink_first [OF dn hd early clock])
  then have sh: "lfu_Shrink s = Inr (?t\<lparr>m_Keys := ?k\<rparr>)" using full(1) by (simp add: lfu_Shrink_def)
  let ?u = "?t\<lparr>m_Keys := ?k\<rparr>"
  have nodes: "lfu_nodes s = add_mset (i, e) (lfu_nodes ?u)" using concat_update [OF bn, of xs] by (simp add: hd)
  have perm: "index_ok le_key (m_Keys s) ([] @ (i, e) # concat (m_Ring ?u))"
    by (rule index_ok_perm [OF ix]) (simp only: nodes append_Nil mset.simps)
  from index_ok_delete [OF this] have ix': "index_ok le_key (m_Keys ?u) (concat (m_Ring ?u))" by simp
  have "set (concat (m_Ring ?u)) \<subseteq> set (concat ?r)" using arg_cong [OF nodes, of set_mset] by (simp del: set_concat) blast
  then have "\<forall>p \<in> set (concat (m_Ring ?u)). fst p < lfu_Next s" using wf unfolding lfu_wf_def by blast
  moreover have "ring_ok (?r[?b := xs])" using ring hd bn by (intro ring_ok_update) (auto simp: ring_ok_def)
  moreover have "length ?k \<le> lfu_MaxSize s"
    using index_ok_size [OF ix'] index_ok_size [OF perm] full(2) by simp
  ultimately have ok: "lfu_ok ?u" using ix' bn by (simp add: lfu_ok_def lfu_wf_def)
  have "lfu_look ?u = (lfu_look s)(le_key e := None)"
    by (rule lfu_look_add(2) [OF ix' ix nodes])
  moreover have "lfu_dist s (bucket e) = d" using lfu_dist_step [OF clock dn] be by simp
  then have "\<forall>f \<in> snd ` set (concat ?r). lfu_dist s (bucket e) \<le> lfu_dist s (bucket f)"
    using least by (auto simp del: set_concat)
  ultimately show ?thesis using that [OF sh ok _ ie] by simp
qed

text \<open>A fresh key enters the ring; the index may then be one entry over its size.\<close>

definition lfu_fresh :: "'k \<Rightarrow> 'v \<Rightarrow> nat \<Rightarrow> ('k, 'v) lfu \<Rightarrow> ('k, 'v) lfu_entry" where
  "lfu_fresh k v c s = \<lparr>le_key = k, le_value = v, bucket = boundInc (m_Clock s) c s\<rparr>"

lemma lfu_Insert_wf:
  assumes ok: "lfu_ok s" and new: "map_of (m_Keys s) k = None"
  obtains s1 where "lfu_Put k v c s = lfu_Shrink s1" "lfu_wf s1" "lfu_MaxSize s1 = lfu_MaxSize s"
    "length (m_Keys s1) = Suc (length (m_Keys s))" "lfu_nodes s1 = add_mset (lfu_Next s, lfu_fresh k v c s) (lfu_nodes s)"
    "lfu_look s1 = (lfu_look s)(k \<mapsto> v)" "m_Clock s1 = m_Clock s" "length (m_Ring s1) = length (m_Ring s)"
proof -
  let ?n = "lfu_fresh k v c s" and ?i = "lfu_Next s" and ?s = "s\<lparr>lfu_Next := lfu_Next s + 1\<rparr>"
  let ?s1 = "(ring_append ?i ?n ?s)\<lparr>m_Keys := AList.update k ?i (m_Keys s)\<rparr>"
  note ix = lfu_ok_index [OF ok]
  have clock: "m_Clock s < length (m_Ring s)" and ring: "ring_ok (m_Ring s)"
    using ok by (simp_all add: lfu_ok_def lfu_wf_def)
  have b: "bucket ?n < length (m_Ring ?s)" using boundInc_less [OF clock] by (simp add: lfu_fresh_def)
  note app = ring_append_node [OF b, of ?i]
  have nodes: "lfu_nodes ?s1 = add_mset (?i, ?n) (lfu_nodes s)" using app(1) ring by simp
  have fresh: "?i \<notin> fst ` set (concat (m_Ring s))"
    using ok unfolding lfu_ok_def lfu_wf_def by (metis imageE less_irrefl)
  have k: "k \<notin> le_key ` snd ` set (concat (m_Ring s))" using index_miss [OF ix, of k] new by simp
  have "index_ok le_key (AList.update k ?i (m_Keys s)) ((?i, ?n) # concat (m_Ring s))"
    using index_ok_insert [OF ix _ fresh, of ?n] k by (simp add: lfu_fresh_def)
  then have "index_ok le_key (AList.update k ?i (m_Keys s)) (concat (m_Ring ?s1))"
    by (rule index_ok_perm) (simp only: nodes mset.simps)
  then have ix1: "index_ok le_key (m_Keys ?s1) (concat (m_Ring ?s1))" by simp
  have "set (concat (m_Ring ?s1)) = insert (?i, ?n) (set (concat (m_Ring s)))"
    using arg_cong [OF nodes, of set_mset] by (simp only: set_mset_mset set_mset_add_mset_insert)
  moreover have "\<forall>p \<in> set (concat (m_Ring s)). fst p < Suc (lfu_Next s)"
    using ok unfolding lfu_ok_def lfu_wf_def by (meson less_SucI)
  ultimately have "\<forall>p \<in> set (concat (m_Ring ?s1)). fst p < lfu_Next ?s1" by (simp del: set_concat)
  then have wf: "lfu_wf ?s1" using ix1 clock app(2,3) ring by (simp add: lfu_wf_def)
  have len: "length (m_Keys ?s1) = Suc (length (m_Keys s))"
    using index_ok_size [OF ix1] index_ok_size [OF ix] arg_cong [OF nodes, of size] by simp
  have "lfu_look ?s1 = (lfu_look s)(k \<mapsto> v)"
    using lfu_look_add(1) [OF ix ix1 nodes] by (simp add: lfu_fresh_def)
  moreover have "lfu_Put k v c s = lfu_Shrink ?s1"
    using new by (simp add: lfu_Put_def ring_Insert_def lfu_fresh_def boundInc_def)
  ultimately show ?thesis using that [of ?s1] wf nodes len app(3) ring by simp
qed

lemma assign_concat: "concat (map (assign i y) r) = assign i y (concat r)"
  by (induction r) simp_all

lemma lfu_assign_ok:
  assumes ok: "lfu_ok s" and e: "(i, e) \<in> set (concat (m_Ring s))"
  obtains s' M where "lfu_assign i v s = Inr s'" "lfu_ok s'" "lfu_MaxSize s' = lfu_MaxSize s" "m_Cost s' = m_Cost s"
    "lfu_nodes s = add_mset (i, e) M" "lfu_nodes s' = add_mset (i, e\<lparr>le_value := v\<rparr>) M"
proof -
  let ?e = "e\<lparr>le_value := v\<rparr>" and ?s = "s\<lparr>m_Ring := map (assign i (e\<lparr>le_value := v\<rparr>)) (m_Ring s)\<rparr>"
  note ix = lfu_ok_index [OF ok]
  obtain as bs where sp: "concat (m_Ring s) = as @ (i, e) # bs" using e by (meson split_list)
  have cs: "concat (m_Ring ?s) = as @ (i, ?e) # bs"
    using split_assign [of as i e bs ?e] index_ok_distinct_ids [OF ix] by (simp add: assign_concat sp)
  have same: "f = e" if "(i, f) \<in> set (m_Ring s ! b)" "b < length (m_Ring s)" for f b
  proof -
    have "(i, f) \<in> set (concat (m_Ring s))" using that unfolding in_ring by blast
    then show ?thesis using e index_ok_distinct_ids [OF ix] by (metis eq_key_imp_eq_value)
  qed
  have "ring_ok (m_Ring ?s)"
    unfolding ring_ok_def
  proof (intro allI impI ballI)
    fix b p assume b: "b < length (m_Ring ?s)" and p: "p \<in> set (m_Ring ?s ! b)"
    then obtain q where q: "q \<in> set (m_Ring s ! b)" "p = (fst q, if fst q = i then ?e else snd q)"
      by (auto simp: assign_def)
    have "bucket (snd q) = b" using ok b q(1) by (simp add: lfu_ok_def lfu_wf_def ring_ok_def)
    then show "bucket (snd p) = b" using q same [of "snd q" b] b by (cases q) auto
  qed
  moreover have ix': "index_ok le_key (m_Keys s) (concat (m_Ring ?s))"
    by (rule index_ok_cong [OF ix]) (simp only: cs sp, simp)
  moreover have "fst ` set (concat (m_Ring ?s)) = fst ` set (concat (m_Ring s))"
    unfolding cs sp by simp
  then have "\<forall>p \<in> set (concat (m_Ring ?s)). fst p < lfu_Next s"
    using ok unfolding lfu_ok_def lfu_wf_def by (metis (no_types, lifting) imageE imageI)
  ultimately have "lfu_ok ?s" using ok by (simp add: lfu_ok_def lfu_wf_def)
  moreover have "lfu_assign i v s = Inr ?s" using lfu_deref [OF lfu_ok_wf [OF ok], of i e] e by (simp add: lfu_assign_def)
  moreover have "lfu_nodes s = add_mset (i, e) (mset (as @ bs))" "lfu_nodes ?s = add_mset (i, ?e) (mset (as @ bs))"
    by (simp_all only: cs sp, simp_all)
  ultimately show ?thesis using that [of ?s "mset (as @ bs)"] by simp
qed

lemma lfu_Put_hit:
  assumes ok: "lfu_ok s" and i: "map_of (m_Keys s) k = Some i"
  shows "\<exists>s'. lfu_Put k v c s = Inr s' \<and> lfu_ok s' \<and> lfu_look s' = (lfu_look s)(k \<mapsto> v) \<and> lfu_MaxSize s' = lfu_MaxSize s"
proof -
  obtain e where e: "(i, e) \<in> set (concat (m_Ring s))" "le_key e = k" using lfu_find [OF lfu_ok_wf [OF ok] i] .
  let ?e = "e\<lparr>le_value := v\<rparr>"
  obtain s1 M where s1: "lfu_assign i v s = Inr s1" "lfu_ok s1" "lfu_MaxSize s1 = lfu_MaxSize s" "m_Cost s1 = m_Cost s"
    "lfu_nodes s = add_mset (i, e) M" "lfu_nodes s1 = add_mset (i, ?e) M"
    using lfu_assign_ok [OF ok e(1)] .
  have e1: "(i, ?e) \<in> set (concat (m_Ring s1))" using s1(6) by (metis set_mset_mset union_single_eq_member)
  let ?b = "?e\<lparr>bucket := boundInc (bucket ?e) (m_Cost s1) s1\<rparr>"
  obtain s2 N where s2: "ring_Refresh i (m_Cost s1) s1 = Inr s2" "lfu_ok s2" "lfu_MaxSize s2 = lfu_MaxSize s1"
    "lfu_nodes s1 = add_mset (i, ?e) N" "lfu_nodes s2 = add_mset (i, ?b) N"
    using ring_Refresh_ok [OF s1(2) e1] .
  have "N = M" using s1(6) s2(4) by simp
  have iff: "lfu_look t j = Some w \<longleftrightarrow> (j = le_key f \<and> w = le_value f) \<or> (\<exists>l g. (l, g) \<in># M \<and> le_key g = j \<and> le_value g = w)"
    if "lfu_ok t" "lfu_nodes t = add_mset (i, f) M" for t f j w
    unfolding lfu_look_iff [OF lfu_ok_index [OF that(1)]] that(2) by auto
  have no: "(l, g) \<in># M \<Longrightarrow> le_key g \<noteq> k" for l g
  proof -
    assume g: "(l, g) \<in># M"
    obtain xs where xs: "mset xs = M" using ex_mset by blast
    have "index_ok le_key (m_Keys s) ((i, e) # xs)"
      by (rule index_ok_perm [OF lfu_ok_index [OF ok]]) (simp only: s1(5) xs [symmetric] mset.simps)
    then show "le_key g \<noteq> k" using g xs e(2) unfolding index_ok_def by force
  qed
  have "lfu_look s2 j = Some w \<longleftrightarrow> ((lfu_look s)(k \<mapsto> v)) j = Some w" for j w
    using iff [OF s2(2), of ?b j w] iff [OF ok s1(5), of j w] s2(5) \<open>N = M\<close> no e(2)
    by (cases "j = k") auto
  then have "lfu_look s2 = (lfu_look s)(k \<mapsto> v)" by (intro ext) (metis option.exhaust)
  then show ?thesis using i s1 s2 by (simp add: lfu_Put_def)
qed

lemma lfu_Put_ok:
  assumes ok: "lfu_ok s"
  shows "\<exists>s'. lfu_Put k v c s = Inr s' \<and> lfu_ok s' \<and> lfu_look s' \<subseteq>\<^sub>m (lfu_look s)(k \<mapsto> v) \<and> lfu_MaxSize s' = lfu_MaxSize s"
proof (cases "map_of (m_Keys s) k")
  case (Some i)
  then show ?thesis using lfu_Put_hit [OF ok Some, of v c] by (metis map_le_refl)
next
  case None
  obtain s1 where s1: "lfu_Put k v c s = lfu_Shrink s1" "lfu_wf s1" "lfu_MaxSize s1 = lfu_MaxSize s"
    "length (m_Keys s1) = Suc (length (m_Keys s))" "lfu_look s1 = (lfu_look s)(k \<mapsto> v)"
    using lfu_Insert_wf [OF ok None] by metis
  show ?thesis
  proof (cases "length (m_Keys s1) \<le> lfu_MaxSize s1")
    case True
    then show ?thesis using s1 by (simp add: lfu_Shrink_def lfu_ok_def)
  next
    case False
    then have lt: "lfu_MaxSize s1 < length (m_Keys s1)" by simp
    have le: "length (m_Keys s1) \<le> Suc (lfu_MaxSize s1)" using s1(3,4) ok by (simp add: lfu_ok_def)
    obtain s' i e where "lfu_Shrink s1 = Inr s'" "lfu_ok s'" "lfu_MaxSize s' = lfu_MaxSize s1"
      "(i, e) \<in> set (concat (m_Ring s1))" "lfu_look s' = (lfu_look s1)(le_key e := None)"
      "\<forall>f \<in> snd ` set (concat (m_Ring s1)). lfu_dist s1 (bucket e) \<le> lfu_dist s1 (bucket f)"
      using lfu_Shrink_evicts [OF s1(2) lt le] .
    then show ?thesis using s1 by (auto simp: map_le_def)
  qed
qed

section \<open>The cache contract\<close>

lemma lfu_bounded: "lfu_ok s \<Longrightarrow> finite (dom (lfu_look s)) \<and> card (dom (lfu_look s)) \<le> lfu_MaxSize s"
proof -
  assume ok: "lfu_ok s"
  have "card (dom (lfu_look s)) \<le> length (lfu_entries s)"
    unfolding lfu_look_def dom_map_of_conv_image_fst by (metis card_length length_map set_map)
  moreover have "length (lfu_entries s) = length (m_Keys s)"
    using index_ok_size [OF lfu_ok_index [OF ok]] by (simp add: lfu_entries_def)
  ultimately show ?thesis using ok by (simp add: lfu_look_def lfu_ok_def finite_dom_map_of)
qed

interpretation lfu: cache_remove lfu_Get "\<lambda>k v. lfu_Put k v 1" lfu_look lfu_MaxSize lfu_ok lfu_Remove
proof (unfold_locales, goal_cases)
  case (1 s k)
  then show ?case by (rule lfu_Get_ok)
next
  case (2 s k v)
  then show ?case by (rule lfu_Put_ok)
next
  case (3 s)
  then show ?case by (rule lfu_bounded)
next
  case (4 s k)
  then show ?case using lfu_Remove_ok [of s k] by simp
qed

section \<open>Properties\<close>

text \<open>
  C32: storing a new key in a full LFU cache ends, keeps the invariant (the index covers exactly
  the entries of the ring, each in the bucket it names) and drops exactly one entry: one whose
  bucket is nearest ahead of the clock among all entries, the new one included.
\<close>

theorem lfu_put_evicts_nearest:
  assumes "lfu_ok s" and "lfu_look s k = None" and "lfu_Size s = lfu_MaxSize s"
  shows "\<exists>s' e. lfu_Put k v c s = Inr s' \<and> lfu_ok s'
    \<and> e \<in> insert (lfu_fresh k v c s) (snd ` set (concat (m_Ring s)))
    \<and> (\<forall>f \<in> insert (lfu_fresh k v c s) (snd ` set (concat (m_Ring s))). lfu_dist s (bucket e) \<le> lfu_dist s (bucket f))
    \<and> lfu_look s' = ((lfu_look s)(k \<mapsto> v))(le_key e := None)"
proof -
  have new: "map_of (m_Keys s) k = None" using assms(2) lfu_look_None [OF lfu_ok_index [OF assms(1)], of k] by simp
  obtain s1 where s1: "lfu_Put k v c s = lfu_Shrink s1" "lfu_wf s1" "lfu_MaxSize s1 = lfu_MaxSize s"
    "length (m_Keys s1) = Suc (length (m_Keys s))" "lfu_nodes s1 = add_mset (lfu_Next s, lfu_fresh k v c s) (lfu_nodes s)"
    "lfu_look s1 = (lfu_look s)(k \<mapsto> v)" "m_Clock s1 = m_Clock s" "length (m_Ring s1) = length (m_Ring s)"
    using lfu_Insert_wf [OF assms(1) new] .
  have lt: "lfu_MaxSize s1 < length (m_Keys s1)" and le: "length (m_Keys s1) \<le> Suc (lfu_MaxSize s1)"
    using s1(3,4) assms(3) by (simp_all add: lfu_Size_def)
  obtain s' i e where s': "lfu_Shrink s1 = Inr s'" "lfu_ok s'" "lfu_MaxSize s' = lfu_MaxSize s1"
    "(i, e) \<in> set (concat (m_Ring s1))" "lfu_look s' = (lfu_look s1)(le_key e := None)"
    "\<forall>f \<in> snd ` set (concat (m_Ring s1)). lfu_dist s1 (bucket e) \<le> lfu_dist s1 (bucket f)"
    using lfu_Shrink_evicts [OF s1(2) lt le] .
  have "set (concat (m_Ring s1)) = insert (lfu_Next s, lfu_fresh k v c s) (set (concat (m_Ring s)))"
    using arg_cong [OF s1(5), of set_mset] by (simp only: set_mset_mset set_mset_add_mset_insert)
  then have all: "snd ` set (concat (m_Ring s1)) = insert (lfu_fresh k v c s) (snd ` set (concat (m_Ring s)))" by simp
  have "e \<in> snd ` set (concat (m_Ring s1))" using s'(4) by force
  moreover have "lfu_dist s1 = lfu_dist s" using s1(7,8) by (simp add: lfu_dist_def fun_eq_iff)
  ultimately show ?thesis using s1(1,6) s'(1,2,5,6) unfolding all by auto
qed

theorem lfu_put_evicts_nearest_witness:
  "\<exists>s'. lfu_Put (2 :: nat) (20 :: nat) 1 \<lparr>m_Ring = [[], [(0, \<lparr>le_key = 1, le_value = 10, bucket = 1\<rparr>)]], m_Clock = 0,
      m_Keys = [(1, 0)], lfu_MaxSize = 1, m_Cost = 20, lfu_Next = 1\<rparr> = Inr s' \<and> lfu_ok s'"
  (is "\<exists>s'. lfu_Put _ _ _ ?s = _ \<and> _")
proof -
  have "lfu_ok ?s" by (simp add: lfu_ok_def lfu_wf_def index_ok_def ring_ok_def less_Suc_eq nth_Cons split: nat.splits)
  moreover have "lfu_look ?s 2 = None" "lfu_Size ?s = lfu_MaxSize ?s"
    by (simp_all add: lfu_look_def lfu_entries_def lfu_Size_def)
  ultimately show ?thesis using lfu_put_evicts_nearest [of ?s 2 20 1] by blast
qed

end
