(* ===== verification/Bloom.thy ===== *)
theory Bloom
  imports Prelude
begin

text \<open>
  The Bloom filter of \<open>bloom/Bloom.hpp\<close>: a bit set, and a filter of two sets that forgets old
  keys by clearing one of them after a number of insertions. The hash function of a key is a
  parameter; keys are given by the 32-bit words of their hash.
\<close>

section \<open>Set\<close>

record bloom_set =
  bs_Size :: u32
  bs_Data :: "byte list"

definition bs_new :: "u32 \<Rightarrow> bloom_set" where
  "bs_new aBits = \<lparr>bs_Size = aBits, bs_Data = replicate (unat aBits div 8) 0\<rparr>"

definition bs_prepare :: "nat \<Rightarrow> nat \<times> byte" where
  "bs_prepare aBit = (aBit div 8, push_bit (aBit mod 8) 1)"

text \<open>An index outside the vector is undefined, as is the remainder by a size of zero.\<close>

definition bs_set :: "nat \<Rightarrow> bloom_set \<Rightarrow> bloom_set result" where
  "bs_set aKey s =
     (let (aIndex, aByte) = bs_prepare aKey
      in if length (bs_Data s) \<le> aIndex then Inl Undefined
         else Inr (s\<lparr>bs_Data := (bs_Data s)[aIndex := bs_Data s ! aIndex OR aByte]\<rparr>))"

definition bs_get :: "nat \<Rightarrow> bloom_set \<Rightarrow> bool result" where
  "bs_get aKey s =
     (let (aIndex, aByte) = bs_prepare aKey
      in if length (bs_Data s) \<le> aIndex then Inl Undefined
         else Inr (bs_Data s ! aIndex AND aByte = aByte))"

fun bs_insert :: "u32 list \<Rightarrow> bloom_set \<Rightarrow> bloom_set result" where
  "bs_insert [] s = Inr s"
| "bs_insert (x # xs) s =
     (if bs_Size s = 0 then Inl Undefined
      else bindr (bs_set (unat (x mod bs_Size s)) s) (bs_insert xs))"

fun bs_test :: "u32 list \<Rightarrow> bloom_set \<Rightarrow> bool result" where
  "bs_test [] s = Inr True"
| "bs_test (x # xs) s =
     (if bs_Size s = 0 then Inl Undefined
      else bindr (bs_get (unat (x mod bs_Size s)) s) (\<lambda>b. if b then bs_test xs s else Inr False))"

definition bs_clear :: "bloom_set \<Rightarrow> bloom_set" where
  "bs_clear s = s\<lparr>bs_Data := map (\<lambda>_. 0) (bs_Data s)\<rparr>"

section \<open>Filter\<close>

record bloom_filter =
  m_Set1 :: bloom_set
  m_Set2 :: bloom_set
  m_Actual1 :: bool
  m_Counter :: u32
  m_Rotate :: u32

definition bf_new :: "u32 \<Rightarrow> u32 \<Rightarrow> bloom_filter" where
  "bf_new aBits aRotate =
     \<lparr>m_Set1 = bs_new aBits, m_Set2 = bs_new aBits, m_Actual1 = True, m_Counter = 0, m_Rotate = aRotate\<rparr>"

definition bf_Rotate :: "bloom_filter \<Rightarrow> bloom_filter" where
  "bf_Rotate f =
     (let f = (if m_Actual1 f then f\<lparr>m_Set1 := bs_clear (m_Set1 f)\<rparr> else f\<lparr>m_Set2 := bs_clear (m_Set2 f)\<rparr>)
      in f\<lparr>m_Actual1 := \<not> m_Actual1 f, m_Counter := 0\<rparr>)"

definition bf_Put :: "u32 list \<Rightarrow> bloom_filter \<Rightarrow> bloom_filter result" where
  "bf_Put aKey f =
     bindr (bs_insert aKey (m_Set1 f)) (\<lambda>s1.
     bindr (bs_insert aKey (m_Set2 f)) (\<lambda>s2.
       let f = f\<lparr>m_Set1 := s1, m_Set2 := s2, m_Counter := m_Counter f + 1\<rparr>
       in Inr (if m_Rotate f < m_Counter f then bf_Rotate f else f)))"

definition bf_actual :: "bloom_filter \<Rightarrow> bloom_set" where
  "bf_actual f = (if m_Actual1 f then m_Set1 f else m_Set2 f)"

definition bf_Check :: "u32 list \<Rightarrow> bloom_filter \<Rightarrow> bool result" where
  "bf_Check aKey f = bs_test aKey (bf_actual f)"

fun bf_puts :: "u32 list list \<Rightarrow> bloom_filter \<Rightarrow> bloom_filter result" where
  "bf_puts [] f = Inr f"
| "bf_puts (k # ks) f = bindr (bf_Put k f) (bf_puts ks)"

section \<open>The bits of a set\<close>

definition bs_ok :: "bloom_set \<Rightarrow> bool" where
  "bs_ok s \<longleftrightarrow> 0 < bs_Size s \<and> unat (bs_Size s) mod 8 = 0 \<and> length (bs_Data s) = unat (bs_Size s) div 8"

definition bs_bit :: "bloom_set \<Rightarrow> nat \<Rightarrow> bool" where
  "bs_bit s n \<longleftrightarrow> bit (bs_Data s ! (n div 8)) (n mod 8)"

definition bs_all :: "u32 list \<Rightarrow> bloom_set \<Rightarrow> bool" where
  "bs_all xs s \<longleftrightarrow> (\<forall>x \<in> set xs. bs_bit s (unat (x mod bs_Size s)))"

lemma bs_index:
  assumes "bs_ok s"
  shows "unat (x mod bs_Size s) div 8 < length (bs_Data s)" "bs_Size s \<noteq> 0"
proof -
  have "0 < unat (bs_Size s)" using assms by (simp add: bs_ok_def word_less_nat_alt)
  then have "unat (x mod bs_Size s) < unat (bs_Size s)" by (simp add: unat_mod)
  moreover have "unat (bs_Size s) = length (bs_Data s) * 8" using assms by (auto simp: bs_ok_def)
  ultimately show "unat (x mod bs_Size s) div 8 < length (bs_Data s)" by (simp add: less_mult_imp_div_less)
  show "bs_Size s \<noteq> 0" using assms by (auto simp: bs_ok_def)
qed

lemma byte_pow: "n < 8 \<Longrightarrow> bit ((2 :: byte) ^ n) m \<longleftrightarrow> m = n"
  by (auto simp: bit_exp_iff)

lemma byte_mask_test:
  assumes "n < 8"
  shows "(b AND 2 ^ n = (2 :: byte) ^ n) \<longleftrightarrow> bit b n"
proof
  assume "b AND 2 ^ n = (2 :: byte) ^ n"
  then have "bit (b AND 2 ^ n) n" using byte_pow [OF assms, of n] by simp
  then show "bit b n" by (simp add: bit_and_iff)
next
  assume "bit b n"
  then show "b AND 2 ^ n = (2 :: byte) ^ n" by (intro bit_eqI) (auto simp only: bit_and_iff byte_pow [OF assms])
qed

lemma bs_get_bit: "n div 8 < length (bs_Data s) \<Longrightarrow> bs_get n s = Inr (bs_bit s n)"
  by (simp add: bs_get_def bs_prepare_def bs_bit_def byte_mask_test)

lemma bs_set_bit:
  assumes "n div 8 < length (bs_Data s)"
  shows "\<exists>s'. bs_set n s = Inr s' \<and> bs_Size s' = bs_Size s \<and> length (bs_Data s') = length (bs_Data s)
    \<and> (\<forall>m. bs_bit s' m \<longleftrightarrow> bs_bit s m \<or> m = n)"
proof -
  let ?s = "s\<lparr>bs_Data := (bs_Data s)[n div 8 := bs_Data s ! (n div 8) OR push_bit (n mod 8) 1]\<rparr>"
  have b: "bit ((2 :: byte) ^ (n mod 8)) k \<longleftrightarrow> k = n mod 8" for k by (rule byte_pow) simp
  have "bs_bit ?s m \<longleftrightarrow> bs_bit s m \<or> m = n" for m
  proof (cases "m div 8 = n div 8")
    case True
    then have "m = n \<longleftrightarrow> m mod 8 = n mod 8" by (metis div_mult_mod_eq)
    then show ?thesis using assms True by (simp add: bs_bit_def bit_or_iff b)
  qed (auto simp: bs_bit_def)
  then show ?thesis using assms by (simp add: bs_set_def bs_prepare_def)
qed

lemma bs_test_all: "bs_ok s \<Longrightarrow> bs_test xs s = Inr (bs_all xs s)"
  by (induction xs) (simp_all add: bs_all_def bs_index bs_get_bit)

lemma bs_insert_all:
  "bs_ok s \<Longrightarrow> \<exists>s'. bs_insert xs s = Inr s' \<and> bs_ok s' \<and> bs_Size s' = bs_Size s \<and> bs_all xs s'
     \<and> (\<forall>m. bs_bit s m \<longrightarrow> bs_bit s' m)"
proof (induction xs arbitrary: s)
  case (Cons x xs)
  let ?n = "unat (x mod bs_Size s)"
  obtain s1 where s1: "bs_set ?n s = Inr s1" "bs_Size s1 = bs_Size s" "length (bs_Data s1) = length (bs_Data s)"
    "\<forall>m. bs_bit s1 m \<longleftrightarrow> bs_bit s m \<or> m = ?n"
    using bs_set_bit [OF bs_index(1) [OF Cons.prems]] by blast
  have "bs_ok s1" using Cons.prems s1(2,3) by (simp add: bs_ok_def)
  from Cons.IH [OF this] obtain s2 where s2: "bs_insert xs s1 = Inr s2" "bs_ok s2" "bs_Size s2 = bs_Size s1"
    "bs_all xs s2" "\<forall>m. bs_bit s1 m \<longrightarrow> bs_bit s2 m" by blast
  have "bs_bit s2 ?n" using s1(4) s2(5) by blast
  moreover have "\<forall>m. bs_bit s m \<longrightarrow> bs_bit s2 m" using s1(4) s2(5) by blast
  ultimately show ?case using s1 s2 bs_index(2) [OF Cons.prems] by (simp add: bs_all_def)
qed (simp add: bs_all_def)

lemma bs_all_mono: "bs_all xs s \<Longrightarrow> bs_Size s' = bs_Size s \<Longrightarrow> \<forall>m. bs_bit s m \<longrightarrow> bs_bit s' m \<Longrightarrow> bs_all xs s'"
  by (simp add: bs_all_def)

lemma bs_clear_ok: "bs_ok s \<Longrightarrow> bs_ok (bs_clear s)"
  by (simp add: bs_ok_def bs_clear_def)

lemma bs_new_ok: "0 < n \<Longrightarrow> unat n mod 8 = 0 \<Longrightarrow> bs_ok (bs_new n)"
  by (simp add: bs_ok_def bs_new_def)

section \<open>The window of the filter\<close>

definition bf_ok :: "bloom_filter \<Rightarrow> bool" where
  "bf_ok f \<longleftrightarrow> bs_ok (m_Set1 f) \<and> bs_ok (m_Set2 f) \<and> m_Counter f \<le> m_Rotate f"

text \<open>
  \<open>bf_has k j f\<close>: the key is in both sets, or it is in the set in use and that set became the one
  in use at most \<open>j\<close> insertions ago.
\<close>

definition bf_has :: "u32 list \<Rightarrow> nat \<Rightarrow> bloom_filter \<Rightarrow> bool" where
  "bf_has k j f \<longleftrightarrow> bs_all k (m_Set1 f) \<and> bs_all k (m_Set2 f) \<or> bs_all k (bf_actual f) \<and> unat (m_Counter f) \<le> j"

lemma bf_Put_ok:
  assumes "bf_ok f"
  shows "\<exists>f'. bf_Put x f = Inr f' \<and> bf_ok f' \<and> m_Rotate f' = m_Rotate f \<and> bf_has x 0 f'
    \<and> (\<forall>k j. bf_has k j f \<and> j < unat (m_Rotate f) \<longrightarrow> bf_has k (Suc j) f')"
proof -
  obtain s1 where s1: "bs_insert x (m_Set1 f) = Inr s1" "bs_ok s1" "bs_Size s1 = bs_Size (m_Set1 f)" "bs_all x s1"
    "\<forall>m. bs_bit (m_Set1 f) m \<longrightarrow> bs_bit s1 m"
    using bs_insert_all [of "m_Set1 f" x] assms by (auto simp: bf_ok_def)
  obtain s2 where s2: "bs_insert x (m_Set2 f) = Inr s2" "bs_ok s2" "bs_Size s2 = bs_Size (m_Set2 f)" "bs_all x s2"
    "\<forall>m. bs_bit (m_Set2 f) m \<longrightarrow> bs_bit s2 m"
    using bs_insert_all [of "m_Set2 f" x] assms by (auto simp: bf_ok_def)
  note mono = bs_all_mono [OF _ s1(3,5)] bs_all_mono [OF _ s2(3,5)]
  let ?f = "f\<lparr>m_Set1 := s1, m_Set2 := s2, m_Counter := m_Counter f + 1\<rparr>"
  show ?thesis
  proof (cases "m_Rotate f < m_Counter f + 1")
    case False
    then have put: "bf_Put x f = Inr ?f" using s1(1) s2(1) by (simp add: bf_Put_def)
    have "unat (m_Counter f + 1) \<le> Suc (unat (m_Counter f))" by (simp add: unat_word_ariths)
    then have "bf_has k (Suc j) ?f" if "bf_has k j f" for k j
      using that mono by (auto simp: bf_has_def bf_actual_def)
    then show ?thesis using put False s1 s2 by (auto simp: bf_ok_def bf_has_def)
  next
    case True
    then have put: "bf_Put x f = Inr (bf_Rotate ?f)" using s1(1) s2(1) by (simp add: bf_Put_def)
    have ok: "bf_ok (bf_Rotate ?f)" using s1(2) s2(2) by (simp add: bf_ok_def bf_Rotate_def bs_clear_ok)
    have c: "unat (m_Rotate f) \<le> unat (m_Counter f)"
      using True assms by (metis bf_ok_def inc_le linorder_not_less order.strict_iff_order word_le_nat_alt)
    have "bf_has k (Suc j) (bf_Rotate ?f)" if "bf_has k j f" "j < unat (m_Rotate f)" for k j
      using that mono c by (auto simp: bf_has_def bf_actual_def bf_Rotate_def)
    moreover have "bf_has x 0 (bf_Rotate ?f)" using s1(4) s2(4) by (simp add: bf_has_def bf_actual_def bf_Rotate_def)
    ultimately show ?thesis using put ok by (simp add: bf_Rotate_def)
  qed
qed

lemma bf_puts_ok:
  assumes "bf_ok f" and "bf_has k j f" and "j + length ks \<le> unat (m_Rotate f)"
  shows "\<exists>f'. bf_puts ks f = Inr f' \<and> bf_ok f' \<and> bf_has k (j + length ks) f'"
  using assms
proof (induction ks arbitrary: f j)
  case (Cons x ks)
  obtain f1 where f1: "bf_Put x f = Inr f1" "bf_ok f1" "m_Rotate f1 = m_Rotate f" "bf_has k (Suc j) f1"
    using bf_Put_ok [OF Cons.prems(1), of x] Cons.prems(2,3) by auto
  then show ?case using Cons.IH [of f1 "Suc j"] Cons.prems(3) by auto
qed simp

section \<open>Properties\<close>

text \<open>
  C33: a key that was put in the filter is reported as seen after up to \<open>m_Rotate\<close> further
  insertions of any keys, whatever rotations happen between: the filter has no false negatives in
  this window, and never touches memory outside its sets.
\<close>

theorem bloom_window:
  assumes "bf_ok f" and "length ks \<le> unat (m_Rotate f)"
  shows "\<exists>f1 f2. bf_Put k f = Inr f1 \<and> bf_puts ks f1 = Inr f2 \<and> bf_ok f2 \<and> bf_Check k f2 = Inr True"
proof -
  obtain f1 where f1: "bf_Put k f = Inr f1" "bf_ok f1" "m_Rotate f1 = m_Rotate f" "bf_has k 0 f1"
    using bf_Put_ok [OF assms(1), of k] by blast
  obtain f2 where f2: "bf_puts ks f1 = Inr f2" "bf_ok f2" "bf_has k (length ks) f2"
    using bf_puts_ok [OF f1(2,4), of ks] f1(3) assms(2) by auto
  then have "bs_all k (bf_actual f2)" "bs_ok (bf_actual f2)"
    by (auto simp: bf_has_def bf_actual_def bf_ok_def)
  then have "bf_Check k f2 = Inr True" by (simp add: bf_Check_def bs_test_all)
  with f1 f2 show ?thesis by blast
qed

theorem bloom_window_witness:
  "\<exists>f1 f2. bf_Put [3, 77] (bf_new 16 2) = Inr f1 \<and> bf_puts [[1], [2]] f1 = Inr f2 \<and> bf_Check [3, 77] f2 = Inr True"
proof -
  have "bf_ok (bf_new 16 2)" by (simp add: bf_ok_def bf_new_def bs_new_ok)
  from bloom_window [OF this, of "[[1], [2]]" "[3, 77]"] show ?thesis by (auto simp: bf_new_def)
qed

end
