(* ===== verification/Cache_Expire.thy ===== *)
theory Cache_Expire
  imports Cache_SLru Cache_Lfu Bloom
begin

text \<open>
  \<open>Cache::ExpirationAdapter\<close> (\<open>cache/Expiration.hpp\<close>) over any cache, and \<open>Cache::BF_LFU\<close>, the
  LFU cache behind a Bloom filter. The operations of the cache below the adapter are arguments,
  as the cache is a template parameter of the class; its contract is \<open>cache_remove\<close>.
\<close>

section \<open>ExpirationAdapter\<close>

record 'v exp_entry =
  created_at :: u64
  exp_value :: 'v

definition exp_Get ::
  "('k \<Rightarrow> 's \<Rightarrow> ('v exp_entry option \<times> 's) result) \<Rightarrow> ('k \<Rightarrow> 's \<Rightarrow> 's result) \<Rightarrow> u64 \<Rightarrow> 'k \<Rightarrow> u64 \<Rightarrow> 's \<Rightarrow> ('v option \<times> 's) result" where
  "exp_Get cget cremove m_Deadline aKey aNow s =
     bindr (cget aKey s) (\<lambda>(sPtr, s).
       case sPtr of
         None \<Rightarrow> Inr (None, s)
       | Some e \<Rightarrow>
           if created_at e + m_Deadline \<le> aNow
           then bindr (cremove aKey s) (\<lambda>s. Inr (None, s))
           else Inr (Some (exp_value e), s))"

definition exp_Put :: "('k \<Rightarrow> 'v exp_entry \<Rightarrow> 's \<Rightarrow> 's result) \<Rightarrow> 'k \<Rightarrow> 'v \<Rightarrow> u64 \<Rightarrow> 's \<Rightarrow> 's result" where
  "exp_Put cput aKey aValue aNow s = cput aKey \<lparr>created_at = aNow, exp_value = aValue\<rparr> s"

definition exp_Remove :: "('k \<Rightarrow> 's \<Rightarrow> 's result) \<Rightarrow> 'k \<Rightarrow> 's \<Rightarrow> 's result" where
  "exp_Remove cremove aKey s = cremove aKey s"

text \<open>What a lookup means: the stored entry, while it is younger than the deadline.\<close>

definition exp_fresh :: "u64 \<Rightarrow> u64 \<Rightarrow> 'v exp_entry option \<Rightarrow> 'v option" where
  "exp_fresh d now r = (case r of Some e \<Rightarrow> if now < created_at e + d then Some (exp_value e) else None | None \<Rightarrow> None)"

definition exp_keep :: "u64 \<Rightarrow> u64 \<Rightarrow> 'k \<Rightarrow> ('k \<Rightarrow> 'v exp_entry option) \<Rightarrow> 'k \<Rightarrow> 'v exp_entry option" where
  "exp_keep d now k m = (if exp_fresh d now (m k) = None then m(k := None) else m)"

text \<open>A cache whose values carry their time.\<close>

locale expiring_cache = cache_remove get put look cap ok remove
  for get :: "'k \<Rightarrow> 's \<Rightarrow> ('w exp_entry option \<times> 's) result" and put and look and cap and ok and remove
begin

lemma exp_Get_spec:
  assumes "ok s"
  shows "\<exists>s'. exp_Get get remove d k now s = Inr (exp_fresh d now (look s k), s')
    \<and> ok s' \<and> look s' = exp_keep d now k (look s) \<and> cap s' = cap s"
proof -
  obtain s1 where s1: "get k s = Inr (look s k, s1)" "ok s1" "look s1 = look s" "cap s1 = cap s"
    using get_spec [OF assms] by blast
  show ?thesis
  proof (cases "look s k")
    case None
    then show ?thesis using s1 by (auto simp: exp_Get_def exp_fresh_def exp_keep_def fun_eq_iff)
  next
    case (Some e)
    then obtain s2 where s2: "remove k s1 = Inr s2" "ok s2" "look s2 = (look s)(k := None)" "cap s2 = cap s"
      using remove_spec [OF s1(2), of k] s1(3,4) by auto
    show ?thesis
      using Some s1 s2 by (cases "created_at e + d \<le> now")
        (auto simp: exp_Get_def exp_fresh_def exp_keep_def fun_eq_iff not_le)
  qed
qed

text \<open>A value read back right after it was stored is the stored one, or the entry was dropped or is old.\<close>

lemma exp_Put_Get:
  assumes "ok s" and "exp_Put put k v t s = Inr s1" and "exp_Get get remove d k now s1 = Inr (r, s2)"
  shows "r = None \<or> r = Some v \<and> now < t + d"
proof -
  have "look s1 k \<in> {None, Some \<lparr>created_at = t, exp_value = v\<rparr>}" "ok s1"
    using put_not_stale [OF assms(1)] assms(2) by (simp_all add: exp_Put_def)
  moreover have "r = exp_fresh d now (look s1 k)"
    using exp_Get_spec [OF \<open>ok s1\<close>, of d k now] assms(3) by auto
  ultimately show ?thesis by (auto simp: exp_fresh_def split: if_splits)
qed

end

interpretation lru_exp: expiring_cache lru_Get lru_Put lru_look lru_MaxSize lru_ok lru_Remove
  by unfold_locales

interpretation lfu_exp: expiring_cache lfu_Get "\<lambda>k v. lfu_Put k v 1" lfu_look lfu_MaxSize lfu_ok lfu_Remove
  by unfold_locales

section \<open>BF_LFU\<close>

record ('k, 'v) bf_lfu =
  bf_Parent :: "('k, 'v) lfu"
  m_Bloom :: bloom_filter

definition bf_lfu_Put :: "('k \<Rightarrow> u32 list) \<Rightarrow> 'k \<Rightarrow> 'v \<Rightarrow> ('k, 'v) bf_lfu \<Rightarrow> ('k, 'v) bf_lfu result" where
  "bf_lfu_Put hash aKey aValue s =
     (let sHash = hash aKey; p = bf_Parent s
      in bindr (bf_Check sHash (m_Bloom s)) (\<lambda>seen.
           if \<not> seen then
             bindr (bf_Put sHash (m_Bloom s)) (\<lambda>b.
               if lfu_MaxSize p \<le> lfu_Size p then Inr (s\<lparr>m_Bloom := b\<rparr>)
               else bindr (lfu_Put aKey aValue 1 p) (\<lambda>p. Inr (s\<lparr>bf_Parent := p, m_Bloom := b\<rparr>)))
           else bindr (lfu_Put aKey aValue ((1 + m_Cost p) mod 2 ^ 32) p) (\<lambda>p. Inr (s\<lparr>bf_Parent := p\<rparr>))))"

text \<open>
  A key that the filter does not know is not stored in a full cache, also when an older value of
  the key is cached: that value stays.
\<close>

lemma bf_lfu_Put_ok:
  assumes "lfu_ok (bf_Parent s)" and "bf_ok (m_Bloom s)"
  shows "\<exists>s'. bf_lfu_Put hash k v s = Inr s' \<and> lfu_ok (bf_Parent s') \<and> bf_ok (m_Bloom s')
    \<and> (lfu_look (bf_Parent s') \<subseteq>\<^sub>m (lfu_look (bf_Parent s))(k \<mapsto> v) \<or> bf_Parent s' = bf_Parent s)"
proof -
  have "bf_Check (hash k) (m_Bloom s) = Inr (bs_all (hash k) (bf_actual (m_Bloom s)))"
    using assms(2) by (simp add: bf_Check_def bs_test_all bf_actual_def bf_ok_def)
  then show ?thesis
    using bf_Put_ok [OF assms(2), of "hash k"] lfu_Put_ok [OF assms(1), of k v 1]
      lfu_Put_ok [OF assms(1), of k v "(1 + m_Cost (bf_Parent s)) mod 2 ^ 32"] assms
    by (cases "bs_all (hash k) (bf_actual (m_Bloom s))"; cases "lfu_MaxSize (bf_Parent s) \<le> lfu_Size (bf_Parent s)")
      (auto simp: bf_lfu_Put_def Let_def)
qed

section \<open>Properties\<close>

text \<open>
  over the LRU and the LFU cache, \<open>Get\<close> of the adapter never fails and returns the stored
  value exactly while it is younger than the deadline; an entry found too old is removed from the
  cache, every other entry stays, and the invariant of the cache below is kept.
\<close>

theorem expiration_get:
  "(\<forall>s. lru_ok s \<longrightarrow> (\<exists>s'. exp_Get lru_Get lru_Remove d k now s = Inr (exp_fresh d now (lru_look s k), s')
      \<and> lru_ok s' \<and> lru_look s' = exp_keep d now k (lru_look s)))
   \<and> (\<forall>s. lfu_ok s \<longrightarrow> (\<exists>s'. exp_Get lfu_Get lfu_Remove d k now s = Inr (exp_fresh d now (lfu_look s k), s')
      \<and> lfu_ok s' \<and> lfu_look s' = exp_keep d now k (lfu_look s)))"
  using lru_exp.exp_Get_spec [where d = d and k = k and now = now]
    lfu_exp.exp_Get_spec [where d = d and k = k and now = now] by metis

theorem expiration_get_witness:
  "\<exists>s'. exp_Get lru_Get lru_Remove 2 (1 :: nat) 5 (lru_new 3 :: (nat, nat exp_entry) lru) = Inr (None, s') \<and> lru_ok s'"
proof -
  have "lru_ok (lru_new 3 :: (nat, nat exp_entry) lru)" by (rule lru_new_ok)
  moreover have "lru_look (lru_new 3 :: (nat, nat exp_entry) lru) 1 = None" by (simp add: lru_look_def lru_new_ok)
  ultimately show ?thesis
    using expiration_get [of 2 "1 :: nat" 5, where ?'b = nat] by (auto simp: exp_fresh_def dest!: spec)
qed

text \<open>
  Over the segmented cache the adapter does not work: \<open>Get\<close> of an entry that is too old moves
  the entry to the protected segment and the removal that follows throws \<open>logic_error\<close>, for every
  state of the cache and every such key.
\<close>

theorem expiration_slru_throws:
  assumes "slru_ok s" and "slru_look s k = Some e" and "created_at e + d \<le> now"
  shows "exp_Get slru_Get slru_Remove d k now s = Inl (LogicError ''S_LRU::Remove on protected list'')"
proof -
  obtain i where i: "map_of (slru_Index s) k = Some i"
    using slru_miss [OF assms(1), of k] assms(2) by (auto simp: slru_look_def)
  obtain s' where s': "slru_Update i s = Inr s'" "slru_hit_post k i s s'" using slru_hit [OF assms(1) i] by blast
  then obtain f Q where Q: "m_Protected s' = (i, f) # Q" "se_key f = k" "se_value f = e" "slru_ok s'"
    using assms(2) by (auto simp: slru_hit_post_def slru_look_def)
  have "slru_Get k s = Inr (Some e, s')"
    using i s'(1) Q by (simp add: slru_Get_def slru_deref_def deref_def)
  moreover have "map_of (fst (slru_abs s')) k \<noteq> None" by (simp add: slru_abs_def Q kv_def)
  then have "seg_Remove k (slru_abs s') = Inl (LogicError ''S_LRU::Remove on protected list'')"
    by (auto simp: seg_Remove_def seg_look_def map_add_def split: option.splits)
  then have "slru_Remove k s' = Inl (LogicError ''S_LRU::Remove on protected list'')"
    using slru_Remove_refines [OF Q(4), of k] by simp
  ultimately show ?thesis using assms(3) by (simp add: exp_Get_def)
qed

theorem expiration_slru_throws_witness:
  "exp_Get slru_Get slru_Remove 2 (1 :: nat) 9 \<lparr>m_Normal = [(0, \<lparr>se_key = 1, se_value = \<lparr>created_at = 5, exp_value = 7 :: nat\<rparr>, se_prot = False\<rparr>)],
      m_Protected = [], slru_Index = [(1, 0)], slru_MaxSize = 4, slru_Next = 1\<rparr>
    = Inl (LogicError ''S_LRU::Remove on protected list'')"
  by (rule expiration_slru_throws [where e = "\<lparr>created_at = 5, exp_value = 7\<rparr>"])
    (simp_all add: slru_ok_def index_ok_def slru_look_def seg_look_def slru_abs_def kv_def)

end
