(* ===== verification/Containers.thy ===== *)
theory Containers
  imports Prelude
begin

text \<open>
  The containers of \<open>container/\<close>: algorithms on maps and vectors, pools, the request queue with
  deadlines, the list of arrays and its iterators, the collector of batches, and the session
  store. Times are arguments, in the unit the code reads them.
\<close>

section \<open>Algorithm.hpp\<close>

text \<open>\<open>discard_if\<close> on a container whose iterators survive the erasure of other elements.\<close>

fun discard_if :: "('a \<Rightarrow> bool) \<Rightarrow> 'a list \<Rightarrow> 'a list" where
  "discard_if pred [] = []"
| "discard_if pred (x # c) = (if pred x then discard_if pred c else x # discard_if pred c)"

text \<open>Two positions walk over two ordered maps; a new entry goes in front of the first position.\<close>

fun merge :: "('v \<Rightarrow> 'v \<Rightarrow> 'v) \<Rightarrow> ('k::linorder \<times> 'v) list \<Rightarrow> ('k \<times> 'v) list \<Rightarrow> ('k \<times> 'v) list" where
  "merge merger [] source = source"
| "merge merger dest [] = dest"
| "merge merger ((k1, v1) # dest) ((k2, v2) # source) =
     (if k1 < k2 then (k1, v1) # merge merger dest ((k2, v2) # source)
      else if k2 < k1 then (k2, v2) # merge merger ((k1, v1) # dest) source
      else (k1, merger v1 v2) # merge merger dest source)"

definition is_unique :: "'a list \<Rightarrow> bool" where
  "is_unique aData \<longleftrightarrow> list_all (\<lambda>i. list_all (\<lambda>j. aData ! i \<noteq> aData ! j) [i + 1..<length aData]) [0..<length aData]"

definition sort_unique :: "'a::linorder list \<Rightarrow> 'a list" where
  "sort_unique aData = remdups_adj (sort aData)"

section \<open>Pool.hpp\<close>

record 'a pool_data =
  timestamp :: int
  pool_item :: 'a

type_synonym 'a pool = "'a pool_data list"

definition pool_get :: "'a pool \<Rightarrow> 'a option \<times> 'a pool" where
  "pool_get s = (if s = [] then (None, s) else (Some (pool_item (last s)), butlast s))"

text \<open>\<open>insert\<close> takes the pointer over: the one of the caller is reset.\<close>

definition pool_insert :: "int \<Rightarrow> 'a \<Rightarrow> 'a pool \<Rightarrow> 'a pool" where
  "pool_insert now p s = s @ [\<lparr>timestamp = now, pool_item = p\<rparr>]"

fun pool_cleanup :: "int \<Rightarrow> int \<Rightarrow> 'a pool \<Rightarrow> 'a pool" where
  "pool_cleanup sNow aTimeout [] = []"
| "pool_cleanup sNow aTimeout (d # s) =
     (if timestamp d + aTimeout < sNow then pool_cleanup sNow aTimeout s else d # s)"

type_synonym ('k, 'a) key_pool = "('k \<times> 'a pool) list"

definition kp_get :: "'k::linorder \<Rightarrow> ('k, 'a) key_pool \<Rightarrow> 'a option \<times> ('k, 'a) key_pool" where
  "kp_get aKey m =
     (case map_of m aKey of
        None \<Rightarrow> (None, m)
      | Some s \<Rightarrow> let (r, s) = pool_get s in (r, omap_put aKey s m))"

definition kp_insert :: "int \<Rightarrow> 'k::linorder \<Rightarrow> 'a \<Rightarrow> ('k, 'a) key_pool \<Rightarrow> ('k, 'a) key_pool" where
  "kp_insert now aKey p m =
     omap_put aKey (pool_insert now p (case map_of m aKey of Some s \<Rightarrow> s | None \<Rightarrow> [])) m"

text \<open>The predicate is \<open>empty() == 0\<close>: the pools that still hold something are discarded.\<close>

definition kp_cleanup :: "int \<Rightarrow> int \<Rightarrow> ('k, 'a) key_pool \<Rightarrow> ('k, 'a) key_pool" where
  "kp_cleanup sNow aTimeout m =
     discard_if (\<lambda>(k, s). s \<noteq> []) (map (\<lambda>(k, s). (k, pool_cleanup sNow aTimeout s)) m)"

definition kp_size :: "('k, 'a) key_pool \<Rightarrow> nat" where
  "kp_size m = sum_list (map (\<lambda>(k, s). length s) m)"

definition produce_get :: "(unit \<Rightarrow> 'a) \<Rightarrow> ('a \<Rightarrow> bool) \<Rightarrow> 'a pool \<Rightarrow> 'a \<times> 'a pool" where
  "produce_get m_Create m_Check s =
     (let (sItem, s) = pool_get s
      in case sItem of
           Some x \<Rightarrow> if m_Check x then (x, s) else (m_Create (), s)
         | None \<Rightarrow> (m_Create (), s))"

section \<open>RequestQueue.hpp\<close>

record 'v rq_rec =
  serial :: u64
  deadline :: u64
  rq_value :: 'v

text \<open>
  The store is the list of its records in order of insertion. The index by serial is unique, so an
  insertion with a serial in use fails; both indices iterate in the order of their key, records
  with an equal deadline in order of insertion.
\<close>

record 'v request_queue =
  rq_Store :: "'v rq_rec list"
  rq_Serial :: u64

definition rq_new :: "'v request_queue" where
  "rq_new = \<lparr>rq_Store = [], rq_Serial = 0\<rparr>"

fun min_first :: "('a \<Rightarrow> 'b::linorder) \<Rightarrow> 'a \<Rightarrow> 'a list \<Rightarrow> 'a" where
  "min_first f x [] = x"
| "min_first f x (y # ys) = (if f y < f x then min_first f y ys else min_first f x ys)"

definition rq_insert :: "u64 \<Rightarrow> 'v \<Rightarrow> u64 \<Rightarrow> 'v request_queue \<Rightarrow> u64 \<times> 'v request_queue" where
  "rq_insert sNow aValue aTimeoutMs q =
     (let sID = rq_Serial q;
          r = \<lparr>serial = sID, deadline = sNow + aTimeoutMs, rq_value = aValue\<rparr>
      in (sID, q\<lparr>rq_Serial := sID + 1,
                 rq_Store := (if list_ex (\<lambda>x. serial x = sID) (rq_Store q) then rq_Store q else rq_Store q @ [r])\<rparr>))"

lemma min_first_in: "min_first f x ys \<in> set (x # ys)"
  by (induction ys arbitrary: x) auto

text \<open>\<open>get\<close>: the values given to the handler, the result, and the store that is left.\<close>

function rq_get_loop :: "u64 \<Rightarrow> 'v rq_rec list \<Rightarrow> 'v list \<times> 'v option \<times> 'v rq_rec list" where
  "rq_get_loop sNow [] = ([], None, [])"
| "rq_get_loop sNow (x # xs) =
     (let r = min_first serial x xs
      in if deadline r \<le> sNow
         then let (h, v, s) = rq_get_loop sNow (remove1 r (x # xs)) in (rq_value r # h, v, s)
         else ([], Some (rq_value r), remove1 r (x # xs)))"
  by pat_completeness auto

termination
proof (relation "measure (\<lambda>(_, xs). length xs)", goal_cases)
  case (2 sNow x xs r)
  then have "r \<in> set (x # xs)" using min_first_in [of serial x xs] by simp
  then have "length (remove1 r (x # xs)) < length (x # xs)" by (simp only: length_remove1 if_True) simp
  then show ?case by simp
qed simp

declare rq_get_loop.simps [simp del]

definition rq_get :: "u64 \<Rightarrow> 'v request_queue \<Rightarrow> 'v list \<times> 'v option \<times> 'v request_queue" where
  "rq_get sNow q = (let (h, v, s) = rq_get_loop sNow (rq_Store q) in (h, v, q\<lparr>rq_Store := s\<rparr>))"

definition rq_eta :: "u64 \<Rightarrow> u64 \<Rightarrow> 'v request_queue \<Rightarrow> u64" where
  "rq_eta sNow aDefault q =
     (case rq_Store q of
        [] \<Rightarrow> aDefault
      | x # xs \<Rightarrow> let d = deadline (min_first deadline x xs) in min aDefault (if sNow < d then d - sNow else 0))"

function rq_timer_loop :: "u64 \<Rightarrow> 'v rq_rec list \<Rightarrow> 'v list \<times> 'v rq_rec list" where
  "rq_timer_loop sNow [] = ([], [])"
| "rq_timer_loop sNow (x # xs) =
     (let r = min_first deadline x xs
      in if deadline r \<le> sNow
         then let (h, s) = rq_timer_loop sNow (remove1 r (x # xs)) in (rq_value r # h, s)
         else ([], x # xs))"
  by pat_completeness auto

termination
proof (relation "measure (\<lambda>(_, xs). length xs)", goal_cases)
  case (2 sNow x xs r)
  then have "r \<in> set (x # xs)" using min_first_in [of deadline x xs] by simp
  then have "length (remove1 r (x # xs)) < length (x # xs)" by (simp only: length_remove1 if_True) simp
  then show ?case by simp
qed simp

declare rq_timer_loop.simps [simp del]

definition rq_on_timer :: "u64 \<Rightarrow> 'v request_queue \<Rightarrow> 'v list \<times> 'v request_queue" where
  "rq_on_timer sNow q = (let (h, s) = rq_timer_loop sNow (rq_Store q) in (h, q\<lparr>rq_Store := s\<rparr>))"

definition rq_size :: "'v request_queue \<Rightarrow> nat" where
  "rq_size q = length (rq_Store q)"

section \<open>Collect.hpp\<close>

text \<open>The batches given to the handler are collected in \<open>co_Batches\<close>.\<close>

record 'a collect =
  co_Max :: nat
  co_Buffer :: "'a list"
  co_Batches :: "'a list list"

definition co_new :: "nat \<Rightarrow> 'a collect" where
  "co_new aMax = \<lparr>co_Max = aMax, co_Buffer = [], co_Batches = []\<rparr>"

definition co_flush :: "'a collect \<Rightarrow> 'a collect" where
  "co_flush c = (if co_Buffer c = [] then c else c\<lparr>co_Batches := co_Batches c @ [co_Buffer c], co_Buffer := []\<rparr>)"

definition co_insert :: "'a \<Rightarrow> 'a collect \<Rightarrow> 'a collect" where
  "co_insert aData c =
     (let c = c\<lparr>co_Buffer := co_Buffer c @ [aData]\<rparr>
      in if length (co_Buffer c) = co_Max c then co_flush c else c)"

section \<open>ListArray.hpp\<close>

record 'a list_array =
  la_List :: "'a list list"
  la_Size :: nat

definition la_new :: "nat \<Rightarrow> 'a list_array" where
  "la_new c = \<lparr>la_List = [], la_Size = c\<rparr>"

definition la_push_back :: "'a \<Rightarrow> 'a list_array \<Rightarrow> 'a list_array" where
  "la_push_back t l =
     (let xs = (if la_List l = [] \<or> length (last (la_List l)) = la_Size l then la_List l @ [[]] else la_List l)
      in l\<lparr>la_List := butlast xs @ [last xs @ [t]]\<rparr>)"

definition la_clear :: "'a list_array \<Rightarrow> 'a list_array" where
  "la_clear l = l\<lparr>la_List := []\<rparr>"

definition la_for_chunks :: "('a list \<Rightarrow> 's \<Rightarrow> 's) \<Rightarrow> 'a list_array \<Rightarrow> 's \<Rightarrow> 's" where
  "la_for_chunks f l = fold f (la_List l)"

definition la_back :: "'a list_array \<Rightarrow> 'a result" where
  "la_back l = (if la_List l = [] \<or> last (la_List l) = [] then Inl Undefined else Inr (last (last (la_List l))))"

definition la_size :: "'a list_array \<Rightarrow> nat" where
  "la_size l = (if la_List l = [] then 0 else la_Size l * (length (la_List l) - 1) + length (last (la_List l)))"

text \<open>An iterator: the arrays from the one it is in, and its offset in that array.\<close>

type_synonym 'a la_iter = "'a list list \<times> nat"

definition la_begin :: "'a list_array \<Rightarrow> 'a la_iter" where
  "la_begin l = (la_List l, 0)"

definition la_end :: "'a list_array \<Rightarrow> 'a la_iter" where
  "la_end l = ([], 0)"

definition la_eq :: "'a la_iter \<Rightarrow> 'a la_iter \<Rightarrow> bool" where
  "la_eq p r \<longleftrightarrow> fst p = [] \<and> fst r = [] \<or> length (fst p) = length (fst r) \<and> snd p = snd r"

definition la_deref :: "'a la_iter \<Rightarrow> 'a result" where
  "la_deref p = (case fst p of b # _ \<Rightarrow> if snd p < length b then Inr (b ! snd p) else Inl Undefined | [] \<Rightarrow> Inl Undefined)"

definition la_next :: "'a la_iter \<Rightarrow> 'a la_iter result" where
  "la_next p =
     (case fst p of
        [] \<Rightarrow> Inl Undefined
      | b # bs \<Rightarrow> if length b \<le> snd p then Inl Undefined
                  else if snd p + 1 = length b then Inr (bs, 0) else Inr (b # bs, snd p + 1))"

text \<open>A range \<open>for\<close>: the elements read until the iterator equals \<open>end\<close>.\<close>

fun la_for :: "nat \<Rightarrow> 'a list_array \<Rightarrow> 'a la_iter \<Rightarrow> 'a list result" where
  "la_for fuel l p =
     (if la_eq p (la_end l) then Inr []
      else case fuel of 0 \<Rightarrow> Inl OutOfFuel
      | Suc fuel \<Rightarrow>
          bindr (la_deref p) (\<lambda>x. bindr (la_next p) (\<lambda>p. bindr (la_for fuel l p) (\<lambda>xs. Inr (x # xs)))))"

declare la_for.simps [simp del]

section \<open>Session.hpp\<close>

text \<open>
  The store keeps values of \<open>boost::any\<close>; the cast to the requested type, which may throw, is a
  parameter.
\<close>

type_synonym 'a session = "(string \<times> 'a) list"

definition session_set :: "string \<Rightarrow> 'a \<Rightarrow> 'a session \<Rightarrow> 'a session" where
  "session_set aKey aValue m = AList.update aKey aValue m"

definition session_get :: "('a \<Rightarrow> 'b result) \<Rightarrow> string \<Rightarrow> 'a session \<Rightarrow> 'b option result" where
  "session_get any_cast aKey m =
     (case map_of m aKey of None \<Rightarrow> Inr None | Some a \<Rightarrow> bindr (any_cast a) (\<lambda>v. Inr (Some v)))"

definition session_del :: "string \<Rightarrow> 'a session \<Rightarrow> 'a session" where
  "session_del aKey m = AList.delete aKey m"

section \<open>Merging ordered maps\<close>

definition merged :: "('v \<Rightarrow> 'v \<Rightarrow> 'v) \<Rightarrow> 'v option \<Rightarrow> 'v option \<Rightarrow> 'v option" where
  "merged f a b = (case (a, b) of (Some x, Some y) \<Rightarrow> Some (f x y) | (None, _) \<Rightarrow> b | (_, None) \<Rightarrow> a)"

lemma merged_simps [simp]:
  "merged f None b = b" "merged f a None = a" "merged f (Some x) (Some y) = Some (f x y)"
  by (cases a; simp add: merged_def split: option.splits)+

lemma merge_keys: "set (map fst (merge f d s)) = set (map fst d) \<union> set (map fst s)"
proof (induction f d s rule: merge.induct)
  case (3 f k1 v1 d k2 v2 s)
  then show ?case by (cases k1 k2 rule: linorder_cases) auto
qed simp_all

lemma merge_sorted:
  assumes "omap_ok d" and "omap_ok s"
  shows "omap_ok (merge f d s)"
  using assms
proof (induction f d s rule: merge.induct)
  case (3 f k1 v1 d k2 v2 s)
  show ?case
  proof (cases k1 k2 rule: linorder_cases)
    case less
    then have "omap_ok (merge f d ((k2, v2) # s))" using 3(1) 3(4,5) by simp
    moreover have "\<forall>x \<in> fst ` set (merge f d ((k2, v2) # s)). k1 < x"
      using less 3(4,5) merge_keys [of f d "(k2, v2) # s"] by (auto dest: order.strict_trans [OF less])
    ultimately show ?thesis using less by simp
  next
    case equal
    then have "omap_ok (merge f d s)" using 3(3) 3(4,5) by simp
    moreover have "\<forall>x \<in> fst ` set (merge f d s). k1 < x"
      using equal 3(4,5) merge_keys [of f d s] by auto
    ultimately show ?thesis using equal by simp
  next
    case greater
    then have "omap_ok (merge f ((k1, v1) # d) s)" using 3(2) 3(4,5) by simp
    moreover have "\<forall>x \<in> fst ` set (merge f ((k1, v1) # d) s). k2 < x"
      using greater 3(4,5) merge_keys [of f "(k1, v1) # d" s] by (auto dest: order.strict_trans [OF greater])
    ultimately show ?thesis using greater by (simp add: less_not_sym)
  qed
qed simp_all

lemma map_of_not_key: "k \<notin> fst ` set m \<Longrightarrow> map_of m k = None"
  by (simp add: map_of_eq_None_iff)

lemma merge_lookup:
  assumes "omap_ok d" and "omap_ok s"
  shows "map_of (merge f d s) k = merged f (map_of d k) (map_of s k)"
  using assms
proof (induction f d s rule: merge.induct)
  case (3 f k1 v1 d k2 v2 s)
  have n: "map_of d k1 = None" "map_of s k2 = None" "k1 < k2 \<Longrightarrow> map_of s k1 = None" "k2 < k1 \<Longrightarrow> map_of d k2 = None"
    using 3(4,5) by (intro map_of_not_key; fastforce)+
  show ?case
  proof (cases k1 k2 rule: linorder_cases)
    case less
    then show ?thesis using 3(1) 3(4,5) n by auto
  next
    case equal
    then show ?thesis using 3(3) 3(4,5) n by auto
  next
    case greater
    then show ?thesis using 3(2) 3(4,5) n by auto
  qed
qed simp_all

section \<open>Lists of arrays\<close>

definition la_ok :: "'a list_array \<Rightarrow> bool" where
  "la_ok l \<longleftrightarrow> [] \<notin> set (la_List l) \<and> (\<forall>a \<in> set (butlast (la_List l)). length a = la_Size l)"

lemma la_push_back_ok:
  assumes "la_ok l"
  shows "la_ok (la_push_back t l)" and "concat (la_List (la_push_back t l)) = concat (la_List l) @ [t]"
    and "la_Size (la_push_back t l) = la_Size l"
proof -
  show "la_ok (la_push_back t l)"
  proof (cases "la_List l" rule: rev_cases)
    case Nil
    then show ?thesis using assms by (simp add: la_push_back_def la_ok_def Let_def)
  next
    case (snoc ys y)
    then show ?thesis using assms by (auto simp: la_push_back_def la_ok_def Let_def butlast_append)
  qed
  show "concat (la_List (la_push_back t l)) = concat (la_List l) @ [t]"
  proof (cases "la_List l" rule: rev_cases)
    case Nil
    then show ?thesis by (simp add: la_push_back_def Let_def)
  next
    case (snoc ys y)
    then show ?thesis by (simp add: la_push_back_def Let_def butlast_append)
  qed
qed (simp add: la_push_back_def Let_def)

lemma la_pushes_ok:
  assumes "la_ok l"
  shows "la_ok (fold la_push_back xs l) \<and> concat (la_List (fold la_push_back xs l)) = concat (la_List l) @ xs"
  using assms by (induction xs arbitrary: l) (simp_all add: la_push_back_ok)

lemma concat_length_eq: "\<forall>a \<in> set xs. length a = n \<Longrightarrow> length (concat xs) = n * length xs"
  by (induction xs) simp_all

lemma la_size_concat:
  assumes "la_ok l"
  shows "la_size l = length (concat (la_List l))"
proof (cases "la_List l" rule: rev_cases)
  case (snoc ys y)
  then show ?thesis using assms concat_length_eq [of ys "la_Size l"]
    by (simp add: la_size_def la_ok_def del: length_concat)
qed (simp add: la_size_def)

lemma la_for_from:
  assumes "[] \<notin> set bs" and "i \<le> length b" and "length (drop i b) + length (concat bs) \<le> fuel" and "i < length b \<or> b = [] \<and> bs = []"
  shows "la_for fuel l (if b = [] then [] else b # bs, i) = Inr (drop i b @ concat bs)"
  using assms
proof (induction fuel arbitrary: b bs i)
  case 0
  then show ?case by (auto simp: la_for.simps la_eq_def la_end_def)
next
  case (Suc fuel)
  show ?case
  proof (cases "b = []")
    case True
    then show ?thesis using Suc.prems by (simp add: la_for.simps la_eq_def la_end_def)
  next
    case False
    then have i: "i < length b" using Suc.prems by simp
    then have d: "drop i b = b ! i # drop (Suc i) b" by (simp add: Cons_nth_drop_Suc)
    have "la_for fuel l (if Suc i = length b then bs else b # bs, if Suc i = length b then 0 else Suc i)
        = Inr (drop (Suc i) b @ concat bs)"
    proof (cases "Suc i = length b")
      case True
      then show ?thesis using Suc.IH [of "tl bs" 0 "case bs of [] \<Rightarrow> [] | c # _ \<Rightarrow> c"] Suc.prems d
        by (cases bs) auto
    next
      case False
      then show ?thesis using Suc.IH [of bs "Suc i" b] Suc.prems d i by (cases b) auto
    qed
    then show ?thesis using False i d
      by (subst la_for.simps) (auto simp: la_eq_def la_end_def la_deref_def la_next_def split: if_splits)
  qed
qed

section \<open>The request queue\<close>

abbreviation rq_sorted :: "'v rq_rec list \<Rightarrow> bool" where
  "rq_sorted s \<equiv> sorted_wrt (\<lambda>a b. serial a < serial b) s"

lemma min_first_head: "\<forall>y \<in> set ys. f x \<le> f y \<Longrightarrow> min_first f x ys = x"
  by (induction ys) (auto simp: not_less)

lemma min_first_le: "\<forall>y \<in> set (x # ys). f (min_first f x ys) \<le> f y"
proof (induction ys arbitrary: x)
  case (Cons a ys)
  show ?case using Cons [of a] Cons [of x] by (auto simp: not_less intro: order.trans less_imp_le)
qed simp

text \<open>On a store sorted by serial, \<open>get\<close> walks from the oldest record.\<close>

lemma rq_get_loop_fifo:
  assumes "rq_sorted s"
  shows "rq_get_loop sNow s =
    (map rq_value (takeWhile (\<lambda>r. deadline r \<le> sNow) s),
     case dropWhile (\<lambda>r. deadline r \<le> sNow) s of [] \<Rightarrow> (None, []) | r # rs \<Rightarrow> (Some (rq_value r), rs))"
  using assms
proof (induction s)
  case (Cons x xs)
  then have "min_first serial x xs = x" by (intro min_first_head) (auto intro: less_imp_le)
  then show ?case using Cons by (simp add: rq_get_loop.simps)
qed (simp add: rq_get_loop.simps)

lemma filter_remove1_neg: "\<not> P r \<Longrightarrow> filter P (remove1 r s) = filter P s"
  by (simp add: filter_remove1 remove1_idem)

lemma mset_filter_remove1:
  "r \<in> set s \<Longrightarrow> P r \<Longrightarrow> add_mset r (mset (filter P (remove1 r s))) = mset (filter P s)"
  by (induction s) auto

text \<open>\<open>on_timer\<close> takes exactly the expired records and keeps the others in order.\<close>

lemma rq_timer_loop_expired:
  "snd (rq_timer_loop sNow s) = filter (\<lambda>r. sNow < deadline r) s
   \<and> mset (fst (rq_timer_loop sNow s)) = image_mset rq_value (mset (filter (\<lambda>r. deadline r \<le> sNow) s))"
proof (induction sNow s rule: rq_timer_loop.induct)
  case (2 sNow x xs)
  let ?s = "x # xs" and ?r = "min_first deadline x xs"
  have r: "?r \<in> set ?s" by (rule min_first_in)
  show ?case
  proof (cases "deadline ?r \<le> sNow")
    case True
    obtain h s where hs: "rq_timer_loop sNow (remove1 ?r ?s) = (h, s)" by fastforce
    note ih = 2 [OF refl True, unfolded hs fst_conv snd_conv]
    have "image_mset rq_value (mset (filter (\<lambda>r. deadline r \<le> sNow) ?s)) = mset (rq_value ?r # h)"
      unfolding mset_filter_remove1 [OF r, of "\<lambda>r. deadline r \<le> sNow", OF True, symmetric] image_mset_add_mset
        mset.simps(2) conjunct2 [OF ih] by (rule refl)
    moreover have "s = filter (\<lambda>r. sNow < deadline r) ?s"
      unfolding conjunct1 [OF ih] by (rule filter_remove1_neg) (use True in \<open>simp add: not_less\<close>)
    moreover have "rq_timer_loop sNow ?s = (rq_value ?r # h, s)"
      using True hs by (simp only: rq_timer_loop.simps Let_def if_True case_prod_conv)
    ultimately show ?thesis by simp
  next
    case False
    then have "\<forall>y \<in> set ?s. sNow < deadline y" using min_first_le [of x xs deadline] by (meson less_le_trans not_less)
    then have "filter (\<lambda>r. sNow < deadline r) ?s = ?s" "filter (\<lambda>r. deadline r \<le> sNow) ?s = []"
      by (auto simp: filter_id_conv filter_empty_conv not_le)
    moreover have "rq_timer_loop sNow ?s = ([], ?s)"
      using False by (simp only: rq_timer_loop.simps Let_def if_False)
    ultimately show ?thesis by simp
  qed
qed (simp add: rq_timer_loop.simps)

text \<open>A history of calls; the results are what the handler was given, what \<open>get\<close> returned, and the queue.\<close>

datatype 'v rq_op = Rq_Insert u64 'v u64 | Rq_Get u64 | Rq_Timer u64

fun rq_run :: "'v rq_op list \<Rightarrow> 'v request_queue \<Rightarrow> 'v list \<times> 'v list \<times> 'v request_queue" where
  "rq_run [] q = ([], [], q)"
| "rq_run (Rq_Insert sNow v tm # ops) q = rq_run ops (snd (rq_insert sNow v tm q))"
| "rq_run (Rq_Get sNow # ops) q =
     (let (h, v, q) = rq_get sNow q; (hs, rs, q) = rq_run ops q
      in (h @ hs, (case v of None \<Rightarrow> rs | Some v \<Rightarrow> v # rs), q))"
| "rq_run (Rq_Timer sNow # ops) q =
     (let (h, q) = rq_on_timer sNow q; (hs, rs, q) = rq_run ops q in (h @ hs, rs, q))"

fun rq_inserted :: "'v rq_op list \<Rightarrow> 'v list" where
  "rq_inserted [] = []"
| "rq_inserted (Rq_Insert sNow v tm # ops) = v # rq_inserted ops"
| "rq_inserted (_ # ops) = rq_inserted ops"

definition rq_ok :: "nat \<Rightarrow> 'v request_queue \<Rightarrow> bool" where
  "rq_ok n q \<longleftrightarrow> rq_sorted (rq_Store q) \<and> (\<forall>r \<in> set (rq_Store q). serial r < rq_Serial q) \<and> unat (rq_Serial q) = n"

lemma rq_insert_ok:
  assumes "rq_ok n q" and "Suc n < 2 ^ 64"
  shows "rq_ok (Suc n) (snd (rq_insert sNow v tm q))"
    and "map rq_value (rq_Store (snd (rq_insert sNow v tm q))) = map rq_value (rq_Store q) @ [v]"
proof -
  let ?s = "rq_Serial q"
  have n: "unat (?s + 1) = Suc n"
    using assms by (simp add: rq_ok_def unat_word_ariths)
  then have lt: "?s < ?s + 1" using assms(1) by (simp add: word_less_nat_alt rq_ok_def)
  have old: "\<forall>r \<in> set (rq_Store q). serial r < ?s" "rq_sorted (rq_Store q)" using assms(1) by (auto simp: rq_ok_def)
  then have new: "\<not> list_ex (\<lambda>x. serial x = ?s) (rq_Store q)" by (auto simp: list_ex_iff)
  show "rq_ok (Suc n) (snd (rq_insert sNow v tm q))"
    using n old lt by (auto simp: rq_ok_def rq_insert_def new Let_def sorted_wrt_append dest: order.strict_trans)
  show "map rq_value (rq_Store (snd (rq_insert sNow v tm q))) = map rq_value (rq_Store q) @ [v]"
    by (simp add: rq_insert_def new Let_def)
qed

lemma rq_get_ok:
  assumes "rq_ok n q" and "rq_get sNow q = (h, v, q')"
  shows "rq_ok n q'"
    and "map rq_value (rq_Store q) = h @ (case v of None \<Rightarrow> [] | Some v \<Rightarrow> [v]) @ map rq_value (rq_Store q')"
proof -
  let ?e = "\<lambda>r. deadline r \<le> sNow"
  have s: "rq_sorted (rq_Store q)" using assms(1) by (simp add: rq_ok_def)
  have st: "rq_Store q = takeWhile ?e (rq_Store q) @ dropWhile ?e (rq_Store q)" by simp
  then have sd: "rq_sorted (dropWhile ?e (rq_Store q))" using s by (metis sorted_wrt_append)
  have sub: "set (dropWhile ?e (rq_Store q)) \<subseteq> set (rq_Store q)" by (auto dest: set_dropWhileD)
  note g = assms(2) [unfolded rq_get_def rq_get_loop_fifo [OF s]]
  show "rq_ok n q'"
    using g sd sub assms(1) by (cases "dropWhile ?e (rq_Store q)") (auto simp: rq_ok_def)
  show "map rq_value (rq_Store q) = h @ (case v of None \<Rightarrow> [] | Some v \<Rightarrow> [v]) @ map rq_value (rq_Store q')"
    using g arg_cong [OF st, of "map rq_value"] by (cases "dropWhile ?e (rq_Store q)") auto
qed

lemma rq_on_timer_ok:
  assumes "rq_ok n q" and "rq_on_timer sNow q = (h, q')"
  shows "rq_ok n q'" and "mset (map rq_value (rq_Store q)) = mset h + mset (map rq_value (rq_Store q'))"
proof -
  let ?s = "rq_Store q"
  have q': "q' = q\<lparr>rq_Store := filter (\<lambda>r. sNow < deadline r) ?s\<rparr>"
    and h: "mset h = image_mset rq_value (mset (filter (\<lambda>r. deadline r \<le> sNow) ?s))"
    using assms(2) rq_timer_loop_expired [of sNow ?s] by (auto simp: rq_on_timer_def split: prod.splits)
  show "rq_ok n q'" using assms(1) by (auto simp: rq_ok_def q' sorted_wrt_filter)
  have "mset (filter (\<lambda>r. deadline r \<le> sNow) ?s) + mset (filter (\<lambda>r. sNow < deadline r) ?s) = mset ?s"
    by (simp add: multiset_partition [symmetric] flip: not_le)
  then show "mset (map rq_value ?s) = mset h + mset (map rq_value (rq_Store q'))"
    unfolding h q' by (simp flip: image_mset_union)
qed

lemma rq_run_ok:
  assumes "rq_ok n q" and "n + length (rq_inserted ops) < 2 ^ 64" and "rq_run ops q = (hs, rs, q')"
  shows "rq_ok (n + length (rq_inserted ops)) q' \<and>
    mset (map rq_value (rq_Store q)) + mset (rq_inserted ops) = mset hs + mset rs + mset (map rq_value (rq_Store q'))"
  using assms
proof (induction ops arbitrary: n q hs rs)
  case (Cons op ops)
  show ?case
  proof (cases op)
    case (Rq_Insert sNow v tm)
    then have n: "Suc n < 2 ^ 64" using Cons.prems(2) by simp
    show ?thesis
      using Cons.IH [OF rq_insert_ok(1) [OF Cons.prems(1) n, of sNow v tm]] Cons.prems(2,3)
        rq_insert_ok(2) [OF Cons.prems(1) n, of sNow v tm] Rq_Insert by simp
  next
    case (Rq_Get sNow)
    obtain h v q1 where g: "rq_get sNow q = (h, v, q1)" by (cases "rq_get sNow q") auto
    obtain hs1 rs1 where r: "rq_run ops q1 = (hs1, rs1, q')"
      using Cons.prems(3) by (auto simp: Rq_Get g split: prod.splits)
    show ?thesis
      using Cons.IH [OF rq_get_ok(1) [OF Cons.prems(1) g] _ r] Cons.prems(2,3) rq_get_ok(2) [OF Cons.prems(1) g]
      by (cases v) (auto simp: Rq_Get g r ac_simps simp flip: mset_map)
  next
    case (Rq_Timer sNow)
    obtain h q1 where g: "rq_on_timer sNow q = (h, q1)" by (cases "rq_on_timer sNow q") auto
    obtain hs1 rs1 where r: "rq_run ops q1 = (hs1, rs1, q')"
      using Cons.prems(3) by (auto simp: Rq_Timer g split: prod.splits)
    show ?thesis
      using Cons.IH [OF rq_on_timer_ok(1) [OF Cons.prems(1) g] _ r] Cons.prems(2,3) rq_on_timer_ok(2) [OF Cons.prems(1) g]
      by (auto simp: Rq_Timer g r ac_simps)
  qed
qed simp

section \<open>Properties\<close>

text \<open>
  The collector hands over batches of exactly the configured size, in order and without loss; what
  is not handed over yet is shorter than a batch.
\<close>

lemma collect_batches:
  assumes "0 < n"
  shows "let c = fold co_insert xs (co_new n)
    in concat (co_Batches c) @ co_Buffer c = xs \<and> (\<forall>b \<in> set (co_Batches c). length b = n)
       \<and> length (co_Buffer c) < n \<and> co_Max c = n"
proof (induction xs rule: rev_induct)
  case Nil
  show ?case using assms by (simp add: co_new_def)
next
  case (snoc x xs)
  then show ?case by (auto simp: co_insert_def co_flush_def Let_def)
qed

text \<open>
  merging two ordered maps gives an ordered map whose keys are those of both, where a key of
  one of them keeps its value and a key of both gets the merger of the two values.
\<close>

theorem container_merge:
  assumes "omap_ok dest" and "omap_ok source"
  shows "omap_ok (merge merger dest source) \<and>
    map_of (merge merger dest source) k =
      (case map_of source k of
         None \<Rightarrow> map_of dest k
       | Some v2 \<Rightarrow> Some (case map_of dest k of None \<Rightarrow> v2 | Some v1 \<Rightarrow> merger v1 v2))"
  using merge_sorted [OF assms] merge_lookup [OF assms, of merger k]
  by (auto simp: merged_def split: option.splits)

theorem container_merge_witness:
  "map_of (merge (+) [(1 :: nat, 10 :: int), (3, 30)] [(2, 5), (3, 7)]) 3 = Some 37"
  using container_merge [of "[(1 :: nat, 10 :: int), (3, 30)]" "[(2, 5), (3, 7)]" "(+)" 3] by simp

text \<open>
  a list of arrays filled by \<open>push_back\<close>, whatever the size of its arrays, holds the elements in
  order: iterating from \<open>begin\<close> to \<open>end\<close> visits exactly them and stops, \<open>size\<close> is their number, and
  \<open>back\<close> is the last of them; every array but the last is full.
\<close>

theorem list_array_iterates:
  "let l = fold la_push_back xs (la_new c)
   in la_for (length xs) l (la_begin l) = Inr xs \<and> la_size l = length xs
    \<and> la_back l = (if xs = [] then Inl Undefined else Inr (last xs))
    \<and> list_all (\<lambda>a. length a = c) (butlast (la_List l))"
proof -
  define l where "l = fold la_push_back xs (la_new c)"
  have "la_ok (la_new c)" by (simp add: la_ok_def la_new_def)
  then have ok: "la_ok l" and cc: "concat (la_List l) = xs"
    using la_pushes_ok [of "la_new c" xs] by (auto simp: l_def la_new_def)
  have sz: "la_Size l = c" unfolding l_def
    by (induction xs rule: rev_induct) (simp_all add: la_new_def la_push_back_def Let_def)
  have "la_for (length xs) l (la_begin l) = Inr xs"
  proof (cases "la_List l")
    case Nil
    then show ?thesis using cc by (simp add: la_for.simps la_begin_def la_eq_def la_end_def)
  next
    case (Cons b bs)
    then show ?thesis using la_for_from [of bs 0 b "length xs" l] ok cc
      by (auto simp: la_begin_def la_ok_def simp del: length_concat)
  qed
  moreover have "la_size l = length xs" using la_size_concat [OF ok] cc by simp
  moreover have "la_back l = (if xs = [] then Inl Undefined else Inr (last xs))"
  proof (cases "la_List l" rule: rev_cases)
    case Nil
    then show ?thesis using cc by (simp add: la_back_def)
  next
    case (snoc ys y)
    then have "y \<noteq> []" using ok by (auto simp: la_ok_def)
    then show ?thesis using cc [symmetric] snoc by (simp add: la_back_def)
  qed
  moreover have "list_all (\<lambda>a. length a = c) (butlast (la_List l))"
    using ok sz by (simp add: la_ok_def list_all_iff)
  ultimately show ?thesis by (simp add: Let_def flip: l_def)
qed

text \<open>
  C13: every request put into the queue is accounted for exactly once: after any sequence of
  insertions, \<open>get\<close> and timer calls at any times (with fewer requests than the serial can number),
  the requests inserted are those given to the timeout handler, those returned by \<open>get\<close> and those
  still stored, each as often as it was inserted.
\<close>

theorem request_queue_once:
  assumes "length (rq_inserted ops) < 2 ^ 64" and "rq_run ops rq_new = (hs, rs, q)"
  shows "mset (rq_inserted ops) = mset hs + mset rs + mset (map rq_value (rq_Store q))"
proof -
  have "rq_ok 0 rq_new" by (simp add: rq_ok_def rq_new_def)
  from rq_run_ok [OF this _ assms(2)] assms(1) show ?thesis by (simp add: rq_new_def)
qed

theorem request_queue_once_witness:
  "\<exists>hs rs q. rq_run [Rq_Insert 5 (1 :: int) 10, Rq_Insert 5 2 100, Rq_Get 50] rq_new = (hs, rs, q)
    \<and> {#1, 2#} = mset hs + mset rs + mset (map rq_value (rq_Store q))"
proof -
  obtain hs rs q where q: "rq_run [Rq_Insert 5 (1 :: int) 10, Rq_Insert 5 2 100, Rq_Get 50] rq_new = (hs, rs, q)"
    by (metis prod_cases3)
  from request_queue_once [OF _ q] q show ?thesis by fastforce
qed

text \<open>
  in a queue reached by any such history, \<open>get\<close> gives the handler exactly the requests older
  than the one it returns, all of them expired, and returns the oldest request that is not
  expired, nothing only when all are expired; the timer gives the handler exactly the expired
  requests and keeps the others in their order.
\<close>

theorem request_queue_fifo:
  assumes "length (rq_inserted ops) < 2 ^ 64" and "rq_run ops rq_new = (hs, rs, q)"
  shows "rq_get sNow q =
      (map rq_value (takeWhile (\<lambda>r. deadline r \<le> sNow) (rq_Store q)),
       case dropWhile (\<lambda>r. deadline r \<le> sNow) (rq_Store q) of
         [] \<Rightarrow> (None, q\<lparr>rq_Store := []\<rparr>)
       | r # rest \<Rightarrow> (Some (rq_value r), q\<lparr>rq_Store := rest\<rparr>))
    \<and> sorted_wrt (\<lambda>a b. serial a < serial b) (rq_Store q)
    \<and> snd (rq_on_timer sNow q) = q\<lparr>rq_Store := filter (\<lambda>r. sNow < deadline r) (rq_Store q)\<rparr>
    \<and> mset (fst (rq_on_timer sNow q)) = mset (map rq_value (filter (\<lambda>r. deadline r \<le> sNow) (rq_Store q)))"
proof -
  have "rq_ok 0 rq_new" by (simp add: rq_ok_def rq_new_def)
  from rq_run_ok [OF this _ assms(2)] assms(1) have s: "rq_sorted (rq_Store q)" by (simp add: rq_ok_def)
  have "rq_get sNow q = (map rq_value (takeWhile (\<lambda>r. deadline r \<le> sNow) (rq_Store q)),
      case dropWhile (\<lambda>r. deadline r \<le> sNow) (rq_Store q) of
        [] \<Rightarrow> (None, q\<lparr>rq_Store := []\<rparr>) | r # rest \<Rightarrow> (Some (rq_value r), q\<lparr>rq_Store := rest\<rparr>))"
    unfolding rq_get_def rq_get_loop_fifo [OF s] by (simp split: list.split del: dropWhile_eq_Nil_conv)
  moreover have "snd (rq_on_timer sNow q) = q\<lparr>rq_Store := filter (\<lambda>r. sNow < deadline r) (rq_Store q)\<rparr>"
    and "mset (fst (rq_on_timer sNow q)) = mset (map rq_value (filter (\<lambda>r. deadline r \<le> sNow) (rq_Store q)))"
    using rq_timer_loop_expired [of sNow "rq_Store q"] by (auto simp: rq_on_timer_def split: prod.splits)
  ultimately show ?thesis using s by blast
qed

theorem request_queue_fifo_witness:
  "\<exists>hs rs q. rq_run [Rq_Insert 5 (1 :: int) 10, Rq_Insert 5 2 100] rq_new = (hs, rs, q)
    \<and> fst (snd (rq_get 50 q)) = Some 2"
proof -
  obtain hs rs q where q: "rq_run [Rq_Insert 5 (1 :: int) 10, Rq_Insert 5 2 100] rq_new = (hs, rs, q)"
    by (metis prod_cases3)
  then have "rq_Store q = [\<lparr>serial = 0, deadline = 15, rq_value = 1\<rparr>, \<lparr>serial = 1, deadline = 105, rq_value = 2\<rparr>]"
    by (auto simp: rq_new_def rq_insert_def)
  with request_queue_fifo [OF _ q, of 50] q show ?thesis by auto
qed

end
