(* ===== verification/Hash_Nodes.thy ===== *)
theory Hash_Nodes
  imports Prelude
begin

text \<open>
  Choosing servers by hash: the hash ring of \<open>hash/Ring.hpp\<close>, which picks up to three servers on
  different racks, and rendezvous hashing of \<open>hash/Rendezvous.hpp\<close>. The hash functions of the
  external library are parameters.
\<close>

section \<open>Ring\<close>

record ring_info =
  ri_hash :: u64
  ri_id :: u32
  ri_rack :: u32

type_synonym hash_ring = "ring_info list"

definition ring_insert :: "('n \<Rightarrow> u64) \<Rightarrow> (u32 \<Rightarrow> u64 \<Rightarrow> u64) \<Rightarrow> 'n \<Rightarrow> u32 \<Rightarrow> u32 \<Rightarrow> u32 \<Rightarrow> hash_ring \<Rightarrow> hash_ring" where
  "ring_insert hash_name hash_seed aName aID aRack aWeight m =
     m @ map (\<lambda>i. \<lparr>ri_hash = hash_seed (of_nat i) (hash_name aName), ri_id = aID, ri_rack = aRack\<rparr>) [0..<unat aWeight]"

text \<open>\<open>std::sort\<close> leaves the order of equal hashes open; here it is the order of insertion.\<close>

definition ring_prepare :: "hash_ring \<Rightarrow> hash_ring" where
  "ring_prepare m = sort_key ri_hash m"

definition lower_bound :: "u64 \<Rightarrow> hash_ring \<Rightarrow> nat" where
  "lower_bound aHash m = length (takeWhile (\<lambda>a. ri_hash a < aHash) m)"

definition STEPS :: nat where
  "STEPS = 15"

text \<open>The loop from position \<open>pos\<close> on, with the number of steps left; an empty map is undefined.\<close>

fun ring_steps :: "hash_ring \<Rightarrow> nat \<Rightarrow> nat \<Rightarrow> u32 list \<Rightarrow> u32 list \<Rightarrow> u32 list result" where
  "ring_steps m 0 pos sIDS sRacks = Inr sIDS"
| "ring_steps m (Suc n) pos sIDS sRacks =
     (if length sIDS < 3 then
        let pos = (if length m \<le> pos then 0 else pos)
        in if m = [] then Inl Undefined
           else if ri_rack (m ! pos) \<in> set sRacks then ring_steps m n (pos + 1) sIDS sRacks
           else ring_steps m n (pos + 1) (sIDS @ [ri_id (m ! pos)]) (sRacks @ [ri_rack (m ! pos)])
      else Inr sIDS)"

definition ring_lookup :: "hash_ring \<Rightarrow> u64 \<Rightarrow> u32 list result" where
  "ring_lookup m aHash = ring_steps m STEPS (lower_bound aHash m) [] []"

section \<open>Rendezvous\<close>

record 'n rz_node =
  rz_name :: 'n
  rz_seed :: u64

definition rz_new :: "('n \<Rightarrow> u64) \<Rightarrow> 'n list \<Rightarrow> 'n rz_node list" where
  "rz_new hash_name aList = map (\<lambda>x. \<lparr>rz_name = x, rz_seed = hash_name x\<rparr>) aList"

fun rz_loop :: "('k \<Rightarrow> u64 \<Rightarrow> u64) \<Rightarrow> 'k \<Rightarrow> nat \<Rightarrow> u64 \<Rightarrow> nat \<Rightarrow> 'n rz_node list \<Rightarrow> nat" where
  "rz_loop hash aKey i sMax sIndex [] = sIndex"
| "rz_loop hash aKey i sMax sIndex (n # ns) =
     (let sTmp = hash aKey (rz_seed n)
      in if sMax < sTmp then rz_loop hash aKey (i + 1) sTmp i ns
         else rz_loop hash aKey (i + 1) sMax sIndex ns)"

definition rz_lookup :: "('k \<Rightarrow> u64 \<Rightarrow> u64) \<Rightarrow> 'n rz_node list \<Rightarrow> 'k \<Rightarrow> 'n result" where
  "rz_lookup hash m_Nodes aKey =
     (let sIndex = rz_loop hash aKey 0 0 0 m_Nodes
      in if length m_Nodes \<le> sIndex then Inl Undefined else Inr (rz_name (m_Nodes ! sIndex)))"

section \<open>The first maximum of a list\<close>

fun first_max :: "('a \<Rightarrow> 'b::linorder) \<Rightarrow> 'a \<Rightarrow> 'a list \<Rightarrow> 'a" where
  "first_max h x [] = x"
| "first_max h x (y # ys) = (if h x < h y then first_max h y ys else first_max h x ys)"

definition is_first_max :: "('a \<Rightarrow> 'b::linorder) \<Rightarrow> 'a list \<Rightarrow> 'a \<Rightarrow> bool" where
  "is_first_max h xs y \<longleftrightarrow> (\<exists>as bs. xs = as @ y # bs \<and> (\<forall>a \<in> set as. h a < h y) \<and> (\<forall>b \<in> set bs. h b \<le> h y))"

lemma first_max_is: "is_first_max h (x # ys) (first_max h x ys)"
proof (induction ys arbitrary: x)
  case Nil
  show ?case unfolding is_first_max_def by (intro exI [of _ "[]"]) simp
next
  case (Cons y ys)
  show ?case
  proof (cases "h x < h y")
    case True
    obtain as bs where d: "y # ys = as @ first_max h y ys # bs" "\<forall>a \<in> set as. h a < h (first_max h y ys)"
      "\<forall>b \<in> set bs. h b \<le> h (first_max h y ys)" using Cons [of y] by (auto simp: is_first_max_def)
    have "h y \<le> h (first_max h y ys)" using d by (cases as) (auto intro: less_imp_le)
    then have "is_first_max h (x # y # ys) (first_max h y ys)"
      unfolding is_first_max_def using d True by (intro exI [of _ "x # as"] exI [of _ bs]) auto
    then show ?thesis using True by simp
  next
    case False
    obtain as bs where d: "x # ys = as @ first_max h x ys # bs" "\<forall>a \<in> set as. h a < h (first_max h x ys)"
      "\<forall>b \<in> set bs. h b \<le> h (first_max h x ys)" using Cons [of x] by (auto simp: is_first_max_def)
    have "is_first_max h (x # y # ys) (first_max h x ys)"
    proof (cases as)
      case Nil
      then show ?thesis unfolding is_first_max_def using d False
        by (intro exI [of _ "[]"] exI [of _ "y # bs"]) auto
    next
      case (Cons a cs)
      then show ?thesis unfolding is_first_max_def using d False
        by (intro exI [of _ "x # y # cs"] exI [of _ bs]) auto
    qed
    then show ?thesis using False by simp
  qed
qed

lemma is_first_max_unique:
  assumes "is_first_max h xs y" and "is_first_max h xs z"
  shows "y = z"
proof -
  obtain as bs where y: "xs = as @ y # bs" "\<forall>a \<in> set as. h a < h y" "\<forall>b \<in> set bs. h b \<le> h y"
    using assms(1) by (auto simp: is_first_max_def)
  obtain cs ds where z: "xs = cs @ z # ds" "\<forall>a \<in> set cs. h a < h z" "\<forall>b \<in> set ds. h b \<le> h z"
    using assms(2) by (auto simp: is_first_max_def)
  have "as @ y # bs = cs @ z # ds" using y(1) z(1) by simp
  then consider us where "as = cs @ us" "us @ y # bs = z # ds" | us where "as @ us = cs" "y # bs = us @ z # ds"
    by (auto simp: append_eq_append_conv2)
  then show ?thesis
  proof cases
    case (1 us)
    then show ?thesis using y(2) z(3) by (cases us) fastforce+
  next
    case (2 us)
    then show ?thesis using z(2) y(3) by (cases us) fastforce+
  qed
qed

lemma is_first_max_filter: "is_first_max h xs y \<Longrightarrow> P y \<Longrightarrow> is_first_max h (filter P xs) y"
proof -
  assume m: "is_first_max h xs y" and "P y"
  then obtain as bs where "xs = as @ y # bs" "\<forall>a \<in> set as. h a < h y" "\<forall>b \<in> set bs. h b \<le> h y"
    by (auto simp: is_first_max_def)
  with \<open>P y\<close> show ?thesis unfolding is_first_max_def
    by (intro exI [of _ "filter P as"] exI [of _ "filter P bs"]) simp
qed

text \<open>The loop of the lookup finds the first maximum.\<close>

lemma rz_loop_first_max:
  fixes hash :: "'k \<Rightarrow> u64 \<Rightarrow> u64" and k :: 'k
  defines "h \<equiv> \<lambda>n. hash k (rz_seed n)"
  assumes "ix < i" and "i \<le> length ns"
  shows "rz_loop hash k i (h (ns ! ix)) ix (drop i ns) < length ns
    \<and> ns ! rz_loop hash k i (h (ns ! ix)) ix (drop i ns) = first_max h (ns ! ix) (drop i ns)"
  using assms(2,3)
proof (induction "length ns - i" arbitrary: i ix)
  case 0
  then show ?case by simp
next
  case (Suc d)
  then have i: "i < length ns" by simp
  then have dr: "drop i ns = ns ! i # drop (Suc i) ns" by (simp add: Cons_nth_drop_Suc)
  show ?case
    using Suc.hyps(1) [of "Suc i" i] Suc.hyps(1) [of "Suc i" ix] Suc.hyps(2) Suc.prems i
    by (simp add: dr h_def Let_def)
qed

lemma rz_lookup_first_max:
  assumes "ns \<noteq> []"
  shows "\<exists>n. rz_lookup hash ns k = Inr (rz_name n) \<and> is_first_max (\<lambda>n. hash k (rz_seed n)) ns n"
proof -
  obtain n ms where ns: "ns = n # ms" using assms by (cases ns) auto
  let ?h = "\<lambda>n. hash k (rz_seed n)"
  have "rz_loop hash k 0 0 0 ns = rz_loop hash k 1 (?h n) 0 ms"
    using word_gt_0 [of "hash k (rz_seed n)"] by (auto simp: ns Let_def not_less)
  moreover have "rz_loop hash k 1 (?h (ns ! 0)) 0 (drop 1 ns) < length ns
    \<and> ns ! rz_loop hash k 1 (?h (ns ! 0)) 0 (drop 1 ns) = first_max ?h (ns ! 0) (drop 1 ns)"
    by (rule rz_loop_first_max) (simp_all add: ns)
  ultimately have "rz_lookup hash ns k = Inr (rz_name (first_max ?h n ms))"
    by (simp add: rz_lookup_def Let_def ns)
  then show ?thesis using first_max_is [of ?h n ms] by (auto simp: ns)
qed

section \<open>Steps on the ring\<close>

lemma ring_steps_spec:
  assumes "m \<noteq> []" and "pos \<le> length m" and "distinct (map ri_rack es)" and "set es \<subseteq> set m" and "length es \<le> 3"
  shows "\<exists>fs. ring_steps m k pos (map ri_id es) (map ri_rack es) = Inr (map ri_id (es @ fs))
    \<and> distinct (map ri_rack (es @ fs)) \<and> set fs \<subseteq> set m \<and> length (es @ fs) \<le> 3
    \<and> (length (es @ fs) < 3 \<longrightarrow> (\<forall>i < k. ri_rack (m ! ((pos + i) mod length m)) \<in> ri_rack ` set (es @ fs)))
    \<and> (es = [] \<and> 0 < k \<longrightarrow> fs \<noteq> [] \<and> hd fs = m ! (pos mod length m))"
  using assms
proof (induction k arbitrary: pos es)
  case 0
  then show ?case by (intro exI [of _ "[]"]) simp
next
  case (Suc k)
  show ?case
  proof (cases "length es < 3")
    case False
    then show ?thesis using Suc.prems by (intro exI [of _ "[]"]) auto
  next
    case True
    let ?n = "length m" and ?p = "if length m \<le> pos then 0 else pos"
    have n: "0 < ?n" using Suc.prems(1) by simp
    have p: "?p = pos mod ?n" using Suc.prems(2) n by auto
    have pn: "?p < ?n" unfolding p using n by (rule mod_less_divisor)
    then have pn2: "Suc ?p \<le> ?n" by (rule Suc_leI)
    have mod: "(Suc ?p + i) mod ?n = (pos + Suc i) mod ?n" for i
      unfolding p by (metis add_Suc add_Suc_right mod_add_left_eq mod_Suc_eq)
    have all: "\<forall>i < Suc k. ri_rack (m ! ((pos + i) mod ?n)) \<in> R"
      if "ri_rack (m ! ?p) \<in> R" "\<forall>i < k. ri_rack (m ! ((Suc ?p + i) mod ?n)) \<in> R" for R
    proof (intro allI impI)
      fix i assume "i < Suc k"
      then show "ri_rack (m ! ((pos + i) mod ?n)) \<in> R" using that mod p by (cases i) auto
    qed
    show ?thesis
    proof (cases "ri_rack (m ! ?p) \<in> ri_rack ` set es")
      case seen: True
      obtain fs where fs: "ring_steps m k (Suc ?p) (map ri_id es) (map ri_rack es) = Inr (map ri_id (es @ fs))"
        "distinct (map ri_rack (es @ fs))" "set fs \<subseteq> set m" "length (es @ fs) \<le> 3"
        "length (es @ fs) < 3 \<longrightarrow> (\<forall>i < k. ri_rack (m ! ((Suc ?p + i) mod ?n)) \<in> ri_rack ` set (es @ fs))"
        using Suc.IH [OF Suc.prems(1) pn2 Suc.prems(3-5)] by blast
      have "es \<noteq> []" using seen by auto
      moreover have "ring_steps m (Suc k) pos (map ri_id es) (map ri_rack es) = Inr (map ri_id (es @ fs))"
        using fs(1) True seen Suc.prems(1) by (simp add: Let_def)
      moreover have "length (es @ fs) < 3 \<longrightarrow> (\<forall>i < Suc k. ri_rack (m ! ((pos + i) mod ?n)) \<in> ri_rack ` set (es @ fs))"
        using fs(5) seen by (intro impI all) auto
      ultimately show ?thesis using fs(2-4) by blast
    next
      case new: False
      let ?e = "m ! ?p" and ?es = "es @ [m ! ?p]"
      have "distinct (map ri_rack ?es)" "set ?es \<subseteq> set m" "length ?es \<le> 3"
        using new Suc.prems(3,4) pn True by auto
      from Suc.IH [OF Suc.prems(1) pn2 this]
      obtain fs where fs: "ring_steps m k (Suc ?p) (map ri_id ?es) (map ri_rack ?es) = Inr (map ri_id (?es @ fs))"
        "distinct (map ri_rack (?es @ fs))" "set fs \<subseteq> set m" "length (?es @ fs) \<le> 3"
        "length (?es @ fs) < 3 \<longrightarrow> (\<forall>i < k. ri_rack (m ! ((Suc ?p + i) mod ?n)) \<in> ri_rack ` set (?es @ fs))"
        by blast
      have "ring_steps m (Suc k) pos (map ri_id es) (map ri_rack es) = Inr (map ri_id (es @ ?e # fs))"
        using fs(1) True new Suc.prems(1) by (simp add: Let_def)
      moreover have "length (es @ ?e # fs) < 3 \<longrightarrow> (\<forall>i < Suc k. ri_rack (m ! ((pos + i) mod ?n)) \<in> ri_rack ` set (es @ ?e # fs))"
        using fs(5) by (intro impI all) auto
      moreover have "distinct (map ri_rack (es @ ?e # fs))" "set (?e # fs) \<subseteq> set m" "length (es @ ?e # fs) \<le> 3"
        using fs(2-4) pn by simp_all
      moreover have "hd (?e # fs) = m ! (pos mod ?n)" using p by simp
      ultimately show ?thesis by blast
    qed
  qed
qed

lemma ring_steps_nil:
  assumes "m \<noteq> []" and "pos \<le> length m"
  shows "0 < k \<longrightarrow> (\<exists>fs. ring_steps m k pos [] [] = Inr (map ri_id fs)
    \<and> distinct (map ri_rack fs) \<and> set fs \<subseteq> set m \<and> length fs \<le> 3
    \<and> (length fs < 3 \<longrightarrow> (\<forall>i < k. ri_rack (m ! ((pos + i) mod length m)) \<in> ri_rack ` set fs))
    \<and> fs \<noteq> [] \<and> hd fs = m ! (pos mod length m))"
  using ring_steps_spec [of m pos "[]" k] assms by (cases "0 < k") simp_all

section \<open>Properties\<close>

text \<open>
  C34: rendezvous hashing picks a server with the largest hash for the key, and when servers are
  removed a key stays on its server as long as that server is among those left, whatever the hash
  functions are: only the keys of the removed servers move.
\<close>

theorem rendezvous_stable:
  assumes "rz_lookup hash (rz_new hash_name servers) k = Inr n"
  shows "n \<in> set servers \<and> (\<forall>x \<in> set servers. hash k (hash_name x) \<le> hash k (hash_name n))
    \<and> (P n \<longrightarrow> rz_lookup hash (rz_new hash_name (filter P servers)) k = Inr n)"
proof -
  let ?f = "\<lambda>x. \<lparr>rz_name = x, rz_seed = hash_name x\<rparr>" and ?h = "\<lambda>n. hash k (rz_seed n)"
  have fm: "\<exists>x. rz_lookup hash (rz_new hash_name xs) k = Inr x \<and> is_first_max (\<lambda>x. hash k (hash_name x)) xs x"
    if "xs \<noteq> []" for xs
  proof -
    have "rz_new hash_name xs \<noteq> []" using that by (simp add: rz_new_def)
    from rz_lookup_first_max [OF this, of hash k]
    obtain y where y: "rz_lookup hash (rz_new hash_name xs) k = Inr (rz_name y)" "is_first_max ?h (map ?f xs) y"
      unfolding rz_new_def by blast
    then obtain as bs where d: "map ?f xs = as @ y # bs" "\<forall>a \<in> set as. ?h a < ?h y" "\<forall>b \<in> set bs. ?h b \<le> ?h y"
      by (auto simp: is_first_max_def)
    then obtain us x vs where "xs = us @ x # vs" "as = map ?f us" "y = ?f x" "bs = map ?f vs"
      by (auto simp: map_eq_append_conv Cons_eq_map_conv)
    then show ?thesis using y(1) d unfolding is_first_max_def by fastforce
  qed
  have "servers \<noteq> []" using assms by (auto simp: rz_lookup_def rz_new_def)
  then have n: "is_first_max (\<lambda>x. hash k (hash_name x)) servers n" using fm assms by fastforce
  then have "n \<in> set servers" "\<forall>x \<in> set servers. hash k (hash_name x) \<le> hash k (hash_name n)"
    by (auto simp: is_first_max_def less_imp_le)
  moreover have "rz_lookup hash (rz_new hash_name (filter P servers)) k = Inr n" if "P n"
  proof -
    note f = is_first_max_filter [OF n, of P, OF that]
    then have "filter P servers \<noteq> []" by (auto simp: is_first_max_def)
    then show ?thesis using fm f is_first_max_unique by metis
  qed
  ultimately show ?thesis by blast
qed

theorem rendezvous_stable_witness:
  "rz_lookup (\<lambda>k s. k XOR s) (rz_new id (filter (\<lambda>x. x \<noteq> 1) [1, 2, 4])) (8 :: u64) = Inr (4 :: u64)"
proof -
  have "rz_lookup (\<lambda>k s. k XOR s) (rz_new id [1, 2, 4]) (8 :: u64) = Inr (4 :: u64)"
    by (simp add: rz_lookup_def rz_new_def)
  from rendezvous_stable [OF this, of "\<lambda>x. x \<noteq> 1"] show ?thesis by simp
qed

text \<open>
  the hash ring returns one to three servers of the map on pairwise different racks, the first
  of them the successor of the hash on the sorted ring (or its first entry, past the end). When it
  returns fewer than three, every rack among the fifteen positions from there on is represented.
\<close>

theorem hash_ring_replicas:
  assumes "m \<noteq> []"
  shows "\<exists>es. ring_lookup (ring_prepare m) aHash = Inr (map ri_id es) \<and> 1 \<le> length es \<and> length es \<le> 3
    \<and> distinct (map ri_rack es) \<and> set es \<subseteq> set m
    \<and> hd es = ring_prepare m ! (lower_bound aHash (ring_prepare m) mod length m)
    \<and> (length es < 3 \<longrightarrow> (\<forall>i < 15. ri_rack (ring_prepare m ! ((lower_bound aHash (ring_prepare m) + i) mod length m)) \<in> ri_rack ` set es))"
proof -
  let ?r = "ring_prepare m" and ?p = "lower_bound aHash (ring_prepare m)"
  have r2: "set ?r = set m" "length ?r = length m" by (simp_all add: ring_prepare_def)
  have r: "?r \<noteq> []" using assms r2(2) by (metis length_0_conv)
  have "?p \<le> length ?r" by (simp add: lower_bound_def length_takeWhile_le)
  from ring_steps_nil [OF r this, of 15]
obtain fs where "ring_steps ?r 15 ?p [] [] = Inr (map ri_id fs)" "distinct (map ri_rack fs)" "set fs \<subseteq> set ?r"
    "length fs \<le> 3" "length fs < 3 \<longrightarrow> (\<forall>i < 15. ri_rack (?r ! ((?p + i) mod length ?r)) \<in> ri_rack ` set fs)"
    "fs \<noteq> []" "hd fs = ?r ! (?p mod length ?r)"
    unfolding eqTrueI [OF zero_less_numeral] simp_thms by blast
  then show ?thesis unfolding ring_lookup_def STEPS_def r2
    by (intro exI [of _ fs]) (simp add: Suc_le_eq)
qed

theorem hash_ring_replicas_witness:
  "\<exists>es :: ring_info list. ring_lookup (ring_prepare [\<lparr>ri_hash = 5, ri_id = 1, ri_rack = 1\<rparr>]) 7 = Inr (map ri_id es) \<and> length es \<le> 3"
  using hash_ring_replicas [OF list.distinct(2), of "\<lparr>ri_hash = 5, ri_id = 1, ri_rack = 1\<rparr>" "[]" 7] by blast

end
