(* ===== verification/Http2_Types.thy ===== *)
theory Http2_Types
  imports Streams
begin

text \<open>
  HTTP/2 framing of \<open>asio_http/v2\<close>: the constants and the packed frame header of \<open>Types.hpp\<close>
  with its conversions between host and network order, and the input buffer of \<open>InputBuf.hpp\<close>
  with the inner loop of \<open>read_coro\<close> that fills it. The locale \<open>framed_input\<close> is what the read
  loops rely on: a source hands out exactly the next bytes asked for, however they arrived.
\<close>

section \<open>Constants\<close>

definition Type_DATA :: byte where "Type_DATA = 0"
definition Type_HEADERS :: byte where "Type_HEADERS = 1"
definition Type_SETTINGS :: byte where "Type_SETTINGS = 4"
definition Type_WINDOW_UPDATE :: byte where "Type_WINDOW_UPDATE = 8"
definition Type_CONTINUATION :: byte where "Type_CONTINUATION = 9"

definition ACK_SETTINGS :: byte where "ACK_SETTINGS = 0x1"
definition END_STREAM :: byte where "END_STREAM = 0x1"
definition END_HEADERS :: byte where "END_HEADERS = 0x4"
definition PADDED :: byte where "PADDED = 0x8"
definition PRIORITY :: byte where "PRIORITY = 0x20"

definition CONCURRENT_STREAMS :: nat where "CONCURRENT_STREAMS = 100"
definition MIN_FRAME_SIZE :: nat where "MIN_FRAME_SIZE = 4096"
definition MAX_STREAM_EXCLUSIVE :: nat where "MAX_STREAM_EXCLUSIVE = 131072"
definition DEFAULT_MAX_FRAME_SIZE :: nat where "DEFAULT_MAX_FRAME_SIZE = 16384"
definition DEFAULT_WINDOW_SIZE :: nat where "DEFAULT_WINDOW_SIZE = 65535"

lemmas h2_types = Type_DATA_def Type_HEADERS_def Type_SETTINGS_def Type_WINDOW_UPDATE_def Type_CONTINUATION_def

lemmas h2_flags = ACK_SETTINGS_def END_STREAM_def END_HEADERS_def PADDED_def PRIORITY_def

lemmas h2_sizes = MIN_FRAME_SIZE_def MAX_STREAM_EXCLUSIVE_def DEFAULT_MAX_FRAME_SIZE_def DEFAULT_WINDOW_SIZE_def

definition PREFACE :: "byte list" where
  "PREFACE = bytes_of ''PRI * HTTP/2.0'' @ [13, 10, 13, 10] @ bytes_of ''SM'' @ [13, 10, 13, 10]"

section \<open>Frame header\<close>

text \<open>\<open>be32toh\<close>, \<open>htobe32\<close> on a little-endian machine.\<close>

definition bswap32 :: "u32 \<Rightarrow> u32" where
  "bswap32 w = of_nat (le_dec (be_enc 4 (unat w)))"

definition bswap16 :: "u16 \<Rightarrow> u16" where
  "bswap16 w = of_nat (le_dec (be_enc 2 (unat w)))"

record h2_header =
  h_size :: "24 word"
  h_type :: byte
  h_flags :: byte
  h_stream :: u32

definition h2_header0 :: h2_header where
  "h2_header0 = \<lparr>h_size = 0, h_type = 0, h_flags = 0, h_stream = 0\<rparr>"

definition to_host :: "h2_header \<Rightarrow> h2_header" where
  "to_host h = h\<lparr>h_size := ucast (bswap32 (push_bit 8 (ucast (h_size h)))), h_stream := bswap32 (h_stream h)\<rparr>"

definition to_net :: "h2_header \<Rightarrow> h2_header" where
  "to_net h = h\<lparr>h_size := ucast (drop_bit 8 (bswap32 (ucast (h_size h)))), h_stream := bswap32 (h_stream h)\<rparr>"

text \<open>The packed structure in memory, nine bytes.\<close>

definition header_bytes :: "h2_header \<Rightarrow> byte list" where
  "header_bytes h = le_enc 3 (unat (h_size h)) @ [h_type h, h_flags h] @ le_enc 4 (unat (h_stream h))"

definition header_of :: "byte list \<Rightarrow> h2_header" where
  "header_of b = \<lparr>h_size = of_nat (le_dec (take 3 b)), h_type = b ! 3, h_flags = b ! 4,
     h_stream = of_nat (le_dec (take 4 (drop 5 b)))\<rparr>"

definition sizeof_Header :: nat where "sizeof_Header = 9"

record setting_val =
  sv_key :: u16
  sv_value :: u32

definition setting_of :: "byte list \<Rightarrow> setting_val" where
  "setting_of b = \<lparr>sv_key = of_nat (le_dec (take 2 b)), sv_value = of_nat (le_dec (take 4 (drop 2 b)))\<rparr>"

definition setting_to_host :: "setting_val \<Rightarrow> setting_val" where
  "setting_to_host v = \<lparr>sv_key = bswap16 (sv_key v), sv_value = bswap32 (sv_value v)\<rparr>"

section \<open>InputBuf\<close>

definition VACUUM_SIZE :: nat where "VACUUM_SIZE = 16384"

record input_buf =
  ib_Data :: "byte list"
  ib_readAt :: nat
  ib_writeAt :: nat

definition writeAvail :: "input_buf \<Rightarrow> nat" where
  "writeAvail ib = length (ib_Data ib) - ib_writeAt ib"

definition readAvail :: "input_buf \<Rightarrow> nat result" where
  "readAvail ib = (if ib_readAt ib \<le> ib_writeAt ib then Inr (ib_writeAt ib - ib_readAt ib) else Inl AssertFailed)"

definition ib_vacuum :: "input_buf \<Rightarrow> input_buf result" where
  "ib_vacuum ib = bindr (readAvail ib) (\<lambda>sAvail.
     Inr \<lparr>ib_Data = take sAvail (drop (ib_readAt ib) (ib_Data ib)) @ drop sAvail (ib_Data ib),
          ib_readAt = 0, ib_writeAt = sAvail\<rparr>)"

text \<open>\<open>buffer\<close>: the space that may be written, from \<open>ib_writeAt\<close> on.\<close>

definition ib_buffer :: "input_buf \<Rightarrow> (nat \<times> input_buf) result" where
  "ib_buffer ib =
     bindr (if writeAvail ib < VACUUM_SIZE then ib_vacuum ib
            else bindr (readAvail ib) (\<lambda>n. if n = 0 then ib_vacuum ib else Inr ib))
       (\<lambda>ib. Inr (writeAvail ib, ib))"

definition ib_push :: "nat \<Rightarrow> input_buf \<Rightarrow> input_buf" where
  "ib_push aSize ib = ib\<lparr>ib_writeAt := ib_writeAt ib + aSize\<rparr>"

definition ib_append :: "byte list \<Rightarrow> nat \<Rightarrow> input_buf \<Rightarrow> (bool \<times> byte list \<times> input_buf) result" where
  "ib_append aStr aSize ib = bindr (readAvail ib) (\<lambda>n.
     let sSize = min aSize n
     in Inr (aSize = sSize, aStr @ take sSize (drop (ib_readAt ib) (ib_Data ib)),
             ib\<lparr>ib_readAt := ib_readAt ib + sSize\<rparr>))"

section \<open>The read loop\<close>

text \<open>
  The socket is the list of the pieces it will deliver. \<open>async_read_some\<close> delivers a piece, or as
  much of it as there is space for, and fails at the end; what it writes into the buffer it returns
  the size of.
\<close>

definition read_some :: "nat \<Rightarrow> byte list list \<Rightarrow> (byte list \<times> byte list list) result" where
  "read_some n net =
     (case net of
        [] \<Rightarrow> Inl (NetworkError ''end of stream'')
      | c # cs \<Rightarrow> Inr (take n c, if n < length c then drop n c # cs else cs))"

definition ib_write :: "byte list \<Rightarrow> input_buf \<Rightarrow> input_buf" where
  "ib_write bs ib = ib\<lparr>ib_Data := take (ib_writeAt ib) (ib_Data ib) @ bs @ drop (ib_writeAt ib + length bs) (ib_Data ib)\<rparr>"

text \<open>
  The inner loop of \<open>read_coro\<close>: \<open>sBuffer\<close> is filled up to \<open>hint\<close> bytes. The fuel bounds the number
  of reads.
\<close>

fun read_frame :: "nat \<Rightarrow> nat \<Rightarrow> byte list \<Rightarrow> input_buf \<times> byte list list \<Rightarrow>
    (byte list \<times> input_buf \<times> byte list list) result" where
  "read_frame fuel hint sBuffer (ib, net) =
     bindr (ib_append sBuffer (hint - length sBuffer) ib) (\<lambda>(done, sBuffer, ib).
       if done then Inr (sBuffer, ib, net)
       else case fuel of 0 \<Rightarrow> Inl OutOfFuel
       | Suc fuel \<Rightarrow>
           bindr (ib_buffer ib) (\<lambda>(n, ib).
           bindr (read_some n net) (\<lambda>(bs, net).
             read_frame fuel hint sBuffer (ib_push (length bs) (ib_write bs ib), net))))"

declare read_frame.simps [simp del]

section \<open>The header on the wire\<close>

lemma be_enc_Suc_Cons: "be_enc (Suc n) v = of_nat (v div 256 ^ n) # be_enc n v"
proof (induction n arbitrary: v)
  case (Suc n)
  have "be_enc (Suc (Suc n)) v = be_enc (Suc n) (v div 256) @ [of_nat v]" by (rule be_enc.simps(2))
  also have "\<dots> = (of_nat (v div 256 div 256 ^ n) # be_enc n (v div 256)) @ [of_nat v]" by (simp only: Suc)
  finally show ?case by (simp add: div_mult2_eq)
qed simp

lemma le_enc_Suc: "le_enc (Suc n) v = of_nat v # le_enc n (v div 256)"
  by (simp add: le_enc_def)

lemma Suc_3: "(4 :: nat) = Suc 3"
  by simp

lemma be_enc_4: "be_enc 4 v = of_nat (v div 256 ^ 3) # be_enc 3 v"
  unfolding Suc_3 by (rule be_enc_Suc_Cons)

lemma le_enc_4: "le_enc 4 v = of_nat v # le_enc 3 (v div 256)"
  unfolding Suc_3 by (rule le_enc_Suc)

lemma le_enc_dec: "length bs = n \<Longrightarrow> le_enc n (le_dec bs) = bs"
  using be_enc_dec [of "rev bs"] by (auto simp: le_enc_def le_dec_def)

lemma le_dec_less: "le_dec bs < 256 ^ length bs"
  using be_dec_less [of "rev bs"] by (simp add: le_dec_def)

lemma be_dec_Cons0 [simp]: "be_dec (0 # bs) = be_dec bs"
  by (simp add: be_dec_def)

lemma unat_bswap32: "unat (bswap32 w) = le_dec (be_enc 4 (unat w))"
  using le_dec_less [of "be_enc 4 (unat w)"] by (simp add: bswap32_def unat_of_nat)

lemma le_enc_bswap32: "le_enc 4 (unat (bswap32 w)) = be_enc 4 (unat w)"
  by (simp add: unat_bswap32 le_enc_dec)

lemma bswap32_of_le: "length bs = 4 \<Longrightarrow> bswap32 (of_nat (le_dec bs)) = of_nat (be_dec bs)"
proof -
  assume l: "length bs = 4"
  then have "le_dec bs < 2 ^ 32" using le_dec_less [of bs] by simp
  then have "unat (of_nat (le_dec bs) :: u32) = le_dec bs" by (simp add: unat_of_nat)
  moreover have "be_enc 4 (le_dec bs) = rev bs"
    using be_enc_dec [of "rev bs"] l by (simp add: le_dec_def)
  ultimately show ?thesis by (simp add: bswap32_def) (simp add: le_dec_def)
qed

lemma unat_u24_less: "unat (w :: 24 word) < 16777216"
  using unsigned_less [of w, where 'a = nat] by simp

lemma unat_ucast_24_32 [simp]: "unat (ucast (w :: 24 word) :: u32) = unat w"
  using unat_u24_less [of w] by (simp add: unsigned_ucast_eq take_bit_eq_mod)

lemma net_size:
  "le_enc 3 (unat (ucast (drop_bit 8 (bswap32 (ucast (s :: 24 word)))) :: 24 word)) = be_enc 3 (unat s)"
proof -
  let ?w = "bswap32 (ucast s)"
  have "unat ?w < 2 ^ 32" using unsigned_less [of ?w, where 'a = nat] by simp
  then have "unat ?w div 256 < 2 ^ 24" by simp
  then have n: "unat (ucast (drop_bit 8 ?w) :: 24 word) = unat ?w div 256"
    by (simp add: unsigned_ucast_eq drop_bit_eq_div unat_div take_bit_eq_mod)
  have "of_nat (unat ?w) # le_enc 3 (unat ?w div 256) = be_enc 4 (unat (ucast s :: u32))"
    unfolding le_enc_4 [symmetric] by (rule le_enc_bswap32)
  also have "\<dots> = of_nat (unat s div 256 ^ 3) # be_enc 3 (unat s)"
    unfolding be_enc_4 unat_ucast_24_32 by (rule refl)
  finally show ?thesis unfolding n by (rule list.inject [THEN iffD1, THEN conjunct2])
qed

lemma header_bytes_net:
  "header_bytes (to_net h) = be_enc 3 (unat (h_size h)) @ [h_type h, h_flags h] @ be_enc 4 (unat (h_stream h))"
  by (simp add: header_bytes_def to_net_def net_size le_enc_bswap32)

lemma host_size:
  assumes "length b = 3"
  shows "(ucast (bswap32 (push_bit 8 (ucast (of_nat (le_dec b) :: 24 word)))) :: 24 word) = of_nat (be_dec b)"
proof -
  have l: "le_dec b < 2 ^ 24" and r: "be_dec b < 2 ^ 24" using le_dec_less [of b] be_dec_less [of b] assms by simp_all
  have "ucast (of_nat (le_dec b) :: 24 word) = (of_nat (le_dec b) :: u32)"
    using l by (simp add: word_unat_eq_iff unat_of_nat)
  then have "push_bit 8 (ucast (of_nat (le_dec b) :: 24 word)) = (of_nat (le_dec b * 256) :: u32)"
    by (simp add: push_bit_eq_mult)
  also have "le_dec b * 256 = le_dec (0 # b)" by (simp add: le_dec_def)
  finally have "bswap32 (push_bit 8 (ucast (of_nat (le_dec b) :: 24 word))) = of_nat (be_dec b)"
    using bswap32_of_le [of "0 # b"] assms by simp
  then show ?thesis using r by (simp add: word_unat_eq_iff unsigned_ucast_eq unat_of_nat take_bit_eq_mod)
qed

lemma header_of_host:
  assumes "length b = 9"
  shows "to_host (header_of b) = \<lparr>h_size = of_nat (be_dec (take 3 b)), h_type = b ! 3, h_flags = b ! 4,
    h_stream = of_nat (be_dec (take 4 (drop 5 b)))\<rparr>"
  using assms by (simp add: to_host_def header_of_def host_size bswap32_of_le)

lemma header_roundtrip: "to_host (header_of (header_bytes (to_net h))) = h"
proof -
  have "unat (h_size h) < 256 ^ 3" using unat_u24_less [of "h_size h"] by simp
  moreover have "unat (h_stream h) < 256 ^ 4" using unsigned_less [of "h_stream h", where 'a = nat] by simp
  ultimately show ?thesis
    by (simp add: header_of_host header_bytes_net nth_append)
qed

lemma length_header_bytes [simp]: "length (header_bytes h) = sizeof_Header"
  by (simp add: header_bytes_def sizeof_Header_def)

section \<open>The input buffer\<close>

definition ib_ok :: "input_buf \<Rightarrow> bool" where
  "ib_ok ib \<longleftrightarrow> length (ib_Data ib) = MAX_STREAM_EXCLUSIVE \<and> ib_readAt ib \<le> ib_writeAt ib
     \<and> ib_writeAt ib \<le> MAX_STREAM_EXCLUSIVE"

definition ib_pending :: "input_buf \<Rightarrow> byte list" where
  "ib_pending ib = take (ib_writeAt ib - ib_readAt ib) (drop (ib_readAt ib) (ib_Data ib))"

lemma length_ib_pending: "ib_ok ib \<Longrightarrow> length (ib_pending ib) = ib_writeAt ib - ib_readAt ib"
  by (auto simp: ib_pending_def ib_ok_def)

lemma readAvail_ok: "ib_ok ib \<Longrightarrow> readAvail ib = Inr (length (ib_pending ib))"
  by (simp add: readAvail_def length_ib_pending) (simp add: ib_ok_def)

lemma ib_append_ok:
  assumes "ib_ok ib"
  shows "\<exists>ib'. ib_append s n ib = Inr (n \<le> length (ib_pending ib), s @ take n (ib_pending ib), ib')
    \<and> ib_ok ib' \<and> ib_pending ib' = drop n (ib_pending ib)"
proof -
  let ?k = "min n (length (ib_pending ib))" and ?ib = "ib\<lparr>ib_readAt := ib_readAt ib + min n (length (ib_pending ib))\<rparr>"
  have "take ?k (drop (ib_readAt ib) (ib_Data ib)) = take n (ib_pending ib)"
    using length_ib_pending [OF assms] by (simp add: ib_pending_def min_def)
  moreover have "ib_ok ?ib" using assms length_ib_pending [OF assms] by (auto simp: ib_ok_def)
  moreover have "ib_pending ?ib = drop n (ib_pending ib)"
    using length_ib_pending [OF assms] by (auto simp: ib_pending_def drop_take min_def add.commute)
  ultimately show ?thesis
    by (intro exI [of _ ?ib]) (auto simp: ib_append_def readAvail_ok [OF assms] Let_def min_def)
qed

lemma ib_buffer_empty:
  assumes "ib_ok ib" and "ib_pending ib = []"
  shows "\<exists>ib'. ib_buffer ib = Inr (MAX_STREAM_EXCLUSIVE, ib') \<and> ib_ok ib' \<and> ib_readAt ib' = 0 \<and> ib_writeAt ib' = 0"
proof -
  have "ib_vacuum ib = Inr \<lparr>ib_Data = ib_Data ib, ib_readAt = 0, ib_writeAt = 0\<rparr>"
    using readAvail_ok [OF assms(1)] assms(2) by (simp add: ib_vacuum_def)
  then show ?thesis
    using assms readAvail_ok [OF assms(1)] by (auto simp: ib_buffer_def ib_ok_def writeAvail_def)
qed

lemma ib_write_push:
  assumes "ib_ok ib" and "ib_readAt ib = 0" "ib_writeAt ib = 0" and "length bs \<le> MAX_STREAM_EXCLUSIVE"
  shows "ib_ok (ib_push (length bs) (ib_write bs ib)) \<and> ib_pending (ib_push (length bs) (ib_write bs ib)) = bs"
  using assms by (auto simp: ib_ok_def ib_push_def ib_write_def ib_pending_def)

definition net_fuel :: "byte list list \<Rightarrow> nat" where
  "net_fuel net = length net + length (concat net)"

lemma read_some_ok:
  assumes "net \<noteq> []" and "0 < n"
  shows "\<exists>bs net'. read_some n net = Inr (bs, net') \<and> length bs \<le> n \<and> bs @ concat net' = concat net \<and> net_fuel net' < net_fuel net"
  using assms by (cases net) (auto simp: read_some_def net_fuel_def)

text \<open>
  The frame is read whenever its bytes will arrive, in whatever pieces, and exactly its bytes are
  taken off the input; otherwise the loop ends with the error of the socket.
\<close>

lemma read_frame_ok:
  assumes "ib_ok ib" and "length sBuffer \<le> hint" and "net_fuel net < fuel"
  shows "let k = hint - length sBuffer; s = ib_pending ib @ concat net
    in if k \<le> length s
       then \<exists>ib' net'. read_frame fuel hint sBuffer (ib, net) = Inr (sBuffer @ take k s, ib', net')
          \<and> ib_ok ib' \<and> ib_pending ib' @ concat net' = drop k s
       else read_frame fuel hint sBuffer (ib, net) = Inl (NetworkError ''end of stream'')"
  using assms
proof (induction fuel arbitrary: sBuffer ib net)
  case 0
  then show ?case by simp
next
  case (Suc fuel)
  let ?k = "hint - length sBuffer" and ?s = "ib_pending ib @ concat net"
  obtain ib1 where a: "ib_append sBuffer ?k ib = Inr (?k \<le> length (ib_pending ib), sBuffer @ take ?k (ib_pending ib), ib1)"
    "ib_ok ib1" "ib_pending ib1 = drop ?k (ib_pending ib)"
    using ib_append_ok [OF Suc.prems(1), of sBuffer ?k] by blast
  show ?case
  proof (cases "?k \<le> length (ib_pending ib)")
    case True
    then show ?thesis using a by (auto simp: Let_def read_frame.simps [of "Suc fuel"])
  next
    case False
    let ?b = "sBuffer @ ib_pending ib"
    have p: "ib_pending ib1 = []" using a(3) False by simp
    obtain ib2 where b: "ib_buffer ib1 = Inr (MAX_STREAM_EXCLUSIVE, ib2)" "ib_ok ib2" "ib_readAt ib2 = 0" "ib_writeAt ib2 = 0"
      using ib_buffer_empty [OF a(2) p] by blast
    have step: "read_frame (Suc fuel) hint sBuffer (ib, net) =
        bindr (read_some MAX_STREAM_EXCLUSIVE net) (\<lambda>(bs, net).
          read_frame fuel hint ?b (ib_push (length bs) (ib_write bs ib2), net))"
      using False by (simp add: read_frame.simps [of "Suc fuel"] a(1) b(1))
    show ?thesis
    proof (cases "net = []")
      case True
      then show ?thesis using False step by (simp add: Let_def read_some_def)
    next
      case ne: False
      obtain bs net' where r: "read_some MAX_STREAM_EXCLUSIVE net = Inr (bs, net')" "length bs \<le> MAX_STREAM_EXCLUSIVE"
        "bs @ concat net' = concat net" "net_fuel net' < net_fuel net"
        using read_some_ok [OF ne, of MAX_STREAM_EXCLUSIVE] by (auto simp: MAX_STREAM_EXCLUSIVE_def)
      note w = ib_write_push [OF b(2-4) r(2)]
      have s: "?s = ib_pending ib @ bs @ concat net'" using r(3) by simp
      have "?k - length (ib_pending ib) = hint - length ?b" by simp
      moreover have "length ?b \<le> hint" using False by simp
      ultimately show ?thesis
        using Suc.IH [OF conjunct1 [OF w], of ?b net'] Suc.prems(3) r(4) False
        unfolding step r(1) bindr_Inr prod.case s conjunct2 [OF w]
        by (auto simp: Let_def not_le split: if_splits)
    qed
  qed
qed

section \<open>Sources of frames\<close>

text \<open>
  What the read loops rely on: the next \<open>n\<close> bytes of the stream are handed out whenever there are
  that many, otherwise the error of the socket is raised.
\<close>

locale framed_input =
  fixes get :: "nat \<Rightarrow> 's \<Rightarrow> (byte list \<times> 's) result"
    and stream :: "'s \<Rightarrow> byte list"
    and ok :: "'s \<Rightarrow> bool"
  assumes get_full: "ok s \<Longrightarrow> n \<le> length (stream s) \<Longrightarrow>
      \<exists>s'. get n s = Inr (take n (stream s), s') \<and> ok s' \<and> stream s' = drop n (stream s)"
    and get_short: "ok s \<Longrightarrow> length (stream s) < n \<Longrightarrow> get n s = Inl (NetworkError ''end of stream'')"

definition net_get :: "nat \<Rightarrow> input_buf \<times> byte list list \<Rightarrow> (byte list \<times> input_buf \<times> byte list list) result" where
  "net_get hint s = read_frame (Suc (net_fuel (snd s))) hint [] s"

definition net_stream :: "input_buf \<times> byte list list \<Rightarrow> byte list" where
  "net_stream s = ib_pending (fst s) @ concat (snd s)"

interpretation input: framed_input net_get net_stream "\<lambda>s. ib_ok (fst s)"
proof (unfold_locales, goal_cases)
  case (1 s n)
  then show ?case using read_frame_ok [of "fst s" "[]" n "snd s" "Suc (net_fuel (snd s))"]
    by (auto simp: net_get_def net_stream_def Let_def)
next
  case (2 s n)
  then show ?case using read_frame_ok [of "fst s" "[]" n "snd s" "Suc (net_fuel (snd s))"]
    by (auto simp: net_get_def net_stream_def Let_def split: if_splits)
qed

text \<open>A source that holds the whole stream, the reference the buffered one is compared with.\<close>

definition whole_get :: "nat \<Rightarrow> byte list \<Rightarrow> (byte list \<times> byte list) result" where
  "whole_get n s = (if n \<le> length s then Inr (take n s, drop n s) else Inl (NetworkError ''end of stream''))"

interpretation whole: framed_input whole_get "\<lambda>s. s" "\<lambda>s. True"
  by unfold_locales (auto simp: whole_get_def)

end
