(* ===== verification/Http2_Parser.thy ===== *)
theory Http2_Parser
  imports Http2_Types Text_Parsers
begin

text \<open>
  The receiving side of HTTP/2: header decompression of \<open>HPack.hpp\<close> around the external nghttp2
  inflater, the frame parser \<open>parser::Main\<close> of \<open>Parser.hpp\<close> and the read loop \<open>read_coro\<close> of
  \<open>Server.hpp\<close> and \<open>Client.hpp\<close>. Calls on \<open>parser::API\<close> are returned as a list, in order; no call
  is made before an exception within one step, so a throwing step has none.
\<close>

section \<open>Inflate\<close>

text \<open>
  One call of \<open>nghttp2_hd_inflate_hd2\<close>: the bytes used (negative on error), the header emitted, the
  end of the block. The code passes bit \<open>END_HEADERS\<close> of a variable it never initialised as the last
  argument; its value is the parameter \<open>indet\<close>.
\<close>

record hd_step =
  hd_used :: int
  hd_emit :: "(byte list \<times> byte list) option"
  hd_final :: bool

record 'i hd_inflater =
  inflate_hd2 :: "'i \<Rightarrow> byte list \<Rightarrow> bool \<Rightarrow> hd_step \<times> 'i"
  inflate_end_headers :: "'i \<Rightarrow> 'i"

text \<open>\<open>IMessage\<close>, with the factory \<open>API::new_message\<close>.\<close>

record 'm imessage =
  set_header :: "byte list \<Rightarrow> byte list \<Rightarrow> 'm \<Rightarrow> 'm result"
  append_body :: "byte list \<Rightarrow> 'm \<Rightarrow> 'm"
  new_message :: "u32 \<Rightarrow> 'm"

record ('i, 'm) h2_env =
  e_hd :: "'i hd_inflater"
  e_msg :: "'m imessage"
  e_indet :: bool

text \<open>
  The fuel is the number of bytes: every call that succeeds on a non-empty input uses some of it,
  and a call that used none would make the loop spin.
\<close>

fun inflate_loop :: "('i, 'm) h2_env \<Rightarrow> nat \<Rightarrow> byte list \<Rightarrow> 'i \<Rightarrow> 'm \<Rightarrow> ('i \<times> 'm) result" where
  "inflate_loop env fuel aStr i m =
     (if aStr = [] then Inr (i, m)
      else case fuel of 0 \<Rightarrow> Inl OutOfFuel
      | Suc fuel \<Rightarrow>
          let (st, i) = inflate_hd2 (e_hd env) i aStr (e_indet env)
          in if hd_used st < 0 then Inl (InvalidArgument ''fail to inflate headers'')
             else if length aStr < nat (hd_used st) then Inl Undefined
             else bindr (case hd_emit st of Some (n, v) \<Rightarrow> set_header (e_msg env) n v m | None \<Rightarrow> Inr m) (\<lambda>m.
                    inflate_loop env fuel (drop (nat (hd_used st)) aStr)
                      (if hd_final st then inflate_end_headers (e_hd env) i else i) m))"

declare inflate_loop.simps [simp del]

definition inflate_frame :: "('i, 'm) h2_env \<Rightarrow> h2_header \<Rightarrow> byte list \<Rightarrow> 'i \<Rightarrow> 'm \<Rightarrow> ('i \<times> 'm) result" where
  "inflate_frame env aHeader aData i m =
     bindr (if h_flags aHeader AND PADDED \<noteq> 0
            then bindr (im_read 1 (im_open aData)) (\<lambda>(b, sData). Inr (hd b, sData))
            else Inr (0, im_open aData)) (\<lambda>(sPadLength, sData).
     bindr (if h_flags aHeader AND PRIORITY \<noteq> 0 then im_skip (4 + 1) sData else Inr sData) (\<lambda>sData.
     bindr (im_rest sData) (\<lambda>(sRest, _).
       if length sRest < unat sPadLength then Inl Undefined
       else let sRest = take (length sRest - unat sPadLength) sRest
            in inflate_loop env (length sRest) sRest i m)))"

section \<open>parser::Main\<close>

datatype h2_mode = CLIENT | SERVER

datatype h2_stage = HELLO | HEADER | BODY | CLIENT_HELLO | CLIENT_WAIT

record 'm h2_info =
  i_message :: "'m option"
  i_budget :: u32
  no_body :: bool

record ('i, 'm) h2_main =
  p_Mode :: h2_mode
  p_Stage :: h2_stage
  p_Header :: h2_header
  p_Body :: "byte list"
  p_Info :: "(u32 \<times> 'm h2_info) list"
  p_Inflate :: 'i
  p_Budget :: u32

datatype 'm api_call =
    Established
  | Process_message u32 'm
  | Window_update u32 u32
  | Send "byte list"

definition h2_new :: "h2_mode \<Rightarrow> 'i \<Rightarrow> ('i, 'm) h2_main" where
  "h2_new aMode i =
     \<lparr>p_Mode = aMode, p_Stage = (if aMode = CLIENT then CLIENT_HELLO else HELLO), p_Header = h2_header0,
      p_Body = [], p_Info = [], p_Inflate = i, p_Budget = of_nat DEFAULT_WINDOW_SIZE\<rparr>"

definition create_settings :: "bool \<Rightarrow> byte list" where
  "create_settings aAck =
     header_bytes (to_net (h2_header0\<lparr>h_type := Type_SETTINGS, h_flags := (if aAck then ACK_SETTINGS else 0)\<rparr>))"

text \<open>\<open>send_window_update\<close>: the frame sent and the budget afterwards.\<close>

definition window_update_frame :: "u32 \<Rightarrow> byte list" where
  "window_update_frame aStreamId =
     header_bytes (to_net \<lparr>h_size = 4, h_type = Type_WINDOW_UPDATE, h_flags = 0, h_stream = aStreamId\<rparr>)
       @ le_enc 4 (unat (bswap32 (of_nat DEFAULT_WINDOW_SIZE)))"

definition send_window_update :: "u32 \<Rightarrow> u32 \<Rightarrow> 'm api_call \<times> u32" where
  "send_window_update aStreamId aCurrent =
     (Send (window_update_frame aStreamId), aCurrent + of_nat DEFAULT_WINDOW_SIZE)"

definition recv_hello :: "byte list \<Rightarrow> ('i, 'm) h2_main \<Rightarrow> ('m api_call list \<times> ('i, 'm) h2_main) result" where
  "recv_hello aBuffer p =
     (if aBuffer \<noteq> PREFACE then Inl (RuntimeError ''http2: invalid preface'')
      else Inr ([Send (create_settings False), Established], p\<lparr>p_Stage := HEADER\<rparr>))"

definition recv_header :: "byte list \<Rightarrow> ('i, 'm) h2_main \<Rightarrow> ('i, 'm) h2_main result" where
  "recv_header aBuffer p =
     (if length aBuffer \<noteq> sizeof_Header then Inl (RuntimeError ''http2: not a frame header'')
      else Inr (p\<lparr>p_Header := to_host (header_of aBuffer), p_Stage := BODY\<rparr>))"

definition info_of :: "('i, 'm) h2_main \<Rightarrow> u32 \<Rightarrow> 'm h2_info" where
  "info_of p sid =
     (case map_of (p_Info p) sid of
        Some x \<Rightarrow> x
      | None \<Rightarrow> \<lparr>i_message = None, i_budget = of_nat DEFAULT_WINDOW_SIZE, no_body = False\<rparr>)"

definition process_headers :: "('i, 'm) h2_env \<Rightarrow> ('i, 'm) h2_main \<Rightarrow> ('m api_call list \<times> ('i, 'm) h2_main) result" where
  "process_headers env p =
     (let sStreamId = h_stream (p_Header p); fl = h_flags (p_Header p)
      in if sStreamId = 0 then Inl (RuntimeError ''http2: zero stream id'')
         else
           let sInfo = info_of p sStreamId;
               m = (case i_message sInfo of Some m \<Rightarrow> m | None \<Rightarrow> new_message (e_msg env) sStreamId)
           in bindr (inflate_frame env (p_Header p) (p_Body p) (p_Inflate p) m) (\<lambda>(i, m).
                let sInfo = sInfo\<lparr>i_message := Some m, no_body := no_body sInfo \<or> fl AND END_STREAM \<noteq> 0\<rparr>
                in if fl AND END_HEADERS \<noteq> 0 \<and> no_body sInfo
                   then Inr ([Process_message sStreamId m],
                             p\<lparr>p_Inflate := i, p_Info := AList.delete sStreamId (p_Info p)\<rparr>)
                   else Inr ([], p\<lparr>p_Inflate := i, p_Info := omap_put sStreamId sInfo (p_Info p)\<rparr>)))"

definition process_data :: "('i, 'm) h2_env \<Rightarrow> ('i, 'm) h2_main \<Rightarrow> ('m api_call list \<times> ('i, 'm) h2_main) result" where
  "process_data env p =
     (let sStreamId = h_stream (p_Header p); n = length (p_Body p);
          sMore = (h_flags (p_Header p) AND END_STREAM = 0)
      in if sStreamId = 0 then Inl (RuntimeError ''http2: zero stream id'')
         else case map_of (p_Info p) sStreamId of
           None \<Rightarrow> Inl (RuntimeError ''http2: stream not found'')
         | Some sInfo \<Rightarrow>
             if unat (p_Budget p) < n \<or> unat (i_budget sInfo) < n then Inl AssertFailed
             else case i_message sInfo of
               None \<Rightarrow> Inl Undefined
             | Some m \<Rightarrow>
                 let m = append_body (e_msg env) (p_Body p) m;
                     ib = i_budget sInfo - of_nat n; b = p_Budget p - of_nat n;
                     (c1, b) = (if b < of_nat DEFAULT_WINDOW_SIZE
                                then let (c, b) = send_window_update 0 b in ([c], b) else ([], b));
                     (c2, ib) = (if ib < of_nat DEFAULT_WINDOW_SIZE \<and> sMore
                                 then let (c, ib) = send_window_update sStreamId ib in ([c], ib) else ([], ib));
                     p = p\<lparr>p_Budget := b\<rparr>
                 in if \<not> sMore
                    then Inr (c1 @ c2 @ [Process_message sStreamId m], p\<lparr>p_Info := AList.delete sStreamId (p_Info p)\<rparr>)
                    else Inr (c1 @ c2, p\<lparr>p_Info := omap_put sStreamId (sInfo\<lparr>i_message := Some m, i_budget := ib\<rparr>) (p_Info p)\<rparr>))"

fun settings_loop :: "nat \<Rightarrow> imemstream \<Rightarrow> setting_val list result" where
  "settings_loop fuel s =
     (if im_eof s then Inr []
      else case fuel of 0 \<Rightarrow> Inl OutOfFuel
      | Suc fuel \<Rightarrow>
          bindr (im_read 6 s) (\<lambda>(b, s).
          bindr (settings_loop fuel s) (\<lambda>vs. Inr (setting_to_host (setting_of b) # vs))))"

declare settings_loop.simps [simp del]

definition process_settings :: "('i, 'm) h2_main \<Rightarrow> ('m api_call list \<times> ('i, 'm) h2_main) result" where
  "process_settings p =
     (if h_flags (p_Header p) \<noteq> 0 then Inr ([], p)
      else bindr (settings_loop (length (p_Body p)) (im_open (p_Body p))) (\<lambda>_. Inr ([Send (create_settings True)], p)))"

text \<open>The mask of the code has 63 bits and leaves a 32-bit value as it is.\<close>

definition process_window_update :: "('i, 'm) h2_main \<Rightarrow> ('m api_call list \<times> ('i, 'm) h2_main) result" where
  "process_window_update p =
     (if length (p_Body p) \<noteq> 4 then Inl (RuntimeError ''http2: invalid window update'')
      else bindr (im_read 4 (im_open (p_Body p))) (\<lambda>(b, _).
        let sInc = bswap32 (of_nat (le_dec b));
            sInc = ucast ((ucast sInc :: u64) AND 0x7FFFFFFFFFFFFFFF)
        in Inr ([Window_update (h_stream (p_Header p)) sInc], p)))"

definition process_packet :: "('i, 'm) h2_env \<Rightarrow> ('i, 'm) h2_main \<Rightarrow> ('m api_call list \<times> ('i, 'm) h2_main) result" where
  "process_packet env p =
     (let t = h_type (p_Header p)
      in if t = Type_DATA then process_data env p
         else if t = Type_HEADERS then process_headers env p
         else if t = Type_SETTINGS then process_settings p
         else if t = Type_WINDOW_UPDATE then process_window_update p
         else if t = Type_CONTINUATION then process_headers env p
         else Inr ([], p))"

definition recv_body :: "('i, 'm) h2_env \<Rightarrow> byte list \<Rightarrow> ('i, 'm) h2_main \<Rightarrow> ('m api_call list \<times> ('i, 'm) h2_main) result" where
  "recv_body env aBuffer p =
     (if length aBuffer \<noteq> unat (h_size (p_Header p)) then Inl (RuntimeError ''http2: not a frame body'')
      else bindr (process_packet env (p\<lparr>p_Body := aBuffer\<rparr>)) (\<lambda>(calls, p).
             Inr (calls, p\<lparr>p_Stage := HEADER, p_Header := h2_header0, p_Body := []\<rparr>)))"

definition client_hello :: "('i, 'm) h2_main \<Rightarrow> 'm api_call list \<times> ('i, 'm) h2_main" where
  "client_hello p = ([Send (PREFACE @ create_settings False)], p\<lparr>p_Stage := CLIENT_WAIT\<rparr>)"

definition client_check :: "byte list \<Rightarrow> ('i, 'm) h2_main \<Rightarrow> ('m api_call list \<times> ('i, 'm) h2_main) result" where
  "client_check aBuffer p = bindr (recv_header aBuffer p) (\<lambda>p.
     if h_type (p_Header p) \<noteq> Type_SETTINGS then Inl (RuntimeError ''http2: not a HTTP/2 peer'')
     else Inr ([Established], p))"

definition hint :: "('i, 'm) h2_main \<Rightarrow> nat" where
  "hint p = (case p_Stage p of
       HELLO \<Rightarrow> length PREFACE
     | HEADER \<Rightarrow> sizeof_Header
     | BODY \<Rightarrow> unat (h_size (p_Header p))
     | CLIENT_HELLO \<Rightarrow> 0
     | CLIENT_WAIT \<Rightarrow> sizeof_Header)"

definition h2_process :: "('i, 'm) h2_env \<Rightarrow> byte list \<Rightarrow> ('i, 'm) h2_main \<Rightarrow> ('m api_call list \<times> ('i, 'm) h2_main) result" where
  "h2_process env aBuffer p = (case p_Stage p of
       HELLO \<Rightarrow> recv_hello aBuffer p
     | HEADER \<Rightarrow> bindr (recv_header aBuffer p) (\<lambda>p. Inr ([], p))
     | BODY \<Rightarrow> recv_body env aBuffer p
     | CLIENT_HELLO \<Rightarrow> Inr (client_hello p)
     | CLIENT_WAIT \<Rightarrow> client_check aBuffer p)"

section \<open>read_coro\<close>

text \<open>
  The loop of the connection: it only ends by an exception, which is the second component;
  \<open>None\<close> there is a loop that is still running when the given number of rounds is over.
\<close>

fun read_coro :: "('i, 'm) h2_env \<Rightarrow> (nat \<Rightarrow> 's \<Rightarrow> (byte list \<times> 's) result) \<Rightarrow> nat \<Rightarrow> ('i, 'm) h2_main \<Rightarrow> 's \<Rightarrow>
    'm api_call list \<times> exn option" where
  "read_coro env get 0 p s = ([], None)"
| "read_coro env get (Suc n) p s =
     (case get (hint p) s of
        Inl e \<Rightarrow> ([], Some e)
      | Inr (sBuffer, s) \<Rightarrow>
          if length sBuffer \<noteq> hint p then ([], Some AssertFailed)
          else case h2_process env sBuffer p of
            Inl e \<Rightarrow> ([], Some e)
          | Inr (calls, p) \<Rightarrow> let (cs, e) = read_coro env get n p s in (calls @ cs, e))"

section \<open>AsioRequest and AsioResponse\<close>

text \<open>
  The messages of the server and the client over the request and response types of boost.beast,
  whose setters are the parameters.
\<close>

record 'r beast_request =
  rq_method :: "byte list \<Rightarrow> 'r \<Rightarrow> 'r result"
  rq_target :: "byte list \<Rightarrow> 'r \<Rightarrow> 'r result"
  rq_set :: "byte list \<Rightarrow> byte list \<Rightarrow> 'r \<Rightarrow> 'r result"
  rq_body :: "byte list \<Rightarrow> 'r \<Rightarrow> 'r"

definition request_set_header :: "'r beast_request \<Rightarrow> byte list \<Rightarrow> byte list \<Rightarrow> 'r \<Rightarrow> 'r result" where
  "request_set_header B aName aValue r =
     (if aName = bytes_of '':method'' then rq_method B aValue r
      else if aName = bytes_of '':path'' then rq_target B aValue r
      else if aName = bytes_of '':authority'' then rq_set B (bytes_of ''Host'') aValue r
      else if 1 < length aName \<and> aName ! 0 = 58 then Inr r
      else rq_set B aName aValue r)"

definition asio_request :: "'r beast_request \<Rightarrow> 'r \<Rightarrow> 'r imessage" where
  "asio_request B r0 = \<lparr>set_header = request_set_header B, append_body = rq_body B, new_message = (\<lambda>_. r0)\<rparr>"

record 'r beast_response =
  rs_result :: "u32 \<Rightarrow> 'r \<Rightarrow> 'r result"
  rs_set :: "byte list \<Rightarrow> byte list \<Rightarrow> 'r \<Rightarrow> 'r result"
  rs_body :: "byte list \<Rightarrow> 'r \<Rightarrow> 'r"

definition response_set_header :: "'r beast_response \<Rightarrow> byte list \<Rightarrow> byte list \<Rightarrow> 'r \<Rightarrow> 'r result" where
  "response_set_header B aName aValue r =
     (if aName = bytes_of '':status'' then bindr (Atoi_u aValue) (\<lambda>c. rs_result B c r)
      else if 1 < length aName \<and> aName ! 0 = 58 then Inr r
      else rs_set B aName aValue r)"

definition asio_response :: "'r beast_response \<Rightarrow> 'r \<Rightarrow> 'r imessage" where
  "asio_response B r0 = \<lparr>set_header = response_set_header B, append_body = rs_body B, new_message = (\<lambda>_. r0)\<rparr>"

section \<open>The loop does not depend on how the bytes arrive\<close>

context framed_input
begin

lemma read_coro_stream:
  "ok s \<Longrightarrow> read_coro env get n p s = read_coro env whole_get n p (stream s)"
proof (induction n arbitrary: p s)
  case (Suc n)
  show ?case
  proof (cases "hint p \<le> length (stream s)")
    case True
    then obtain s' where s': "get (hint p) s = Inr (take (hint p) (stream s), s')" "ok s'" "stream s' = drop (hint p) (stream s)"
      using get_full [OF Suc.prems] by blast
    show ?thesis using True s' Suc.IH [OF s'(2)] by (auto simp: whole_get_def split: sum.splits)
  next
    case False
    then show ?thesis using get_short [OF Suc.prems] by (simp add: whole_get_def)
  qed
qed simp

end

section \<open>The loop ends with the input\<close>

definition stage_weight :: "h2_stage \<Rightarrow> nat" where
  "stage_weight st = (case st of BODY \<Rightarrow> 1 | CLIENT_HELLO \<Rightarrow> 1 | _ \<Rightarrow> 0)"

lemma length_PREFACE: "length PREFACE = 24"
  by (simp add: PREFACE_def bytes_of_def)

lemma h2_process_stage:
  assumes "h2_process env b p = Inr (calls, p')"
  shows "p_Stage p' = (case p_Stage p of HELLO \<Rightarrow> HEADER | HEADER \<Rightarrow> BODY | BODY \<Rightarrow> HEADER
    | CLIENT_HELLO \<Rightarrow> CLIENT_WAIT | CLIENT_WAIT \<Rightarrow> BODY)"
  using assms
  by (cases "p_Stage p")
    (auto simp: h2_process_def recv_hello_def recv_header_def recv_body_def client_hello_def client_check_def
      bindr_iffs split: if_splits prod.splits)

lemma read_coro_ends:
  assumes "2 * length s + stage_weight (p_Stage p) < n"
  shows "snd (read_coro env whole_get n p s) \<noteq> None"
  using assms
proof (induction n arbitrary: p s)
  case (Suc n)
  show ?case
  proof (cases "hint p \<le> length s")
    case True
    then have g: "whole_get (hint p) s = Inr (take (hint p) s, drop (hint p) s)" by (simp add: whole_get_def)
    show ?thesis
    proof (cases "h2_process env (take (hint p) s) p")
      case (Inl e)
      then show ?thesis using g True by simp
    next
      case (Inr r)
      obtain calls p' where r: "r = (calls, p')" by (cases r)
      have "2 * length (drop (hint p) s) + stage_weight (p_Stage p') < n"
        using Suc.prems True h2_process_stage [of env "take (hint p) s" p calls p'] Inr r
        by (cases "p_Stage p") (auto simp: stage_weight_def hint_def length_PREFACE sizeof_Header_def)
      from Suc.IH [OF this] show ?thesis using g True Inr r by (auto split: prod.splits)
    qed
  next
    case False
    then show ?thesis by (simp add: whole_get_def)
  qed
qed simp

section \<open>Flow control of the receiver\<close>

text \<open>Complete frames, and what the parser does with them one after the other.\<close>

type_synonym h2_frame = "h2_header \<times> byte list"

definition h2_frame_step :: "('i, 'm) h2_env \<Rightarrow> h2_frame \<Rightarrow> ('i, 'm) h2_main \<Rightarrow> ('m api_call list \<times> ('i, 'm) h2_main) result" where
  "h2_frame_step env f p = recv_body env (snd f) (p\<lparr>p_Header := fst f, p_Stage := BODY\<rparr>)"

fun h2_frames :: "('i, 'm) h2_env \<Rightarrow> h2_frame list \<Rightarrow> ('i, 'm) h2_main \<Rightarrow> ('m api_call list \<times> ('i, 'm) h2_main) result" where
  "h2_frames env [] p = Inr ([], p)"
| "h2_frames env (f # fs) p =
     bindr (h2_frame_step env f p) (\<lambda>(c, p). bindr (h2_frames env fs p) (\<lambda>(cs, p). Inr (c @ cs, p)))"

definition is_data :: "h2_frame \<Rightarrow> bool" where
  "is_data f \<longleftrightarrow> h_type (fst f) = Type_DATA"

definition data_bytes :: "h2_frame list \<Rightarrow> nat" where
  "data_bytes fs = sum_list (map (\<lambda>f. if is_data f then length (snd f) else 0) fs)"

definition window_ok :: "u32 \<Rightarrow> bool" where
  "window_ok b \<longleftrightarrow> DEFAULT_WINDOW_SIZE \<le> unat b \<and> unat b \<le> 2 * DEFAULT_WINDOW_SIZE"

definition h2_inv :: "('i, 'm) h2_main \<Rightarrow> bool" where
  "h2_inv p \<longleftrightarrow> omap_ok (p_Info p) \<and> window_ok (p_Budget p)
     \<and> (\<forall>(s, i) \<in> set (p_Info p). s \<noteq> 0 \<and> i_message i \<noteq> None \<and> window_ok (i_budget i))"

abbreviation connection_updates :: "'m api_call list \<Rightarrow> nat" where
  "connection_updates calls \<equiv> count_list calls (Send (window_update_frame 0))"

definition topup :: "u32 \<Rightarrow> nat \<Rightarrow> u32" where
  "topup b n = (let b = b - of_nat n in if b < of_nat DEFAULT_WINDOW_SIZE then b + of_nat DEFAULT_WINDOW_SIZE else b)"

lemma topup_ok:
  assumes "window_ok b" and "n \<le> DEFAULT_WINDOW_SIZE"
  shows "window_ok (topup b n)"
    and "unat (topup b n) + n = unat b + (if b - of_nat n < (of_nat DEFAULT_WINDOW_SIZE :: u32) then DEFAULT_WINDOW_SIZE else 0)"
proof -
  have b: "65535 \<le> unat b" "unat b \<le> 131070" and n: "n \<le> 65535"
    using assms by (auto simp: window_ok_def DEFAULT_WINDOW_SIZE_def)
  have un: "unat (of_nat n :: u32) = n" using n by (simp add: unat_of_nat)
  then have s: "unat (b - of_nat n) = unat b - n" using b n by (subst unat_sub) (simp_all add: word_le_nat_alt)
  have lt: "b - of_nat n < (65535 :: u32) \<longleftrightarrow> unat b - n < 65535" using s by (simp add: word_less_nat_alt)
  have "unat (topup b n) = (if unat b - n < 65535 then unat b - n + 65535 else unat b - n)"
    using s lt b by (simp add: topup_def DEFAULT_WINDOW_SIZE_def Let_def unat_word_ariths)
  then show "window_ok (topup b n)"
    and "unat (topup b n) + n = unat b + (if b - of_nat n < (of_nat DEFAULT_WINDOW_SIZE :: u32) then DEFAULT_WINDOW_SIZE else 0)"
    using b n lt by (auto simp: window_ok_def DEFAULT_WINDOW_SIZE_def)
qed

lemma window_frame_stream: "window_update_frame s = window_update_frame s' \<longleftrightarrow> s = s'"
proof
  assume "window_update_frame s = window_update_frame s'"
  then have "be_enc 4 (unat s) = be_enc 4 (unat s')" by (simp add: window_update_frame_def header_bytes_net)
  moreover have "unat w < 256 ^ 4" for w :: u32 using unsigned_less [of w, where 'a = nat] by simp
  ultimately have "unat s = unat s'" by (metis be_dec_enc)
  then show "s = s'" by (simp add: word_unat_eq_iff)
qed simp

definition delivered :: "'m api_call list \<Rightarrow> (u32 \<times> 'm) list" where
  "delivered calls = concat (map (\<lambda>c. case c of Process_message s m \<Rightarrow> [(s, m)] | _ \<Rightarrow> []) calls)"

lemma delivered_append [simp]: "delivered (a @ b) = delivered a @ delivered b"
  by (simp add: delivered_def)

lemma delivered_simps [simp]:
  "delivered [] = []" "delivered (Process_message s m # cs) = (s, m) # delivered cs" "delivered (Send b # cs) = delivered cs"
  by (simp_all add: delivered_def)

text \<open>A DATA frame within the window, on an open stream.\<close>

definition data_state :: "('i, 'm) h2_env \<Rightarrow> ('i, 'm) h2_main \<Rightarrow> 'm h2_info \<Rightarrow> 'm \<Rightarrow> (u32 \<times> 'm) list \<times> ('i, 'm) h2_main" where
  "data_state env p i m =
     (let sid = h_stream (p_Header p); n = length (p_Body p); m = append_body (e_msg env) (p_Body p) m;
          p = p\<lparr>p_Budget := topup (p_Budget p) n\<rparr>
      in if h_flags (p_Header p) AND END_STREAM = 0
         then ([], p\<lparr>p_Info := omap_put sid (i\<lparr>i_message := Some m, i_budget := topup (i_budget i) n\<rparr>) (p_Info p)\<rparr>)
         else ([(sid, m)], p\<lparr>p_Info := AList.delete sid (p_Info p)\<rparr>))"

lemma process_data_ok:
  assumes inv: "h2_inv p" and i: "map_of (p_Info p) (h_stream (p_Header p)) = Some i"
    and n: "length (p_Body p) \<le> DEFAULT_WINDOW_SIZE" and m: "i_message i = Some m"
  shows "\<exists>calls. process_data env p = Inr (calls, snd (data_state env p i m))
    \<and> delivered calls = fst (data_state env p i m)
    \<and> unat (topup (p_Budget p) (length (p_Body p))) + length (p_Body p)
        = unat (p_Budget p) + DEFAULT_WINDOW_SIZE * connection_updates calls"
proof -
  have w: "window_ok (p_Budget p)" "window_ok (i_budget i)" "h_stream (p_Header p) \<noteq> 0"
    using inv map_of_SomeD [OF i] by (auto simp: h2_inv_def)
  then have ge: "\<not> unat (p_Budget p) < length (p_Body p)" "\<not> unat (i_budget i) < length (p_Body p)"
    using n by (auto simp: window_ok_def)
  note acc = topup_ok(2) [OF w(1) n]
  show ?thesis
    using w(3) ge acc window_frame_stream [of 0 "h_stream (p_Header p)"]
    by (auto simp: process_data_def i m data_state_def send_window_update_def topup_def Let_def)
qed

lemma h2_inv_frame [simp]:
  "h2_inv (p\<lparr>p_Header := h\<rparr>) = h2_inv p" "h2_inv (p\<lparr>p_Body := b\<rparr>) = h2_inv p" "h2_inv (p\<lparr>p_Stage := st\<rparr>) = h2_inv p"
  "h2_inv (p\<lparr>p_Inflate := x, p_Info := y\<rparr>) = h2_inv (p\<lparr>p_Info := y\<rparr>)"
  by (simp_all add: h2_inv_def)

lemma h2_inv_info:
  assumes "h2_inv p" and "map_of (p_Info p) s = Some i"
  obtains m where "s \<noteq> 0" "i_message i = Some m" "window_ok (i_budget i)"
  using assms map_of_SomeD [of "p_Info p" s i] by (auto simp: h2_inv_def)

lemma set_omap_put: "omap_ok m \<Longrightarrow> set (omap_put k v m) \<subseteq> insert (k, v) (set m)"
proof (induction m)
  case (Cons e m)
  then show ?case by (cases e) auto
qed simp

lemma h2_inv_put:
  assumes "h2_inv p" and "s \<noteq> 0" and "i_message i \<noteq> None" and "window_ok (i_budget i)"
  shows "h2_inv (p\<lparr>p_Info := omap_put s i (p_Info p)\<rparr>)"
  using assms set_omap_put [of "p_Info p" s i] by (auto simp: h2_inv_def)

lemma set_delete_subset: "set (AList.delete k m) \<subseteq> set m"
  by (auto simp: AList.delete_eq)

lemma h2_inv_delete: "h2_inv p \<Longrightarrow> h2_inv (p\<lparr>p_Info := AList.delete s (p_Info p)\<rparr>)"
  using set_delete_subset [of s "p_Info p"] by (auto simp: h2_inv_def)

lemma h2_inv_budget: "h2_inv p \<Longrightarrow> window_ok b \<Longrightarrow> h2_inv (p\<lparr>p_Budget := b\<rparr>)"
  by (simp add: h2_inv_def)

lemma data_state_inv:
  assumes "h2_inv p" and "map_of (p_Info p) (h_stream (p_Header p)) = Some i"
    and "length (p_Body p) \<le> DEFAULT_WINDOW_SIZE"
  shows "h2_inv (snd (data_state env p i m))"
proof -
  let ?p = "p\<lparr>p_Budget := topup (p_Budget p) (length (p_Body p))\<rparr>"
  have w: "h_stream (p_Header p) \<noteq> 0" "window_ok (i_budget i)" using h2_inv_info [OF assms(1,2)] by metis+
  have "h2_inv ?p" using assms(1,3) by (intro h2_inv_budget topup_ok(1)) (auto simp: h2_inv_def)
  from h2_inv_put [OF this w(1)] h2_inv_delete [OF this] show ?thesis
    using topup_ok(1) [OF w(2) assms(3)] by (simp add: data_state_def Let_def)
qed

lemma process_headers_inv:
  assumes inv: "h2_inv p" and r: "process_headers env p = Inr (calls, p')"
  shows "h2_inv p' \<and> p_Budget p' = p_Budget p \<and> connection_updates calls = 0"
proof -
  let ?s = "h_stream (p_Header p)"
  have w: "window_ok (i_budget (info_of p ?s))"
    using inv h2_inv_info [OF inv, of ?s]
    by (auto simp: info_of_def window_ok_def DEFAULT_WINDOW_SIZE_def split: option.splits)
  show ?thesis
    using r w inv h2_inv_put [OF inv] h2_inv_delete [OF inv]
    by (auto simp: process_headers_def Let_def bindr_iffs split: if_splits prod.splits)
qed

lemma process_settings_window_inv:
  assumes "process_settings p = Inr (calls, p') \<or> process_window_update p = Inr (calls, p')"
  shows "p' = p \<and> connection_updates calls = 0"
proof -
  have "create_settings True \<noteq> window_update_frame 0"
    by (auto dest!: arg_cong [of _ _ length] simp: create_settings_def window_update_frame_def)
  then show ?thesis
    using assms by (auto simp: process_settings_def process_window_update_def bindr_iffs Let_def split: if_splits)
qed

text \<open>The two reads of a frame, from a parser between two frames.\<close>

lemma process_packet_ok:
  assumes inv: "h2_inv p" and sz: "h_type (p_Header p) = Type_DATA \<Longrightarrow> length (p_Body p) \<le> DEFAULT_WINDOW_SIZE"
    and r: "process_packet env p = Inr (calls, p')"
  shows "h2_inv p' \<and> unat (p_Budget p') + data_bytes [(p_Header p, p_Body p)]
    = unat (p_Budget p) + DEFAULT_WINDOW_SIZE * connection_updates calls"
proof (cases "h_type (p_Header p) = Type_DATA")
  case True
  have d: "process_data env p = Inr (calls, p')" using r True by (simp add: process_packet_def)
  then obtain i where i: "map_of (p_Info p) (h_stream (p_Header p)) = Some i"
    by (auto simp: process_data_def Let_def split: if_splits option.splits)
  from inv i obtain m where m: "i_message i = Some m" by (auto elim: h2_inv_info)
  from process_data_ok [OF inv i _ m, of env] data_state_inv [OF inv i, of env m] d sz [OF True] True
  show ?thesis by (auto simp: data_bytes_def is_data_def data_state_def Let_def split: if_splits)
next
  case False
  from process_headers_inv [OF inv, of env calls p'] process_settings_window_inv [of p calls p'] inv
  show ?thesis using r False
    by (auto simp: data_bytes_def process_packet_def is_data_def Let_def split: if_splits)
qed

lemma h2_frame_step_ok:
  assumes inv: "h2_inv p" and sz: "is_data f \<Longrightarrow> length (snd f) \<le> DEFAULT_WINDOW_SIZE"
    and r: "h2_frame_step env f p = Inr (calls, p')"
  shows "h2_inv p' \<and> unat (p_Budget p') + data_bytes [f] = unat (p_Budget p) + DEFAULT_WINDOW_SIZE * connection_updates calls"
proof -
  let ?p = "p\<lparr>p_Header := fst f, p_Stage := BODY, p_Body := snd f\<rparr>"
  obtain p1 where p1: "process_packet env ?p = Inr (calls, p1)" "p' = p1\<lparr>p_Stage := HEADER, p_Header := h2_header0, p_Body := []\<rparr>"
    using r by (auto simp: h2_frame_step_def recv_body_def bindr_iffs split: if_splits)
  have "h2_inv ?p" using inv by simp
  from process_packet_ok [OF this _ p1(1)] sz show ?thesis by (simp add: p1(2) is_data_def)
qed

lemma h2_new_inv: "h2_inv (h2_new mode i)"
  by (simp add: h2_inv_def h2_new_def window_ok_def DEFAULT_WINDOW_SIZE_def)

lemma h2_frames_ok:
  assumes "h2_inv p" and "\<forall>f \<in> set fs. is_data f \<longrightarrow> length (snd f) \<le> DEFAULT_WINDOW_SIZE"
    and "h2_frames env fs p = Inr (calls, p')"
  shows "h2_inv p' \<and> unat (p_Budget p') + data_bytes fs = unat (p_Budget p) + DEFAULT_WINDOW_SIZE * connection_updates calls"
  using assms
proof (induction fs arbitrary: p calls)
  case (Cons f fs)
  obtain c p1 cs where s: "h2_frame_step env f p = Inr (c, p1)" "h2_frames env fs p1 = Inr (cs, p')" "calls = c @ cs"
    using Cons.prems(3) by (auto simp: bindr_iffs)
  from h2_frame_step_ok [OF Cons.prems(1) _ s(1)] Cons.prems(2)
  have one: "h2_inv p1" "unat (p_Budget p1) + data_bytes [f] = unat (p_Budget p) + DEFAULT_WINDOW_SIZE * connection_updates c"
    by auto
  from Cons.IH [OF one(1) _ s(2)] Cons.prems(2) one(2) show ?case
    by (auto simp: s(3) data_bytes_def add_mult_distrib2)
qed (simp add: data_bytes_def)

section \<open>Frames as bytes\<close>

definition frame_bytes :: "h2_frame \<Rightarrow> byte list" where
  "frame_bytes f = header_bytes (to_net (fst f)) @ snd f"

definition sized :: "h2_frame \<Rightarrow> bool" where
  "sized f \<longleftrightarrow> length (snd f) = unat (h_size (fst f))"

text \<open>The parser is between two frames.\<close>

definition idle :: "('i, 'm) h2_main \<Rightarrow> bool" where
  "idle p \<longleftrightarrow> p_Stage p = HEADER \<and> p_Header p = h2_header0 \<and> p_Body p = []"

lemma h2_frame_step_idle: "h2_frame_step env f p = Inr (calls, p') \<Longrightarrow> idle p'"
  by (auto simp: h2_frame_step_def recv_body_def bindr_iffs idle_def split: if_splits)

lemma read_coro_frame:
  assumes "idle p" and "sized f"
  shows "read_coro env whole_get (Suc (Suc n)) p (frame_bytes f @ s) =
    (case h2_frame_step env f p of
       Inl e \<Rightarrow> ([], Some e)
     | Inr (calls, p) \<Rightarrow> let (cs, e) = read_coro env whole_get n p s in (calls @ cs, e))"
proof -
  let ?p = "p\<lparr>p_Header := fst f, p_Stage := BODY\<rparr>"
  have h: "hint p = 9" and h1: "hint ?p = length (snd f)"
    using assms by (simp_all add: idle_def hint_def sizeof_Header_def sized_def)
  have g: "whole_get 9 (frame_bytes f @ s) = Inr (header_bytes (to_net (fst f)), snd f @ s)"
    by (simp add: whole_get_def frame_bytes_def sizeof_Header_def)
  have "h2_process env (header_bytes (to_net (fst f))) p = Inr ([], ?p)"
    using assms(1) by (simp add: h2_process_def idle_def recv_header_def header_roundtrip)
  moreover have "whole_get (length (snd f)) (snd f @ s) = Inr (snd f, s)" by (simp add: whole_get_def)
  moreover have "h2_process env (snd f) ?p = h2_frame_step env f p"
    by (simp add: h2_process_def h2_frame_step_def)
  ultimately show ?thesis
    by (simp add: h g h1 sizeof_Header_def split: sum.splits prod.splits)
qed

lemma read_coro_frames:
  assumes "idle p" and "\<forall>f \<in> set fs. sized f" and "h2_frames env fs p = Inr (calls, p')"
  shows "\<exists>cs e. read_coro env whole_get (2 * length fs + n) p (concat (map frame_bytes fs) @ s) = (calls @ cs, e)
    \<and> read_coro env whole_get n p' s = (cs, e)"
  using assms
proof (induction fs arbitrary: p calls)
  case Nil
  then show ?case by (cases "read_coro env whole_get n p' s") simp
next
  case (Cons f fs)
  obtain c p1 cs where s: "h2_frame_step env f p = Inr (c, p1)" "h2_frames env fs p1 = Inr (cs, p')" "calls = c @ cs"
    using Cons.prems(3) by (auto simp: bindr_iffs)
  from Cons.IH [OF h2_frame_step_idle [OF s(1)] _ s(2)] Cons.prems(2)
  obtain ds e where "read_coro env whole_get (2 * length fs + n) p1 (concat (map frame_bytes fs) @ s) = (cs @ ds, e)"
    "read_coro env whole_get n p' s = (ds, e)" by auto
  moreover have "sized f" using Cons.prems(2) by simp
  ultimately show ?case using read_coro_frame [OF Cons.prems(1), of f env "2 * length fs + n" "concat (map frame_bytes fs) @ s"]
    by (simp add: s)
qed

section \<open>Interleaved streams\<close>

text \<open>What the DATA frames of open streams mean: each belongs to the message of its stream.\<close>

fun demux :: "'m imessage \<Rightarrow> h2_frame list \<Rightarrow> (u32 \<rightharpoonup> 'm) \<Rightarrow> (u32 \<times> 'm) list" where
  "demux M [] s = []"
| "demux M (f # fs) s =
     (case s (h_stream (fst f)) of
        None \<Rightarrow> []
      | Some m \<Rightarrow>
          let m = append_body M (snd f) m
          in if h_flags (fst f) AND END_STREAM = 0 then demux M fs (s(h_stream (fst f) \<mapsto> m))
             else (h_stream (fst f), m) # demux M fs (s(h_stream (fst f) := None)))"

text \<open>Every frame finds its stream open.\<close>

fun streams_open :: "h2_frame list \<Rightarrow> u32 set \<Rightarrow> bool" where
  "streams_open [] S = True"
| "streams_open (f # fs) S \<longleftrightarrow> h_stream (fst f) \<in> S
     \<and> streams_open fs (if h_flags (fst f) AND END_STREAM = 0 then S else S - {h_stream (fst f)})"

definition messages :: "('i, 'm) h2_main \<Rightarrow> u32 \<rightharpoonup> 'm" where
  "messages p s = (case map_of (p_Info p) s of None \<Rightarrow> None | Some i \<Rightarrow> i_message i)"

lemma messages_frame [simp]:
  "messages (p\<lparr>p_Header := h\<rparr>) = messages p" "messages (p\<lparr>p_Body := b\<rparr>) = messages p" "messages (p\<lparr>p_Stage := st\<rparr>) = messages p"
  by (simp_all add: messages_def fun_eq_iff)

lemma h2_data_step:
  fixes env :: "('i, 'm) h2_env"
  assumes inv: "h2_inv p" and f: "is_data f" "sized f" "length (snd f) \<le> DEFAULT_WINDOW_SIZE"
    and m: "messages p (h_stream (fst f)) = Some m"
  defines "m' \<equiv> append_body (e_msg env) (snd f) m"
  shows "\<exists>calls p'. h2_frame_step env f p = Inr (calls, p') \<and> h2_inv p'
    \<and> delivered calls = (if h_flags (fst f) AND END_STREAM = 0 then [] else [(h_stream (fst f), m')])
    \<and> messages p' = (messages p)(h_stream (fst f) := if h_flags (fst f) AND END_STREAM = 0 then Some m' else None)"
proof -
  let ?p = "p\<lparr>p_Header := fst f, p_Stage := BODY, p_Body := snd f\<rparr>"
  obtain i where i: "map_of (p_Info ?p) (h_stream (p_Header ?p)) = Some i" "i_message i = Some m"
    using m by (auto simp: messages_def split: option.splits)
  have inv': "h2_inv ?p" using inv by simp
  have len: "length (p_Body ?p) \<le> DEFAULT_WINDOW_SIZE" using f(3) by simp
  obtain calls where c: "process_data env ?p = Inr (calls, snd (data_state env ?p i m))" "delivered calls = fst (data_state env ?p i m)"
    using process_data_ok [OF inv' i(1) len i(2), of env] by blast
  let ?q = "(snd (data_state env ?p i m))\<lparr>p_Stage := HEADER, p_Header := h2_header0, p_Body := []\<rparr>"
  have "h2_frame_step env f p = Inr (calls, ?q)"
    using c(1) f by (simp add: h2_frame_step_def recv_body_def sized_def is_data_def process_packet_def)
  moreover have "h2_inv ?q" using data_state_inv [OF inv' i(1) len] by simp
  moreover have "messages ?q = (messages p)(h_stream (fst f) := if h_flags (fst f) AND END_STREAM = 0 then Some m' else None)"
    by (auto simp: messages_def data_state_def Let_def m'_def fun_eq_iff delete_conv)
  moreover have "delivered calls = (if h_flags (fst f) AND END_STREAM = 0 then [] else [(h_stream (fst f), m')])"
    unfolding c(2) by (simp add: data_state_def Let_def m'_def)
  ultimately show ?thesis by blast
qed

lemma h2_data_frames:
  assumes "h2_inv p" and "\<forall>f \<in> set fs. is_data f \<and> sized f \<and> length (snd f) \<le> DEFAULT_WINDOW_SIZE"
    and "streams_open fs (dom (messages p))"
  shows "\<exists>calls p'. h2_frames env fs p = Inr (calls, p') \<and> h2_inv p' \<and> delivered calls = demux (e_msg env) fs (messages p)"
  using assms
proof (induction fs arbitrary: p)
  case (Cons f fs)
  obtain m where m: "messages p (h_stream (fst f)) = Some m" using Cons.prems(3) by auto
  have f: "is_data f" "sized f" "length (snd f) \<le> DEFAULT_WINDOW_SIZE" using Cons.prems(2) by auto
  obtain c p1 where s: "h2_frame_step env f p = Inr (c, p1)" "h2_inv p1"
      "delivered c = (if h_flags (fst f) AND END_STREAM = 0 then [] else [(h_stream (fst f), append_body (e_msg env) (snd f) m)])"
      "messages p1 = (messages p)(h_stream (fst f) := if h_flags (fst f) AND END_STREAM = 0 then Some (append_body (e_msg env) (snd f) m) else None)"
    using h2_data_step [OF Cons.prems(1) f m, of env] by blast
  have "streams_open fs (dom (messages p1))"
    using Cons.prems(3) m unfolding s(4) by (auto simp: insert_absorb domI split: if_splits)
  from Cons.IH [OF s(2) _ this] Cons.prems(2) obtain cs p2 where
    "h2_frames env fs p1 = Inr (cs, p2)" "h2_inv p2" "delivered cs = demux (e_msg env) fs (messages p1)" by auto
  then show ?case using s m by (auto simp: Let_def)
qed simp

section \<open>Properties\<close>

text \<open>
  C19: what a connection does with its input, the calls it makes and the error it ends with, depends
  only on the bytes, not on the pieces in which the socket delivers them: the loop over the
  circulating buffer computes the same as one over the whole stream. It ends when the stream does.
\<close>

theorem h2_chunking:
  assumes "ib_ok ib"
  shows "read_coro env net_get n p (ib, net) = read_coro env whole_get n p (ib_pending ib @ concat net)
    \<and> (2 * length (ib_pending ib @ concat net) + 1 < n \<longrightarrow> snd (read_coro env net_get n p (ib, net)) \<noteq> None)"
proof -
  have eq: "read_coro env net_get n p (ib, net) = read_coro env whole_get n p (ib_pending ib @ concat net)"
    using input.read_coro_stream [of "(ib, net)"] assms by (simp add: net_stream_def)
  moreover have "stage_weight (p_Stage p) \<le> 1" by (cases "p_Stage p") (simp_all add: stage_weight_def)
  ultimately show ?thesis using read_coro_ends [of "ib_pending ib @ concat net" p n env] by auto
qed

definition empty_buf :: input_buf where
  "empty_buf = \<lparr>ib_Data = replicate MAX_STREAM_EXCLUSIVE 0, ib_readAt = 0, ib_writeAt = 0\<rparr>"

lemma empty_buf_ok: "ib_ok empty_buf" "ib_pending empty_buf = []"
  by (simp_all add: ib_ok_def empty_buf_def ib_pending_def)

text \<open>An environment for the examples: messages are their bodies, the inflater takes a byte at a time.\<close>

definition plain_env :: "(unit, byte list) h2_env" where
  "plain_env = \<lparr>e_hd = \<lparr>inflate_hd2 = (\<lambda>i s b. (\<lparr>hd_used = 1, hd_emit = None, hd_final = False\<rparr>, i)), inflate_end_headers = id\<rparr>,
     e_msg = \<lparr>set_header = (\<lambda>n v m. Inr m), append_body = (\<lambda>b m. m @ b), new_message = (\<lambda>_. [])\<rparr>, e_indet = False\<rparr>"

theorem h2_chunking_witness:
  "read_coro plain_env net_get 5 (h2_new SERVER ()) (empty_buf, [[80, 82], [73]]) = ([], Some (NetworkError ''end of stream''))"
  using h2_chunking [OF empty_buf_ok(1), of plain_env 5 "h2_new SERVER ()" "[[80, 82], [73]]"]
  by (simp add: empty_buf_ok(2) whole_get_def hint_def h2_new_def length_PREFACE eval_nat_numeral)

text \<open>
  C22: the receiver keeps account of the window exactly: after any frames, the credit its peer has
  left is the initial window and the updates sent less the bytes received, it is never below a
  whole window when the next frame arrives, and so no DATA frame up to that size can break the
  assertions on the budgets or find a stream without its message.
\<close>

theorem h2_receive_window:
  assumes "h2_frames env fs (h2_new mode i) = Inr (calls, p)"
    and "\<forall>f \<in> set fs. is_data f \<longrightarrow> length (snd f) \<le> DEFAULT_WINDOW_SIZE"
  shows "unat (p_Budget p) + data_bytes fs = DEFAULT_WINDOW_SIZE + DEFAULT_WINDOW_SIZE * count_list calls (Send (window_update_frame 0))
    \<and> DEFAULT_WINDOW_SIZE \<le> unat (p_Budget p)
    \<and> (is_data f \<and> length (snd f) \<le> DEFAULT_WINDOW_SIZE \<longrightarrow> h2_frame_step env f p \<notin> {Inl AssertFailed, Inl Undefined})"
proof -
  have inv: "h2_inv p" and acc: "unat (p_Budget p) + data_bytes fs = DEFAULT_WINDOW_SIZE + DEFAULT_WINDOW_SIZE * connection_updates calls"
    using h2_frames_ok [OF h2_new_inv assms(2,1)] by (auto simp: h2_new_def DEFAULT_WINDOW_SIZE_def)
  moreover have "h2_frame_step env f p \<notin> {Inl AssertFailed, Inl Undefined}"
    if "is_data f" "length (snd f) \<le> DEFAULT_WINDOW_SIZE"
  proof (cases "map_of (p_Info p) (h_stream (fst f))")
    case None
    then show ?thesis using that(1)
      by (auto simp: h2_frame_step_def recv_body_def process_packet_def is_data_def process_data_def Let_def bindr_iffs split: if_splits)
  next
    case (Some x)
    with inv obtain m where m: "i_message x = Some m" by (auto elim: h2_inv_info)
    show ?thesis
    proof (cases "sized f")
      case True
      then show ?thesis using h2_data_step [OF inv that(1) True that(2), of m env] Some m by (auto simp: messages_def)
    next
      case False
      then show ?thesis by (simp add: h2_frame_step_def recv_body_def sized_def)
    qed
  qed
  ultimately show ?thesis by (simp add: h2_inv_def window_ok_def)
qed

text \<open>A request with a body of three bytes.\<close>

definition small_request :: "h2_frame list" where
  "small_request =
     [(\<lparr>h_size = 0, h_type = Type_HEADERS, h_flags = END_HEADERS, h_stream = 1\<rparr>, []),
      (\<lparr>h_size = 3, h_type = Type_DATA, h_flags = 0, h_stream = 1\<rparr>, [1, 2, 3])]"

lemma small_request_run:
  "\<exists>p. h2_frames plain_env small_request (h2_new SERVER ()) =
     Inr ([Send (window_update_frame 0), Send (window_update_frame 1)], p)"
  by (simp add: small_request_def plain_env_def h2_frame_step_def recv_body_def process_packet_def h2_types h2_flags
      process_headers_def inflate_frame_def im_rest_def im_substring_def im_ensure_def im_size_def im_open_def sv_substr_def
      inflate_loop.simps info_of_def h2_new_def process_data_def send_window_update_def DEFAULT_WINDOW_SIZE_def Let_def)

theorem h2_receive_window_witness:
  "\<exists>calls p. h2_frames plain_env small_request (h2_new SERVER ()) = Inr (calls, p) \<and> unat (p_Budget p) + 3 = 131070"
proof -
  obtain p where p: "h2_frames plain_env small_request (h2_new SERVER ()) =
      Inr ([Send (window_update_frame 0), Send (window_update_frame 1)], p)" using small_request_run by blast
  have "unat (p_Budget p) + 3 = 131070"
    using h2_receive_window [OF p]
    by (simp add: small_request_def data_bytes_def is_data_def h2_types window_frame_stream DEFAULT_WINDOW_SIZE_def)
  with p show ?thesis by blast
qed

text \<open>
  The mask that should clear the reserved bit of a window update does not: an increment with that
  bit set is passed on with it.
\<close>

lemma window_update_reserved_bit:
  "process_window_update (p\<lparr>p_Body := be_enc 4 (unat w)\<rparr>) =
     Inr ([Window_update (h_stream (p_Header p)) w], p\<lparr>p_Body := be_enc 4 (unat w)\<rparr>)"
proof -
  have "unat w < 256 ^ 4" using unsigned_less [of w, where 'a = nat] by simp
  then have "bswap32 (of_nat (le_dec (be_enc 4 (unat w)))) = w" by (simp add: bswap32_of_le)
  moreover have "(0x7FFFFFFFFFFFFFFF :: u64) = mask 63" by (simp add: mask_eq_exp_minus_1)
  moreover have "ucast ((ucast w :: u64) AND mask 63) = w"
    by (rule bit_word_eqI) (simp add: bit_simps)
  ultimately show ?thesis
    by (simp add: process_window_update_def im_read_def im_open_def im_ensure_def im_size_def)
qed

end
