(* ===== verification/Http2_Output.thy ===== *)
theory Http2_Output
  imports Http2_Parser
begin

text \<open>
  The sending side of HTTP/2: header compression of \<open>HPack.hpp\<close> around the external nghttp2
  deflater, and \<open>Output\<close> of \<open>Output.hpp\<close> with its queues, the flow control of \<open>flush\<close> and the
  writing coroutine. The operations return, beside the new state, the frames they put into the
  write queue.
\<close>

section \<open>Deflate\<close>

record client_request =
  cr_method :: "byte list"
  cr_url :: "byte list"
  cr_headers :: "(byte list \<times> byte list) list"
  cr_body :: "byte list"

record http_response =
  hr_result :: nat
  hr_fields :: "(byte list \<times> byte list) list"
  hr_body :: "byte list"

text \<open>\<open>nghttp2_hd_deflate_hd\<close>: the compressed block or an error, and the new table.\<close>

type_synonym 'd hd_deflater = "'d \<Rightarrow> (byte list \<times> byte list) list \<Rightarrow> byte list option \<times> 'd"

definition hd_deflate :: "'d hd_deflater \<Rightarrow> (byte list \<times> byte list) list \<Rightarrow> 'd \<Rightarrow> (byte list \<times> 'd) result" where
  "hd_deflate D aPairs d =
     (case D d aPairs of
        (None, _) \<Rightarrow> Inl (RuntimeError ''fail to deflate headers'')
      | (Some sTmp, d) \<Rightarrow> Inr (sTmp, d))"

definition assign_lower :: "byte list \<times> byte list \<Rightarrow> byte list \<times> byte list" where
  "assign_lower x = (str_tolower (fst x), snd x)"

definition deflate_request :: "'d hd_deflater \<Rightarrow> client_request \<Rightarrow> 'd \<Rightarrow> (byte list \<times> 'd) result" where
  "deflate_request D aRequest d =
     bindr (parse_url (cr_url aRequest)) (\<lambda>sParsed.
       hd_deflate D ([(bytes_of '':method'', cr_method aRequest), (bytes_of '':path'', path sParsed),
                      (bytes_of '':scheme'', bytes_of ''http''), (bytes_of '':authority'', host sParsed)]
                     @ map assign_lower (cr_headers aRequest)) d)"

definition deflate_response :: "'d hd_deflater \<Rightarrow> http_response \<Rightarrow> 'd \<Rightarrow> (byte list \<times> 'd) result" where
  "deflate_response D aResponse d =
     hd_deflate D ((bytes_of '':status'', bytes_of (to_string (hr_result aResponse)))
                   # map assign_lower (hr_fields aResponse)) d"

section \<open>Output\<close>

definition MAX_MERGE :: nat where "MAX_MERGE = 16"

record out_info =
  oi_body :: "byte list"
  oi_budget :: u32

text \<open>
  \<open>o_Writing\<close> is the point where the coroutine waits: which queue it is writing from (the priority
  queue or the other one), and how many of its strings are in \<open>m_Buffer\<close>.
\<close>

record 'd h2_output =
  o_Deflate :: 'd
  o_Priority :: "byte list list"
  o_Write :: "byte list list"
  o_Info :: "(u32 \<times> out_info) list"
  o_Budget :: u32
  o_Writing :: "(bool \<times> nat) option"

definition out_new :: "'d \<Rightarrow> 'd h2_output" where
  "out_new d = \<lparr>o_Deflate = d, o_Priority = [], o_Write = [], o_Info = [],
     o_Budget = of_nat DEFAULT_WINDOW_SIZE, o_Writing = None\<rparr>"

text \<open>\<open>enqueue\<close> of a piece of a body: the DATA frames.\<close>

function data_frames :: "u32 \<Rightarrow> byte list \<Rightarrow> bool \<Rightarrow> h2_frame list" where
  "data_frames aStreamId aData aLast =
     (if aData = [] then []
      else let sLen = min (length aData) DEFAULT_MAX_FRAME_SIZE
           in (\<lparr>h_size = of_nat sLen, h_type = Type_DATA,
                h_flags = (if sLen = length aData \<and> aLast then END_STREAM else 0), h_stream = aStreamId\<rparr>,
               take sLen aData)
              # data_frames aStreamId (drop sLen aData) aLast)"
  by pat_completeness auto
termination
  by (relation "measure (\<lambda>(_, aData, _). length aData)") (auto simp: DEFAULT_MAX_FRAME_SIZE_def)

declare data_frames.simps [simp del]

text \<open>The loop of \<open>flush\<close> over \<open>m_Info\<close>: the frames queued, the connection budget and the map left.\<close>

fun flush_loop :: "u32 \<Rightarrow> (u32 \<times> out_info) list \<Rightarrow> h2_frame list \<times> u32 \<times> (u32 \<times> out_info) list" where
  "flush_loop b [] = ([], b, [])"
| "flush_loop b ((sStreamId, sInfo) # rest) =
     (let sBody = oi_body sInfo
      in if sBody = [] then flush_loop b rest
         else
           let sLen = min (min (unat b) (unat (oi_budget sInfo))) (min (length sBody) MAX_STREAM_EXCLUSIVE)
           in if sLen < MIN_FRAME_SIZE \<and> sLen < length sBody
              then let (fs, b, rest) = flush_loop b rest in (fs, b, (sStreamId, sInfo) # rest)
              else
                let sLast = (sLen = length sBody);
                    fs = data_frames sStreamId (take sLen sBody) sLast;
                    b = b - of_nat sLen;
                    kept = (if sLast then []
                            else [(sStreamId, \<lparr>oi_body = drop sLen sBody, oi_budget = oi_budget sInfo - of_nat sLen\<rparr>)])
                in if unat b < MIN_FRAME_SIZE then (fs, b, kept @ rest)
                   else let (gs, b, rest) = flush_loop b rest in (fs @ gs, b, kept @ rest))"

definition out_flush :: "'d h2_output \<Rightarrow> h2_frame list \<times> 'd h2_output" where
  "out_flush o1 =
     (let (fs, b, info) = flush_loop (o_Budget o1) (o_Info o1)
      in (fs, o1\<lparr>o_Budget := b, o_Info := info, o_Write := o_Write o1 @ map frame_bytes fs\<rparr>))"

definition out_idle :: "'d h2_output \<Rightarrow> bool" where
  "out_idle o1 \<longleftrightarrow> o_Info o1 = [] \<and> o_Write o1 = []"

definition out_info_of :: "'d h2_output \<Rightarrow> u32 \<Rightarrow> out_info" where
  "out_info_of o1 s =
     (case map_of (o_Info o1) s of Some x \<Rightarrow> x | None \<Rightarrow> \<lparr>oi_body = [], oi_budget = of_nat DEFAULT_WINDOW_SIZE\<rparr>)"

definition out_window_update :: "u32 \<Rightarrow> u32 \<Rightarrow> 'd h2_output \<Rightarrow> h2_frame list \<times> 'd h2_output" where
  "out_window_update aID aInc o1 =
     out_flush
       (if aID = 0 then o1\<lparr>o_Budget := o_Budget o1 + aInc\<rparr>
        else let x = out_info_of o1 aID
             in o1\<lparr>o_Info := omap_put aID (x\<lparr>oi_budget := oi_budget x + aInc\<rparr>) (o_Info o1)\<rparr>)"

definition out_send :: "byte list \<Rightarrow> 'd h2_output \<Rightarrow> 'd h2_output" where
  "out_send aBuffer o1 = o1\<lparr>o_Priority := o_Priority o1 @ [aBuffer]\<rparr>"

text \<open>The common part of the two \<open>enqueue\<close> of a message: its HEADERS frame, and the body put aside.\<close>

definition headers_frame :: "u32 \<Rightarrow> byte list \<Rightarrow> byte list \<Rightarrow> h2_frame" where
  "headers_frame aStreamId sDeflated body =
     (\<lparr>h_size = of_nat (length sDeflated), h_type = Type_HEADERS,
       h_flags = (if body = [] then END_HEADERS OR END_STREAM else END_HEADERS), h_stream = aStreamId\<rparr>, sDeflated)"

definition out_enqueue :: "u32 \<Rightarrow> byte list \<Rightarrow> byte list \<Rightarrow> 'd h2_output \<Rightarrow> h2_frame list \<times> 'd h2_output" where
  "out_enqueue aStreamId sDeflated body o1 =
     ([headers_frame aStreamId sDeflated body],
      o1\<lparr>o_Write := o_Write o1 @ [frame_bytes (headers_frame aStreamId sDeflated body)],
         o_Info := (if body = [] then o_Info o1
                    else omap_put aStreamId ((out_info_of o1 aStreamId)\<lparr>oi_body := body\<rparr>) (o_Info o1))\<rparr>)"

definition enqueue_response :: "'d hd_deflater \<Rightarrow> u32 \<Rightarrow> http_response \<Rightarrow> 'd h2_output \<Rightarrow> (h2_frame list \<times> 'd h2_output) result" where
  "enqueue_response D aStreamId aResponse o1 =
     bindr (deflate_response D aResponse (o_Deflate o1)) (\<lambda>(sDeflated, d).
       Inr (out_enqueue aStreamId sDeflated (hr_body aResponse) (o1\<lparr>o_Deflate := d\<rparr>)))"

definition enqueue_request :: "'d hd_deflater \<Rightarrow> u32 \<Rightarrow> client_request \<Rightarrow> 'd h2_output \<Rightarrow> (h2_frame list \<times> 'd h2_output) result" where
  "enqueue_request D aStreamId aRequest o1 =
     bindr (deflate_request D aRequest (o_Deflate o1)) (\<lambda>(sDeflated, d).
       Inr (out_enqueue aStreamId sDeflated (cr_body aRequest) (o1\<lparr>o_Deflate := d\<rparr>)))"

section \<open>The writing coroutine\<close>

text \<open>How many strings \<open>sWriteOut\<close> takes.\<close>

fun merge_count :: "nat \<Rightarrow> nat \<Rightarrow> byte list list \<Rightarrow> nat" where
  "merge_count sCount sLength [] = sCount"
| "merge_count sCount sLength (sStr # q) =
     (if sCount < MAX_MERGE \<and> sLength < MAX_STREAM_EXCLUSIVE
      then merge_count (sCount + 1) (sLength + length sStr) q else sCount)"

text \<open>One round up to \<open>async_write\<close>, with what is handed to it; nothing when both queues are empty.\<close>

definition coro_start :: "'d h2_output \<Rightarrow> (byte list list \<times> 'd h2_output) option" where
  "coro_start o1 =
     (if o_Priority o1 \<noteq> [] then
        let n = merge_count 0 0 (o_Priority o1) in Some (take n (o_Priority o1), o1\<lparr>o_Writing := Some (True, n)\<rparr>)
      else if o_Write o1 \<noteq> [] then
        let n = merge_count 0 0 (o_Write o1) in Some (take n (o_Write o1), o1\<lparr>o_Writing := Some (False, n)\<rparr>)
      else None)"

text \<open>
  The rest of the round after a successful write: the strings written are popped, and behind the
  write queue \<open>flush\<close> refills it.
\<close>

definition coro_finish :: "'d h2_output \<Rightarrow> h2_frame list \<times> 'd h2_output" where
  "coro_finish o1 =
     (case o_Writing o1 of
        None \<Rightarrow> ([], o1)
      | Some (True, n) \<Rightarrow> ([], o1\<lparr>o_Priority := drop n (o_Priority o1), o_Writing := None\<rparr>)
      | Some (False, n) \<Rightarrow>
          let o2 = o1\<lparr>o_Write := drop n (o_Write o1), o_Writing := None\<rparr>
          in if MIN_FRAME_SIZE < unat (o_Budget o2) then out_flush o2 else ([], o2))"

section \<open>Frames of a body\<close>

definition frames_ok :: "u32 \<Rightarrow> h2_frame list \<Rightarrow> bool" where
  "frames_ok s ds \<longleftrightarrow> (\<forall>f \<in> set ds. is_data f \<and> sized f \<and> h_stream (fst f) = s \<and> snd f \<noteq> [] \<and> length (snd f) \<le> DEFAULT_MAX_FRAME_SIZE)"

text \<open>The stream goes on after the frames, or ends with the last of them.\<close>

definition stays_open :: "h2_frame list \<Rightarrow> bool" where
  "stays_open ds \<longleftrightarrow> (\<forall>f \<in> set ds. h_flags (fst f) = 0)"

definition ends_stream :: "h2_frame list \<Rightarrow> bool" where
  "ends_stream ds \<longleftrightarrow> (\<exists>fs f. ds = fs @ [f] \<and> stays_open fs \<and> h_flags (fst f) = END_STREAM)"

definition payload :: "h2_frame list \<Rightarrow> byte list" where
  "payload ds = concat (map snd ds)"

definition datas :: "u32 \<Rightarrow> h2_frame list \<Rightarrow> h2_frame list" where
  "datas s fs = filter (\<lambda>f. is_data f \<and> h_stream (fst f) = s) fs"

lemma stays_open_append [simp]: "stays_open (a @ b) \<longleftrightarrow> stays_open a \<and> stays_open b"
  by (auto simp: stays_open_def)

lemma ends_stream_append: "stays_open a \<Longrightarrow> ends_stream b \<Longrightarrow> ends_stream (a @ b)"
  unfolding ends_stream_def by (metis append.assoc stays_open_append)

lemma payload_append [simp]: "payload (a @ b) = payload a @ payload b" "payload [] = []"
  by (simp_all add: payload_def)

lemma datas_append [simp]: "datas s (a @ b) = datas s a @ datas s b" "datas s [] = []"
  by (simp_all add: datas_def)

lemma data_frames_ok:
  "frames_ok s (data_frames s d l) \<and> payload (data_frames s d l) = d
   \<and> (\<not> l \<longrightarrow> stays_open (data_frames s d l)) \<and> (l \<and> d \<noteq> [] \<longrightarrow> ends_stream (data_frames s d l))"
proof (induction s d l rule: data_frames.induct)
  case (1 s d l)
  show ?case
  proof (cases "d = []")
    case True
    then show ?thesis by (simp add: data_frames.simps frames_ok_def stays_open_def)
  next
    case False
    let ?n = "min (length d) DEFAULT_MAX_FRAME_SIZE"
    let ?f = "(\<lparr>h_size = of_nat ?n, h_type = Type_DATA, h_flags = (if ?n = length d \<and> l then END_STREAM else 0), h_stream = s\<rparr>, take ?n d)"
    have fs: "data_frames s d l = ?f # data_frames s (drop ?n d) l"
      using False by (subst data_frames.simps) (simp only: if_False Let_def)
    have "?n \<le> 16384" by (simp add: DEFAULT_MAX_FRAME_SIZE_def)
    then have "unat (of_nat ?n :: 24 word) = ?n" by (simp add: unat_of_nat)
    then have "frames_ok s [?f]"
      using False by (simp add: frames_ok_def is_data_def sized_def) (simp add: DEFAULT_MAX_FRAME_SIZE_def)
    moreover note ih = 1 [OF False refl]
    ultimately have "frames_ok s (data_frames s d l)" by (simp add: fs frames_ok_def)
    moreover have "payload (data_frames s d l) = d" using ih by (simp add: fs payload_def)
    moreover have "stays_open (data_frames s d l)" if "\<not> l" using ih that unfolding fs by (simp add: stays_open_def)
    moreover have "ends_stream (data_frames s d l)" if l
    proof (cases "?n = length d")
      case True
      then show ?thesis using that unfolding fs by (simp add: data_frames.simps ends_stream_def stays_open_def)
    next
      case nf: False
      then have "drop ?n d \<noteq> []" by (simp add: min_def split: if_splits)
      then show ?thesis using ih that ends_stream_append [of "[?f]"] nf unfolding fs by (simp add: stays_open_def)
    qed
    ultimately show ?thesis by blast
  qed
qed

lemma datas_data_frames: "datas s (data_frames k d l) = (if s = k then data_frames k d l else [])"
  using data_frames_ok [of k d l] by (auto simp: datas_def frames_ok_def filter_empty_conv intro!: filter_True)

lemma data_bytes_append [simp]: "data_bytes (a @ b) = data_bytes a + data_bytes b" "data_bytes [] = 0"
  by (simp_all add: data_bytes_def)

lemma data_bytes_frames: "data_bytes (data_frames s d l) = length d"
proof -
  have "frames_ok s ds \<Longrightarrow> data_bytes ds = length (payload ds)" for ds
    by (induction ds) (auto simp: data_bytes_def payload_def frames_ok_def)
  then show ?thesis using data_frames_ok [of s d l] by metis
qed

section \<open>One flush\<close>

text \<open>What a flush does to one stream.\<close>

definition stream_flushed :: "u32 \<Rightarrow> out_info option \<Rightarrow> h2_frame list \<Rightarrow> out_info option \<Rightarrow> bool" where
  "stream_flushed s x ds x' \<longleftrightarrow>
     x' = x \<and> ds = []
     \<or> (\<exists>d. x = Some d \<and> oi_body d = [] \<and> ds = [] \<and> x' = None)
     \<or> (\<exists>d n. x = Some d \<and> n < length (oi_body d) \<and> n \<le> unat (oi_budget d)
          \<and> ds = data_frames s (take n (oi_body d)) False
          \<and> x' = Some \<lparr>oi_body = drop n (oi_body d), oi_budget = oi_budget d - of_nat n\<rparr>)
     \<or> (\<exists>d. x = Some d \<and> oi_body d \<noteq> [] \<and> length (oi_body d) \<le> unat (oi_budget d)
          \<and> ds = data_frames s (oi_body d) True \<and> x' = None)"

lemma unat_sub_of_nat: "n \<le> unat b \<Longrightarrow> unat (b - of_nat n :: u32) = unat b - n"
proof -
  assume n: "n \<le> unat b"
  then have "n < 2 ^ 32" using unsigned_less [of b, where 'a = nat] by simp
  then have "unat (of_nat n :: u32) = n" by (simp add: unat_of_nat)
  then show ?thesis using n by (subst unat_sub) (simp_all add: word_le_nat_alt)
qed

lemma omap_ok_Cons:
  assumes "omap_ok r" and "fst ` set r \<subseteq> K" and "\<forall>x \<in> K. k < x"
  shows "omap_ok ((k, d) # r)"
proof -
  have "\<forall>x \<in> fst ` set r. k < x" using assms(2,3) by blast
  then show ?thesis using assms(1) by simp
qed

lemma flush_loop_ok:
  assumes "flush_loop b infos = (fs, b', infos')" and "omap_ok infos"
  shows "unat b' + data_bytes fs = unat b \<and> omap_ok infos' \<and> fst ` set infos' \<subseteq> fst ` set infos
    \<and> (\<forall>f \<in> set fs. is_data f) \<and> (\<forall>s. stream_flushed s (map_of infos s) (datas s fs) (map_of infos' s))"
  using assms
proof (induction b infos arbitrary: fs b' infos' rule: flush_loop.induct)
  case (1 b)
  then show ?case by (simp add: stream_flushed_def)
next
  case (2 b k d rest)
  let ?body = "oi_body d"
  let ?n = "min (min (unat b) (unat (oi_budget d))) (min (length ?body) MAX_STREAM_EXCLUSIVE)"
  have rest: "omap_ok rest" "k \<notin> fst ` set rest" "\<forall>x \<in> fst ` set rest. k < x" using 2(5) by auto
  then have k: "map_of rest k = None" by (simp add: map_of_eq_None_iff)
  consider (empty) "?body = []"
    | (low) "?body \<noteq> []" "?n < MIN_FRAME_SIZE \<and> ?n < length ?body"
    | (go) "?body \<noteq> []" "\<not> (?n < MIN_FRAME_SIZE \<and> ?n < length ?body)" by blast
  then show ?case
  proof cases
    case empty
    then have f: "flush_loop b rest = (fs, b', infos')" using 2(4) by simp
    from 2(1) [OF refl empty f rest(1)] have ih:
      "unat b' + data_bytes fs = unat b" "omap_ok infos'" "fst ` set infos' \<subseteq> fst ` set rest" "\<forall>f \<in> set fs. is_data f"
      "\<And>s. stream_flushed s (map_of rest s) (datas s fs) (map_of infos' s)" by auto
    have "stream_flushed s (map_of ((k, d) # rest) s) (datas s fs) (map_of infos' s)" for s
      using ih(5) [of s] empty k by (cases "s = k") (auto simp: stream_flushed_def)
    then show ?thesis using ih by auto
  next
    case low
    obtain r where f: "flush_loop b rest = (fs, b', r)" "infos' = (k, d) # r"
      using 2(4) low by (auto simp: Let_def split: prod.splits if_splits)
    from 2(2) [OF refl low(1) refl low(2) f(1) rest(1)] have ih:
      "unat b' + data_bytes fs = unat b" "omap_ok r" "fst ` set r \<subseteq> fst ` set rest" "\<forall>f \<in> set fs. is_data f"
      "\<And>s. stream_flushed s (map_of rest s) (datas s fs) (map_of r s)" by auto
    have "stream_flushed s (map_of ((k, d) # rest) s) (datas s fs) (map_of infos' s)" for s
      using ih(5) [of s] k f(2) by (cases "s = k") (auto simp: stream_flushed_def)
    moreover have "omap_ok infos'" unfolding f(2) using ih(2,3) rest(3) by (rule omap_ok_Cons)
    ultimately show ?thesis using ih f(2) by auto
  next
    case go
    let ?gs = "data_frames k (take ?n ?body) (?n = length ?body)" and ?b = "b - of_nat ?n"
    let ?kept = "if ?n = length ?body then [] else [(k, \<lparr>oi_body = drop ?n ?body, oi_budget = oi_budget d - of_nat ?n\<rparr>)]"
    have b: "unat ?b + ?n = unat b" by (simp add: unat_sub_of_nat)
    obtain hs r where f: "fs = ?gs @ hs" "infos' = ?kept @ r"
      and tail: "unat b' + data_bytes hs = unat ?b" "omap_ok r" "fst ` set r \<subseteq> fst ` set rest" "\<forall>f \<in> set hs. is_data f"
        "\<And>s. stream_flushed s (map_of rest s) (datas s hs) (map_of r s)"
    proof (cases "unat ?b < MIN_FRAME_SIZE")
      case True
      then have "fs = ?gs @ []" "infos' = ?kept @ rest" "b' = ?b"
        using 2(4) go by (simp_all only: flush_loop.simps Let_def if_False if_True prod.inject append_Nil2)
      then show ?thesis using that [of "[]" rest] rest(1) by (simp add: stream_flushed_def)
    next
      case False
      obtain hs r where r: "flush_loop ?b rest = (hs, b', r)" "fs = ?gs @ hs" "infos' = ?kept @ r"
        using 2(4) go False by (simp only: flush_loop.simps Let_def if_False split: prod.splits) simp
      from 2(3) [OF refl go(1) refl go(2) refl refl refl refl False r(1) rest(1)] show ?thesis
        using that [OF r(2,3)] by blast
    qed
    have gs: "\<forall>f \<in> set ?gs. is_data f" using data_frames_ok [of k] by (auto simp: frames_ok_def)
    have "data_bytes ?gs = ?n" by (simp add: data_bytes_frames)
    then have "unat b' + data_bytes fs = unat b" using tail(1) b by (simp add: f(1))
    moreover have "omap_ok infos'" using tail(2) omap_ok_Cons [OF tail(2,3) rest(3)] by (simp add: f(2))
    moreover have "fst ` set infos' \<subseteq> fst ` set ((k, d) # rest)" using tail(3) by (auto simp: f(2))
    moreover have "\<forall>f \<in> set fs. is_data f" using gs tail(4) by (auto simp: f(1))
    moreover have "stream_flushed s (map_of ((k, d) # rest) s) (datas s fs) (map_of infos' s)" for s
    proof (cases "s = k")
      case True
      have "datas k hs = []" "map_of r k = None" using tail(5) [of k] k by (auto simp: stream_flushed_def)
      then have new: "datas k fs = ?gs" "map_of infos' k = map_of ?kept k" by (simp_all add: f datas_data_frames)
      have n: "?n \<le> length ?body" "?n \<le> unat (oi_budget d)" by simp_all
      show ?thesis
      proof (cases "?n = length ?body")
        case full: True
        then have "datas k fs = data_frames k ?body True" using new(1) by (simp only: full take_all_iff) simp
        moreover have "map_of infos' k = None" using new(2) full by simp
        ultimately show ?thesis using go(1) True full n(2) by (auto simp: stream_flushed_def)
      next
        case part: False
        then have "datas k fs = data_frames k (take ?n ?body) False" using new(1) by (simp only: part)
        moreover have "map_of infos' k = Some \<lparr>oi_body = drop ?n ?body, oi_budget = oi_budget d - of_nat ?n\<rparr>"
          using new(2) part by simp
        moreover have "?n < length ?body" using n(1) part by linarith
        ultimately show ?thesis using True n(2) unfolding stream_flushed_def by auto
      qed
    next
      case False
      then show ?thesis using tail(5) [of s] unfolding f by (auto simp: datas_data_frames)
    qed
    ultimately show ?thesis by blast
  qed
qed

section \<open>Reachable states\<close>

text \<open>
  All interleavings of the calls on an \<open>Output\<close> with the rounds of its coroutine: the calls made,
  the frames put into the write queue, and the strings handed to the socket, each with the queue
  it came from.
\<close>

datatype out_event = Ev_Send "byte list" | Ev_Message u32 "byte list" | Ev_Window u32 u32

inductive out_reach ::
  "'d hd_deflater \<Rightarrow> 'd h2_output \<Rightarrow> out_event list \<Rightarrow> h2_frame list \<Rightarrow> (bool \<times> byte list) list \<Rightarrow> bool"
  for D where
  out_init: "out_reach D (out_new d) [] [] []"
| out_sent: "out_reach D u es fs w \<Longrightarrow> out_reach D (out_send b u) (es @ [Ev_Send b]) fs w"
| out_response: "out_reach D u es fs w \<Longrightarrow> enqueue_response D s r u = Inr (f, u') \<Longrightarrow>
    out_reach D u' (es @ [Ev_Message s (hr_body r)]) (fs @ f) w"
| out_request: "out_reach D u es fs w \<Longrightarrow> enqueue_request D s q u = Inr (f, u') \<Longrightarrow>
    out_reach D u' (es @ [Ev_Message s (cr_body q)]) (fs @ f) w"
| out_window: "out_reach D u es fs w \<Longrightarrow> out_window_update k i u = (f, u') \<Longrightarrow>
    out_reach D u' (es @ [Ev_Window k i]) (fs @ f) w"
| out_start: "out_reach D u es fs w \<Longrightarrow> o_Writing u = None \<Longrightarrow> coro_start u = Some (bs, u') \<Longrightarrow>
    out_reach D u' es fs (w @ map (Pair (o_Priority u \<noteq> [])) bs)"
| out_finish: "out_reach D u es fs w \<Longrightarrow> coro_finish u = (f, u') \<Longrightarrow> out_reach D u' es (fs @ f) w"

definition incr :: "u32 \<Rightarrow> out_event list \<Rightarrow> nat" where
  "incr s es = sum_list (map (\<lambda>e. case e of Ev_Window k i \<Rightarrow> if k = s then unat i else 0 | _ \<Rightarrow> 0) es)"

definition bodies :: "out_event list \<Rightarrow> (u32 \<times> byte list) list" where
  "bodies es = concat (map (\<lambda>e. case e of Ev_Message s b \<Rightarrow> [(s, b)] | _ \<Rightarrow> []) es)"

definition sends :: "out_event list \<Rightarrow> byte list list" where
  "sends es = concat (map (\<lambda>e. case e of Ev_Send b \<Rightarrow> [b] | _ \<Rightarrow> []) es)"

lemma incr_append [simp]: "incr s (a @ b) = incr s a + incr s b" "incr s [] = 0"
  "incr s [Ev_Send x] = 0" "incr s [Ev_Message k y] = 0" "incr s [Ev_Window k i] = (if k = s then unat i else 0)"
  by (simp_all add: incr_def)

lemma bodies_append [simp]: "bodies (a @ b) = bodies a @ bodies b" "bodies [] = []"
  "bodies [Ev_Send x] = []" "bodies [Ev_Message k y] = [(k, y)]" "bodies [Ev_Window k i] = []"
  by (simp_all add: bodies_def)

lemma sends_append [simp]: "sends (a @ b) = sends a @ sends b" "sends [] = []"
  "sends [Ev_Send x] = [x]" "sends [Ev_Message k y] = []" "sends [Ev_Window k i] = []"
  by (simp_all add: sends_def)

text \<open>The operations that add a message differ only in how the header block is made.\<close>

lemma enqueue_out:
  "enqueue_response D s r u = Inr (f, u') \<Longrightarrow> \<exists>h d. out_enqueue s h (hr_body r) (u\<lparr>o_Deflate := d\<rparr>) = (f, u')"
  "enqueue_request D s q u = Inr (f, u') \<Longrightarrow> \<exists>h d. out_enqueue s h (cr_body q) (u\<lparr>o_Deflate := d\<rparr>) = (f, u')"
  by (auto simp: enqueue_response_def enqueue_request_def bindr_iffs)

lemma out_reach_rule [consumes 1, case_names init sent message window start finish]:
  assumes "out_reach D u es fs w"
    and "\<And>d. P (out_new d) [] [] []"
    and "\<And>u es fs w b. P u es fs w \<Longrightarrow> P (out_send b u) (es @ [Ev_Send b]) fs w"
    and "\<And>u es fs w s h b d f u'. P u es fs w \<Longrightarrow> out_enqueue s h b (u\<lparr>o_Deflate := d\<rparr>) = (f, u') \<Longrightarrow>
        P u' (es @ [Ev_Message s b]) (fs @ f) w"
    and "\<And>u es fs w k i f u'. P u es fs w \<Longrightarrow> out_window_update k i u = (f, u') \<Longrightarrow> P u' (es @ [Ev_Window k i]) (fs @ f) w"
    and "\<And>u es fs w bs u'. P u es fs w \<Longrightarrow> o_Writing u = None \<Longrightarrow> coro_start u = Some (bs, u') \<Longrightarrow>
        P u' es fs (w @ map (Pair (o_Priority u \<noteq> [])) bs)"
    and "\<And>u es fs w f u'. P u es fs w \<Longrightarrow> coro_finish u = (f, u') \<Longrightarrow> P u' es (fs @ f) w"
  shows "P u es fs w"
  using assms(1)
proof (induction rule: out_reach.induct)
  case (out_init d)
  show ?case by (rule assms(2))
next
  case (out_sent u es fs w b)
  show ?case by (rule assms(3) [OF out_sent.IH])
next
  case (out_window u es fs w k i f u')
  show ?case by (rule assms(5) [OF out_window.IH out_window.hyps(2)])
next
  case (out_start u es fs w bs u')
  show ?case by (rule assms(6) [OF out_start.IH out_start.hyps(2,3)])
next
  case (out_finish u es fs w f u')
  show ?case by (rule assms(7) [OF out_finish.IH out_finish.hyps(2)])
next
  case (out_response u es fs w s r f u')
  from enqueue_out(1) [OF out_response.hyps(2)] show ?case using assms(4) [OF out_response.IH] by blast
next
  case (out_request u es fs w s q f u')
  from enqueue_out(2) [OF out_request.hyps(2)] show ?case using assms(4) [OF out_request.IH] by blast
qed

text \<open>An invariant of the budgets and the map, per operation.\<close>

lemma out_flush_ok:
  assumes "out_flush u = (f, u')" and "omap_ok (o_Info u)"
  shows "unat (o_Budget u') + data_bytes f = unat (o_Budget u) \<and> omap_ok (o_Info u') \<and> (\<forall>g \<in> set f. is_data g)
    \<and> (\<forall>s. stream_flushed s (map_of (o_Info u) s) (datas s f) (map_of (o_Info u') s))
    \<and> o_Write u' = o_Write u @ map frame_bytes f \<and> o_Priority u' = o_Priority u \<and> o_Writing u' = o_Writing u"
proof -
  obtain b i where fl: "flush_loop (o_Budget u) (o_Info u) = (f, b, i)"
      "u' = u\<lparr>o_Budget := b, o_Info := i, o_Write := o_Write u @ map frame_bytes f\<rparr>"
    using assms(1) by (auto simp: out_flush_def split: prod.splits)
  from flush_loop_ok [OF fl(1) assms(2)] show ?thesis by (simp add: fl(2))
qed

lemma coro_finish_flush:
  assumes "coro_finish u = (f, u')" and "omap_ok (o_Info u)"
  shows "unat (o_Budget u') + data_bytes f = unat (o_Budget u) \<and> omap_ok (o_Info u')
    \<and> (\<forall>s. stream_flushed s (map_of (o_Info u) s) (datas s f) (map_of (o_Info u') s))"
proof -
  have nop: "stream_flushed s x [] x" for s x by (simp add: stream_flushed_def)
  show ?thesis
  proof (cases "\<exists>n. o_Writing u = Some (False, n) \<and> MIN_FRAME_SIZE < unat (o_Budget u)")
    case True
    then obtain n where "out_flush (u\<lparr>o_Write := drop n (o_Write u), o_Writing := None\<rparr>) = (f, u')"
      using assms(1) by (auto simp: coro_finish_def Let_def)
    from out_flush_ok [OF this] assms(2) show ?thesis by simp
  next
    case False
    then show ?thesis using assms nop
      by (auto simp: coro_finish_def Let_def split: option.splits bool.splits prod.splits if_splits)
  qed
qed

lemma headers_not_data [simp]: "is_data (headers_frame s h b) = False"
  by (simp add: is_data_def headers_frame_def h2_types)

lemma out_enqueue_datas [simp]: "datas s [headers_frame k h b] = []" "data_bytes [headers_frame k h b] = 0"
  by (simp_all add: datas_def data_bytes_def)

lemma out_reach_connection:
  assumes "out_reach D u es fs w" and "DEFAULT_WINDOW_SIZE + incr 0 es < 2 ^ 32"
  shows "omap_ok (o_Info u) \<and> unat (o_Budget u) + data_bytes fs = DEFAULT_WINDOW_SIZE + incr 0 es"
  using assms
proof (induction rule: out_reach_rule)
  case (init d)
  then show ?case by (simp add: out_new_def DEFAULT_WINDOW_SIZE_def)
next
  case (sent u es fs w b)
  then show ?case by (simp add: out_send_def)
next
  case (message u es fs w s h b d f u')
  then show ?case by (auto simp: out_enqueue_def)
next
  case (window u es fs w k i f u')
  let ?u = "if k = 0 then u\<lparr>o_Budget := o_Budget u + i\<rparr>
    else let x = out_info_of u k in u\<lparr>o_Info := omap_put k (x\<lparr>oi_budget := oi_budget x + i\<rparr>) (o_Info u)\<rparr>"
  have ih: "omap_ok (o_Info u)" "unat (o_Budget u) + data_bytes fs = DEFAULT_WINDOW_SIZE + incr 0 es"
    using window by auto
  then have "unat (o_Budget ?u) = unat (o_Budget u) + (if k = 0 then unat i else 0)"
    using window(3) by (auto simp: Let_def unat_word_ariths)
  moreover have "omap_ok (o_Info ?u)" using ih(1) by (simp add: Let_def)
  ultimately show ?case
    using out_flush_ok [of ?u f u'] window(2) ih(2) by (auto simp: out_window_update_def)
next
  case (start u es fs w bs u')
  then show ?case by (auto simp: coro_start_def Let_def split: if_splits)
next
  case (finish u es fs w f u')
  from coro_finish_flush [OF finish(2)] finish(1,3) show ?case by auto
qed

section \<open>One stream\<close>

definition pend :: "out_info option \<Rightarrow> byte list" where
  "pend x = (case x of None \<Rightarrow> [] | Some d \<Rightarrow> oi_body d)"

text \<open>
  What holds of a stream: its entry in the map, its DATA frames so far, the body given for it if
  any, and the credit its peer has granted in total.
\<close>

definition stream_inv :: "u32 \<Rightarrow> out_info option \<Rightarrow> h2_frame list \<Rightarrow> byte list option \<Rightarrow> nat \<Rightarrow> bool" where
  "stream_inv s x ds body credit \<longleftrightarrow> frames_ok s ds \<and>
     (case body of
        None \<Rightarrow> ds = [] \<and> (\<forall>d. x = Some d \<longrightarrow> oi_body d = [] \<and> unat (oi_budget d) \<le> credit)
      | Some b \<Rightarrow> payload ds @ pend x = b \<and> length (payload ds) \<le> credit
          \<and> (if pend x = [] then b = [] \<and> ds = [] \<or> ends_stream ds
              else stays_open ds \<and> (\<forall>d. x = Some d \<longrightarrow> unat (oi_budget d) + length (payload ds) \<le> credit)))"

lemma frames_ok_append [simp]: "frames_ok s (a @ b) \<longleftrightarrow> frames_ok s a \<and> frames_ok s b"
  by (auto simp: frames_ok_def)

lemma stream_inv_flush:
  assumes "stream_inv s x ds body credit" and "stream_flushed s x gs x'"
  shows "stream_inv s x' (ds @ gs) body credit"
proof -
  consider "x' = x" "gs = []" | d where "x = Some d" "oi_body d = []" "gs = []" "x' = None"
    | (part) d n where "x = Some d" "n < length (oi_body d)" "n \<le> unat (oi_budget d)" "gs = data_frames s (take n (oi_body d)) False"
        "x' = Some \<lparr>oi_body = drop n (oi_body d), oi_budget = oi_budget d - of_nat n\<rparr>"
    | (full) d where "x = Some d" "oi_body d \<noteq> []" "length (oi_body d) \<le> unat (oi_budget d)"
        "gs = data_frames s (oi_body d) True" "x' = None"
    using assms(2) unfolding stream_flushed_def by blast
  then show ?thesis
  proof cases
    case part
    note g = data_frames_ok [of s "take n (oi_body d)" False]
    obtain b where b: "body = Some b" using assms(1) part(1,2) by (cases body) (auto simp: stream_inv_def)
    then show ?thesis using assms(1) g part
      by (auto simp: stream_inv_def pend_def unat_sub_of_nat min_def split: if_splits)
  next
    case full
    note g = data_frames_ok [of s "oi_body d" True]
    obtain b where b: "body = Some b" using assms(1) full(1,2) by (cases body) (auto simp: stream_inv_def)
    then show ?thesis using assms(1) g full
      by (auto simp: stream_inv_def pend_def intro: ends_stream_append)
  qed (use assms(1) in \<open>auto simp: stream_inv_def pend_def split: option.splits\<close>)
qed

lemma stream_inv_window:
  assumes "stream_inv s x ds body credit" and "DEFAULT_WINDOW_SIZE \<le> credit" and "credit + unat i < 2 ^ 32"
    and "d = (case x of Some d \<Rightarrow> d | None \<Rightarrow> \<lparr>oi_body = [], oi_budget = of_nat DEFAULT_WINDOW_SIZE\<rparr>)"
  shows "stream_inv s (Some (d\<lparr>oi_budget := oi_budget d + i\<rparr>)) ds body (credit + unat i)"
proof -
  have le: "unat (b + i) \<le> unat b + unat i" for b :: u32 by (simp add: unat_word_ariths)
  have w: "unat (of_nat DEFAULT_WINDOW_SIZE :: u32) \<le> credit" using assms(2) by (simp add: DEFAULT_WINDOW_SIZE_def)
  show ?thesis
    using assms(1) w le [of "oi_budget d"] assms(4)
    by (cases x) (fastforce simp: stream_inv_def pend_def split: option.splits if_splits)+
qed

lemma stream_inv_message:
  assumes "stream_inv s x ds None credit" and "DEFAULT_WINDOW_SIZE \<le> credit"
    and "d = (case x of Some d \<Rightarrow> d | None \<Rightarrow> \<lparr>oi_body = [], oi_budget = of_nat DEFAULT_WINDOW_SIZE\<rparr>)"
  shows "stream_inv s (if b = [] then x else Some (d\<lparr>oi_body := b\<rparr>)) ds (Some b) credit"
proof -
  have w: "unat (of_nat DEFAULT_WINDOW_SIZE :: u32) \<le> credit" using assms(2) by (simp add: DEFAULT_WINDOW_SIZE_def)
  then show ?thesis
    using assms(1,3) by (cases x) (auto simp: stream_inv_def pend_def stays_open_def)
qed

lemma stream_inv_mono: "stream_inv s x ds body c \<Longrightarrow> c \<le> c' \<Longrightarrow> stream_inv s x ds body c'"
  by (fastforce simp: stream_inv_def split: option.splits if_splits)

lemma out_reach_stream:
  assumes "out_reach D u es fs w" and "distinct (map fst (bodies es))" and "DEFAULT_WINDOW_SIZE + incr s es < 2 ^ 32"
  shows "omap_ok (o_Info u) \<and>
    stream_inv s (map_of (o_Info u) s) (datas s fs) (map_of (bodies es) s) (DEFAULT_WINDOW_SIZE + incr s es)"
  using assms
proof (induction rule: out_reach_rule)
  case (init d)
  then show ?case by (simp add: out_new_def stream_inv_def frames_ok_def)
next
  case (sent u es fs w b)
  then show ?case by (simp add: out_send_def)
next
  case (message u es fs w k h b d f u')
  have ih: "omap_ok (o_Info u)" "stream_inv s (map_of (o_Info u) s) (datas s fs) (map_of (bodies es) s) (DEFAULT_WINDOW_SIZE + incr s es)"
    using message by auto
  have k: "map_of (bodies es) k = None" using message(3) by (simp add: map_of_eq_None_iff)
  have m: "map_of (bodies es @ [(k, b)]) s = (if s = k then Some b else map_of (bodies es) s)"
    using k by (simp add: map_add_def split: option.splits)
  have x: "map_of (o_Info u') s = (if s = k \<and> b \<noteq> [] then Some ((out_info_of u k)\<lparr>oi_body := b\<rparr>) else map_of (o_Info u) s)"
    and f: "datas s f = []" and ok: "omap_ok (o_Info u')"
    using message(2) ih(1) by (auto simp: out_enqueue_def out_info_of_def)
  show ?case
  proof (cases "s = k")
    case True
    have "stream_inv s (map_of (o_Info u) s) (datas s fs) None (DEFAULT_WINDOW_SIZE + incr s es)" using ih(2) k True by simp
    from stream_inv_message [OF this _ refl, of b] show ?thesis
      using True x f ok m by (simp add: out_info_of_def split: if_splits)
  next
    case False
    then show ?thesis using ih x f ok m by simp
  qed
next
  case (window u es fs w k i f u')
  let ?u = "if k = 0 then u\<lparr>o_Budget := o_Budget u + i\<rparr>
    else let x = out_info_of u k in u\<lparr>o_Info := omap_put k (x\<lparr>oi_budget := oi_budget x + i\<rparr>) (o_Info u)\<rparr>"
  have ih: "omap_ok (o_Info u)" "stream_inv s (map_of (o_Info u) s) (datas s fs) (map_of (bodies es) s) (DEFAULT_WINDOW_SIZE + incr s es)"
    using window by auto
  have "stream_inv s (map_of (o_Info ?u) s) (datas s fs) (map_of (bodies es) s) (DEFAULT_WINDOW_SIZE + incr s (es @ [Ev_Window k i]))"
  proof (cases "s = k \<and> k \<noteq> 0")
    case True
    then show ?thesis using stream_inv_window [OF ih(2) _ _ refl, of i] window(4)
      by (simp add: Let_def out_info_of_def add.assoc)
  next
    case False
    then have "map_of (o_Info ?u) s = map_of (o_Info u) s" by (auto simp: Let_def)
    then show ?thesis using stream_inv_mono [OF ih(2)] by simp
  qed
  moreover have ok: "omap_ok (o_Info ?u)" using ih(1) by (simp add: Let_def)
  moreover have "out_flush ?u = (f, u')" using window(2) by (simp only: out_window_update_def)
  ultimately show ?case
    using out_flush_ok [of ?u f u'] stream_inv_flush by simp
next
  case (start u es fs w bs u')
  then show ?case by (auto simp: coro_start_def Let_def split: if_splits)
next
  case (finish u es fs w f u')
  from coro_finish_flush [OF finish(2)] finish(1,3,4) show ?case
    using stream_inv_flush by (simp add: datas_append) blast
qed

section \<open>The queues on the wire\<close>

definition in_flight :: "bool \<Rightarrow> 'd h2_output \<Rightarrow> nat" where
  "in_flight prio u = (case o_Writing u of Some (p, n) \<Rightarrow> if p = prio then n else 0 | None \<Rightarrow> 0)"

lemma merge_count_le: "merge_count c l q \<le> c + length q"
  by (induction c l q rule: merge_count.induct) auto

lemma out_reach_wire:
  assumes "out_reach D u es fs w"
  shows "in_flight True u \<le> length (o_Priority u) \<and> in_flight False u \<le> length (o_Write u)
    \<and> omap_ok (o_Info u)
    \<and> map snd (filter fst w) @ drop (in_flight True u) (o_Priority u) = sends es
    \<and> map snd (filter (\<lambda>x. \<not> fst x) w) @ drop (in_flight False u) (o_Write u) = map frame_bytes fs"
  using assms
proof (induction rule: out_reach_rule)
  case (init d)
  then show ?case by (simp add: out_new_def in_flight_def)
next
  case (sent u es fs w b)
  then show ?case by (simp add: out_send_def in_flight_def)
next
  case (message u es fs w k h b d f u')
  then show ?case by (auto simp: out_enqueue_def in_flight_def)
next
  case (window u es fs w k i f u')
  let ?u = "if k = 0 then u\<lparr>o_Budget := o_Budget u + i\<rparr>
    else let x = out_info_of u k in u\<lparr>o_Info := omap_put k (x\<lparr>oi_budget := oi_budget x + i\<rparr>) (o_Info u)\<rparr>"
  have "omap_ok (o_Info ?u)" using window(1) by (simp add: Let_def)
  from out_flush_ok [OF _ this, of f u'] window(1,2) show ?case
    by (auto simp: out_window_update_def in_flight_def Let_def)
next
  case (start u es fs w bs u')
  have "in_flight p u = 0" for p using start(2) by (simp add: in_flight_def)
  then show ?case using start merge_count_le [of 0 0]
    by (auto simp: coro_start_def Let_def in_flight_def comp_def split: if_splits)
next
  case (finish u es fs w f u')
  show ?case
  proof (cases "\<exists>n. o_Writing u = Some (False, n) \<and> MIN_FRAME_SIZE < unat (o_Budget u)")
    case True
    then obtain n where n: "o_Writing u = Some (False, n)" "out_flush (u\<lparr>o_Write := drop n (o_Write u), o_Writing := None\<rparr>) = (f, u')"
      using finish(2) by (auto simp: coro_finish_def Let_def)
    from out_flush_ok [OF n(2)] finish(1) show ?thesis by (auto simp: in_flight_def n(1))
  next
    case False
    then show ?thesis using finish
      by (auto simp: coro_finish_def Let_def in_flight_def split: option.splits bool.splits prod.splits if_splits)
  qed
qed

section \<open>The frames at the receiver\<close>

definition well_ended :: "h2_frame list \<Rightarrow> bool" where
  "well_ended ds \<longleftrightarrow> stays_open ds \<or> ends_stream ds"

lemma stream_inv_well_ended: "stream_inv s x ds body credit \<Longrightarrow> well_ended ds"
  by (auto simp: stream_inv_def well_ended_def stays_open_def split: option.splits if_splits)

lemma well_ended_Cons:
  assumes "well_ended (f # ds)"
  shows "h_flags (fst f) AND END_STREAM = 0 \<longleftrightarrow> ds \<noteq> [] \<or> stays_open [f]" and "well_ended ds"
    and "ends_stream (f # ds) \<longleftrightarrow> (if h_flags (fst f) AND END_STREAM = 0 then ends_stream ds else True)"
    and "h_flags (fst f) AND END_STREAM \<noteq> 0 \<Longrightarrow> ds = []"
proof -
  have e: "ends_stream (f # ds) \<longleftrightarrow> (if ds = [] then h_flags (fst f) = END_STREAM else h_flags (fst f) = 0 \<and> ends_stream ds)"
    by (cases ds rule: rev_cases) (auto simp: ends_stream_def stays_open_def append_eq_Cons_conv)
  have n: "\<not> ends_stream []" by (simp add: ends_stream_def)
  have s: "END_STREAM AND END_STREAM = 1" "END_STREAM \<noteq> 0" by (simp_all add: END_STREAM_def)
  show "h_flags (fst f) AND END_STREAM = 0 \<longleftrightarrow> ds \<noteq> [] \<or> stays_open [f]" and "well_ended ds"
    and "ends_stream (f # ds) \<longleftrightarrow> (if h_flags (fst f) AND END_STREAM = 0 then ends_stream ds else True)"
    and "h_flags (fst f) AND END_STREAM \<noteq> 0 \<Longrightarrow> ds = []"
    using assms e n s by (auto simp: well_ended_def stays_open_def split: if_splits)
qed

lemma datas_Cons: "is_data f \<Longrightarrow> datas s (f # fs) = (if h_stream (fst f) = s then f # datas s fs else datas s fs)"
  by (simp add: datas_def)

lemma streams_open_datas:
  assumes "\<forall>f \<in> set fs. is_data f" and "\<forall>s. well_ended (datas s fs)" and "\<forall>s. datas s fs \<noteq> [] \<longrightarrow> s \<in> S"
  shows "streams_open fs S"
  using assms
proof (induction fs arbitrary: S)
  case (Cons f fs)
  let ?k = "h_stream (fst f)"
  have f: "is_data f" using Cons.prems(1) by simp
  have k: "well_ended (f # datas ?k fs)" using Cons.prems(2) by (auto simp: datas_Cons [OF f] dest: spec [of _ ?k])
  have w: "well_ended (datas s fs)" for s
    using Cons.prems(2) well_ended_Cons(2) [OF k] by (cases "s = ?k") (auto simp: datas_Cons [OF f] dest: spec [of _ s])
  have S: "datas s fs \<noteq> [] \<Longrightarrow> s \<in> S" for s
    using Cons.prems(3) by (auto simp: datas_Cons [OF f] dest: spec [of _ s])
  have "?k \<in> S" using Cons.prems(3) by (auto simp: datas_Cons [OF f] dest: spec [of _ ?k])
  moreover have "streams_open fs (if h_flags (fst f) AND END_STREAM = 0 then S else S - {?k})"
    using well_ended_Cons(4) [OF k] w S Cons.prems(1) by (intro Cons.IH) auto
  ultimately show ?case by simp
qed simp

text \<open>What reaches a stream depends on its own frames only.\<close>

lemma demux_stream:
  assumes "\<forall>f \<in> set fs. is_data f" and "\<forall>s. well_ended (datas s fs)" and "streams_open fs (dom st)" and "st s = Some m"
  shows "filter (\<lambda>x. fst x = s) (demux M fs st) =
    (if ends_stream (datas s fs) then [(s, fold (append_body M) (map snd (datas s fs)) m)] else [])"
  using assms
proof (induction fs arbitrary: st m)
  case Nil
  then show ?case by (simp add: ends_stream_def)
next
  case (Cons f fs)
  let ?k = "h_stream (fst f)"
  have f: "is_data f" using Cons.prems(1) by simp
  have k: "well_ended (f # datas ?k fs)" using Cons.prems(2) by (auto simp: datas_Cons [OF f] dest: spec [of _ ?k])
  have w: "\<forall>s. well_ended (datas s fs)"
    using Cons.prems(2) well_ended_Cons(2) [OF k] by (metis datas_Cons [OF f])
  obtain m1 where m1: "st ?k = Some m1" using Cons.prems(3) by auto
  have none: "filter (\<lambda>x. fst x = s) (demux M fs st') = []" if "datas s fs = []" for st'
    using that Cons.prems(1)
    by (induction fs arbitrary: st') (auto simp: Let_def datas_Cons split: option.splits if_splits)
  show ?case
  proof (cases "h_flags (fst f) AND END_STREAM = 0")
    case True
    have o: "streams_open fs (dom (st(?k \<mapsto> append_body M (snd f) m1)))"
      using Cons.prems(3) True m1 by (simp add: insert_absorb domI)
    let ?m = "if s = ?k then append_body M (snd f) m1 else m"
    have "filter (\<lambda>x. fst x = s) (demux M fs (st(?k \<mapsto> append_body M (snd f) m1))) =
        (if ends_stream (datas s fs) then [(s, fold (append_body M) (map snd (datas s fs)) ?m)] else [])"
      by (rule Cons.IH [OF _ w o]) (use Cons.prems(1,4) m1 in auto)
    then show ?thesis
      using Cons.prems(4) True m1 well_ended_Cons(3) [OF k] by (cases "s = ?k") (simp_all add: Let_def datas_Cons [OF f])
  next
    case False
    have o: "streams_open fs (dom (st(?k := None)))" using Cons.prems(3) False by simp
    show ?thesis
    proof (cases "s = ?k")
      case True
      then show ?thesis using Cons.prems(4) False m1 well_ended_Cons(3,4) [OF k] none by (simp add: Let_def datas_Cons [OF f])
    next
      case ne: False
      have "filter (\<lambda>x. fst x = s) (demux M fs (st(?k := None))) =
          (if ends_stream (datas s fs) then [(s, fold (append_body M) (map snd (datas s fs)) m)] else [])"
        by (rule Cons.IH [OF _ w o]) (use Cons.prems(1,4) ne in auto)
      then show ?thesis using False m1 ne by (simp add: Let_def datas_Cons [OF f])
    qed
  qed
qed

section \<open>Properties\<close>

text \<open>An output with a response of three bytes on stream 1, after a window update.\<close>

definition plain_deflate :: "unit hd_deflater" where
  "plain_deflate d ps = (Some [], d)"

definition small_response :: http_response where
  "small_response = \<lparr>hr_result = 200, hr_fields = [], hr_body = [7, 8, 9]\<rparr>"

lemma small_output:
  obtains u where "out_reach plain_deflate u [Ev_Message 1 [7, 8, 9], Ev_Window 1 5]
      (headers_frame 1 [] [7, 8, 9] # data_frames 1 [7, 8, 9] True) []" "o_Info u = []"
proof -
  obtain u1 where u1: "enqueue_response plain_deflate 1 small_response (out_new ()) = Inr ([headers_frame 1 [] [7, 8, 9]], u1)"
    "o_Info u1 = [(1, \<lparr>oi_body = [7, 8, 9], oi_budget = 65535\<rparr>)]" "o_Budget u1 = 65535"
    by (simp add: enqueue_response_def deflate_response_def hd_deflate_def plain_deflate_def small_response_def
        out_enqueue_def out_new_def out_info_of_def DEFAULT_WINDOW_SIZE_def)
  obtain u2 where u2: "out_window_update 1 5 u1 = (data_frames 1 [7, 8, 9] True, u2)" "o_Info u2 = []"
    by (simp add: out_window_update_def out_flush_def out_info_of_def u1 h2_sizes Let_def)
  have "out_reach plain_deflate u1 [Ev_Message 1 [7, 8, 9]] [headers_frame 1 [] [7, 8, 9]] []"
    using out_response [OF out_init u1(1)] by (simp add: small_response_def)
  from out_window [OF this u2(1)] u2(2) that show ?thesis by simp
qed

text \<open>
  C20: the sender never exceeds the windows its peer has granted. In every reachable state the bytes
  of DATA frames queued and the connection budget left are together exactly the initial window and
  the increments received; and on each stream no more is queued than its initial window and its
  increments, whatever else is sent in between.
\<close>

theorem h2_send_window:
  assumes "out_reach D u es fs w" and "distinct (map fst (bodies es))"
    and "DEFAULT_WINDOW_SIZE + incr 0 es < 2 ^ 32" and "DEFAULT_WINDOW_SIZE + incr s es < 2 ^ 32"
  shows "unat (o_Budget u) + data_bytes fs = DEFAULT_WINDOW_SIZE + incr 0 es
    \<and> length (payload (datas s fs)) \<le> DEFAULT_WINDOW_SIZE + incr s es"
proof -
  have "stream_inv s (map_of (o_Info u) s) (datas s fs) (map_of (bodies es) s) (DEFAULT_WINDOW_SIZE + incr s es)"
    using out_reach_stream [OF assms(1,2,4)] by blast
  then have "length (payload (datas s fs)) \<le> DEFAULT_WINDOW_SIZE + incr s es"
    by (auto simp: stream_inv_def split: option.splits)
  then show ?thesis using out_reach_connection [OF assms(1,3)] by blast
qed

theorem h2_send_window_witness:
  "\<exists>u. out_reach plain_deflate u [Ev_Message 1 [7, 8, 9], Ev_Window 1 5]
      (headers_frame 1 [] [7, 8, 9] # data_frames 1 [7, 8, 9] True) [] \<and> unat (o_Budget u) + 3 = 65535"
proof -
  obtain u where u: "out_reach plain_deflate u [Ev_Message 1 [7, 8, 9], Ev_Window 1 5]
      (headers_frame 1 [] [7, 8, 9] # data_frames 1 [7, 8, 9] True) []" using small_output by blast
  have "data_bytes (headers_frame 1 [] [7, 8, 9] # data_frames 1 [7, 8, 9] True) = 3"
    using data_bytes_append(1) [of "[headers_frame 1 [] [7, 8, 9]]"] by (simp add: data_bytes_frames)
  then have "unat (o_Budget u) + 3 = 65535"
    using h2_send_window [OF u, of 1] by (simp add: bodies_def incr_def DEFAULT_WINDOW_SIZE_def)
  with u show ?thesis by blast
qed

text \<open>
  C21: what is put on the wire is what was asked for. In every interleaving of calls with the writing
  coroutine, the strings handed to the socket from either queue and those still waiting are those
  queued, in order and once each; and for each stream the payloads of its DATA frames, each of at
  most 16384 bytes, followed by the bytes still held back are its body, with END_STREAM on the
  frame that completes it and on no other.
\<close>

theorem h2_send_order:
  assumes "out_reach D u es fs w" and "distinct (map fst (bodies es))" and "DEFAULT_WINDOW_SIZE + incr s es < 2 ^ 32"
    and "map_of (bodies es) s = Some b" and "b \<noteq> []"
  shows "map snd (filter fst w) @ drop (in_flight True u) (o_Priority u) = sends es
    \<and> map snd (filter (\<lambda>x. \<not> fst x) w) @ drop (in_flight False u) (o_Write u) = map frame_bytes fs
    \<and> payload (datas s fs) @ pend (map_of (o_Info u) s) = b
    \<and> (\<forall>f \<in> set (datas s fs). length (snd f) \<le> DEFAULT_MAX_FRAME_SIZE)
    \<and> (if pend (map_of (o_Info u) s) = [] then ends_stream (datas s fs) else stays_open (datas s fs))"
proof -
  have "stream_inv s (map_of (o_Info u) s) (datas s fs) (Some b) (DEFAULT_WINDOW_SIZE + incr s es)"
    using out_reach_stream [OF assms(1-3)] assms(4) by simp
  then show ?thesis using out_reach_wire [OF assms(1)] assms(5)
    by (auto simp: stream_inv_def frames_ok_def split: if_splits)
qed

theorem h2_send_order_witness:
  "payload (datas 1 (headers_frame 1 [] [7, 8, 9] # data_frames 1 [7, 8, 9] True)) = [7, 8, 9]"
proof -
  obtain u where u: "out_reach plain_deflate u [Ev_Message 1 [7, 8, 9], Ev_Window 1 5]
      (headers_frame 1 [] [7, 8, 9] # data_frames 1 [7, 8, 9] True) []" "o_Info u = []" using small_output by blast
  from h2_send_order [OF u(1), of 1 "[7, 8, 9]"] u(2) show ?thesis
    by (simp add: bodies_def incr_def DEFAULT_WINDOW_SIZE_def pend_def)
qed

text \<open>
  C1: bodies arrive whole. Let the DATA frames of any reachable sender be read by a connection on
  which its streams are open, delivered by the socket in any pieces. Then the parser accepts them
  all, and every stream whose body has been sent completely is handed over exactly once, with the
  body appended to its message, and the others are not handed over, however the streams are
  interleaved.
\<close>

theorem h2_transfer:
  assumes "out_reach D u es fs w" and "distinct (map fst (bodies es))" and "\<forall>s. DEFAULT_WINDOW_SIZE + incr s es < 2 ^ 32"
    and "h2_inv p" and "idle p" and "fst ` set (bodies es) \<subseteq> dom (messages p)"
    and "ib_ok ib" and "ib_pending ib @ concat net = concat (map frame_bytes (filter is_data fs))"
    and "\<forall>x y m. append_body (e_msg env) (x @ y) m = append_body (e_msg env) y (append_body (e_msg env) x m)"
    and "\<forall>m. append_body (e_msg env) [] m = m"
  shows "\<exists>calls. read_coro env net_get (2 * length (filter is_data fs)) p (ib, net) = (calls, None)
    \<and> (\<forall>s b m. map_of (bodies es) s = Some b \<and> b \<noteq> [] \<and> messages p s = Some m \<longrightarrow>
          filter (\<lambda>x. fst x = s) (delivered calls) =
            (if pend (map_of (o_Info u) s) = [] then [(s, append_body (e_msg env) b m)] else []))"
proof -
  let ?g = "filter is_data fs" and ?M = "e_msg env"
  have inv: "stream_inv s (map_of (o_Info u) s) (datas s fs) (map_of (bodies es) s) (DEFAULT_WINDOW_SIZE + incr s es)" for s
    using out_reach_stream [OF assms(1,2)] assms(3) by blast
  have dg: "datas s ?g = datas s fs" for s by (simp add: datas_def)
  have we: "\<forall>s. well_ended (datas s ?g)"
    unfolding dg using inv stream_inv_well_ended by blast
  have op: "\<forall>s. datas s ?g \<noteq> [] \<longrightarrow> s \<in> dom (messages p)"
  proof (intro allI impI)
    fix s assume "datas s ?g \<noteq> []"
    then obtain b where "map_of (bodies es) s = Some b" using inv [of s] by (auto simp: dg stream_inv_def split: option.splits)
    then show "s \<in> dom (messages p)" using assms(6) by (force dest: map_of_SomeD)
  qed
  have fr: "\<forall>f \<in> set ?g. is_data f \<and> sized f \<and> length (snd f) \<le> DEFAULT_WINDOW_SIZE"
  proof
    fix f assume f: "f \<in> set ?g"
    then have "f \<in> set (datas (h_stream (fst f)) fs)" by (simp add: datas_def)
    moreover have "frames_ok (h_stream (fst f)) (datas (h_stream (fst f)) fs)"
      using inv [of "h_stream (fst f)"] unfolding stream_inv_def by (rule conjunct1)
    ultimately have "is_data f" "sized f" "length (snd f) \<le> 16384"
      unfolding frames_ok_def DEFAULT_MAX_FRAME_SIZE_def by blast+
    then show "is_data f \<and> sized f \<and> length (snd f) \<le> DEFAULT_WINDOW_SIZE" by (simp add: DEFAULT_WINDOW_SIZE_def)
  qed
  have so: "streams_open ?g (dom (messages p))" using streams_open_datas [OF _ we op] by simp
  obtain calls p' where c: "h2_frames env ?g p = Inr (calls, p')" "delivered calls = demux ?M ?g (messages p)"
    using h2_data_frames [OF assms(4) fr so, of env] by blast
  obtain cs e where "read_coro env whole_get (2 * length ?g + 0) p (concat (map frame_bytes ?g) @ []) = (calls @ cs, e)"
    "read_coro env whole_get 0 p' [] = (cs, e)"
    using read_coro_frames [OF assms(5) _ c(1), of 0 "[]"] fr by blast
  then have "read_coro env net_get (2 * length ?g) p (ib, net) = (calls, None)"
    using input.read_coro_stream [of "(ib, net)" env "2 * length ?g" p] assms(7,8) by (simp add: net_stream_def)
  moreover have "filter (\<lambda>x. fst x = s) (delivered calls) = (if pend (map_of (o_Info u) s) = [] then [(s, append_body ?M b m)] else [])"
    if h: "map_of (bodies es) s = Some b" "b \<noteq> []" "messages p s = Some m" for s b m
  proof -
    have fold: "fold (append_body ?M) xs m = append_body ?M (concat xs) m" for xs m
      using assms(9,10) by (induction xs arbitrary: m) simp_all
    have "\<not> ends_stream ds" if "stays_open ds" for ds
      using that by (auto simp: ends_stream_def stays_open_def END_STREAM_def)
    then have "if pend (map_of (o_Info u) s) = [] then ends_stream (datas s fs) \<and> payload (datas s fs) = b else \<not> ends_stream (datas s fs)"
      using inv [of s] h(1,2) by (auto simp: stream_inv_def split: if_splits)
    then show ?thesis using demux_stream [OF _ we so h(3), of ?M]
      by (auto simp: c(2) dg fold payload_def split: if_splits)
  qed
  ultimately show ?thesis by blast
qed

definition open_stream :: "(unit, byte list) h2_main" where
  "open_stream = (h2_new SERVER ())\<lparr>p_Stage := HEADER,
     p_Info := [(1, \<lparr>i_message = Some [], i_budget = of_nat DEFAULT_WINDOW_SIZE, no_body = False\<rparr>)]\<rparr>"

theorem h2_transfer_witness:
  "\<exists>calls. read_coro plain_env net_get 2 open_stream
        (empty_buf, map (\<lambda>x. [x]) (concat (map frame_bytes (data_frames 1 [7, 8, 9] True)))) = (calls, None)
      \<and> filter (\<lambda>x. fst x = 1) (delivered calls) = [(1, [7, 8, 9])]"
proof -
  let ?fs = "headers_frame 1 [] [7, 8, 9] # data_frames 1 [7, 8, 9] True"
  let ?net = "map (\<lambda>x. [x]) (concat (map frame_bytes (data_frames 1 [7, 8, 9] True)))"
  obtain u where u: "out_reach plain_deflate u [Ev_Message 1 [7, 8, 9], Ev_Window 1 5] ?fs []" "o_Info u = []"
    using small_output by blast
  have g: "filter is_data ?fs = data_frames 1 [7, 8, 9] True"
    using data_frames_ok [of 1 "[7, 8, 9]" True] by (auto simp: frames_ok_def filter_id_conv)
  have l: "length (data_frames 1 [7, 8, 9] True) = 1" by (simp add: data_frames.simps DEFAULT_MAX_FRAME_SIZE_def)
  have o: "h2_inv open_stream" "idle open_stream" "messages open_stream 1 = Some []"
    by (simp_all add: open_stream_def h2_inv_def h2_new_def window_ok_def idle_def messages_def DEFAULT_WINDOW_SIZE_def)
  have n: "ib_pending empty_buf @ concat ?net = concat (map frame_bytes (filter is_data ?fs))"
    unfolding g by (simp add: empty_buf_ok(2))
  have e: "distinct (map fst (bodies [Ev_Message 1 [7, 8, 9], Ev_Window 1 5]))"
    "\<forall>s. DEFAULT_WINDOW_SIZE + incr s [Ev_Message 1 [7, 8, 9], Ev_Window 1 5] < 2 ^ 32"
    "fst ` set (bodies [Ev_Message 1 [7, 8, 9], Ev_Window 1 5]) \<subseteq> dom (messages open_stream)"
    using o(3) by (auto simp: bodies_def incr_def DEFAULT_WINDOW_SIZE_def)
  have m: "\<forall>x y m. append_body (e_msg plain_env) (x @ y) m = append_body (e_msg plain_env) y (append_body (e_msg plain_env) x m)"
    "\<forall>m. append_body (e_msg plain_env) [] m = m" by (simp_all add: plain_env_def)
  obtain calls where c: "read_coro plain_env net_get (2 * length (filter is_data ?fs)) open_stream (empty_buf, ?net) = (calls, None)"
    "\<forall>s b m. map_of (bodies [Ev_Message 1 [7, 8, 9], Ev_Window 1 5]) s = Some b \<and> b \<noteq> [] \<and> messages open_stream s = Some m \<longrightarrow>
      filter (\<lambda>x. fst x = s) (delivered calls) = (if pend (map_of (o_Info u) s) = [] then [(s, append_body (e_msg plain_env) b m)] else [])"
    using h2_transfer [OF u(1) e(1,2) o(1,2) e(3) empty_buf_ok(1) n m] by blast
  from c(2) [rule_format, of 1 "[7, 8, 9]" "[]"] o(3) u(2)
  have "filter (\<lambda>x. fst x = 1) (delivered calls) = [(1, [7, 8, 9])]" by (simp add: bodies_def pend_def plain_env_def)
  with c(1) show ?thesis unfolding g l by auto
qed

text \<open>
  A window update for a stream whose body is not queued yet is lost: its entry is created without
  a body, and the flush that follows drops the entry and the credit with it.
\<close>

lemma early_window_update_lost:
  assumes "o_Info u = []" and "k \<noteq> 0"
  shows "out_window_update k i u = ([], u)"
  using assms by (simp add: out_window_update_def out_flush_def out_info_of_def Let_def)

end
