(* ===== verification/Http2_Peer.thy ===== *)
theory Http2_Peer
  imports Http2_Output
begin

text \<open>
  The HTTP/2 client of \<open>Client.hpp\<close>: \<open>Peer\<close>, one connection with its streams and its queue of
  requests, and \<open>Manager\<close>, the connections by address. A promise is a number, and what an operation
  does to promises and peers is returned as a list, in order. The handlers run on a strand, one
  after the other. The locale \<open>conserving\<close> is the contract both keep: a promise that is given to
  them is settled or kept, once.
\<close>

section \<open>Conservation\<close>

text \<open>
  Steps on a state that take in items and settle items; an item taken in is settled later or held.
  The first argument of the invariant bounds the number of items still to come.
\<close>

fun run_steps :: "('e \<Rightarrow> 's \<Rightarrow> ('o list \<times> 's) result) \<Rightarrow> 'e list \<Rightarrow> 's \<Rightarrow> ('o list \<times> 's) result" where
  "run_steps step [] s = Inr ([], s)"
| "run_steps step (e # es) s = bindr (step e s) (\<lambda>(out, s). bindr (run_steps step es s) (\<lambda>(outs, s). Inr (out @ outs, s)))"

locale conserving =
  fixes step :: "'e \<Rightarrow> 's \<Rightarrow> ('o list \<times> 's) result"
    and submitted :: "'e \<Rightarrow> nat list"
    and settled :: "'o \<Rightarrow> nat list"
    and held :: "'s \<Rightarrow> nat list"
    and inv :: "nat \<Rightarrow> 's \<Rightarrow> bool"
  assumes step_conserves: "inv (length (submitted e) + k) s \<Longrightarrow> step e s = Inr (out, s') \<Longrightarrow>
      inv k s' \<and> mset (submitted e) + mset (held s) = mset (concat (map settled out)) + mset (held s')"
begin

lemma run_conserves:
  assumes "inv (length (concat (map submitted es)) + k) s" and "run_steps step es s = Inr (outs, s')"
  shows "inv k s' \<and> mset (concat (map submitted es)) + mset (held s) = mset (concat (map settled outs)) + mset (held s')"
  using assms
proof (induction es arbitrary: s outs)
  case (Cons e es)
  obtain o1 s1 o2 where s: "step e s = Inr (o1, s1)" "run_steps step es s1 = Inr (o2, s')" "outs = o1 @ o2"
    using Cons.prems(2) by (auto simp: bindr_iffs)
  have "inv (length (submitted e) + (length (concat (map submitted es)) + k)) s"
    using Cons.prems(1) by (simp add: add.assoc)
  from step_conserves [OF this s(1)] Cons.IH [OF _ s(2)] show ?case by (simp add: s(3)) (metis add.assoc add.commute)
qed simp

end

section \<open>Peer\<close>

record 'd peer =
  pe_Serial :: u32
  pe_Pending :: "(client_request \<times> nat) list"
  pe_Streams :: "(u32 \<times> nat) list"
  pe_Output :: "'d h2_output"
  pe_FailReason :: string

datatype 'r peer_out =
    Started u32 nat
  | Set_value nat 'r
  | Set_exception nat string
  | Notify string

definition peer_new :: "'d \<Rightarrow> 'd peer" where
  "peer_new d = \<lparr>pe_Serial = 1, pe_Pending = [], pe_Streams = [], pe_Output = out_new d, pe_FailReason = []\<rparr>"

definition peer_fail :: "string \<Rightarrow> 'd peer \<Rightarrow> 'r peer_out list \<times> 'd peer" where
  "peer_fail aMsg p =
     (let (note, reason) = (if pe_FailReason p = [] then ([Notify aMsg], aMsg) else ([], pe_FailReason p))
      in (note @ map (\<lambda>(k, pr). Set_exception pr reason) (pe_Streams p) @ map (\<lambda>(r, pr). Set_exception pr reason) (pe_Pending p),
          p\<lparr>pe_FailReason := reason, pe_Streams := [], pe_Pending := []\<rparr>))"

text \<open>The serial is taken before the request is queued, so an exception there uses it up.\<close>

definition initiate :: "'d hd_deflater \<Rightarrow> client_request \<Rightarrow> nat \<Rightarrow> 'd peer \<Rightarrow> 'r peer_out list \<times> 'd peer \<times> exn option" where
  "initiate D aRequest aPromise p =
     (let sStreamId = pe_Serial p; p = p\<lparr>pe_Serial := sStreamId + 2\<rparr>
      in case enqueue_request D sStreamId aRequest (pe_Output p) of
           Inl e \<Rightarrow> ([], p, Some e)
         | Inr (_, u) \<Rightarrow> ([Started sStreamId aPromise],
                         p\<lparr>pe_Output := u, pe_Streams := omap_put sStreamId aPromise (pe_Streams p)\<rparr>, None))"

text \<open>An exception of \<open>async_i\<close> leaves the handler posted to the strand: nothing catches it.\<close>

definition peer_async :: "'d hd_deflater \<Rightarrow> client_request \<Rightarrow> nat \<Rightarrow> 'd peer \<Rightarrow> ('r peer_out list \<times> 'd peer) result" where
  "peer_async D aRequest aPromise p =
     (if pe_FailReason p \<noteq> [] then Inr ([Set_exception aPromise (pe_FailReason p)], p)
      else if CONCURRENT_STREAMS \<le> length (pe_Streams p)
      then Inr ([], p\<lparr>pe_Pending := pe_Pending p @ [(aRequest, aPromise)]\<rparr>)
      else case initiate D aRequest aPromise p of
             (out, p, None) \<Rightarrow> Inr (out, p)
           | (_, _, Some e) \<Rightarrow> Inl e)"

text \<open>A response for a stream that is not active breaks the assertion.\<close>

definition peer_process_message :: "'d hd_deflater \<Rightarrow> u32 \<Rightarrow> 'r \<Rightarrow> 'd peer \<Rightarrow> ('r peer_out list \<times> 'd peer \<times> exn option) result" where
  "peer_process_message D aID r p =
     (case map_of (pe_Streams p) aID of
        None \<Rightarrow> Inl AssertFailed
      | Some pr \<Rightarrow>
          let p = p\<lparr>pe_Streams := AList.delete aID (pe_Streams p)\<rparr>
          in case pe_Pending p of
               [] \<Rightarrow> Inr ([Set_value pr r], p, None)
             | (sRequest, sPromise) # rest \<Rightarrow>
                 (case initiate D sRequest sPromise p of
                    (out, p, None) \<Rightarrow> Inr (Set_value pr r # out, p\<lparr>pe_Pending := rest\<rparr>, None)
                  | (out, p, Some e) \<Rightarrow> Inr (Set_value pr r # out, p, Some e)))"

definition peer_window_update :: "u32 \<Rightarrow> u32 \<Rightarrow> 'd peer \<Rightarrow> 'd peer" where
  "peer_window_update aID aInc p = p\<lparr>pe_Output := snd (out_window_update aID aInc (pe_Output p))\<rparr>"

definition peer_send :: "byte list \<Rightarrow> 'd peer \<Rightarrow> 'd peer" where
  "peer_send aBuffer p = p\<lparr>pe_Output := out_send aBuffer (pe_Output p)\<rparr>"

text \<open>\<open>std::exception::what\<close>, as far as the exceptions carry it.\<close>

definition exn_what :: "exn \<Rightarrow> string" where
  "exn_what e = (case e of RuntimeError s \<Rightarrow> s | InvalidArgument s \<Rightarrow> s | LogicError s \<Rightarrow> s | NetworkError s \<Rightarrow> s | _ \<Rightarrow> [])"

text \<open>The calls of the parser; \<open>read_coro\<close> catches an exception and fails the peer.\<close>

definition peer_call :: "'d hd_deflater \<Rightarrow> 'r api_call \<Rightarrow> 'd peer \<Rightarrow> ('r peer_out list \<times> 'd peer) result" where
  "peer_call D c p =
     (case c of
        Established \<Rightarrow> Inr ([Notify ''connected''], p)
      | Process_message k r \<Rightarrow>
          bindr (peer_process_message D k r p) (\<lambda>(out, p, x).
            case x of None \<Rightarrow> Inr (out, p)
            | Some e \<Rightarrow> let (out2, p) = peer_fail (''exception: '' @ exn_what e) p in Inr (out @ out2, p))
      | Window_update k i \<Rightarrow> Inr ([], peer_window_update k i p)
      | Send b \<Rightarrow> Inr ([], peer_send b p))"

datatype 'r peer_event = Pe_Async client_request nat | Pe_Call "'r api_call" | Pe_Fail string

fun peer_step :: "'d hd_deflater \<Rightarrow> 'r peer_event \<Rightarrow> 'd peer \<Rightarrow> ('r peer_out list \<times> 'd peer) result" where
  "peer_step D (Pe_Async r pr) p = peer_async D r pr p"
| "peer_step D (Pe_Call c) p = peer_call D c p"
| "peer_step D (Pe_Fail msg) p = Inr (peer_fail msg p)"

section \<open>Manager\<close>

type_synonym addr = "byte list \<times> byte list"

record mg_data =
  mg_status :: string
  mg_requests :: "(client_request \<times> nat) list"

datatype mg_out =
    Peer_start addr
  | Peer_async addr client_request nat
  | Mg_exception nat string

type_synonym manager = "(addr \<times> mg_data) list"

definition mg_async :: "client_request \<Rightarrow> nat \<Rightarrow> manager \<Rightarrow> (mg_out list \<times> manager) result" where
  "mg_async aRequest aPromise m =
     bindr (parse_url (cr_url aRequest)) (\<lambda>sParsed.
       let sAddr = (host sParsed, port sParsed);
           (new, d) = (case map_of m sAddr of
                         None \<Rightarrow> ([Peer_start sAddr], \<lparr>mg_status = ''not connected'', mg_requests = []\<rparr>)
                       | Some d \<Rightarrow> ([], d))
       in if mg_status d = ''not connected''
          then Inr (new, AList.update sAddr (d\<lparr>mg_requests := mg_requests d @ [(aRequest, aPromise)]\<rparr>) m)
          else if mg_status d = ''connected''
          then Inr (new @ [Peer_async sAddr aRequest aPromise], AList.update sAddr d m)
          else Inr (new @ [Mg_exception aPromise (mg_status d)], AList.update sAddr d m))"

text \<open>The notification of a peer; its data lives as long as the manager.\<close>

definition mg_notify :: "addr \<Rightarrow> string \<Rightarrow> manager \<Rightarrow> mg_out list \<times> manager" where
  "mg_notify a aMessage m =
     (case map_of m a of
        None \<Rightarrow> ([], m)
      | Some d \<Rightarrow>
          (if aMessage = ''connected''
           then map (\<lambda>(r, pr). Peer_async a r pr) (mg_requests d)
           else map (\<lambda>(r, pr). Mg_exception pr aMessage) (mg_requests d),
           AList.update a \<lparr>mg_status = aMessage, mg_requests = []\<rparr> m))"

datatype mg_event = Mg_Async client_request nat | Mg_Notify addr string

fun mg_step :: "mg_event \<Rightarrow> manager \<Rightarrow> (mg_out list \<times> manager) result" where
  "mg_step (Mg_Async r pr) m = mg_async r pr m"
| "mg_step (Mg_Notify a msg) m = Inr (mg_notify a msg m)"

section \<open>Promises of a peer\<close>

fun pe_submitted :: "'r peer_event \<Rightarrow> nat list" where
  "pe_submitted (Pe_Async r pr) = [pr]"
| "pe_submitted _ = []"

fun pe_settled :: "'r peer_out \<Rightarrow> nat list" where
  "pe_settled (Set_value pr r) = [pr]"
| "pe_settled (Set_exception pr s) = [pr]"
| "pe_settled _ = []"

definition pe_held :: "'d peer \<Rightarrow> nat list" where
  "pe_held p = map snd (pe_Streams p) @ map snd (pe_Pending p)"

definition keys_below :: "u32 \<Rightarrow> (u32 \<times> 'v) list \<Rightarrow> bool" where
  "keys_below b m \<longleftrightarrow> (\<forall>s \<in> fst ` set m. s < b)"

lemma keys_below_Nil [simp]: "keys_below b []"
  by (simp add: keys_below_def)

lemma keys_below_put: "keys_below b m \<Longrightarrow> s < b \<Longrightarrow> keys_below b (omap_put s v m)"
  unfolding keys_below_def by (simp only: omap_put_keys) auto

lemma keys_below_mono: "keys_below b m \<Longrightarrow> b \<le> c \<Longrightarrow> keys_below c m"
  unfolding keys_below_def by (blast intro: order.strict_trans2)

lemma keys_below_delete: "keys_below b m \<Longrightarrow> keys_below b (AList.delete k m)"
  using set_delete_subset [of k m] by (fastforce simp: keys_below_def)

lemma keys_below_fresh: "keys_below b m \<Longrightarrow> b \<notin> fst ` set m"
  unfolding keys_below_def by blast

definition peer_base :: "nat \<Rightarrow> 'd peer \<Rightarrow> bool" where
  "peer_base k p \<longleftrightarrow> omap_ok (pe_Streams p) \<and> keys_below (pe_Serial p) (pe_Streams p)
     \<and> unat (pe_Serial p) + 2 * (k + length (pe_Pending p)) < 2 ^ 32"

definition peer_inv :: "nat \<Rightarrow> 'd peer \<Rightarrow> bool" where
  "peer_inv k p \<longleftrightarrow> peer_base k p \<and> length (pe_Streams p) \<le> CONCURRENT_STREAMS
     \<and> (pe_Pending p \<noteq> [] \<longrightarrow> length (pe_Streams p) = CONCURRENT_STREAMS)
     \<and> (pe_FailReason p \<noteq> [] \<longrightarrow> pe_Streams p = [] \<and> pe_Pending p = [])"

lemma concat_map_settled [simp]:
  "concat (map (pe_settled \<circ> (\<lambda>(k, pr). Set_exception pr m)) xs) = map snd xs"
  by (induction xs) auto

lemma peer_fail_ok:
  assumes "unat (pe_Serial p) + 2 * k < 2 ^ 32" and "peer_fail msg p = (out, p')"
  shows "peer_inv k p' \<and> mset (pe_held p) = mset (concat (map pe_settled out)) + mset (pe_held p')
    \<and> pe_Streams p' = [] \<and> pe_Pending p' = []"
  using assms by (auto simp: peer_fail_def peer_inv_def peer_base_def pe_held_def Let_def split: if_splits)

lemma peer_serial:
  assumes "peer_base k p" and "0 < k + length (pe_Pending p)"
  shows "unat (pe_Serial p + 2) = unat (pe_Serial p) + 2" and "pe_Serial p < pe_Serial p + 2"
proof -
  have "unat (pe_Serial p) + 2 * (k + length (pe_Pending p)) < 2 ^ 32" using assms(1) by (simp add: peer_base_def)
  moreover have "2 * 1 \<le> 2 * (k + length (pe_Pending p))" using assms(2) by (intro mult_le_mono2) (simp add: Suc_le_eq)
  then have "unat (pe_Serial p) + 2 \<le> unat (pe_Serial p) + 2 * (k + length (pe_Pending p))" by simp
  ultimately have "unat (pe_Serial p) + 2 < 2 ^ 32" by (rule le_less_trans [rotated])
  then show u: "unat (pe_Serial p + 2) = unat (pe_Serial p) + 2" by (simp add: unat_word_ariths)
  then show "pe_Serial p < pe_Serial p + 2" by (simp add: word_less_nat_alt)
qed

text \<open>A request that is started takes the next serial, which no active stream has.\<close>

lemma initiate_ok:
  assumes "peer_base k p" and "0 < k + length (pe_Pending p)"
    and "initiate D r pr p = (out, p', x)"
  shows "concat (map pe_settled out) = [] \<and> omap_ok (pe_Streams p') \<and> keys_below (pe_Serial p') (pe_Streams p')
    \<and> unat (pe_Serial p') = unat (pe_Serial p) + 2 \<and> pe_Pending p' = pe_Pending p \<and> pe_FailReason p' = pe_FailReason p
    \<and> (x = None \<longrightarrow> mset (map snd (pe_Streams p')) = add_mset pr (mset (map snd (pe_Streams p)))
         \<and> length (pe_Streams p') = Suc (length (pe_Streams p)))
    \<and> (x \<noteq> None \<longrightarrow> pe_Streams p' = pe_Streams p)"
proof -
  note s = peer_serial [OF assms(1,2)]
  have kb: "keys_below (pe_Serial p) (pe_Streams p)" and ok: "omap_ok (pe_Streams p)"
    using assms(1) by (simp_all add: peer_base_def)
  then have kb2: "keys_below (pe_Serial p + 2) (pe_Streams p)" using keys_below_mono less_imp_le [OF s(2)] by blast
  have "mset (omap_put (pe_Serial p) pr (pe_Streams p)) = add_mset (pe_Serial p, pr) (mset (pe_Streams p))"
    using keys_below_fresh [OF kb] by (rule omap_put_fresh)
  then have m: "mset (map snd (omap_put (pe_Serial p) pr (pe_Streams p))) = add_mset pr (mset (map snd (pe_Streams p)))" by simp
  from arg_cong [OF this, of size] have ln: "length (omap_put (pe_Serial p) pr (pe_Streams p)) = Suc (length (pe_Streams p))" by simp
  have kp: "keys_below (pe_Serial p + 2) (omap_put (pe_Serial p) pr (pe_Streams p))"
    using kb2 s(2) by (rule keys_below_put)
  show ?thesis
  proof (cases "enqueue_request D (pe_Serial p) r (pe_Output p)")
    case (Inl e)
    then have "p' = p\<lparr>pe_Serial := pe_Serial p + 2\<rparr>" "out = []" "x = Some e" using assms(3) by (simp_all add: initiate_def Let_def)
    then show ?thesis using s(1) kb2 ok by simp
  next
    case (Inr y)
    then have "p' = p\<lparr>pe_Serial := pe_Serial p + 2, pe_Output := snd y, pe_Streams := omap_put (pe_Serial p) pr (pe_Streams p)\<rparr>"
      "out = [Started (pe_Serial p) pr]" "x = None" using assms(3) by (simp_all add: initiate_def Let_def split: prod.splits)
    then show ?thesis using s(1) ok m ln kp by (simp del: mset_map)
  qed
qed

lemma delete_mset:
  assumes "omap_ok m" and "map_of m k = Some v"
  shows "add_mset (k, v) (mset (AList.delete k m)) = mset m"
  using assms
proof (induction m)
  case (Cons e m)
  have "k \<notin> fst ` set m \<Longrightarrow> AList.delete k m = m" by (rule AList.delete_id)
  moreover have "\<forall>x \<in> set m. k < fst x \<Longrightarrow> k \<notin> fst ` set m" by auto
  ultimately show ?case using Cons by (cases e) (auto split: if_splits)
qed simp

lemma delete_streams:
  assumes "peer_base k p" and "map_of (pe_Streams p) s = Some pr"
  shows "add_mset pr (mset (map snd (AList.delete s (pe_Streams p)))) = mset (map snd (pe_Streams p))"
    and "Suc (length (AList.delete s (pe_Streams p))) = length (pe_Streams p)"
proof -
  have m: "add_mset (s, pr) (mset (AList.delete s (pe_Streams p))) = mset (pe_Streams p)"
    using assms by (intro delete_mset) (simp_all add: peer_base_def)
  from arg_cong [OF m, of "image_mset snd"] show "add_mset pr (mset (map snd (AList.delete s (pe_Streams p)))) = mset (map snd (pe_Streams p))" by simp
  from arg_cong [OF m, of size] show "Suc (length (AList.delete s (pe_Streams p))) = length (pe_Streams p)" by simp
qed

lemma peer_async_ok:
  fixes out :: "'r peer_out list"
  assumes "peer_inv (Suc k) p" and "peer_async D r pr p = Inr (out, p')"
  shows "peer_inv k p' \<and> add_mset pr (mset (pe_held p)) = mset (concat (map pe_settled out)) + mset (pe_held p')"
proof -
  consider (failed) "pe_FailReason p \<noteq> []" | (full) "pe_FailReason p = []" "CONCURRENT_STREAMS \<le> length (pe_Streams p)"
    | (go) "pe_FailReason p = []" "\<not> CONCURRENT_STREAMS \<le> length (pe_Streams p)" by blast
  then show ?thesis
  proof cases
    case go
    obtain out1 :: "'r peer_out list" and p1 x where i: "initiate D r pr p = (out1, p1, x)" by (metis prod_cases3)
    then have n: "x = None" "out1 = out" "p1 = p'"
      using assms(2) go by (auto simp: peer_async_def split: option.splits)
    have pn: "pe_Pending p = []" and b: "peer_base (Suc k) p" using assms(1) go(2) by (auto simp: peer_inv_def)
    from initiate_ok [OF b _ i] n show ?thesis
      using assms(1) go pn b by (auto simp: peer_inv_def peer_base_def pe_held_def)
  qed (use assms in \<open>auto simp: peer_async_def peer_inv_def peer_base_def pe_held_def\<close>)
qed

lemma peer_process_message_ok:
  fixes out :: "'r peer_out list"
  assumes "peer_inv k p" and "peer_process_message D s r p = Inr (out, p', x)"
  shows "mset (pe_held p) = mset (concat (map pe_settled out)) + mset (pe_held p') \<and> unat (pe_Serial p') + 2 * k < 2 ^ 32
    \<and> (x = None \<longrightarrow> peer_inv k p')"
proof -
  obtain pr where pr: "map_of (pe_Streams p) s = Some pr" using assms(2) by (auto simp: peer_process_message_def split: option.splits)
  let ?p = "p\<lparr>pe_Streams := AList.delete s (pe_Streams p)\<rparr>"
  have b0: "peer_base k p" using assms(1) by (simp add: peer_inv_def)
  have fr: "pe_FailReason p = []" using assms(1) pr by (auto simp: peer_inv_def)
  note d = delete_streams [OF b0 pr]
  have b: "peer_base k ?p" using b0 keys_below_delete by (auto simp: peer_base_def)
  show ?thesis
  proof (cases "pe_Pending p")
    case Nil
    then have "out = [Set_value pr r]" "p' = ?p" "x = None" using assms(2) pr by (auto simp: peer_process_message_def)
    then show ?thesis using assms(1) b d Nil by (auto simp: peer_inv_def peer_base_def pe_held_def simp flip: d(1))
  next
    case (Cons q rest)
    obtain rq pq where q: "q = (rq, pq)" by (cases q)
    obtain out1 :: "'r peer_out list" and p1 x1 where i: "initiate D rq pq ?p = (out1, p1, x1)" by (metis prod_cases3)
    have o: "out = Set_value pr r # out1" "x = x1" "p' = (if x1 = None then p1\<lparr>pe_Pending := rest\<rparr> else p1)"
      using assms(2) pr Cons q i by (auto simp: peer_process_message_def split: option.splits)
    have ln: "length (pe_Streams p) = CONCURRENT_STREAMS" using assms(1) Cons by (simp add: peer_inv_def)
    have "0 < k + length (pe_Pending ?p)" using Cons by simp
    from initiate_ok [OF b this i] show ?thesis
      using b ln Cons q o d fr by (auto simp: peer_inv_def peer_base_def pe_held_def simp flip: d(1) simp del: concat_eq_Nil_conv)
  qed
qed

lemma peer_step_ok:
  fixes out :: "'r peer_out list"
  assumes "peer_inv (length (pe_submitted e) + k) p" and "peer_step D e p = Inr (out, p')"
  shows "peer_inv k p' \<and> mset (pe_submitted e) + mset (pe_held p) = mset (concat (map pe_settled out)) + mset (pe_held p')"
proof (cases e)
  case (Pe_Async r pr)
  then show ?thesis using assms peer_async_ok [of k p D r pr out p'] by simp
next
  case (Pe_Fail msg)
  then show ?thesis using assms peer_fail_ok [of p k msg out p'] by (auto simp: peer_inv_def peer_base_def)
next
  case (Pe_Call c)
  then have inv: "peer_inv k p" and st: "peer_call D c p = Inr (out, p')" using assms by simp_all
  show ?thesis
  proof (cases c)
    case (Process_message s r)
    obtain o1 p1 x where m: "peer_process_message D s r p = Inr (o1, p1, x)"
      using st Process_message by (auto simp: peer_call_def bindr_iffs)
    note ok = peer_process_message_ok [OF inv m]
    show ?thesis
    proof (cases x)
      case None
      then show ?thesis using ok st m Process_message Pe_Call by (simp add: peer_call_def)
    next
      case (Some ex)
      obtain o2 :: "'r peer_out list" and p2 where f: "peer_fail (''exception: '' @ exn_what ex) p1 = (o2, p2)" by (metis prod.exhaust)
      have "out = o1 @ o2" "p' = p2" using st m Process_message Some f by (auto simp: peer_call_def)
      with peer_fail_ok [OF _ f, of k] ok show ?thesis using Pe_Call by auto
    qed
  qed (use inv st Pe_Call in \<open>auto simp: peer_call_def peer_window_update_def peer_send_def peer_inv_def peer_base_def pe_held_def\<close>)
qed

interpretation h2_peer: conserving "peer_step D" pe_submitted pe_settled pe_held peer_inv for D
  by unfold_locales (rule peer_step_ok)

section \<open>Requests of the manager\<close>

fun mg_submitted :: "mg_event \<Rightarrow> nat list" where
  "mg_submitted (Mg_Async r pr) = [pr]"
| "mg_submitted _ = []"

fun mg_settled :: "mg_out \<Rightarrow> nat list" where
  "mg_settled (Peer_async a r pr) = [pr]"
| "mg_settled (Mg_exception pr s) = [pr]"
| "mg_settled (Peer_start a) = []"

definition mg_held :: "manager \<Rightarrow> nat list" where
  "mg_held m = concat (map (\<lambda>(a, d). map snd (mg_requests d)) m)"

definition mg_inv :: "nat \<Rightarrow> manager \<Rightarrow> bool" where
  "mg_inv k m \<longleftrightarrow> distinct (map fst m) \<and> (\<forall>(a, d) \<in> set m. mg_requests d \<noteq> [] \<longrightarrow> mg_status d = ''not connected'')"

lemma mg_held_update:
  assumes "distinct (map fst m)"
  shows "mset (mg_held (AList.update a d m)) + mset (case map_of m a of None \<Rightarrow> [] | Some e \<Rightarrow> map snd (mg_requests e))
    = mset (mg_held m) + mset (map snd (mg_requests d))"
  using assms
proof (induction m)
  case (Cons e m)
  have "a \<notin> fst ` set m \<Longrightarrow> map_of m a = None" by (simp add: map_of_eq_None_iff)
  then show ?case using Cons by (cases e) (auto simp: mg_held_def ac_simps)
qed (simp add: mg_held_def)

lemma mg_inv_update:
  assumes "mg_inv k m" and "mg_requests d \<noteq> [] \<longrightarrow> mg_status d = ''not connected''"
  shows "mg_inv j (AList.update a d m)"
proof -
  have "set (AList.update a d m) \<subseteq> insert (a, d) (set m)" by (induction m) auto
  then show ?thesis using assms distinct_update [of m a d] by (auto simp: mg_inv_def)
qed

lemma concat_mg_settled [simp]:
  "concat (map (mg_settled \<circ> (\<lambda>(r, pr). Peer_async a r pr)) xs) = map snd xs"
  "concat (map (mg_settled \<circ> (\<lambda>(r, pr). Mg_exception pr msg)) xs) = map snd xs"
  by (induction xs) auto

lemma mg_step_ok:
  assumes "mg_inv (length (mg_submitted e) + k) m" and "mg_step e m = Inr (out, m')"
  shows "mg_inv k m' \<and> mset (mg_submitted e) + mset (mg_held m) = mset (concat (map mg_settled out)) + mset (mg_held m')"
proof (cases e)
  case (Mg_Async r pr)
  have inv: "distinct (map fst m)" "\<And>a d. map_of m a = Some d \<Longrightarrow> mg_requests d \<noteq> [] \<longrightarrow> mg_status d = ''not connected''"
    using assms(1) by (auto simp: mg_inv_def dest!: map_of_SomeD)
  obtain u where u: "parse_url (cr_url r) = Inr u" using assms(2) Mg_Async by (auto simp: mg_async_def bindr_iffs)
  let ?a = "(host u, port u)"
  define d where "d = (case map_of m ?a of None \<Rightarrow> \<lparr>mg_status = ''not connected'', mg_requests = []\<rparr> | Some d \<Rightarrow> d)"
  define new where "new = (if map_of m ?a = None then [Peer_start ?a] else [])"
  have held: "mset (mg_held (AList.update ?a d' m)) + mset (map snd (mg_requests d)) = mset (mg_held m) + mset (map snd (mg_requests d'))" for d'
    using mg_held_update [OF inv(1), of ?a d'] by (auto simp: d_def split: option.splits)
  have d: "mg_requests d \<noteq> [] \<longrightarrow> mg_status d = ''not connected''" using inv(2) by (auto simp: d_def split: option.splits)
  have n: "concat (map mg_settled new) = []" by (simp add: new_def)
  let ?d' = "d\<lparr>mg_requests := mg_requests d @ [(r, pr)]\<rparr>"
  have res: "(out, m') = (if mg_status d = ''not connected'' then (new, AList.update ?a ?d' m)
      else if mg_status d = ''connected'' then (new @ [Peer_async ?a r pr], AList.update ?a d m)
      else (new @ [Mg_exception pr (mg_status d)], AList.update ?a d m))"
    using assms(2) Mg_Async by (simp add: mg_async_def u d_def new_def Let_def split: option.splits if_splits)
  show ?thesis
  proof (cases "mg_status d = ''not connected''")
    case True
    then have "out = new" "m' = AList.update ?a ?d' m" using res by simp_all
    then show ?thesis using held [of ?d'] n mg_inv_update [OF assms(1), of ?d' k ?a] True Mg_Async by simp
  next
    case False
    then have "concat (map mg_settled out) = [pr]" "m' = AList.update ?a d m" using res n by (auto split: if_splits)
    then show ?thesis using held [of d] mg_inv_update [OF assms(1) d, of k ?a] Mg_Async by simp
  qed
next
  case (Mg_Notify a msg)
  have inv: "distinct (map fst m)" using assms(1) by (simp add: mg_inv_def)
  show ?thesis
  proof (cases "map_of m a")
    case None
    then show ?thesis using assms Mg_Notify by (simp add: mg_notify_def mg_inv_def)
  next
    case (Some d)
    let ?d = "\<lparr>mg_status = msg, mg_requests = []\<rparr>"
    have "concat (map mg_settled out) = map snd (mg_requests d)" "m' = AList.update a ?d m"
      using assms(2) Mg_Notify Some by (auto simp: mg_notify_def)
    then show ?thesis using mg_held_update [OF inv, of a ?d] mg_inv_update [OF assms(1), of ?d k a] Mg_Notify Some
      by (simp add: add.commute)
  qed
qed

interpretation h2_manager: conserving mg_step mg_submitted mg_settled mg_held mg_inv
  by unfold_locales (rule mg_step_ok)

section \<open>Order of the requests of a peer\<close>

definition started :: "'r peer_out list \<Rightarrow> nat list" where
  "started out = concat (map (\<lambda>x. case x of Started k pr \<Rightarrow> [pr] | _ \<Rightarrow> []) out)"

lemma started_simps [simp]:
  "started [] = []" "started (Started k pr # out) = pr # started out" "started (Set_value pr r # out) = started out"
  "started (Set_exception pr m # out) = started out" "started (Notify m # out) = started out" "started (a @ b) = started a @ started b"
  by (simp_all add: started_def)

lemma initiate_started:
  "initiate D r pr p = (out, p', None) \<Longrightarrow> started out = [pr] \<and> pe_Pending p' = pe_Pending p \<and> pe_FailReason p' = pe_FailReason p"
  by (auto simp: initiate_def Let_def split: sum.splits prod.splits)

lemma peer_step_order:
  assumes "peer_inv k p" and "peer_step D e p = Inr (out, p')" and "pe_FailReason p' = []" and "e \<noteq> Pe_Fail []"
  shows "pe_FailReason p = [] \<and> started out @ map snd (pe_Pending p') = map snd (pe_Pending p) @ pe_submitted e"
proof (cases e)
  case (Pe_Async r pr)
  have "pe_Pending p = []" if "\<not> CONCURRENT_STREAMS \<le> length (pe_Streams p)" using assms(1) that by (auto simp: peer_inv_def)
  then show ?thesis using assms Pe_Async initiate_started [of D r pr p out p']
    by (auto simp: peer_async_def split: if_splits prod.splits option.splits)
next
  case (Pe_Fail msg)
  then show ?thesis using assms by (auto simp: peer_fail_def Let_def split: if_splits)
next
  case (Pe_Call c)
  show ?thesis
  proof (cases c)
    case (Process_message s r)
    obtain o1 p1 x where m: "peer_process_message D s r p = Inr (o1, p1, x)"
      using assms(2) Pe_Call Process_message by (auto simp: peer_call_def bindr_iffs)
    have x: "x = None" using assms(2,3) Pe_Call Process_message m
      by (auto simp: peer_call_def peer_fail_def Let_def split: option.splits if_splits)
    then have "out = o1" "p' = p1" using assms(2) Pe_Call Process_message m by (auto simp: peer_call_def)
    then show ?thesis using m x assms(3) Pe_Call
      by (auto simp: peer_process_message_def Let_def dest!: initiate_started split: option.splits list.splits prod.splits)
  qed (use assms Pe_Call in \<open>auto simp: peer_call_def peer_window_update_def peer_send_def\<close>)
qed

lemma peer_run_order:
  assumes "peer_inv (length (concat (map pe_submitted es)) + k) p" and "run_steps (peer_step D) es p = Inr (outs, p')"
    and "pe_FailReason p' = []" and "Pe_Fail [] \<notin> set es"
  shows "pe_FailReason p = [] \<and> started outs @ map snd (pe_Pending p') = map snd (pe_Pending p) @ concat (map pe_submitted es)"
  using assms
proof (induction es arbitrary: p outs)
  case (Cons e es)
  obtain o1 p1 o2 where s: "peer_step D e p = Inr (o1, p1)" "run_steps (peer_step D) es p1 = Inr (o2, p')" "outs = o1 @ o2"
    using Cons.prems(2) by (auto simp: bindr_iffs)
  have i: "peer_inv (length (pe_submitted e) + (length (concat (map pe_submitted es)) + k)) p"
    using Cons.prems(1) by (simp add: add.assoc)
  then have "peer_inv (length (concat (map pe_submitted es)) + k) p1" using peer_step_ok [OF i s(1)] by blast
  from Cons.IH [OF this s(2) Cons.prems(3)] Cons.prems(4) peer_step_order [OF i s(1)] show ?case by (auto simp: s(3))
qed simp

section \<open>Properties\<close>

text \<open>
  C9: every promise given to a client connection is kept exactly once. After any sequence of
  requests, calls of the parser and failures (with fewer requests than there are odd stream
  numbers), the promises given are those set, to a value or an exception, and those of active
  streams and waiting requests; at most a hundred streams are active, requests wait only when
  that many are; once the connection has failed none is left unset; and until then requests are
  started in the order they were made.
\<close>

theorem h2_client_promises:
  assumes "run_steps (peer_step D) es (peer_new d) = Inr (outs, p)" and "length (concat (map pe_submitted es)) < 2 ^ 31"
  shows "mset (concat (map pe_submitted es)) = mset (concat (map pe_settled outs)) + mset (pe_held p)
    \<and> length (pe_Streams p) \<le> CONCURRENT_STREAMS \<and> (pe_Pending p \<noteq> [] \<longrightarrow> length (pe_Streams p) = CONCURRENT_STREAMS)
    \<and> (pe_FailReason p \<noteq> [] \<longrightarrow> pe_held p = [])
    \<and> (pe_FailReason p = [] \<and> Pe_Fail [] \<notin> set es \<longrightarrow> started outs @ map snd (pe_Pending p) = concat (map pe_submitted es))"
proof -
  have i: "peer_inv (length (concat (map pe_submitted es)) + 0) (peer_new d)"
    using assms(2) by (simp add: peer_inv_def peer_base_def peer_new_def)
  from h2_peer.run_conserves [OF i assms(1)] peer_run_order [OF i assms(1)]
  show ?thesis by (auto simp: peer_inv_def pe_held_def peer_new_def)
qed

definition example_request :: client_request where
  "example_request = \<lparr>cr_method = bytes_of ''GET'', cr_url = bytes_of ''http://h/'', cr_headers = [], cr_body = []\<rparr>"

lemma example_request_url: "\<exists>u. parse_url (cr_url example_request) = Inr u"
  by (simp add: parse_url_def starts_with_def example_request_def bytes_of_def)

theorem h2_client_promises_witness:
  "\<exists>(outs :: unit peer_out list) p. run_steps (peer_step plain_deflate) [Pe_Async example_request 5, Pe_Fail ''reset''] (peer_new ()) = Inr (outs, p)
    \<and> {#5#} = mset (concat (map pe_settled outs)) + mset (pe_held p) \<and> pe_held p = []"
proof -
  obtain u where "parse_url (cr_url example_request) = Inr u" using example_request_url by blast
  then obtain outs :: "unit peer_out list" and p where
    r: "run_steps (peer_step plain_deflate) [Pe_Async example_request 5, Pe_Fail ''reset''] (peer_new ()) = Inr (outs, p)"
      "pe_FailReason p = ''reset''"
    by (simp add: peer_async_def peer_new_def CONCURRENT_STREAMS_def initiate_def enqueue_request_def deflate_request_def
        hd_deflate_def plain_deflate_def out_enqueue_def peer_fail_def Let_def)
  from h2_client_promises [OF r(1)] r(2) have "{#5#} = mset (concat (map pe_settled outs)) + mset (pe_held p)" "pe_held p = []" by simp_all
  with r(1) show ?thesis by blast
qed

text \<open>
  C23: the connection manager loses no request: after any sequence of requests and notifications of
  the peers, the requests made are those handed to a peer, those failed and those waiting for
  their connection, each once; and a request waits only while its connection is not yet decided.
\<close>

theorem h2_manager_requests:
  assumes "run_steps mg_step es [] = Inr (outs, m)"
  shows "mset (concat (map mg_submitted es)) = mset (concat (map mg_settled outs)) + mset (mg_held m)
    \<and> (\<forall>(a, d) \<in> set m. mg_requests d \<noteq> [] \<longrightarrow> mg_status d = ''not connected'')"
proof -
  have i: "mg_inv (length (concat (map mg_submitted es)) + 0) []" by (simp add: mg_inv_def)
  from h2_manager.run_conserves [OF i assms] show ?thesis by (simp add: mg_inv_def mg_held_def)
qed

theorem h2_manager_requests_witness:
  "\<exists>outs m. run_steps mg_step [Mg_Async example_request 5] [] = Inr (outs, m)
    \<and> {#5#} = mset (concat (map mg_settled outs)) + mset (mg_held m)"
proof -
  obtain u where "parse_url (cr_url example_request) = Inr u" using example_request_url by blast
  then obtain outs m where r: "run_steps mg_step [Mg_Async example_request 5] [] = Inr (outs, m)"
    by (simp add: mg_async_def Let_def)
  from h2_manager_requests [OF r] have "{#5#} = mset (concat (map mg_settled outs)) + mset (mg_held m)" by simp
  with r show ?thesis by blast
qed

end
