(* ===== verification/Sd_Peer.thy ===== *)
theory Sd_Peer
  imports Complex_Main Prelude
begin

text \<open>
  One peer of the service discovery client: the moving averages of \<open>unsorted/Ewma.hpp\<close>, the circuit
  breaker and the statistics of a peer of \<open>sd/Balancer.hpp\<close>, and an entry of the registry of
  \<open>sd/Entry.hpp\<close>. A \<open>double\<close> is an exact rational number: rounding, infinities and NaN are outside of
  the model, and no division by zero occurs in the operations under the conditions stated. A
  \<open>time_t\<close> is an integer.
\<close>

type_synonym double = rat
type_synonym time_t = int

section \<open>Moving averages\<close>

record ewma =
  ew_Factor :: double
  ew_Value :: double

definition ewma_add :: "double \<Rightarrow> ewma \<Rightarrow> ewma" where
  "ewma_add aValue e = e\<lparr>ew_Value := ew_Value e * ew_Factor e + (1 - ew_Factor e) * aValue\<rparr>"

definition ewma_reset :: "double \<Rightarrow> ewma \<Rightarrow> ewma" where
  "ewma_reset aValue e = e\<lparr>ew_Value := aValue\<rparr>"

record ewma_rps =
  er_SlowLatency :: ewma
  er_FastLatency :: ewma
  er_RPS :: ewma
  er_SuccessRate :: ewma
  er_LastUpdateTs :: time_t
  er_Elapsed :: double
  er_Count :: u32
  er_Success :: u32

record rps_info =
  in_latency :: double
  in_rps :: double
  in_success_rate :: double

definition rps_new :: "double \<Rightarrow> double \<Rightarrow> double \<Rightarrow> ewma_rps" where
  "rps_new aFactor aLatency aSuccessRate =
     \<lparr>er_SlowLatency = \<lparr>ew_Factor = aFactor, ew_Value = aLatency\<rparr>,
      er_FastLatency = \<lparr>ew_Factor = aFactor * (3 / 4), ew_Value = aLatency\<rparr>,
      er_RPS = \<lparr>ew_Factor = aFactor, ew_Value = 0\<rparr>,
      er_SuccessRate = \<lparr>ew_Factor = aFactor, ew_Value = aSuccessRate\<rparr>,
      er_LastUpdateTs = 0, er_Elapsed = 0, er_Count = 0, er_Success = 0\<rparr>"

text \<open>The averages take in the second that has ended; nothing was divided when no call was counted.\<close>

definition rps_second :: "time_t \<Rightarrow> ewma_rps \<Rightarrow> ewma_rps" where
  "rps_second aNow e =
     (let e = (if 0 < er_Count e
               then let sTime = of_int (aNow - er_LastUpdateTs e); n = of_nat (unat (er_Count e))
                    in e\<lparr>er_SlowLatency := ewma_add (er_Elapsed e / n) (er_SlowLatency e),
                         er_FastLatency := ewma_add (er_Elapsed e / n) (er_FastLatency e),
                         er_RPS := ewma_add (n / sTime) (er_RPS e),
                         er_SuccessRate := ewma_add (of_nat (unat (er_Success e)) / n) (er_SuccessRate e)\<rparr>
               else e)
      in e\<lparr>er_Elapsed := 0, er_Count := 0, er_Success := 0, er_LastUpdateTs := aNow\<rparr>)"

definition rps_add :: "time_t \<Rightarrow> double \<Rightarrow> bool \<Rightarrow> ewma_rps \<Rightarrow> bool \<times> ewma_rps" where
  "rps_add aNow aElapsed aSuccess e =
     (let sNewSecond = er_LastUpdateTs e < aNow;
          e = (if sNewSecond then rps_second aNow e else e)
      in (sNewSecond,
          e\<lparr>er_Elapsed := er_Elapsed e + aElapsed, er_Count := er_Count e + 1,
            er_Success := (if aSuccess then er_Success e + 1 else er_Success e)\<rparr>))"

definition rps_estimate :: "ewma_rps \<Rightarrow> rps_info" where
  "rps_estimate e =
     \<lparr>in_latency = max (ew_Value (er_SlowLatency e)) (ew_Value (er_FastLatency e)),
      in_rps = ew_Value (er_RPS e), in_success_rate = ew_Value (er_SuccessRate e)\<rparr>"

definition rps_reset :: "rps_info \<Rightarrow> ewma_rps \<Rightarrow> ewma_rps" where
  "rps_reset aInfo e =
     e\<lparr>er_SlowLatency := ewma_reset (in_latency aInfo) (er_SlowLatency e),
       er_FastLatency := ewma_reset (in_latency aInfo) (er_FastLatency e),
       er_RPS := ewma_reset (in_rps aInfo) (er_RPS e),
       er_SuccessRate := ewma_reset (in_success_rate aInfo) (er_SuccessRate e)\<rparr>"

section \<open>The circuit breaker\<close>

record breaker =
  br_Spent :: time_t
  br_Close :: bool

definition breaker0 :: breaker where
  "breaker0 = \<lparr>br_Spent = 0, br_Close = False\<rparr>"

definition CLOSE_RATE :: double where "CLOSE_RATE = 1 / 2"
definition PERIOD :: time_t where "PERIOD = 10"

definition breaker_update :: "double \<Rightarrow> breaker \<Rightarrow> breaker" where
  "breaker_update aSuccessRate b =
     (let b = b\<lparr>br_Spent := br_Spent b + 1\<rparr>
      in if br_Close b \<and> PERIOD < br_Spent b then breaker0
         else if \<not> br_Close b \<and> PERIOD \<le> br_Spent b \<and> aSuccessRate < CLOSE_RATE
              then \<lparr>br_Spent = 0, br_Close = True\<rparr>
         else b)"

section \<open>Entries of the registry\<close>

record entry =
  en_key :: "byte list"
  en_latency :: double
  en_rps :: double
  en_threads :: u32
  en_location :: "byte list"
  en_weight :: double
  en_utilization :: double

section \<open>The statistics of a peer\<close>

record bal_params =
  bp_location :: "byte list"
  bp_use_client_latency :: bool
  bp_use_server_rps :: bool
  bp_use_circuit_breaker :: bool
  bp_second_chance :: bool

record bal_metrics =
  me_allowed :: u64
  me_failed :: u64
  me_blocked :: u64
  me_session :: u64
  me_closed :: u64
  me_weight :: double

definition metrics0 :: bal_metrics where
  "metrics0 = \<lparr>me_allowed = 0, me_failed = 0, me_blocked = 0, me_session = 0, me_closed = 0, me_weight = 0\<rparr>"

record peer_info =
  pi_Key :: "byte list"
  pi_Budget :: double
  pi_LastWeight :: double
  pi_CurrentTime :: time_t
  pi_Ewma :: ewma_rps
  pi_Breaker :: breaker
  pi_Metrics :: bal_metrics

definition pi_new :: "byte list \<Rightarrow> peer_info" where
  "pi_new aKey =
     \<lparr>pi_Key = aKey, pi_Budget = 0, pi_LastWeight = 0, pi_CurrentTime = 0,
      pi_Ewma = rps_new (95 / 100) 0 1, pi_Breaker = breaker0, pi_Metrics = metrics0\<rparr>"

abbreviation is_close :: "peer_info \<Rightarrow> bool" where
  "is_close p \<equiv> br_Close (pi_Breaker p)"

definition pi_prepare :: "bal_params \<Rightarrow> time_t \<Rightarrow> peer_info \<Rightarrow> peer_info" where
  "pi_prepare P aNow p =
     (if aNow \<le> pi_CurrentTime p then p
      else let p = p\<lparr>pi_CurrentTime := aNow\<rparr>
           in if bp_use_circuit_breaker P
              then let sOldClose = is_close p;
                       p = p\<lparr>pi_Breaker := breaker_update (in_success_rate (rps_estimate (pi_Ewma p))) (pi_Breaker p)\<rparr>
                   in if \<not> sOldClose \<and> is_close p
                      then p\<lparr>pi_Metrics := (pi_Metrics p)\<lparr>me_closed := me_closed (pi_Metrics p) + 1\<rparr>\<rparr>
                      else p
              else p)"

definition LOSS_MAX :: double where "LOSS_MAX = 1 / 2"
definition LOSS_FACTOR :: double where "LOSS_FACTOR = 90 / 100"
definition BOOST_FACTOR :: double where "BOOST_FACTOR = 105 / 100"
definition UTIL_MAX :: double where "UTIL_MAX = 75 / 100"

text \<open>The weight that latency, utilization and errors ask for, before the change is limited.\<close>

definition target_weight :: "bal_params \<Rightarrow> entry \<Rightarrow> rps_info \<Rightarrow> double" where
  "target_weight P aEntry sEWMA =
     (let sWeight = en_weight aEntry;
          sWeight = (if bp_use_client_latency P \<and> en_latency aEntry < in_latency sEWMA
                     then max (of_nat (unat (en_threads aEntry)) / in_latency sEWMA) (sWeight * LOSS_MAX)
                     else sWeight);
          sWeight = (if bp_use_server_rps P \<and> UTIL_MAX < en_utilization aEntry
                     then sWeight * (1 + UTIL_MAX - min (en_utilization aEntry) 1)
                     else sWeight)
      in if in_success_rate sEWMA < 95 / 100 then sWeight * max (in_success_rate sEWMA) LOSS_MAX
         else sWeight)"

definition adjust_weight :: "bal_params \<Rightarrow> entry \<Rightarrow> peer_info \<Rightarrow> entry \<times> peer_info" where
  "adjust_weight P aEntry p =
     (if is_close p then (aEntry\<lparr>en_weight := 0\<rparr>, p)
      else let sPreviousWeight = (if 0 < pi_LastWeight p then pi_LastWeight p else en_weight aEntry);
               sWeight = target_weight P aEntry (rps_estimate (pi_Ewma p));
               sWeight = (if sPreviousWeight \<le> sWeight then min sWeight (sPreviousWeight * BOOST_FACTOR)
                          else max sWeight (sPreviousWeight * LOSS_FACTOR))
           in (aEntry\<lparr>en_weight := sWeight\<rparr>,
               p\<lparr>pi_LastWeight := sWeight, pi_Metrics := (pi_Metrics p)\<lparr>me_weight := sWeight\<rparr>\<rparr>))"

definition pi_test :: "bal_params \<Rightarrow> time_t \<Rightarrow> bool \<Rightarrow> peer_info \<Rightarrow> bool \<times> peer_info" where
  "pi_test P aNow aKeepAlive p =
     (let p = pi_prepare P aNow p;
          p = (if is_close p \<and> \<not> aKeepAlive
               then p\<lparr>pi_Metrics := (pi_Metrics p)\<lparr>me_blocked := me_blocked (pi_Metrics p) + 1\<rparr>\<rparr>
               else p)
      in (\<not> is_close p, p))"

definition pi_add :: "bal_params \<Rightarrow> time_t \<Rightarrow> double \<Rightarrow> bool \<Rightarrow> bool \<Rightarrow> peer_info \<Rightarrow> peer_info" where
  "pi_add P aNow aLatency aSuccess aBySession p =
     (let p = pi_prepare P aNow p; m = pi_Metrics p
      in p\<lparr>pi_Ewma := snd (rps_add aNow aLatency aSuccess (pi_Ewma p)),
           pi_Metrics := m\<lparr>me_allowed := me_allowed m + 1,
                           me_failed := (if aSuccess then me_failed m else me_failed m + 1),
                           me_session := (if aBySession then me_session m + 1 else me_session m)\<rparr>\<rparr>)"

text \<open>A response is its status code here, and a call of the handler gives its response and the time it took, or throws.\<close>

definition is_good_response :: "nat \<Rightarrow> bool" where
  "is_good_response sCode \<longleftrightarrow> \<not> (sCode = 429 \<or> 500 \<le> sCode)"

definition pi_wrap :: "bal_params \<Rightarrow> time_t \<Rightarrow> (nat \<times> double) result \<Rightarrow> bool \<Rightarrow> peer_info \<Rightarrow> nat result \<times> peer_info" where
  "pi_wrap P aNow aHandler aBySession p =
     (case aHandler of
        Inr (sResponse, sELA) \<Rightarrow>
          (Inr sResponse,
           if is_good_response sResponse then pi_add P aNow sELA True aBySession p
           else pi_add P aNow 0 False aBySession p)
      | Inl e \<Rightarrow> (Inl e, pi_add P aNow 0 False aBySession p))"

definition pi_reset :: "double \<Rightarrow> double \<Rightarrow> peer_info \<Rightarrow> peer_info" where
  "pi_reset aLatency aSuccessRate p =
     p\<lparr>pi_CurrentTime := 0,
       pi_Ewma := rps_reset \<lparr>in_latency = aLatency, in_rps = 0, in_success_rate = aSuccessRate\<rparr> (pi_Ewma p),
       pi_Breaker := breaker0\<rparr>"

section \<open>Averages stay between their samples\<close>

definition between :: "double \<Rightarrow> double \<Rightarrow> double \<Rightarrow> bool" where
  "between lo hi x \<longleftrightarrow> lo \<le> x \<and> x \<le> hi"

definition ewma_ok :: "double \<Rightarrow> double \<Rightarrow> ewma \<Rightarrow> bool" where
  "ewma_ok lo hi e \<longleftrightarrow> between 0 1 (ew_Factor e) \<and> between lo hi (ew_Value e)"

lemma ewma_add_ok:
  assumes "ewma_ok lo hi e" and "between lo hi x"
  shows "ewma_ok lo hi (ewma_add x e)"
proof -
  let ?f = "ew_Factor e" and ?v = "ew_Value e"
  have f: "0 \<le> ?f" "0 \<le> 1 - ?f" and v: "lo \<le> ?v" "?v \<le> hi" and x: "lo \<le> x" "x \<le> hi"
    using assms by (auto simp: ewma_ok_def between_def)
  have "lo = lo * ?f + (1 - ?f) * lo" "hi = hi * ?f + (1 - ?f) * hi" by (simp_all add: algebra_simps)
  moreover have "lo * ?f + (1 - ?f) * lo \<le> ?v * ?f + (1 - ?f) * x"
    using v x f by (intro add_mono mult_right_mono mult_left_mono)
  moreover have "?v * ?f + (1 - ?f) * x \<le> hi * ?f + (1 - ?f) * hi"
    using v x f by (intro add_mono mult_right_mono mult_left_mono)
  ultimately have "lo \<le> ?v * ?f + (1 - ?f) * x" "?v * ?f + (1 - ?f) * x \<le> hi" by simp_all
  then show ?thesis using assms(1) by (simp add: ewma_ok_def between_def ewma_add_def)
qed

text \<open>The accumulators of the running second: the sum of the latencies and the count of successes.\<close>

definition rps_ok :: "double \<Rightarrow> double \<Rightarrow> ewma_rps \<Rightarrow> bool" where
  "rps_ok lo hi e \<longleftrightarrow>
     ewma_ok lo hi (er_SlowLatency e) \<and> ewma_ok lo hi (er_FastLatency e) \<and> ewma_ok 0 1 (er_SuccessRate e)
     \<and> between (of_nat (unat (er_Count e)) * lo) (of_nat (unat (er_Count e)) * hi) (er_Elapsed e)
     \<and> unat (er_Success e) \<le> unat (er_Count e)"

lemma between_mean:
  assumes "0 < n" and "between (of_nat n * lo) (of_nat n * hi) x"
  shows "between lo hi (x / of_nat n)"
  using assms by (simp add: between_def pos_le_divide_eq pos_divide_le_eq mult.commute)

lemma between_ratio: "s \<le> c \<Longrightarrow> between 0 1 (of_nat s / of_nat c)"
  by (cases "c = 0") (simp_all add: between_def divide_le_eq_1)

lemma rps_second_ok: "rps_ok lo hi e \<Longrightarrow> rps_ok lo hi (rps_second aNow e) \<and> er_Count (rps_second aNow e) = 0"
proof -
  assume ok: "rps_ok lo hi e"
  have "between 0 1 (of_nat (unat (er_Success e)) / of_nat (unat (er_Count e)))" if "0 < er_Count e"
    using ok that by (intro between_ratio) (auto simp: rps_ok_def unat_gt_0 word_gt_0_no)
  moreover have "between lo hi (er_Elapsed e / of_nat (unat (er_Count e)))" if "0 < er_Count e"
    using ok that by (intro between_mean) (auto simp: rps_ok_def unat_gt_0 word_gt_0_no)
  ultimately show ?thesis
    using ok by (auto simp: rps_second_def Let_def rps_ok_def between_def intro: ewma_add_ok)
qed

lemma rps_add_ok:
  assumes ok: "rps_ok lo hi e" and c: "unat (er_Count e) + 1 < 2 ^ 32" and l: "between lo hi l"
  shows "rps_ok lo hi (snd (rps_add t l b e)) \<and> unat (er_Count (snd (rps_add t l b e))) \<le> unat (er_Count e) + 1"
proof -
  define e' where "e' = (if er_LastUpdateTs e < t then rps_second t e else e)"
  have ok': "rps_ok lo hi e'" and le: "unat (er_Count e') \<le> unat (er_Count e)"
    using rps_second_ok [OF ok, of t] ok by (auto simp: e'_def)
  have c': "unat (er_Count e') + 1 < 2 ^ 32" using le c by simp
  then have n: "unat (er_Count e' + 1) = unat (er_Count e') + 1" by (simp add: unat_word_ariths)
  have s: "unat (er_Success e' + 1) = unat (er_Success e') + 1"
    using ok' c' by (simp add: unat_word_ariths rps_ok_def)
  have r: "snd (rps_add t l b e) = e'\<lparr>er_Elapsed := er_Elapsed e' + l, er_Count := er_Count e' + 1,
      er_Success := (if b then er_Success e' + 1 else er_Success e')\<rparr>"
    by (simp add: rps_add_def Let_def e'_def)
  have "between (of_nat (unat (er_Count e') + 1) * lo) (of_nat (unat (er_Count e') + 1) * hi) (er_Elapsed e' + l)"
    using ok' l by (simp add: rps_ok_def between_def algebra_simps add_mono)
  then have "rps_ok lo hi (snd (rps_add t l b e))" using ok' n s unfolding r by (simp add: rps_ok_def)
  then show ?thesis using n le unfolding r by simp
qed

type_synonym rps_call = "time_t \<times> double \<times> bool"

definition rps_calls :: "rps_call list \<Rightarrow> ewma_rps \<Rightarrow> ewma_rps" where
  "rps_calls = fold (\<lambda>(t, l, b) e. snd (rps_add t l b e))"

lemma rps_calls_ok:
  assumes "rps_ok lo hi e" and "unat (er_Count e) + length cs < 2 ^ 32" and "\<forall>(t, l, b) \<in> set cs. between lo hi l"
  shows "rps_ok lo hi (rps_calls cs e)"
  using assms
proof (induction cs arbitrary: e)
  case Nil
  then show ?case by (simp add: rps_calls_def)
next
  case (Cons c cs)
  obtain t l b where c: "c = (t, l, b)" by (cases c)
  have "rps_ok lo hi (snd (rps_add t l b e)) \<and> unat (er_Count (snd (rps_add t l b e))) \<le> unat (er_Count e) + 1"
    using Cons.prems by (intro rps_add_ok) (auto simp: c)
  then have "rps_ok lo hi (rps_calls cs (snd (rps_add t l b e)))"
    using Cons.prems by (intro Cons.IH) auto
  then show ?case by (simp add: rps_calls_def c)
qed

text \<open>
  the averages a client keeps of a peer are averages: when the latencies reported and the
  initial one lie in an interval, so does the latency estimated after any sequence of fewer than
  \<open>2\<^sup>32\<close> calls, whatever the seconds they fall into, and the success rate stays between 0 and 1.
\<close>

theorem ewma_within:
  assumes "between 0 1 aFactor" and "between lo hi aLatency" and "between 0 1 aSuccessRate"
    and "\<forall>(t, l, b) \<in> set calls. between lo hi l" and "length calls < 2 ^ 32"
  shows "between lo hi (in_latency (rps_estimate (rps_calls calls (rps_new aFactor aLatency aSuccessRate))))
    \<and> between 0 1 (in_success_rate (rps_estimate (rps_calls calls (rps_new aFactor aLatency aSuccessRate))))"
proof -
  have "between 0 1 (aFactor * (3 / 4))" using assms(1) by (simp add: between_def)
  then have "rps_ok lo hi (rps_new aFactor aLatency aSuccessRate)"
    using assms(1-3) by (simp add: rps_ok_def rps_new_def ewma_ok_def) (simp add: between_def)
  then have "rps_ok lo hi (rps_calls calls (rps_new aFactor aLatency aSuccessRate))"
    using assms(4,5) by (intro rps_calls_ok) (simp_all add: rps_new_def)
  then show ?thesis by (auto simp: rps_ok_def ewma_ok_def rps_estimate_def between_def max_def)
qed

theorem ewma_within_witness:
  "between 1 4 (in_latency (rps_estimate (rps_calls [(1, 2, True), (2, 4, False), (3, 1, True)] (rps_new (1 / 2) 1 1))))"
  using ewma_within [of "1 / 2" 1 4 1 1 "[(1, 2, True), (2, 4, False), (3, 1, True)]"]
  by (simp add: between_def)

section \<open>The breaker\<close>

fun pi_tests :: "bal_params \<Rightarrow> bool \<Rightarrow> time_t list \<Rightarrow> peer_info \<Rightarrow> bool list \<times> peer_info" where
  "pi_tests P ka [] p = ([], p)"
| "pi_tests P ka (t # ts) p =
     (let (b, p) = pi_test P t ka p; (bs, p) = pi_tests P ka ts p in (b # bs, p))"

lemma pi_test_Breaker:
  assumes "bp_use_circuit_breaker P" and "pi_CurrentTime p < t"
  shows "pi_CurrentTime (snd (pi_test P t ka p)) = t"
    and "pi_Breaker (snd (pi_test P t ka p))
      = breaker_update (in_success_rate (rps_estimate (pi_Ewma p))) (pi_Breaker p)"
    and "fst (pi_test P t ka p) \<longleftrightarrow> \<not> is_close (snd (pi_test P t ka p))"
  using assms by (simp_all add: pi_test_def pi_prepare_def Let_def)

lemma pi_tests_closed:
  assumes "bp_use_circuit_breaker P" and "pi_Breaker p = \<lparr>br_Spent = c, br_Close = True\<rparr>"
    and "sorted_wrt (<) (pi_CurrentTime p # ts)" and "c + int (length ts) \<le> PERIOD"
  shows "fst (pi_tests P ka ts p) = replicate (length ts) False
    \<and> pi_Breaker (snd (pi_tests P ka ts p)) = \<lparr>br_Spent = c + int (length ts), br_Close = True\<rparr>
    \<and> pi_CurrentTime (snd (pi_tests P ka ts p)) = last (pi_CurrentTime p # ts)"
  using assms
proof (induction ts arbitrary: p c)
  case Nil
  then show ?case by simp
next
  case (Cons t ts)
  obtain b q where q: "pi_test P t ka p = (b, q)" by (cases "pi_test P t ka p")
  have "pi_CurrentTime q = t" "pi_Breaker q = \<lparr>br_Spent = c + 1, br_Close = True\<rparr>" "\<not> b"
    using pi_test_Breaker [of P p t ka] Cons.prems by (auto simp: q breaker_update_def Let_def)
  moreover from this have "fst (pi_tests P ka ts q) = replicate (length ts) False
    \<and> pi_Breaker (snd (pi_tests P ka ts q)) = \<lparr>br_Spent = (c + 1) + int (length ts), br_Close = True\<rparr>
    \<and> pi_CurrentTime (snd (pi_tests P ka ts q)) = last (pi_CurrentTime q # ts)"
    using Cons.prems by (intro Cons.IH) auto
  ultimately show ?case by (cases "pi_tests P ka ts q") (auto simp: q)
qed

lemma pi_tests_append:
  "pi_tests P ka (ts @ us) p =
     (let (bs, p) = pi_tests P ka ts p; (cs, p) = pi_tests P ka us p in (bs @ cs, p))"
  by (induction ts arbitrary: p) (auto split: prod.splits)

text \<open>
  a circuit that has just closed blocks the peer for the tests of ten different seconds, however
  good or bad the calls still running turn out, and the test of the eleventh lets it through with a
  fresh breaker: a blocked peer always recovers.
\<close>

theorem breaker_recovers:
  assumes "bp_use_circuit_breaker P" and "pi_Breaker p = \<lparr>br_Spent = 0, br_Close = True\<rparr>"
    and "sorted_wrt (<) (pi_CurrentTime p # ts)" and "length ts = 11"
  shows "fst (pi_tests P ka ts p) = replicate 10 False @ [True] \<and> pi_Breaker (snd (pi_tests P ka ts p)) = breaker0"
proof -
  have ts: "ts = take 10 ts @ [ts ! 10]" using assms(4) take_Suc_conv_app_nth [of 10 ts] by simp
  let ?q = "snd (pi_tests P ka (take 10 ts) p)"
  have "sorted_wrt (<) ((pi_CurrentTime p # take 10 ts) @ [ts ! 10])" using assms(3) ts by simp
  then have sw: "sorted_wrt (<) (pi_CurrentTime p # take 10 ts)"
    and lt: "last (pi_CurrentTime p # take 10 ts) < ts ! 10"
    unfolding sorted_wrt_append by (blast, metis last_in_set list.distinct(1) list.set_intros(1))
  have "fst (pi_tests P ka (take 10 ts) p) = replicate (length (take 10 ts)) False
    \<and> pi_Breaker ?q = \<lparr>br_Spent = 0 + int (length (take 10 ts)), br_Close = True\<rparr>
    \<and> pi_CurrentTime ?q = last (pi_CurrentTime p # take 10 ts)"
    using assms sw by (intro pi_tests_closed) (simp_all add: PERIOD_def)
  then have q: "fst (pi_tests P ka (take 10 ts) p) = replicate 10 False" "pi_Breaker ?q = \<lparr>br_Spent = 10, br_Close = True\<rparr>"
    "pi_CurrentTime ?q < ts ! 10" using assms(4) lt by simp_all
  have "pi_tests P ka ts p = (let (bs, p) = pi_tests P ka (take 10 ts) p; (cs, p) = pi_tests P ka [ts ! 10] p in (bs @ cs, p))"
    by (subst ts) (rule pi_tests_append)
  then show ?thesis using q pi_test_Breaker [OF assms(1) q(3), of ka]
    by (simp add: breaker_update_def breaker0_def PERIOD_def Let_def split: prod.splits)
qed

theorem breaker_recovers_witness:
  "fst (pi_tests \<lparr>bp_location = [], bp_use_client_latency = True, bp_use_server_rps = False, bp_use_circuit_breaker = True, bp_second_chance = True\<rparr>
     False [1, 2, 3, 4, 5, 6, 7, 8, 9, 10, 11] ((pi_new [97])\<lparr>pi_Breaker := \<lparr>br_Spent = 0, br_Close = True\<rparr>\<rparr>)) = replicate 10 False @ [True]"
  by (rule breaker_recovers [THEN conjunct1]) (simp_all add: pi_new_def)

section \<open>The change of a weight\<close>

lemma target_weight_nonneg:
  assumes "0 \<le> en_weight e"
  shows "0 \<le> target_weight P e i"
proof -
  have u: "0 \<le> 1 + UTIL_MAX - min (en_utilization e) 1" by (simp add: UTIL_MAX_def min_def)
  have m: "0 \<le> max x LOSS_MAX" for x by (simp add: LOSS_MAX_def max_def)
  have l: "0 \<le> max x (en_weight e * LOSS_MAX)" for x
    using assms by (simp add: LOSS_MAX_def le_max_iff_disj)
  show ?thesis
    unfolding target_weight_def Let_def using assms u m l by (simp add: mult_nonneg_nonneg)
qed

text \<open>
  the weight of a peer changes smoothly: unless its circuit is closed, which sets it to zero,
  the new weight is the weight that latency, utilization and errors ask for, clamped between 90 and
  105 percent of the previous one, so it is never negative.
\<close>

theorem adjust_weight_clamps:
  assumes "\<not> is_close p" and "0 \<le> en_weight e" and "0 \<le> en_latency e"
    and "prev = (if 0 < pi_LastWeight p then pi_LastWeight p else en_weight e)"
  shows "en_weight (fst (adjust_weight P e p))
      = max (prev * (90 / 100)) (min (target_weight P e (rps_estimate (pi_Ewma p))) (prev * (105 / 100)))
    \<and> pi_LastWeight (snd (adjust_weight P e p)) = en_weight (fst (adjust_weight P e p))
    \<and> 0 \<le> en_weight (fst (adjust_weight P e p))"
proof -
  have "0 \<le> prev" using assms(2,4) by simp
  then have "prev * (90 / 100) \<le> prev" "prev \<le> prev * (105 / 100)" by simp_all
  then show ?thesis
    using assms(1) \<open>0 \<le> prev\<close> target_weight_nonneg [OF assms(2), of P "rps_estimate (pi_Ewma p)"]
    unfolding adjust_weight_def Let_def assms(4) [symmetric] BOOST_FACTOR_def LOSS_FACTOR_def
    by (auto simp: max_def min_def)
qed

theorem adjust_weight_clamps_witness:
  "0 \<le> en_weight (fst (adjust_weight
     \<lparr>bp_location = [], bp_use_client_latency = True, bp_use_server_rps = False, bp_use_circuit_breaker = True, bp_second_chance = True\<rparr>
     \<lparr>en_key = [97], en_latency = 1, en_rps = 0, en_threads = 1, en_location = [], en_weight = 4, en_utilization = 0\<rparr> (pi_new [97])))"
  by (rule adjust_weight_clamps [THEN conjunct2, THEN conjunct2]) (simp_all add: pi_new_def breaker0_def)

end
