(* ===== verification/Sd_Balancer.thy ===== *)
theory Sd_Balancer
  imports Sd_Peer Hash_Nodes "HOL-Library.List_Lexorder"
begin

text \<open>
  The weighted balancer of \<open>sd/Balancer.hpp\<close>: class \<open>ByWeight\<close>, which spends the budgets of the
  peers in steps of the smallest weight, and the part of \<open>Engine\<close> that feeds it. A pointer of
  \<open>m_Info\<close> is the key under which \<open>m_Store\<close> holds the object, since objects enter the store under
  their key and are never removed; a null pointer is \<open>None\<close>. The hash functions of the ring are
  parameters, as in \<open>Hash_Nodes\<close>.
\<close>

section \<open>State\<close>

record by_weight =
  bw_RPS :: double
  bw_TotalWeight :: double
  bw_Step :: double
  bw_Pos :: u32
  bw_LastTime :: time_t
  bw_Store :: "byte list \<rightharpoonup> peer_info"
  bw_Info :: "byte list option list"
  bw_Peers :: "entry list"
  bw_Ring :: hash_ring

definition balancer_new :: by_weight where
  "balancer_new = \<lparr>bw_RPS = 0, bw_TotalWeight = 0, bw_Step = 0, bw_Pos = 0, bw_LastTime = 0,
     bw_Store = Map.empty, bw_Info = [], bw_Peers = [], bw_Ring = []\<rparr>"

text \<open>\<open>m_Info[i]->\<close>, reading and writing.\<close>

definition info_at :: "nat \<Rightarrow> by_weight \<Rightarrow> peer_info result" where
  "info_at i s =
     (if i < length (bw_Info s)
      then case bw_Info s ! i of
             None \<Rightarrow> Inl Undefined
           | Some k \<Rightarrow> (case bw_Store s k of None \<Rightarrow> Inl Undefined | Some p \<Rightarrow> Inr p)
      else Inl Undefined)"

definition set_info :: "nat \<Rightarrow> peer_info \<Rightarrow> by_weight \<Rightarrow> by_weight" where
  "set_info i p s = (case bw_Info s ! i of None \<Rightarrow> s | Some k \<Rightarrow> s\<lparr>bw_Store := (bw_Store s)(k \<mapsto> p)\<rparr>)"

definition on_info :: "nat \<Rightarrow> (peer_info \<Rightarrow> peer_info) \<Rightarrow> by_weight \<Rightarrow> by_weight result" where
  "on_info i f s = bindr (info_at i s) (\<lambda>p. Inr (set_info i (f p) s))"

section \<open>Update of the list of peers\<close>

text \<open>The pointer of position \<open>i\<close> is looked up in the store unless it is the peer wanted already.\<close>

definition adjust_info1 :: "nat \<Rightarrow> byte list \<Rightarrow> by_weight \<Rightarrow> by_weight result" where
  "adjust_info1 i sKey s =
     (let found = s\<lparr>bw_Store := (if bw_Store s sKey = None then (bw_Store s)(sKey \<mapsto> pi_new sKey) else bw_Store s),
                    bw_Info := (bw_Info s)[i := Some sKey]\<rparr>
      in if bw_Info s ! i = None then Inr found
         else bindr (info_at i s) (\<lambda>p. if pi_Key p \<noteq> sKey then Inr found else Inr s))"

fun adjust_info_loop :: "nat \<Rightarrow> entry list \<Rightarrow> by_weight \<Rightarrow> by_weight result" where
  "adjust_info_loop i [] s = Inr s"
| "adjust_info_loop i (e # es) s = bindr (adjust_info1 i (en_key e) s) (adjust_info_loop (i + 1) es)"

definition info_resize :: "nat \<Rightarrow> 'a option list \<Rightarrow> 'a option list" where
  "info_resize n xs = take n xs @ replicate (n - length xs) None"

definition adjust_info :: "entry list \<Rightarrow> by_weight \<Rightarrow> by_weight result" where
  "adjust_info aState s =
     adjust_info_loop 0 aState
       (if length (bw_Info s) \<noteq> length aState then s\<lparr>bw_Info := info_resize (length aState) (bw_Info s)\<rparr> else s)"

fun adjust_weights :: "bal_params \<Rightarrow> nat \<Rightarrow> entry list \<Rightarrow> by_weight \<Rightarrow> (entry list \<times> by_weight) result" where
  "adjust_weights P i [] s = Inr ([], s)"
| "adjust_weights P i (e # es) s =
     bindr (info_at i s) (\<lambda>p.
       let (e, p) = adjust_weight P e p
       in bindr (adjust_weights P (i + 1) es (set_info i p s)) (\<lambda>(es, s). Inr (e # es, s)))"

text \<open>A loop over \<open>m_Peers\<close> that changes the object of each position.\<close>

fun for_info :: "(entry \<Rightarrow> peer_info \<Rightarrow> peer_info) \<Rightarrow> nat \<Rightarrow> entry list \<Rightarrow> by_weight \<Rightarrow> by_weight result" where
  "for_info f i [] s = Inr s"
| "for_info f i (e # es) s = bindr (on_info i (f e) s) (for_info f (i + 1) es)"

definition cap_budget :: "entry \<Rightarrow> peer_info \<Rightarrow> peer_info" where
  "cap_budget e p = (if en_weight e < pi_Budget p then p\<lparr>pi_Budget := en_weight e\<rparr> else p)"

definition build_ring :: "(byte list \<Rightarrow> u64) \<Rightarrow> (u32 \<Rightarrow> u64 \<Rightarrow> u64) \<Rightarrow> entry list \<Rightarrow> hash_ring" where
  "build_ring hash_name hash_seed aPeers =
     ring_prepare
       (fold (\<lambda>i r. ring_insert hash_name hash_seed (en_key (aPeers ! i)) (of_nat i) (of_nat i) 10 r)
          [0..<length aPeers] [])"

text \<open>The loop over the statistics: sum of the requests, sum of the weights, and the step.\<close>

definition stat_step :: "entry \<Rightarrow> double \<times> double \<times> double \<Rightarrow> double \<times> double \<times> double" where
  "stat_step x = (\<lambda>(rps, total_weight, min_weight).
     (rps + en_rps x, total_weight + en_weight x,
      if 0 < min_weight then min min_weight (en_weight x) else en_weight x))"

definition bw_update :: "(byte list \<Rightarrow> u64) \<Rightarrow> (u32 \<Rightarrow> u64 \<Rightarrow> u64) \<Rightarrow> bal_params \<Rightarrow> entry list \<Rightarrow> by_weight \<Rightarrow> by_weight result" where
  "bw_update hash_name hash_seed P aState s =
     (let s = s\<lparr>bw_Peers := []\<rparr>; aState = sort_key en_key aState
      in bindr (adjust_info aState s) (\<lambda>s.
         bindr (adjust_weights P 0 aState s) (\<lambda>(aPeers, s).
         let s = s\<lparr>bw_Peers := aPeers\<rparr>
         in bindr (for_info cap_budget 0 aPeers s) (\<lambda>s.
            let s = s\<lparr>bw_Ring := build_ring hash_name hash_seed aPeers\<rparr>;
                (rps, total_weight, min_weight) = fold stat_step aPeers (0, 0, 0)
            in Inr (s\<lparr>bw_RPS := rps, bw_TotalWeight := total_weight, bw_Step := min_weight\<rparr>)))))"

section \<open>Picking a peer\<close>

definition add_budget :: "entry \<Rightarrow> peer_info \<Rightarrow> peer_info" where
  "add_budget e p = p\<lparr>pi_Budget := pi_Budget p + en_weight e\<rparr>"

definition rewind :: "by_weight \<Rightarrow> by_weight result" where
  "rewind s = for_info add_budget 0 (bw_Peers s) s"

text \<open>The first of the given positions whose budget covers a step.\<close>

fun scan :: "nat list \<Rightarrow> by_weight \<Rightarrow> nat option result" where
  "scan [] s = Inr None"
| "scan (i # is) s = bindr (info_at i s) (\<lambda>p. if bw_Step s \<le> pi_Budget p then Inr (Some i) else scan is s)"

definition spend :: "nat \<Rightarrow> by_weight \<Rightarrow> by_weight result" where
  "spend sPos s =
     bindr (info_at sPos s) (\<lambda>p.
       if length (bw_Peers s) \<le> sPos then Inl Undefined
       else if pi_Key p \<noteq> en_key (bw_Peers s ! sPos) then Inl AssertFailed
       else Inr (set_info sPos (p\<lparr>pi_Budget := pi_Budget p - bw_Step s\<rparr>) s))"

text \<open>The result of \<open>try_session\<close> is \<open>None\<close> for the \<open>-1\<close> of the code.\<close>

definition try_session :: "u64 \<Rightarrow> by_weight \<Rightarrow> (nat option \<times> by_weight) result" where
  "try_session aSession s =
     bindr (scan [0..<length (bw_Peers s)] s) (\<lambda>b.
     bindr (if b = None then rewind s else Inr s) (\<lambda>s.
     bindr (ring_lookup (bw_Ring s) aSession) (\<lambda>ids.
     bindr (scan (map unat ids) s) (\<lambda>r.
       case r of None \<Rightarrow> Inr (None, s)
       | Some sPos \<Rightarrow> bindr (spend sPos s) (\<lambda>s. Inr (Some sPos, s))))))"

text \<open>The positions in the order of the loop of \<open>random_i\<close>; the sum of the 32-bit indices wraps.\<close>

definition rr_positions :: "by_weight \<Rightarrow> nat list" where
  "rr_positions s = map (\<lambda>i. unat (bw_Pos s + of_nat i) mod length (bw_Peers s)) [0..<length (bw_Peers s)]"

text \<open>The loop of \<open>random_i\<close> runs until a budget covers a step: \<open>None\<close> when it never does.\<close>

partial_function (option) random_i :: "by_weight \<Rightarrow> (nat \<times> by_weight) result option" where
  "random_i s =
     (case scan (rr_positions s) s of
        Inl e \<Rightarrow> Some (Inl e)
      | Inr r \<Rightarrow>
          (case r of
             Some sPos \<Rightarrow> Some (bindr (spend sPos s) (\<lambda>s. Inr (sPos, s\<lparr>bw_Pos := of_nat sPos + 1\<rparr>)))
           | None \<Rightarrow> (case rewind s of Inl e \<Rightarrow> Some (Inl e) | Inr s \<Rightarrow> random_i s)))"

definition allow_second_chance :: "bal_params \<Rightarrow> by_weight \<Rightarrow> bool" where
  "allow_second_chance P s \<longleftrightarrow>
     bp_second_chance P \<and> 1 < length (bw_Peers s) \<and> bw_RPS s / bw_TotalWeight s < 9 / 10"

text \<open>The choice of the first peer in \<open>random\<close>: by the session when there is one and it has budget.\<close>

definition choose_entry :: "u64 option \<Rightarrow> by_weight \<Rightarrow> (nat \<times> bool \<times> by_weight) result option" where
  "choose_entry aSession s =
     (case (if aSession \<noteq> None \<and> 1 < length (bw_Peers s) then try_session (the aSession) s else Inr (None, s)) of
        Inl e \<Rightarrow> Some (Inl e)
      | Inr (Some sPos, s) \<Rightarrow> Some (Inr (sPos, True, s))
      | Inr (None, s) \<Rightarrow> map_option (\<lambda>r. bindr r (\<lambda>(sPos, s). Inr (sPos, False, s))) (random_i s))"

text \<open>\<open>m_Info[i]->test(aNow, aKeepAlive)\<close>.\<close>

definition test_at :: "bal_params \<Rightarrow> time_t \<Rightarrow> bool \<Rightarrow> nat \<Rightarrow> by_weight \<Rightarrow> (bool \<times> by_weight) result" where
  "test_at P aNow aKeepAlive i s =
     bindr (info_at i s) (\<lambda>p. let (b, p) = pi_test P aNow aKeepAlive p in Inr (b, set_info i p s))"

fun test_all :: "bal_params \<Rightarrow> time_t \<Rightarrow> nat list \<Rightarrow> by_weight \<Rightarrow> by_weight result" where
  "test_all P aNow [] s = Inr s"
| "test_all P aNow (i # is) s = bindr (test_at P aNow True i s) (\<lambda>(_, s). test_all P aNow is s)"

definition no_peers :: exn where
  "no_peers = RuntimeError ''SD: no peers available''"

definition blocked :: "byte list \<Rightarrow> exn" where
  "blocked sKey = RuntimeError (''SD: request to '' @ map (\<lambda>b. char_of (unat b)) sKey @ '' blocked by circuit breaker'')"

definition MIN_WEIGHT :: double where
  "MIN_WEIGHT = 1 / 10000000"

text \<open>
  \<open>random\<close> from the moment a peer was chosen. The exceptions of the code leave the state behind;
  \<open>Undefined\<close> and \<open>AssertFailed\<close> do not.
\<close>

type_synonym picked = "(exn + byte list \<times> bool) \<times> by_weight"

definition last_test :: "bal_params \<Rightarrow> time_t \<Rightarrow> nat \<Rightarrow> bool \<Rightarrow> by_weight \<Rightarrow> picked result" where
  "last_test P aNow sEntry sBySession s =
     bindr (test_at P aNow False sEntry s) (\<lambda>(ok, s).
       bindr (info_at sEntry s) (\<lambda>p.
         if ok then Inr (Inr (pi_Key p, sBySession), s)
         else Inr (Inl (blocked (en_key (bw_Peers s ! sEntry))), s)))"

definition bw_random :: "bal_params \<Rightarrow> time_t \<Rightarrow> u64 option \<Rightarrow> by_weight \<Rightarrow> picked result option" where
  "bw_random P aNow aSession s =
     (case (if bw_LastTime s < aNow
            then bindr (test_all P aNow [0..<length (bw_Info s)] s) (\<lambda>s. Inr (s\<lparr>bw_LastTime := aNow\<rparr>))
            else Inr s) of
        Inl e \<Rightarrow> Some (Inl e)
      | Inr s \<Rightarrow>
          if bw_Peers s = [] \<or> bw_TotalWeight s < MIN_WEIGHT then Some (Inr (Inl no_peers, s))
          else case choose_entry aSession s of
            None \<Rightarrow> None
          | Some (Inl e) \<Rightarrow> Some (Inl e)
          | Some (Inr (sEntry, sBySession, s)) \<Rightarrow>
              if allow_second_chance P s
              then case test_at P aNow False sEntry s of
                     Inl e \<Rightarrow> Some (Inl e)
                   | Inr (True, s) \<Rightarrow> Some (bindr (info_at sEntry s) (\<lambda>p. Inr (Inr (pi_Key p, sBySession), s)))
                   | Inr (False, s) \<Rightarrow>
                       map_option (\<lambda>r. bindr r (\<lambda>(sEntry, s). last_test P aNow sEntry False s)) (random_i s)
              else Some (last_test P aNow sEntry sBySession s))"

definition bw_clear :: "by_weight \<Rightarrow> by_weight" where
  "bw_clear s = s\<lparr>bw_Peers := []\<rparr>"

text \<open>A client reports the outcome of a call to the peer it was given.\<close>

definition bw_report :: "bal_params \<Rightarrow> time_t \<Rightarrow> byte list \<Rightarrow> double \<Rightarrow> bool \<Rightarrow> bool \<Rightarrow> by_weight \<Rightarrow> by_weight" where
  "bw_report P aNow sKey aLatency aSuccess aBySession s =
     s\<lparr>bw_Store := (bw_Store s)(sKey := map_option (pi_add P aNow aLatency aSuccess aBySession) (bw_Store s sKey))\<rparr>"

section \<open>Objects and positions\<close>

abbreviation key_at :: "by_weight \<Rightarrow> nat \<Rightarrow> byte list" where
  "key_at s i \<equiv> en_key (bw_Peers s ! i)"

abbreviation weight_at :: "by_weight \<Rightarrow> nat \<Rightarrow> double" where
  "weight_at s i \<equiv> en_weight (bw_Peers s ! i)"

definition budget :: "by_weight \<Rightarrow> byte list \<Rightarrow> double" where
  "budget s k = (case bw_Store s k of None \<Rightarrow> 0 | Some p \<Rightarrow> pi_Budget p)"

definition linked :: "byte list option list \<Rightarrow> entry list \<Rightarrow> (byte list \<rightharpoonup> peer_info) \<Rightarrow> bool" where
  "linked info es st \<longleftrightarrow> info = map (\<lambda>e. Some (en_key e)) es \<and> (\<forall>e \<in> set es. st (en_key e) \<noteq> None)"

lemma linked_keys: "linked info es st \<longleftrightarrow> info = map Some (map en_key es) \<and> (\<forall>k \<in> set (map en_key es). st k \<noteq> None)"
  by (simp add: linked_def o_def)

lemma linked_at:
  assumes "linked (bw_Info s) es (bw_Store s)" and "i < length es"
  obtains p where "info_at i s = Inr p" "bw_Store s (en_key (es ! i)) = Some p"
    "\<And>q. set_info i q s = s\<lparr>bw_Store := (bw_Store s)(en_key (es ! i) \<mapsto> q)\<rparr>"
proof -
  have "bw_Store s (en_key (es ! i)) \<noteq> None" using assms by (auto simp: linked_def simp del: not_None_eq)
  then obtain p where "bw_Store s (en_key (es ! i)) = Some p" by blast
  then show ?thesis using assms by (intro that [of p]) (simp_all add: linked_def info_at_def set_info_def)
qed

lemma linked_upd: "linked info es st \<Longrightarrow> linked info es (st(k \<mapsto> p))"
  by (simp add: linked_def)

text \<open>A loop over all positions changes the objects of the peers, one by one.\<close>

definition upd_store :: "(entry \<Rightarrow> peer_info \<Rightarrow> peer_info) \<Rightarrow> entry list \<Rightarrow> (byte list \<rightharpoonup> peer_info) \<Rightarrow> (byte list \<rightharpoonup> peer_info)" where
  "upd_store f es st k = (case find (\<lambda>e. en_key e = k) es of None \<Rightarrow> st k | Some e \<Rightarrow> map_option (f e) (st k))"

lemma find_key:
  assumes "distinct (map en_key es)" and "e \<in> set es"
  shows "find (\<lambda>x. en_key x = en_key e) es = Some e"
  using assms by (induction es) auto

lemma upd_store_in:
  "distinct (map en_key es) \<Longrightarrow> e \<in> set es \<Longrightarrow> upd_store f es st (en_key e) = map_option (f e) (st (en_key e))"
  by (simp add: upd_store_def find_key)

lemma find_key_None: "k \<notin> en_key ` set es \<Longrightarrow> find (\<lambda>e. en_key e = k) es = None"
  by (auto simp: find_None_iff)

lemma upd_store_out: "k \<notin> en_key ` set es \<Longrightarrow> upd_store f es st k = st k"
  by (simp add: upd_store_def find_key_None)

lemma for_info_upd:
  assumes "linked (bw_Info s) (ds @ es) (bw_Store s)" and "distinct (map en_key es)"
  shows "for_info f (length ds) es s = Inr (s\<lparr>bw_Store := upd_store f es (bw_Store s)\<rparr>)"
  using assms
proof (induction es arbitrary: ds s)
  case Nil
  then show ?case by (simp add: upd_store_def fun_eq_iff)
next
  case (Cons e es)
  obtain p where p: "info_at (length ds) s = Inr p" "bw_Store s (en_key e) = Some p"
    "\<And>q. set_info (length ds) q s = s\<lparr>bw_Store := (bw_Store s)(en_key e \<mapsto> q)\<rparr>"
    using linked_at [OF Cons.prems(1), of "length ds"] by auto
  let ?s = "s\<lparr>bw_Store := (bw_Store s)(en_key e \<mapsto> f e p)\<rparr>"
  have "for_info f (length (ds @ [e])) es ?s = Inr (?s\<lparr>bw_Store := upd_store f es (bw_Store ?s)\<rparr>)"
    using Cons.prems by (intro Cons.IH) (simp_all add: linked_def)
  moreover have "upd_store f es ((bw_Store s)(en_key e \<mapsto> f e p)) = upd_store f (e # es) (bw_Store s)"
    using Cons.prems(2) p(2) find_key_None [of "en_key e" es]
    by (auto simp: fun_eq_iff upd_store_def split: option.splits)
  ultimately show ?case by (simp add: on_info_def p)
qed

section \<open>The invariant\<close>

definition store_ok :: "(byte list \<rightharpoonup> peer_info) \<Rightarrow> bool" where
  "store_ok st \<longleftrightarrow> (\<forall>k p. st k = Some p \<longrightarrow> pi_Key p = k \<and> 0 \<le> pi_Budget p)"

text \<open>
  What every operation keeps: objects are stored under their key and their budgets are not negative,
  no pointer dangles, and when there are peers, the pointers are those of the peers, whose keys
  differ, whose weights are not negative and whose budgets exceed the weight by one step at most.
\<close>

definition bw_ok :: "by_weight \<Rightarrow> bool" where
  "bw_ok s \<longleftrightarrow>
     store_ok (bw_Store s) \<and> (\<forall>x \<in> set (bw_Info s). \<exists>k. x = Some k \<and> bw_Store s k \<noteq> None)
     \<and> unat (bw_Pos s) \<le> 2 ^ 31
     \<and> (bw_Peers s \<noteq> [] \<longrightarrow>
          linked (bw_Info s) (bw_Peers s) (bw_Store s) \<and> distinct (map en_key (bw_Peers s))
          \<and> length (bw_Peers s) < 2 ^ 31 \<and> 0 \<le> bw_Step s
          \<and> bw_TotalWeight s = sum_list (map en_weight (bw_Peers s))
          \<and> (\<forall>e \<in> set (bw_Peers s). 0 \<le> en_weight e \<and> budget s (en_key e) \<le> en_weight e + bw_Step s)
          \<and> bw_Ring s \<noteq> [] \<and> (\<forall>r \<in> set (bw_Ring s). unat (ri_id r) < length (bw_Peers s)))"

lemma bw_okD:
  assumes "bw_ok s" and "bw_Peers s \<noteq> []"
  shows "linked (bw_Info s) (bw_Peers s) (bw_Store s)" "distinct (map en_key (bw_Peers s))"
    "length (bw_Peers s) < 2 ^ 31" "0 \<le> bw_Step s" "bw_TotalWeight s = sum_list (map en_weight (bw_Peers s))"
    "e \<in> set (bw_Peers s) \<Longrightarrow> 0 \<le> en_weight e" "e \<in> set (bw_Peers s) \<Longrightarrow> budget s (en_key e) \<le> en_weight e + bw_Step s"
    "bw_Ring s \<noteq> []" "r \<in> set (bw_Ring s) \<Longrightarrow> unat (ri_id r) < length (bw_Peers s)"
    "store_ok (bw_Store s)" "unat (bw_Pos s) \<le> 2 ^ 31" "length (bw_Info s) = length (bw_Peers s)"
  using assms by (auto simp: bw_ok_def linked_def)

lemma bw_ok_info:
  assumes "bw_ok s" and "bw_Peers s \<noteq> []" and "i < length (bw_Peers s)"
  obtains p where "info_at i s = Inr p" "bw_Store s (key_at s i) = Some p" "pi_Key p = key_at s i"
    "pi_Budget p = budget s (key_at s i)" "0 \<le> pi_Budget p"
    "\<And>q. set_info i q s = s\<lparr>bw_Store := (bw_Store s)(key_at s i \<mapsto> q)\<rparr>"
proof -
  obtain p where p: "info_at i s = Inr p" "bw_Store s (key_at s i) = Some p"
    "\<And>q. set_info i q s = s\<lparr>bw_Store := (bw_Store s)(key_at s i \<mapsto> q)\<rparr>"
    by (rule linked_at [OF bw_okD(1) [OF assms(1,2)] assms(3)]) blast
  moreover have "pi_Key p = key_at s i" "0 \<le> pi_Budget p" using bw_okD(10) [OF assms(1,2)] p(2) by (auto simp: store_ok_def)
  ultimately show ?thesis by (intro that [of p]) (simp_all add: budget_def)
qed

lemma key_at_inj:
  "distinct (map en_key (bw_Peers s)) \<Longrightarrow> i < length (bw_Peers s) \<Longrightarrow> j < length (bw_Peers s)
    \<Longrightarrow> key_at s i = key_at s j \<longleftrightarrow> i = j"
  by (simp add: distinct_conv_nth) blast

lemma budget_nonneg: "bw_ok s \<Longrightarrow> 0 \<le> budget s k"
  by (auto simp: bw_ok_def store_ok_def budget_def split: option.splits)

text \<open>Steps that leave everything but the budgets and the position as it is.\<close>

definition same_but_budgets :: "by_weight \<Rightarrow> by_weight \<Rightarrow> bool" where
  "same_but_budgets s t \<longleftrightarrow>
     (\<exists>b pos. t = s\<lparr>bw_Store := (\<lambda>k. map_option (\<lambda>p. p\<lparr>pi_Budget := b k\<rparr>) (bw_Store s k)), bw_Pos := pos\<rparr>)"

lemma same_but_budgets_refl: "same_but_budgets s s"
  unfolding same_but_budgets_def
  by (rule exI [of _ "budget s"], rule exI [of _ "bw_Pos s"])
    (auto intro!: by_weight.equality simp: budget_def fun_eq_iff split: option.splits)

lemma same_but_budgets_trans: "same_but_budgets s t \<Longrightarrow> same_but_budgets t u \<Longrightarrow> same_but_budgets s u"
  unfolding same_but_budgets_def by (auto simp: option.map_comp o_def) blast

lemma same_but_budgetsD:
  assumes "same_but_budgets s t"
  shows "bw_Peers t = bw_Peers s" "bw_Info t = bw_Info s" "bw_Step t = bw_Step s" "bw_TotalWeight t = bw_TotalWeight s"
    "bw_RPS t = bw_RPS s" "bw_LastTime t = bw_LastTime s" "bw_Ring t = bw_Ring s"
    "(bw_Store t k = None) = (bw_Store s k = None)"
    "linked info es (bw_Store t) = linked info es (bw_Store s)"
  using assms by (auto simp: same_but_budgets_def linked_def)

lemma same_but_budgets_ok:
  assumes "bw_ok s" and "bw_Peers s \<noteq> []" and "same_but_budgets s t" and "unat (bw_Pos t) \<le> 2 ^ 31"
    and "\<And>k. 0 \<le> budget t k"
    and "\<And>e. e \<in> set (bw_Peers s) \<Longrightarrow> budget t (en_key e) \<le> en_weight e + bw_Step s"
  shows "bw_ok t"
proof -
  note d = same_but_budgetsD [OF assms(3)]
  have "pi_Key p = k \<and> 0 \<le> pi_Budget p" if "bw_Store t k = Some p" for k p
  proof -
    have "0 \<le> pi_Budget p" using assms(5) [of k] that by (simp add: budget_def)
    moreover have "pi_Key p = k"
      using that assms(3) bw_okD(10) [OF assms(1,2)] by (auto simp: same_but_budgets_def store_ok_def)
    ultimately show ?thesis by simp
  qed
  then show ?thesis
    using assms(1,2,4,6) unfolding bw_ok_def d store_ok_def by simp
qed

section \<open>Scanning, spending and rewinding\<close>

lemma scan_find:
  assumes "bw_ok s" and "bw_Peers s \<noteq> []" and "\<forall>i \<in> set is. i < length (bw_Peers s)"
  shows "scan is s = Inr (find (\<lambda>i. bw_Step s \<le> budget s (key_at s i)) is)"
  using assms(3)
proof (induction "is")
  case (Cons i "is")
  have "i < length (bw_Peers s)" using Cons.prems by simp
  then obtain p where "info_at i s = Inr p" "pi_Budget p = budget s (key_at s i)"
    by (rule bw_ok_info [OF assms(1,2)]) blast
  then show ?case using Cons by simp
qed simp

lemma budget_upd: "budget (s\<lparr>bw_Store := (bw_Store s)(k \<mapsto> p)\<rparr>) k' = (if k' = k then pi_Budget p else budget s k')"
  by (simp add: budget_def)

lemma spend_spec:
  assumes ok: "bw_ok s" "bw_Peers s \<noteq> []" and i: "i < length (bw_Peers s)" and b: "bw_Step s \<le> budget s (key_at s i)"
  obtains t where "spend i s = Inr t" "bw_ok t" "same_but_budgets s t" "bw_Pos t = bw_Pos s"
    "\<And>j. j < length (bw_Peers s) \<Longrightarrow> budget t (key_at s j) = budget s (key_at s j) - (if j = i then bw_Step s else 0)"
proof -
  obtain p where p: "info_at i s = Inr p" "bw_Store s (key_at s i) = Some p" "pi_Key p = key_at s i"
    "pi_Budget p = budget s (key_at s i)" "\<And>q. set_info i q s = s\<lparr>bw_Store := (bw_Store s)(key_at s i \<mapsto> q)\<rparr>"
    by (rule bw_ok_info [OF ok i]) blast
  let ?q = "p\<lparr>pi_Budget := pi_Budget p - bw_Step s\<rparr>"
  let ?t = "s\<lparr>bw_Store := (bw_Store s)(key_at s i \<mapsto> ?q)\<rparr>"
  have sb: "same_but_budgets s ?t" unfolding same_but_budgets_def
    by (rule exI [of _ "budget ?t"], rule exI [of _ "bw_Pos s"])
      (auto intro!: by_weight.equality simp: budget_def fun_eq_iff p(2) split: option.splits)
  have le: "budget ?t k \<le> budget s k" for k using p(2,4) bw_okD(4) [OF ok] by (simp add: budget_upd)
  have "bw_ok ?t"
  proof (rule same_but_budgets_ok [OF ok sb])
    show "0 \<le> budget ?t k" for k using b p(4) budget_nonneg [OF ok(1)] by (simp add: budget_upd)
    show "budget ?t (en_key e) \<le> en_weight e + bw_Step s" if "e \<in> set (bw_Peers s)" for e
      using le bw_okD(7) [OF ok that] by (rule order_trans)
    show "unat (bw_Pos ?t) \<le> 2 ^ 31" using bw_okD(11) [OF ok] by simp
  qed
  moreover have "spend i s = Inr ?t" using i p by (simp add: spend_def)
  moreover have "budget ?t (key_at s j) = budget s (key_at s j) - (if j = i then bw_Step s else 0)"
    if "j < length (bw_Peers s)" for j
    using key_at_inj [OF bw_okD(2) [OF ok] that i] p(4) by (simp add: budget_upd)
  ultimately show ?thesis using sb by (intro that [of ?t]) simp_all
qed

definition rewound :: "by_weight \<Rightarrow> nat \<Rightarrow> by_weight \<Rightarrow> bool" where
  "rewound s r t \<longleftrightarrow> bw_ok t \<and> same_but_budgets s t
     \<and> (\<forall>j < length (bw_Peers s). budget t (key_at s j) = budget s (key_at s j) + of_nat r * weight_at s j)"

lemma rewind_spec:
  assumes ok: "bw_ok s" "bw_Peers s \<noteq> []"
    and low: "\<And>i. i < length (bw_Peers s) \<Longrightarrow> budget s (key_at s i) < bw_Step s"
  shows "\<exists>t. rewind s = Inr t \<and> rewound s 1 t"
proof -
  note d = bw_okD [OF ok]
  let ?st = "upd_store add_budget (bw_Peers s) (bw_Store s)"
  let ?t = "s\<lparr>bw_Store := ?st\<rparr>"
  have r: "rewind s = Inr ?t" using for_info_upd [of s "[]" "bw_Peers s" add_budget] d(1,2) by (simp add: rewind_def)
  have st: "?st k = map_option (\<lambda>p. p\<lparr>pi_Budget := budget ?t k\<rparr>) (bw_Store s k)" for k
    by (auto simp: budget_def upd_store_def add_budget_def split: option.splits)
  have sb: "same_but_budgets s ?t" unfolding same_but_budgets_def
    by (rule exI [of _ "budget ?t"], rule exI [of _ "bw_Pos s"]) (auto intro!: by_weight.equality simp: fun_eq_iff st)
  have b: "budget ?t (en_key e) = budget s (en_key e) + en_weight e" if "e \<in> set (bw_Peers s)" for e
  proof -
    have "bw_Store s (en_key e) \<noteq> None" using d(1) that by (simp add: linked_def)
    then obtain p where "bw_Store s (en_key e) = Some p" by blast
    then show ?thesis using upd_store_in [OF d(2) that] by (simp add: budget_def add_budget_def)
  qed
  have "bw_ok ?t"
  proof (rule same_but_budgets_ok [OF ok sb])
    show "0 \<le> budget ?t k" for k
    proof (cases "k \<in> en_key ` set (bw_Peers s)")
      case True
      then obtain e where "e \<in> set (bw_Peers s)" "k = en_key e" by blast
      then show ?thesis using b d(6) budget_nonneg [OF ok(1), of k] by simp
    next
      case False
      then show ?thesis using upd_store_out [of k "bw_Peers s"] budget_nonneg [OF ok(1), of k] by (simp add: budget_def)
    qed
    show "budget ?t (en_key e) \<le> en_weight e + bw_Step s" if "e \<in> set (bw_Peers s)" for e
      using b [OF that] low that by (auto simp: in_set_conv_nth less_imp_le)
    show "unat (bw_Pos ?t) \<le> 2 ^ 31" using d(11) by simp
  qed
  then show ?thesis using sb r b by (auto simp: rewound_def)
qed

section \<open>The loop of the round robin\<close>

lemma rr_positions_set:
  assumes "bw_ok s" and "bw_Peers s \<noteq> []"
  shows "set (rr_positions s) = {..<length (bw_Peers s)}"
proof -
  let ?n = "length (bw_Peers s)"
  have n: "0 < ?n" "?n < 2 ^ 31" "unat (bw_Pos s) \<le> 2 ^ 31" using bw_okD [OF assms] assms(2) by simp_all
  have u: "unat (bw_Pos s + of_nat i) = unat (bw_Pos s) + i" if "i < ?n" for i
    using n that by (simp add: unat_word_ariths unat_of_nat)
  have "(\<lambda>i. (unat (bw_Pos s) + i) mod ?n) ` {..<?n} = {..<?n}"
  proof (intro equalityI subsetI)
    fix j assume "j \<in> {..<?n}"
    then have j: "j < ?n" by simp
    define i where "i = (j + ?n - unat (bw_Pos s) mod ?n) mod ?n"
    have le: "unat (bw_Pos s) mod ?n \<le> j + ?n" by (rule trans_le_add2 [OF less_imp_le [OF mod_less_divisor [OF n(1)]]])
    have "(unat (bw_Pos s) + i) mod ?n = (unat (bw_Pos s) mod ?n + (j + ?n - unat (bw_Pos s) mod ?n)) mod ?n"
      unfolding i_def by (metis mod_add_left_eq mod_add_right_eq)
    also have "\<dots> = j" using le j by simp
    finally have "(unat (bw_Pos s) + i) mod ?n = j" .
    moreover have "i < ?n" using n(1) by (simp add: i_def)
    ultimately show "j \<in> (\<lambda>i. (unat (bw_Pos s) + i) mod ?n) ` {..<?n}" by (intro image_eqI [of _ _ i]) simp_all
  qed (use n in auto)
  moreover have "set (rr_positions s) = (\<lambda>i. (unat (bw_Pos s) + i) mod ?n) ` {..<?n}"
    using u by (auto simp: rr_positions_def atLeast0LessThan intro!: image_cong)
  ultimately show ?thesis by simp
qed

text \<open>What one pick does: some number of rewinds, then one step spent at the position returned.\<close>

definition spent_at :: "by_weight \<Rightarrow> nat \<Rightarrow> nat \<Rightarrow> by_weight \<Rightarrow> bool" where
  "spent_at s r i t \<longleftrightarrow> bw_ok t \<and> same_but_budgets s t \<and> i < length (bw_Peers s)
     \<and> (\<forall>j < length (bw_Peers s). budget t (key_at s j)
          = budget s (key_at s j) + of_nat r * weight_at s j - (if j = i then bw_Step s else 0))"

lemma spent_at_trans:
  assumes "rewound s q t" and "spent_at t r i u"
  shows "spent_at s (q + r) i u"
proof -
  have t: "same_but_budgets s t"
    "\<forall>j < length (bw_Peers s). budget t (key_at s j) = budget s (key_at s j) + of_nat q * weight_at s j"
    using assms(1) by (simp_all add: rewound_def)
  note d = same_but_budgetsD [OF t(1)]
  have u: "bw_ok u" "same_but_budgets t u" "i < length (bw_Peers s)"
    "\<And>j. j < length (bw_Peers s) \<Longrightarrow> budget u (key_at s j)
      = budget t (key_at s j) + of_nat r * weight_at s j - (if j = i then bw_Step s else 0)"
    using assms(2) by (simp_all add: spent_at_def d)
  then show ?thesis
    using same_but_budgets_trans [OF t(1) u(2)] t(2) by (simp add: spent_at_def algebra_simps)
qed

lemma random_i_scan:
  assumes "bw_ok s" and "bw_Peers s \<noteq> []"
  shows "scan (rr_positions s) s = Inr (find (\<lambda>i. bw_Step s \<le> budget s (key_at s i)) (rr_positions s))"
  using rr_positions_set [OF assms] by (intro scan_find [OF assms]) auto

lemma random_i_found:
  assumes ok: "bw_ok s" "bw_Peers s \<noteq> []" and f: "find (\<lambda>i. bw_Step s \<le> budget s (key_at s i)) (rr_positions s) = Some i"
  shows "\<exists>t. random_i s = Some (Inr (i, t)) \<and> spent_at s 0 i t"
proof -
  have i: "i < length (bw_Peers s)" and b: "bw_Step s \<le> budget s (key_at s i)"
    using f rr_positions_set [OF ok] by (auto simp: find_Some_iff)
  obtain t where t: "spend i s = Inr t" "bw_ok t" "same_but_budgets s t" "bw_Pos t = bw_Pos s"
    "\<And>j. j < length (bw_Peers s) \<Longrightarrow> budget t (key_at s j) = budget s (key_at s j) - (if j = i then bw_Step s else 0)"
    by (rule spend_spec [OF ok i b]) blast
  let ?t = "t\<lparr>bw_Pos := of_nat i + 1\<rparr>"
  have "unat (of_nat i + 1 :: u32) = i + 1" using i bw_okD(3) [OF ok] by (simp add: unat_word_ariths unat_of_nat)
  then have p: "unat (bw_Pos ?t) \<le> 2 ^ 31" using i bw_okD(3) [OF ok] by simp
  have bt: "budget ?t k = budget t k" for k by (simp add: budget_def)
  have sb: "same_but_budgets s ?t" using t(3) by (auto simp: same_but_budgets_def) blast
  have "bw_ok ?t"
    using budget_nonneg [OF t(2)] bw_okD(7) [OF t(2)] same_but_budgetsD [OF t(3)] ok(2) p
    by (intro same_but_budgets_ok [OF ok sb]) (simp_all add: bt)
  moreover have "random_i s = Some (Inr (i, ?t))" by (subst random_i.simps) (simp add: random_i_scan [OF ok] f t(1))
  ultimately show ?thesis using sb i t(5) by (auto simp: spent_at_def bt)
qed

lemma random_i_spec:
  assumes "bw_ok s" and "bw_Peers s \<noteq> []" and "j < length (bw_Peers s)"
    and "bw_Step s \<le> budget s (key_at s j) + of_nat n * weight_at s j"
  shows "\<exists>r i t. random_i s = Some (Inr (i, t)) \<and> spent_at s r i t"
  using assms
proof (induction n arbitrary: s)
  case 0
  have "\<exists>i. find (\<lambda>i. bw_Step s \<le> budget s (key_at s i)) (rr_positions s) = Some i"
    using 0(3,4) rr_positions_set [OF 0(1,2)] by (auto simp: find_None_iff simp flip: not_None_eq)
  then show ?case using random_i_found [OF 0(1,2)] by blast
next
  case (Suc n)
  note ok = Suc.prems(1,2)
  show ?case
  proof (cases "find (\<lambda>i. bw_Step s \<le> budget s (key_at s i)) (rr_positions s)")
    case (Some i)
    then show ?thesis using random_i_found [OF ok] by blast
  next
    case None
    then have low: "budget s (key_at s i) < bw_Step s" if "i < length (bw_Peers s)" for i
      using that rr_positions_set [OF ok] by (auto simp: find_None_iff not_le)
    obtain t where t: "rewind s = Inr t" "rewound s 1 t" using rewind_spec [OF ok low] by blast
    then have t2: "bw_ok t" "same_but_budgets s t"
      "\<forall>j < length (bw_Peers s). budget t (key_at s j) = budget s (key_at s j) + weight_at s j"
      by (simp_all add: rewound_def)
    note d = same_but_budgetsD [OF t2(2)]
    have "\<exists>r i u. random_i t = Some (Inr (i, u)) \<and> spent_at t r i u"
      using Suc.prems(2-4) t2(3) by (intro Suc.IH t2(1)) (simp_all add: d algebra_simps)
    moreover have "random_i s = random_i t"
      by (subst random_i.simps) (simp add: random_i_scan [OF ok] None t(1))
    ultimately show ?thesis using spent_at_trans [OF t(2)] by fastforce
  qed
qed

lemma random_i_total:
  assumes ok: "bw_ok s" "bw_Peers s \<noteq> []" and w: "0 < bw_TotalWeight s"
  shows "\<exists>r i t. random_i s = Some (Inr (i, t)) \<and> spent_at s r i t"
proof -
  have "\<exists>e \<in> set (bw_Peers s). 0 < en_weight e"
  proof (rule ccontr)
    assume "\<not> (\<exists>e \<in> set (bw_Peers s). 0 < en_weight e)"
    then have "sum_list (map en_weight (bw_Peers s)) \<le> 0" by (intro sum_list_nonpos) (auto simp: not_less)
    then show False using w bw_okD(5) [OF ok] by simp
  qed
  then obtain j where j: "j < length (bw_Peers s)" "0 < weight_at s j" by (auto simp: in_set_conv_nth)
  obtain n where "(bw_Step s - budget s (key_at s j)) / weight_at s j \<le> of_nat n" by (meson reals_Archimedean2 less_imp_le)
  then have "bw_Step s - budget s (key_at s j) \<le> of_nat n * weight_at s j"
    using j(2) by (simp add: pos_divide_le_eq)
  then show ?thesis by (intro random_i_spec [OF ok j(1), of n]) simp
qed

section \<open>Choosing a peer\<close>

lemma ring_lookup_ids:
  assumes "bw_ok s" and "bw_Peers s \<noteq> []"
  shows "\<exists>ids. ring_lookup (bw_Ring s) h = Inr ids \<and> (\<forall>i \<in> set ids. unat i < length (bw_Peers s))"
proof -
  have "bw_Ring s \<noteq> []" using bw_okD(8) [OF assms] .
  moreover have "lower_bound h (bw_Ring s) \<le> length (bw_Ring s)" by (simp add: lower_bound_def length_takeWhile_le)
  ultimately have "0 < STEPS \<longrightarrow> (\<exists>fs :: ring_info list. ring_lookup (bw_Ring s) h = Inr (map ri_id fs) \<and> set fs \<subseteq> set (bw_Ring s))"
    using ring_steps_nil [of "bw_Ring s" "lower_bound h (bw_Ring s)" STEPS] unfolding ring_lookup_def by blast
  then obtain fs :: "ring_info list" where "ring_lookup (bw_Ring s) h = Inr (map ri_id fs)" "set fs \<subseteq> set (bw_Ring s)"
    by (auto simp: STEPS_def)
  then show ?thesis using bw_okD(9) [OF assms] by (intro exI [of _ "map ri_id fs"]) auto
qed

lemma session_rewind:
  assumes ok: "bw_ok s" "bw_Peers s \<noteq> []"
  shows "\<exists>r t. bindr (scan [0..<length (bw_Peers s)] s) (\<lambda>b. if b = None then rewind s else Inr s) = Inr t \<and> rewound s r t"
proof -
  let ?f = "find (\<lambda>i. bw_Step s \<le> budget s (key_at s i)) [0..<length (bw_Peers s)]"
  have sc: "scan [0..<length (bw_Peers s)] s = Inr ?f" by (intro scan_find [OF ok]) simp
  show ?thesis
  proof (cases "?f = None")
    case True
    then have "budget s (key_at s i) < bw_Step s" if "i < length (bw_Peers s)" for i
      using that by (auto simp: find_None_iff not_le)
    from rewind_spec [OF ok this] show ?thesis using True by (auto simp: sc)
  next
    case False
    have "rewound s 0 s" using ok(1) same_but_budgets_refl by (simp add: rewound_def)
    then show ?thesis using False by (intro exI [of _ 0] exI [of _ s]) (auto simp: sc)
  qed
qed

lemma try_session_spec:
  assumes ok: "bw_ok s" "bw_Peers s \<noteq> []"
  shows "(\<exists>r i t. try_session h s = Inr (Some i, t) \<and> spent_at s r i t) \<or> (\<exists>r t. try_session h s = Inr (None, t) \<and> rewound s r t)"
proof -
  obtain r t where t: "bindr (scan [0..<length (bw_Peers s)] s) (\<lambda>b. if b = None then rewind s else Inr s) = Inr t" "rewound s r t"
    using session_rewind [OF ok] by blast
  have sb: "bw_ok t" "same_but_budgets s t" using t(2) by (simp_all add: rewound_def)
  note d = same_but_budgetsD [OF sb(2)]
  have ne: "bw_Peers t \<noteq> []" using ok(2) d by simp
  obtain ids where ids: "ring_lookup (bw_Ring t) h = Inr ids" "\<forall>i \<in> set ids. unat i < length (bw_Peers t)"
    using ring_lookup_ids [OF sb(1) ne] by blast
  let ?f = "find (\<lambda>i. bw_Step t \<le> budget t (key_at t i)) (map unat ids)"
  have sc: "scan (map unat ids) t = Inr ?f" using ids(2) by (intro scan_find [OF sb(1) ne]) auto
  have ts: "try_session h s = (case ?f of None \<Rightarrow> Inr (None, t) | Some i \<Rightarrow> bindr (spend i t) (\<lambda>s. Inr (Some i, s)))"
    using t(1) by (auto simp: try_session_def bindr_eq_Inr ids(1) sc cong: option.case_cong)
  show ?thesis
  proof (cases ?f)
    case None
    then show ?thesis using ts t(2) by auto
  next
    case (Some i)
    then have i: "i < length (bw_Peers t)" "bw_Step t \<le> budget t (key_at t i)"
      using ids(2) by (auto simp: find_Some_iff)
    obtain u where u: "spend i t = Inr u" "bw_ok u" "same_but_budgets t u" "bw_Pos u = bw_Pos t"
      "\<And>j. j < length (bw_Peers t) \<Longrightarrow> budget u (key_at t j) = budget t (key_at t j) - (if j = i then bw_Step t else 0)"
      by (rule spend_spec [OF sb(1) ne i]) blast
    then have "spent_at t 0 i u" using i(1) by (simp add: spent_at_def)
    from spent_at_trans [OF t(2) this] show ?thesis using ts Some u(1) by auto
  qed
qed

lemma choose_entry_spec:
  assumes ok: "bw_ok s" "bw_Peers s \<noteq> []" and w: "0 < bw_TotalWeight s"
  shows "\<exists>r i b t. choose_entry h s = Some (Inr (i, b, t)) \<and> spent_at s r i t"
proof -
  let ?c = "if h \<noteq> None \<and> 1 < length (bw_Peers s) then try_session (the h) s else Inr (None, s)"
  have "rewound s 0 s" using ok(1) same_but_budgets_refl by (simp add: rewound_def)
  then have "(\<exists>r i t. ?c = Inr (Some i, t) \<and> spent_at s r i t) \<or> (\<exists>r t. ?c = Inr (None, t) \<and> rewound s r t)"
    using try_session_spec [OF ok, of "the h"] by auto
  then show ?thesis
  proof (elim disjE exE conjE)
    fix r i t assume "?c = Inr (Some i, t)" "spent_at s r i t"
    then show ?thesis unfolding choose_entry_def by auto
  next
    fix q t assume c: "?c = Inr (None, t)" and t: "rewound s q t"
    then have sb: "bw_ok t" "same_but_budgets s t" by (simp_all add: rewound_def)
    obtain r i u where "random_i t = Some (Inr (i, u))" "spent_at t r i u"
      using random_i_total [OF sb(1)] same_but_budgetsD [OF sb(2)] ok(2) w by auto
    then show ?thesis using c spent_at_trans [OF t] unfolding choose_entry_def by fastforce
  qed
qed

section \<open>Tests and reports\<close>

text \<open>Steps that leave everything but the statistics as it is.\<close>

definition same_but_stats :: "by_weight \<Rightarrow> by_weight \<Rightarrow> bool" where
  "same_but_stats s t \<longleftrightarrow> (\<exists>st lt. t = s\<lparr>bw_Store := st, bw_LastTime := lt\<rparr>)
     \<and> (\<forall>k. rel_option (\<lambda>p q. pi_Key q = pi_Key p \<and> pi_Budget q = pi_Budget p) (bw_Store s k) (bw_Store t k))"

lemma same_but_statsD:
  assumes "same_but_stats s t"
  shows "bw_Peers t = bw_Peers s" "bw_Info t = bw_Info s" "bw_Step t = bw_Step s" "bw_TotalWeight t = bw_TotalWeight s"
    "bw_RPS t = bw_RPS s" "bw_Pos t = bw_Pos s" "bw_Ring t = bw_Ring s"
  using assms by (auto simp: same_but_stats_def)

lemma same_but_stats_at:
  "same_but_stats s t \<Longrightarrow> rel_option (\<lambda>p q. pi_Key q = pi_Key p \<and> pi_Budget q = pi_Budget p) (bw_Store s k) (bw_Store t k)"
  by (simp add: same_but_stats_def)

lemma same_but_stats_budget: "same_but_stats s t \<Longrightarrow> budget t k = budget s k"
  using same_but_stats_at [of s t k] by (auto simp: budget_def elim: option.rel_cases)

lemma same_but_stats_store: "same_but_stats s t \<Longrightarrow> bw_Store t k = None \<longleftrightarrow> bw_Store s k = None"
  using same_but_stats_at [of s t k] by (auto elim: option.rel_cases)

lemma same_but_stats_ok:
  assumes "bw_ok s" and "same_but_stats s t"
  shows "bw_ok t"
proof -
  note d = same_but_statsD [OF assms(2)]
  have "linked info es (bw_Store t) = linked info es (bw_Store s)" for info es
    unfolding linked_def same_but_stats_store [OF assms(2)] ..
  moreover have "store_ok (bw_Store t)" unfolding store_ok_def
  proof (intro allI impI)
    fix k p assume "bw_Store t k = Some p"
    then show "pi_Key p = k \<and> 0 \<le> pi_Budget p"
      using same_but_stats_at [OF assms(2), of k] assms(1) by (auto simp: bw_ok_def store_ok_def elim: option.rel_cases)
  qed
  ultimately show ?thesis
    using assms(1) unfolding bw_ok_def d same_but_stats_budget [OF assms(2)] same_but_stats_store [OF assms(2)] by simp
qed

lemma same_but_stats_store_upd:
  "rel_option (\<lambda>p q. pi_Key q = pi_Key p \<and> pi_Budget q = pi_Budget p) (bw_Store s k) x
    \<Longrightarrow> same_but_stats s (s\<lparr>bw_Store := (bw_Store s)(k := x)\<rparr>)"
  unfolding same_but_stats_def
  by (intro conjI exI [of _ "(bw_Store s)(k := x)"] exI [of _ "bw_LastTime s"]) (simp_all add: option.rel_refl)

lemma same_but_stats_refl: "same_but_stats s s"
  using same_but_stats_store_upd [of s undefined "bw_Store s undefined"] by (simp add: option.rel_refl)

lemma same_but_stats_trans:
  assumes "same_but_stats s t" and "same_but_stats t u"
  shows "same_but_stats s u"
proof -
  have "rel_option (\<lambda>p q. pi_Key q = pi_Key p \<and> pi_Budget q = pi_Budget p) (bw_Store s k) (bw_Store u k)" for k
    using same_but_stats_at [OF assms(1), of k] same_but_stats_at [OF assms(2), of k] by (auto elim!: option.rel_cases)
  moreover have "\<exists>st lt. u = s\<lparr>bw_Store := st, bw_LastTime := lt\<rparr>"
    using assms by (auto simp: same_but_stats_def) blast
  ultimately show ?thesis by (simp add: same_but_stats_def)
qed

lemma pi_test_frame:
  "pi_Key (snd (pi_test P t ka p)) = pi_Key p" "pi_Budget (snd (pi_test P t ka p)) = pi_Budget p"
  "fst (pi_test P t ka p) \<longleftrightarrow> \<not> is_close (snd (pi_test P t ka p))"
  by (simp_all add: pi_test_def pi_prepare_def Let_def)

lemma pi_add_frame:
  "pi_Key (pi_add P t l b y p) = pi_Key p" "pi_Budget (pi_add P t l b y p) = pi_Budget p"
  by (simp_all add: pi_add_def pi_prepare_def Let_def)

lemma test_at_spec:
  assumes ok: "bw_ok s" and i: "i < length (bw_Info s)"
  shows "\<exists>k p t. bw_Info s ! i = Some k \<and> test_at P aNow ka i s = Inr (\<not> is_close p, t) \<and> same_but_stats s t
    \<and> info_at i t = Inr p \<and> bw_Store t k = Some p \<and> pi_Key p = k"
proof -
  have "\<exists>k. bw_Info s ! i = Some k \<and> bw_Store s k \<noteq> None" using ok nth_mem [OF i] unfolding bw_ok_def by blast
  then obtain k p where k: "bw_Info s ! i = Some k" "bw_Store s k = Some p" by blast
  let ?q = "snd (pi_test P aNow ka p)"
  let ?t = "s\<lparr>bw_Store := (bw_Store s)(k \<mapsto> ?q)\<rparr>"
  have "same_but_stats s ?t"
    using k(2) by (intro same_but_stats_store_upd) (simp add: pi_test_frame)
  moreover have "test_at P aNow ka i s = Inr (\<not> is_close ?q, ?t)"
    using k i pi_test_frame(3) [of P aNow ka p]
    by (cases "pi_test P aNow ka p") (simp add: test_at_def info_at_def set_info_def)
  moreover have "pi_Key ?q = k" using ok k(2) by (simp add: bw_ok_def store_ok_def pi_test_frame)
  ultimately show ?thesis using k i by (intro exI [of _ k] exI [of _ ?q] exI [of _ ?t]) (simp add: info_at_def)
qed

lemma test_all_spec:
  assumes "bw_ok s" and "\<forall>i \<in> set is. i < length (bw_Info s)"
  shows "\<exists>t. test_all P aNow is s = Inr t \<and> same_but_stats s t"
  using assms
proof (induction "is" arbitrary: s)
  case Nil
  then show ?case by (simp add: same_but_stats_refl)
next
  case (Cons i "is")
  obtain b t where t: "test_at P aNow True i s = Inr (b, t)" "same_but_stats s t"
    using test_at_spec [OF Cons.prems(1), of i P aNow True] Cons.prems(2) by auto
  have "\<exists>u. test_all P aNow is t = Inr u \<and> same_but_stats t u"
    using Cons.prems(2) by (intro Cons.IH same_but_stats_ok [OF Cons.prems(1) t(2)]) (simp add: same_but_statsD [OF t(2)])
  then show ?case using t same_but_stats_trans [OF t(2)] by auto
qed

section \<open>A call of random\<close>

text \<open>The budgets after some rewinds and the step spent at position \<open>i\<close>; the rest of the list stays.\<close>

definition spends :: "by_weight \<Rightarrow> nat \<Rightarrow> nat \<Rightarrow> by_weight \<Rightarrow> bool" where
  "spends s r i t \<longleftrightarrow> bw_ok t \<and> bw_Peers t = bw_Peers s \<and> bw_Step t = bw_Step s \<and> bw_TotalWeight t = bw_TotalWeight s
     \<and> i < length (bw_Peers s)
     \<and> (\<forall>j < length (bw_Peers s). budget t (key_at s j)
          = budget s (key_at s j) + of_nat r * weight_at s j - (if j = i then bw_Step s else 0))"

lemma spends_stats:
  assumes "same_but_stats s t" and "spent_at t r i u" and "same_but_stats u v"
  shows "spends s r i v"
proof -
  have "same_but_budgets t u" "bw_ok u" "i < length (bw_Peers t)"
    "\<forall>j < length (bw_Peers t). budget u (key_at t j)
          = budget t (key_at t j) + of_nat r * weight_at t j - (if j = i then bw_Step t else 0)"
    using assms(2) by (simp_all add: spent_at_def)
  then show ?thesis
    using same_but_statsD [OF assms(1)] same_but_statsD [OF assms(3)] same_but_budgetsD [of t u]
      same_but_stats_budget [OF assms(1)] same_but_stats_budget [OF assms(3)] same_but_stats_ok [OF _ assms(3)]
    by (simp add: spends_def)
qed

text \<open>The peer of position \<open>i\<close>, let through or blocked by its circuit.\<close>

definition outcome_at :: "by_weight \<Rightarrow> nat \<Rightarrow> exn + byte list \<times> bool \<Rightarrow> bool" where
  "outcome_at s i r \<longleftrightarrow>
     (\<exists>p. bw_Store s (key_at s i) = Some p
        \<and> (if is_close p then r = Inl (blocked (key_at s i)) else \<exists>b. r = Inr (key_at s i, b)))"

lemma last_test_spec:
  assumes ok: "bw_ok s" "bw_Peers s \<noteq> []" and i: "i < length (bw_Peers s)"
  shows "\<exists>r t. last_test P aNow i b s = Inr (r, t) \<and> same_but_stats s t \<and> outcome_at t i r"
proof -
  have "i < length (bw_Info s)" using i bw_okD(12) [OF ok] by simp
  from test_at_spec [OF ok(1) this, of P aNow False]
  obtain k p t where t: "bw_Info s ! i = Some k" "test_at P aNow False i s = Inr (\<not> is_close p, t)" "same_but_stats s t"
    "info_at i t = Inr p" "bw_Store t k = Some p" "pi_Key p = k" by blast
  have k: "k = key_at t i" using t(1) i bw_okD(1) [OF ok] by (simp add: linked_def same_but_statsD [OF t(3)])
  show ?thesis using t k by (auto simp: last_test_def outcome_at_def)
qed

lemma spent_at_peers:
  assumes "spent_at s r i t" and "bw_Peers s \<noteq> []"
  shows "bw_ok t" "bw_Peers t = bw_Peers s" "bw_Peers t \<noteq> []" "i < length (bw_Peers t)" "bw_TotalWeight t = bw_TotalWeight s"
  using assms same_but_budgetsD [of s t] by (simp_all add: spent_at_def)

lemma start_spec:
  assumes "bw_ok s"
  shows "\<exists>t. (if bw_LastTime s < aNow then bindr (test_all P aNow [0..<length (bw_Info s)] s) (\<lambda>s. Inr (s\<lparr>bw_LastTime := aNow\<rparr>))
            else Inr s) = Inr t \<and> same_but_stats s t"
proof -
  obtain t where t: "test_all P aNow [0..<length (bw_Info s)] s = Inr t" "same_but_stats s t"
    using test_all_spec [OF assms, of "[0..<length (bw_Info s)]" P aNow] by auto
  have "same_but_stats t (t\<lparr>bw_LastTime := aNow\<rparr>)"
    unfolding same_but_stats_def by (intro conjI exI [of _ "bw_Store t"] exI [of _ aNow]) (simp_all add: option.rel_refl)
  then show ?thesis using t same_but_stats_trans [OF t(2)] same_but_stats_refl by auto
qed

lemma bw_random_no_peers:
  assumes "bw_ok s" and "bw_Peers s = [] \<or> bw_TotalWeight s < MIN_WEIGHT"
  shows "\<exists>t. bw_random P aNow h s = Some (Inr (Inl no_peers, t)) \<and> same_but_stats s t"
proof -
  obtain t where t: "(if bw_LastTime s < aNow then bindr (test_all P aNow [0..<length (bw_Info s)] s) (\<lambda>s. Inr (s\<lparr>bw_LastTime := aNow\<rparr>))
            else Inr s) = Inr t" "same_but_stats s t" using start_spec [OF assms(1)] by blast
  then show ?thesis using assms(2) same_but_statsD [OF t(2)] unfolding bw_random_def t(1) by auto
qed

lemma bw_random_spec:
  assumes ok: "bw_ok s" and ne: "bw_Peers s \<noteq> []" and w: "MIN_WEIGHT \<le> bw_TotalWeight s"
  shows "\<exists>res t. bw_random P aNow h s = Some (Inr (res, t)) \<and>
    (\<exists>r i. spends s r i t \<and> outcome_at t i res
      \<or> bp_second_chance P \<and> (\<exists>q j u. spends s q j u \<and> spends u r i t \<and> outcome_at t i res))"
proof -
  obtain t where t: "(if bw_LastTime s < aNow then bindr (test_all P aNow [0..<length (bw_Info s)] s) (\<lambda>s. Inr (s\<lparr>bw_LastTime := aNow\<rparr>))
            else Inr s) = Inr t" "same_but_stats s t" using start_spec [OF ok] by blast
  note d = same_but_statsD [OF t(2)]
  have okt: "bw_ok t" "bw_Peers t \<noteq> []" using same_but_stats_ok [OF ok t(2)] ne d by simp_all
  have wt: "0 < bw_TotalWeight t" "\<not> bw_TotalWeight t < MIN_WEIGHT" using w d by (simp_all add: MIN_WEIGHT_def)
  obtain q i b u where u: "choose_entry h t = Some (Inr (i, b, u))" "spent_at t q i u"
    using choose_entry_spec [OF okt wt(1)] by blast
  note pu = spent_at_peers [OF u(2) okt(2)]
  have R: "bw_random P aNow h s = (if allow_second_chance P u
      then case test_at P aNow False i u of
             Inl e \<Rightarrow> Some (Inl e)
           | Inr (True, s) \<Rightarrow> Some (bindr (info_at i s) (\<lambda>p. Inr (Inr (pi_Key p, b), s)))
           | Inr (False, s) \<Rightarrow> map_option (\<lambda>r. bindr r (\<lambda>(sEntry, s). last_test P aNow sEntry False s)) (random_i s)
      else Some (last_test P aNow i b u))"
    unfolding bw_random_def t(1) using okt(2) wt(2) u(1) by simp
  show ?thesis
  proof (cases "allow_second_chance P u")
    case False
    obtain res v where "last_test P aNow i b u = Inr (res, v)" "same_but_stats u v" "outcome_at v i res"
      using last_test_spec [OF pu(1,3,4)] by blast
    moreover from this have "spends s q i v" using spends_stats [OF t(2) u(2)] by blast
    ultimately show ?thesis using R False by auto
  next
    case True
    then have sc: "bp_second_chance P" by (simp add: allow_second_chance_def)
    have "i < length (bw_Info u)" using pu(4) bw_okD(12) [OF pu(1,3)] by simp
    from test_at_spec [OF pu(1) this, of P aNow False]
    obtain k p v where v: "bw_Info u ! i = Some k" "test_at P aNow False i u = Inr (\<not> is_close p, v)" "same_but_stats u v"
      "info_at i v = Inr p" "bw_Store v k = Some p" "pi_Key p = k" by blast
    have k: "k = key_at v i" using v(1) pu(4) bw_okD(1) [OF pu(1,3)] by (simp add: linked_def same_but_statsD [OF v(3)])
    note sp = spends_stats [OF t(2) u(2) v(3)]
    show ?thesis
    proof (cases "is_close p")
      case False
      then have "outcome_at v i (Inr (pi_Key p, b))" using v k by (simp add: outcome_at_def)
      then show ?thesis using R True v False sp by auto
    next
      case closed: True
      have okv: "bw_ok v" "bw_Peers v \<noteq> []" using sp ne by (simp_all add: spends_def)
      have "0 < bw_TotalWeight v" using sp wt d by (simp add: spends_def)
      then obtain r j x where x: "random_i v = Some (Inr (j, x))" "spent_at v r j x"
        using random_i_total [OF okv] by blast
      note px = spent_at_peers [OF x(2) okv(2)]
      obtain res y where y: "last_test P aNow j False x = Inr (res, y)" "same_but_stats x y" "outcome_at y j res"
        using last_test_spec [OF px(1,3,4)] by blast
      then have "spends v r j y" using spends_stats [OF same_but_stats_refl x(2)] by blast
      moreover have "bw_random P aNow h s = Some (Inr (res, y))" using R True v closed x y by simp
      ultimately show ?thesis using sp sc y(3) by blast
    qed
  qed
qed

lemma bw_report_spec: "same_but_stats s (bw_report P aNow k l b y s)"
  unfolding bw_report_def
  by (intro same_but_stats_store_upd) (cases "bw_Store s k", simp_all add: pi_add_frame)

section \<open>A new list of peers\<close>

definition dangling :: "(byte list \<rightharpoonup> peer_info) \<Rightarrow> byte list option \<Rightarrow> bool" where
  "dangling st x \<longleftrightarrow> (\<exists>k. x = Some k \<and> st k = None)"

lemma pi_new_ok: "store_ok st \<Longrightarrow> store_ok (st(k \<mapsto> pi_new k))"
  by (simp add: store_ok_def pi_new_def)

lemma adjust_info1_spec:
  assumes st: "store_ok (bw_Store s)" and i: "i < length (bw_Info s)" and d: "\<not> dangling (bw_Store s) (bw_Info s ! i)"
  shows "\<exists>st. adjust_info1 i k s = Inr (s\<lparr>bw_Store := st, bw_Info := (bw_Info s)[i := Some k]\<rparr>)
    \<and> store_ok st \<and> st k \<noteq> None \<and> (\<forall>j. bw_Store s j \<noteq> None \<longrightarrow> st j \<noteq> None)"
proof -
  let ?st = "if bw_Store s k = None then (bw_Store s)(k \<mapsto> pi_new k) else bw_Store s"
  have new: "store_ok ?st" "?st k \<noteq> None" "\<forall>j. bw_Store s j \<noteq> None \<longrightarrow> ?st j \<noteq> None"
    using st pi_new_ok by auto
  show ?thesis
  proof (cases "bw_Info s ! i")
    case None
    then show ?thesis using new by (intro exI [of _ ?st]) (simp add: adjust_info1_def Let_def)
  next
    case (Some k')
    then obtain p where p: "bw_Store s k' = Some p" using d by (auto simp: dangling_def)
    then have key: "pi_Key p = k'" "info_at i s = Inr p" using st i Some by (simp_all add: store_ok_def info_at_def)
    show ?thesis
    proof (cases "k' = k")
      case True
      then have "s\<lparr>bw_Info := (bw_Info s)[i := Some k]\<rparr> = s" using Some i by (metis by_weight.surjective by_weight.update_convs(7) list_update_id)
      then show ?thesis using st key p Some True
        by (intro exI [of _ "bw_Store s"]) (simp add: adjust_info1_def Let_def)
    next
      case False
      then show ?thesis using new key Some by (intro exI [of _ ?st]) (simp add: adjust_info1_def Let_def)
    qed
  qed
qed

lemma adjust_info_loop_spec:
  assumes "store_ok (bw_Store s)" and "bw_Info s = map (\<lambda>e. Some (en_key e)) ds @ xs" and "length xs = length es"
    and "\<forall>e \<in> set ds. bw_Store s (en_key e) \<noteq> None" and "\<forall>x \<in> set xs. \<not> dangling (bw_Store s) x"
  shows "\<exists>st info. adjust_info_loop (length ds) es s = Inr (s\<lparr>bw_Store := st, bw_Info := info\<rparr>)
    \<and> store_ok st \<and> linked info (ds @ es) st"
  using assms
proof (induction es arbitrary: ds xs s)
  case Nil
  then show ?case by (intro exI [of _ "bw_Store s"] exI [of _ "bw_Info s"]) (simp add: linked_def)
next
  case (Cons e es)
  then obtain x ys where xs: "xs = x # ys" by (cases xs) auto
  have "length ds < length (bw_Info s)" "bw_Info s ! length ds = x" using Cons.prems(2) by (simp_all add: xs nth_append)
  then obtain st where st: "adjust_info1 (length ds) (en_key e) s
      = Inr (s\<lparr>bw_Store := st, bw_Info := (bw_Info s)[length ds := Some (en_key e)]\<rparr>)"
    "store_ok st" "st (en_key e) \<noteq> None" "\<forall>j. bw_Store s j \<noteq> None \<longrightarrow> st j \<noteq> None"
    using adjust_info1_spec [OF Cons.prems(1), of "length ds" "en_key e"] Cons.prems(5) xs by auto
  let ?s = "s\<lparr>bw_Store := st, bw_Info := (bw_Info s)[length ds := Some (en_key e)]\<rparr>"
  have "\<exists>st' info. adjust_info_loop (length (ds @ [e])) es ?s = Inr (?s\<lparr>bw_Store := st', bw_Info := info\<rparr>)
      \<and> store_ok st' \<and> linked info ((ds @ [e]) @ es) st'"
  proof (rule Cons.IH [of _ _ ys])
    show "bw_Info ?s = map (\<lambda>e. Some (en_key e)) (ds @ [e]) @ ys" using Cons.prems(2) xs by (simp add: list_update_append)
    show "\<forall>x \<in> set ys. \<not> dangling (bw_Store ?s) x" using Cons.prems(5) xs st(4) unfolding dangling_def by auto
    show "\<forall>d \<in> set (ds @ [e]). bw_Store ?s (en_key d) \<noteq> None" using Cons.prems(4) st(3,4) by auto
  qed (use Cons.prems(3) xs st(2) in simp_all)
  then show ?case by (simp add: st(1))
qed

lemma length_info_resize: "length (info_resize n xs) = n"
  by (simp add: info_resize_def)

lemma adjust_info_spec:
  assumes "bw_ok s"
  shows "\<exists>st info. adjust_info es (s\<lparr>bw_Peers := []\<rparr>) = Inr (s\<lparr>bw_Peers := [], bw_Store := st, bw_Info := info\<rparr>)
    \<and> store_ok st \<and> linked info es st"
proof -
  let ?xs = "if length (bw_Info s) \<noteq> length es then info_resize (length es) (bw_Info s) else bw_Info s"
  let ?s = "s\<lparr>bw_Peers := [], bw_Info := ?xs\<rparr>"
  have "\<forall>x \<in> set (bw_Info s). \<not> dangling (bw_Store s) x" using assms by (auto simp: bw_ok_def dangling_def)
  then have "\<forall>x \<in> set ?xs. \<not> dangling (bw_Store s) x"
    by (auto simp: info_resize_def dangling_def dest: in_set_takeD)
  then have "\<exists>st info. adjust_info_loop (length ([] :: entry list)) es ?s = Inr (?s\<lparr>bw_Store := st, bw_Info := info\<rparr>)
      \<and> store_ok st \<and> linked info ([] @ es) st"
    using assms by (intro adjust_info_loop_spec [of _ _ ?xs]) (simp_all add: bw_ok_def length_info_resize)
  moreover have "adjust_info es (s\<lparr>bw_Peers := []\<rparr>) = adjust_info_loop 0 es ?s" by (simp add: adjust_info_def)
  ultimately show ?thesis by auto
qed

lemma adjust_weight_frame:
  assumes "adjust_weight P e p = (e', p')"
  shows "en_key e' = en_key e" "pi_Key p' = pi_Key p" "pi_Budget p' = pi_Budget p"
  using assms by (auto simp: adjust_weight_def Let_def split: if_splits)

lemma adjust_weight_nonneg:
  assumes "adjust_weight P e p = (e', p')" and "0 \<le> en_weight e"
  shows "0 \<le> en_weight e'"
  using assms target_weight_nonneg [OF assms(2), of P "rps_estimate (pi_Ewma p)"]
  by (auto simp: adjust_weight_def Let_def BOOST_FACTOR_def LOSS_FACTOR_def max_def min_def split: if_splits)

lemma adjust_weights_spec:
  assumes "linked (bw_Info s) (ds @ es) (bw_Store s)" and "store_ok (bw_Store s)" and "\<forall>e \<in> set es. 0 \<le> en_weight e"
  shows "\<exists>es' st. adjust_weights P (length ds) es s = Inr (es', s\<lparr>bw_Store := st\<rparr>) \<and> map en_key es' = map en_key es
    \<and> (\<forall>e \<in> set es'. 0 \<le> en_weight e) \<and> store_ok st \<and> linked (bw_Info s) (ds @ es) st"
  using assms
proof (induction es arbitrary: ds s)
  case Nil
  then show ?case by (intro exI [of _ "[]"] exI [of _ "bw_Store s"]) simp
next
  case (Cons e es)
  obtain p where p: "info_at (length ds) s = Inr p" "bw_Store s (en_key e) = Some p"
    "\<And>q. set_info (length ds) q s = s\<lparr>bw_Store := (bw_Store s)(en_key e \<mapsto> q)\<rparr>"
    using linked_at [OF Cons.prems(1), of "length ds"] by auto
  obtain e' p' where a: "adjust_weight P e p = (e', p')" by fastforce
  let ?s = "s\<lparr>bw_Store := (bw_Store s)(en_key e \<mapsto> p')\<rparr>"
  have "\<exists>es' st. adjust_weights P (length (ds @ [e])) es ?s = Inr (es', ?s\<lparr>bw_Store := st\<rparr>) \<and> map en_key es' = map en_key es
    \<and> (\<forall>e \<in> set es'. 0 \<le> en_weight e) \<and> store_ok st \<and> linked (bw_Info ?s) ((ds @ [e]) @ es) st"
  proof (rule Cons.IH)
    show "store_ok (bw_Store ?s)" using Cons.prems(2) p(2) adjust_weight_frame [OF a] by (simp add: store_ok_def)
    show "linked (bw_Info ?s) ((ds @ [e]) @ es) (bw_Store ?s)" using Cons.prems(1) by (simp add: linked_def)
  qed (use Cons.prems(3) in simp)
  then show ?case using p a adjust_weight_frame(1) [OF a] adjust_weight_nonneg [OF a] Cons.prems(3)
    by (fastforce intro: exI [of _ "e' # _"])
qed

text \<open>The step: the smallest weight since the last weight that was zero.\<close>

fun step_from :: "double \<Rightarrow> entry list \<Rightarrow> double" where
  "step_from m [] = m"
| "step_from m (e # es) = step_from (if 0 < m then min m (en_weight e) else en_weight e) es"

lemma stat_fold:
  "fold stat_step es (a, b, m) = (a + sum_list (map en_rps es), b + sum_list (map en_weight es), step_from m es)"
  by (induction es arbitrary: a b m) (simp_all add: stat_step_def)

lemma step_from_nonneg: "0 \<le> m \<Longrightarrow> \<forall>e \<in> set es. 0 \<le> en_weight e \<Longrightarrow> 0 \<le> step_from m es"
  by (induction es arbitrary: m) simp_all

lemma step_from_append: "step_from m (es @ fs) = step_from (step_from m es) fs"
  by (induction es arbitrary: m) simp_all

lemma step_from_pos: "0 \<le> m \<Longrightarrow> \<forall>e \<in> set es. 0 < en_weight e \<Longrightarrow> 0 < m \<or> es \<noteq> [] \<Longrightarrow> 0 < step_from m es"
  by (induction es arbitrary: m) (auto simp: min_def)

lemma build_ring_ids:
  assumes "es \<noteq> []" and "length es < 2 ^ 31"
  shows "build_ring hn hs es \<noteq> []" and "\<forall>r \<in> set (build_ring hn hs es). unat (ri_id r) < length es"
proof -
  let ?f = "\<lambda>i. ring_insert hn hs (en_key (es ! i)) (of_nat i) (of_nat i) 10"
  have len: "length (fold ?f is r) = 10 * length is + length r" for "is" r
    by (induction "is" arbitrary: r) (simp_all add: ring_insert_def)
  have ids: "ri_id ` set (fold ?f is r) \<subseteq> of_nat ` set is \<union> ri_id ` set r" for "is" r
  proof (induction "is" arbitrary: r)
    case (Cons i "is")
    have "ri_id ` set (?f i r) \<subseteq> insert (of_nat i) (ri_id ` set r)" by (auto simp: ring_insert_def)
    with Cons.IH [of "?f i r"] have "ri_id ` set (fold ?f is (?f i r)) \<subseteq> of_nat ` set is \<union> insert (of_nat i) (ri_id ` set r)" by blast
    then show ?case by simp
  qed simp
  have "length (build_ring hn hs es) = 10 * length es" using len by (simp add: build_ring_def ring_prepare_def)
  then show "build_ring hn hs es \<noteq> []" using assms(1) by (metis length_0_conv mult_is_0 zero_neq_numeral)
  show "\<forall>r \<in> set (build_ring hn hs es). unat (ri_id r) < length es"
  proof
    fix r assume "r \<in> set (build_ring hn hs es)"
    then have "ri_id r \<in> of_nat ` {0..<length es}" using ids [of "[0..<length es]" "[]"] by (auto simp: build_ring_def ring_prepare_def)
    then obtain i where "i < length es" "ri_id r = of_nat i" by auto
    then show "unat (ri_id r) < length es" using assms(2) by (simp add: unat_of_nat)
  qed
qed

lemma cap_budget_frame:
  "pi_Key (cap_budget e p) = pi_Key p" "pi_Budget (cap_budget e p) = min (pi_Budget p) (en_weight e)"
  by (simp_all add: cap_budget_def)

text \<open>A list of peers as the registry delivers it.\<close>

definition entries_ok :: "entry list \<Rightarrow> bool" where
  "entries_ok es \<longleftrightarrow> distinct (map en_key es) \<and> length es < 2 ^ 31 \<and> (\<forall>e \<in> set es. 0 \<le> en_weight e \<and> 0 \<le> en_latency e)"

lemma distinct_sort_key: "distinct (map f (sort_key f xs)) = distinct (map f xs)"
  by (metis distinct_sort mset_map mset_sort mset_eq_imp_distinct_iff)

lemma bw_update_spec:
  assumes ok: "bw_ok s" and es: "entries_ok es"
  shows "\<exists>t. bw_update hn hs P es s = Inr t \<and> bw_ok t \<and> map en_key (bw_Peers t) = map en_key (sort_key en_key es)
    \<and> bw_Step t = step_from 0 (bw_Peers t) \<and> (\<forall>e \<in> set (bw_Peers t). budget t (en_key e) \<le> en_weight e)"
proof -
  let ?es = "sort_key en_key es"
  obtain st info where a: "adjust_info ?es (s\<lparr>bw_Peers := []\<rparr>) = Inr (s\<lparr>bw_Peers := [], bw_Store := st, bw_Info := info\<rparr>)"
    "store_ok st" "linked info ?es st" using adjust_info_spec [OF ok, of ?es] by blast
  let ?s = "s\<lparr>bw_Peers := [], bw_Store := st, bw_Info := info\<rparr>"
  have "\<exists>ps st'. adjust_weights P (length ([] :: entry list)) ?es ?s = Inr (ps, ?s\<lparr>bw_Store := st'\<rparr>) \<and> map en_key ps = map en_key ?es
    \<and> (\<forall>e \<in> set ps. 0 \<le> en_weight e) \<and> store_ok st' \<and> linked (bw_Info ?s) ([] @ ?es) st'"
    using a es by (intro adjust_weights_spec) (simp_all add: entries_ok_def)
  then obtain ps st2 where w: "adjust_weights P 0 ?es ?s = Inr (ps, ?s\<lparr>bw_Store := st2\<rparr>)" "map en_key ps = map en_key ?es"
    "\<forall>e \<in> set ps. 0 \<le> en_weight e" "store_ok st2" "linked info ?es st2" by auto
  have dis: "distinct (map en_key ps)" using es w(2) by (simp add: entries_ok_def distinct_sort_key)
  have len: "length ps = length es" using map_eq_imp_length_eq [OF w(2)] by simp
  have l2: "linked info ps st2" using w(5) unfolding linked_keys w(2) .
  let ?t = "?s\<lparr>bw_Store := st2, bw_Peers := ps\<rparr>"
  let ?st3 = "upd_store cap_budget ps st2"
  have c: "for_info cap_budget 0 ps ?t = Inr (?t\<lparr>bw_Store := ?st3\<rparr>)"
    using for_info_upd [of ?t "[]" ps cap_budget] l2 dis by simp
  define t where "t = ?t\<lparr>bw_Store := ?st3, bw_Ring := build_ring hn hs ps, bw_RPS := sum_list (map en_rps ps),
      bw_TotalWeight := sum_list (map en_weight ps), bw_Step := step_from 0 ps\<rparr>"
  have u: "bw_update hn hs P es s = Inr t" using a(1) w(1) c by (simp add: bw_update_def Let_def stat_fold t_def)
  have st3: "?st3 k = None \<longleftrightarrow> st2 k = None" for k by (simp add: upd_store_def split: option.split)
  have so: "store_ok ?st3" using w(3,4)
    by (auto simp: store_ok_def upd_store_def cap_budget_frame find_Some_iff split: option.splits)
  have bud: "budget t (en_key e) \<le> en_weight e" if e: "e \<in> set ps" for e
  proof -
    have "st2 (en_key e) \<noteq> None" using l2 e by (simp add: linked_def)
    then obtain p where "st2 (en_key e) = Some p" by blast
    then show ?thesis using upd_store_in [OF dis e, of cap_budget st2] by (simp add: budget_def t_def cap_budget_frame)
  qed
  have l3: "linked info ps ?st3" using l2 by (simp add: linked_def st3 del: not_None_eq)
  have sn: "0 \<le> step_from 0 ps" using step_from_nonneg w(3) by simp
  have "bw_ok t" unfolding bw_ok_def
  proof (intro conjI impI)
    show "\<forall>x \<in> set (bw_Info t). \<exists>k. x = Some k \<and> bw_Store t k \<noteq> None" using l3 by (simp add: t_def linked_def)
    show "\<forall>e \<in> set (bw_Peers t). 0 \<le> en_weight e \<and> budget t (en_key e) \<le> en_weight e + bw_Step t"
    proof
      fix e assume "e \<in> set (bw_Peers t)"
      then have e: "e \<in> set ps" by (simp add: t_def)
      have "bw_Step t = step_from 0 ps" by (simp add: t_def)
      then show "0 \<le> en_weight e \<and> budget t (en_key e) \<le> en_weight e + bw_Step t" using bud [OF e] w(3) e sn by auto
    qed
    show "unat (bw_Pos t) \<le> 2 ^ 31" using ok by (simp add: t_def bw_ok_def)
    show "bw_Ring t \<noteq> []" if "bw_Peers t \<noteq> []" using build_ring_ids(1) [of ps hn hs] that es len by (simp add: t_def entries_ok_def)
    show "\<forall>r \<in> set (bw_Ring t). unat (ri_id r) < length (bw_Peers t)" if "bw_Peers t \<noteq> []"
      using build_ring_ids(2) [of ps hn hs] that es len by (simp add: t_def entries_ok_def)
  qed (use so l3 dis es len sn in \<open>simp_all add: t_def entries_ok_def\<close>)
  then show ?thesis using u w(2) bud by (auto simp: t_def)
qed

end
