(* ===== verification/Fair_Share.thy ===== *)
theory Fair_Share
  imports Complex_Main
begin

text \<open>
  The accounting of a scheduler that spends a fixed step from a budget at every pick and raises all
  budgets by the weights from time to time: as long as the budgets stay bounded, the picks follow
  the weights. A move picks a position or none.
\<close>

locale budget_picks =
  fixes n :: nat and w :: "nat \<Rightarrow> rat" and step :: rat
    and bud :: "'s \<Rightarrow> nat \<Rightarrow> rat" and inv :: "'s \<Rightarrow> bool" and move :: "'s \<Rightarrow> nat option \<Rightarrow> 's \<Rightarrow> bool"
  assumes weights: "inv s \<Longrightarrow> i < n \<Longrightarrow> 0 \<le> w i" and step: "inv s \<Longrightarrow> 0 \<le> step"
    and inv_move: "inv s \<Longrightarrow> move s p t \<Longrightarrow> inv t"
    and bounded: "inv s \<Longrightarrow> i < n \<Longrightarrow> 0 \<le> bud s i \<and> bud s i \<le> w i + step"
    and spent: "inv s \<Longrightarrow> move s p t \<Longrightarrow> (\<forall>i. p = Some i \<longrightarrow> i < n)
      \<and> (\<exists>r :: nat. \<forall>j < n. bud t j = bud s j + of_nat r * w j - (if p = Some j then step else 0))"
begin

fun moves :: "'s \<Rightarrow> nat option list \<Rightarrow> 's \<Rightarrow> bool" where
  "moves s [] t \<longleftrightarrow> t = s"
| "moves s (p # ps) t \<longleftrightarrow> (\<exists>u. move s p u \<and> moves u ps t)"

definition picks :: "nat \<Rightarrow> nat option list \<Rightarrow> nat" where
  "picks i ps = length (filter (\<lambda>p. p = Some i) ps)"

lemma moves_spent:
  assumes "inv s" and "moves s ps t"
  shows "inv t \<and> (\<exists>r :: nat. \<forall>j < n. bud t j = bud s j + of_nat r * w j - of_nat (picks j ps) * step)"
  using assms
proof (induction ps arbitrary: s)
  case Nil
  then show ?case by (auto simp: picks_def intro: exI [of _ 0])
next
  case (Cons p ps)
  then obtain u where u: "move s p u" "moves u ps t" by auto
  obtain q :: nat where q: "\<forall>j < n. bud u j = bud s j + of_nat q * w j - (if p = Some j then step else 0)"
    using spent [OF Cons.prems(1) u(1)] by blast
  obtain r :: nat where r: "inv t" "\<forall>j < n. bud t j = bud u j + of_nat r * w j - of_nat (picks j ps) * step"
    using Cons.IH [OF inv_move [OF Cons.prems(1) u(1)] u(2)] by blast
  have "\<forall>j < n. bud t j = bud s j + of_nat (q + r) * w j - of_nat (picks j (p # ps)) * step"
    using q r(2) by (auto simp: picks_def algebra_simps)
  then show ?case using r(1) by blast
qed

lemma moves_positions: "inv s \<Longrightarrow> moves s ps t \<Longrightarrow> p \<in> set ps \<Longrightarrow> p = Some i \<Longrightarrow> i < n"
  by (induction ps arbitrary: s) (use spent inv_move in fastforce)+

lemma sum_picks:
  assumes "inv s" and "moves s ps t"
  shows "(\<Sum>j<n. picks j ps) = length (filter (\<lambda>p. p \<noteq> None) ps)"
  using moves_positions [OF assms]
proof (induction ps)
  case (Cons p ps)
  have "picks j (p # ps) = (if p = Some j then 1 else 0) + picks j ps" for j by (simp add: picks_def)
  then have "(\<Sum>j<n. picks j (p # ps)) = (\<Sum>j<n. if p = Some j then 1 else 0) + (\<Sum>j<n. picks j ps)"
    by (simp add: sum.distrib)
  moreover have "(\<Sum>j<n. if p = Some j then 1 else (0 :: nat)) = (if p \<noteq> None then 1 else 0)"
  proof (cases p)
    case (Some i)
    then have "i < n" using Cons.prems [of p i] by simp
    then show ?thesis using Some by (simp add: sum.delta [of "{..<n}" i "\<lambda>_. 1"] eq_commute)
  qed simp
  ultimately show ?case using Cons by simp
qed (simp add: picks_def)

text \<open>The number of picks of a position differs from its share of all picks by a constant.\<close>

theorem fair_share:
  fixes K :: nat and W :: rat
  assumes "inv s" and "moves s ps t" and i: "i < n"
  defines "W \<equiv> \<Sum>j<n. w j" and "K \<equiv> length (filter (\<lambda>p. p \<noteq> None) ps)"
  shows "\<bar>of_nat (picks i ps) * W - of_nat K * w i\<bar> * step \<le> W * (w i + step) + w i * (W + of_nat n * step)"
proof -
  obtain r :: nat where t: "inv t" and r: "\<forall>j < n. bud t j = bud s j + of_nat r * w j - of_nat (picks j ps) * step"
    using moves_spent [OF assms(1,2)] by blast
  define d where "d j = bud s j - bud t j" for j
  have d: "of_nat (picks j ps) * step = of_nat r * w j + d j" if "j < n" for j using r that by (simp add: d_def)
  have dj: "\<bar>d j\<bar> \<le> w j + step" if "j < n" for j
    using bounded [OF assms(1) that] bounded [OF t that] by (simp add: d_def abs_le_iff)
  have "of_nat K * step = (\<Sum>j<n. of_nat (picks j ps) * step)"
    using sum_picks [OF assms(1,2)] unfolding K_def by (simp flip: sum_distrib_right of_nat_sum)
  also have "\<dots> = of_nat r * W + (\<Sum>j<n. d j)" using d by (simp add: W_def sum.distrib sum_distrib_left)
  finally have K: "of_nat K * step = of_nat r * W + (\<Sum>j<n. d j)" .
  have "(of_nat (picks i ps) * W - of_nat K * w i) * step = (of_nat (picks i ps) * step) * W - (of_nat K * step) * w i"
    by (simp add: algebra_simps)
  also have "\<dots> = W * d i - w i * (\<Sum>j<n. d j)" unfolding K d [OF i] by (simp add: algebra_simps)
  finally have e: "(of_nat (picks i ps) * W - of_nat K * w i) * step = W * d i - w i * (\<Sum>j<n. d j)" .
  have W: "0 \<le> W" unfolding W_def using weights [OF assms(1)] by (intro sum_nonneg) simp
  have "\<bar>\<Sum>j<n. d j\<bar> \<le> (\<Sum>j<n. w j + step)" using dj by (intro order_trans [OF sum_abs] sum_mono) simp
  then have S: "\<bar>\<Sum>j<n. d j\<bar> \<le> W + of_nat n * step" by (simp add: W_def sum.distrib)
  have "\<bar>W * d i - w i * (\<Sum>j<n. d j)\<bar> \<le> W * \<bar>d i\<bar> + w i * \<bar>\<Sum>j<n. d j\<bar>"
    using abs_triangle_ineq4 [of "W * d i" "w i * (\<Sum>j<n. d j)"] W weights [OF assms(1) i] by (simp add: abs_mult)
  also have "\<dots> \<le> W * (w i + step) + w i * (W + of_nat n * step)"
    using W weights [OF assms(1) i] dj [OF i] S by (intro add_mono mult_left_mono)
  finally show ?thesis using e step [OF assms(1)] by (metis abs_mult abs_of_nonneg)
qed

end

end
