(* ===== verification/Sd_Props.thy ===== *)
theory Sd_Props
  imports Sd_Balancer Fair_Share
begin

text \<open>
  What the balancer promises its clients: every call returns, a peer it returns is not blocked, and
  the requests follow the weights. The states are those reached from an empty balancer by updates of
  the registry, calls and reports of their outcomes.
\<close>

section \<open>Reachable states\<close>

inductive bal_reach :: "(byte list \<Rightarrow> u64) \<Rightarrow> (u32 \<Rightarrow> u64 \<Rightarrow> u64) \<Rightarrow> bal_params \<Rightarrow> by_weight \<Rightarrow> bool"
  for hash_name hash_seed P where
  reach_new: "bal_reach hash_name hash_seed P balancer_new"
| reach_update: "bal_reach hash_name hash_seed P s \<Longrightarrow> entries_ok es \<Longrightarrow> bw_update hash_name hash_seed P es s = Inr t
    \<Longrightarrow> bal_reach hash_name hash_seed P t"
| reach_random: "bal_reach hash_name hash_seed P s \<Longrightarrow> bw_random P aNow h s = Some (Inr (r, t))
    \<Longrightarrow> bal_reach hash_name hash_seed P t"
| reach_report: "bal_reach hash_name hash_seed P s \<Longrightarrow> bal_reach hash_name hash_seed P (bw_report P aNow k l b y s)"
| reach_clear: "bal_reach hash_name hash_seed P s \<Longrightarrow> bal_reach hash_name hash_seed P (bw_clear s)"

lemma balancer_new_ok: "bw_ok balancer_new"
  by (simp add: bw_ok_def balancer_new_def store_ok_def)

lemma bw_clear_ok: "bw_ok s \<Longrightarrow> bw_ok (bw_clear s)"
  by (simp add: bw_ok_def bw_clear_def)

lemma bw_random_ok:
  assumes "bw_ok s" and "bw_random P aNow h s = Some (Inr (r, t))"
  shows "bw_ok t"
proof (cases "bw_Peers s = [] \<or> bw_TotalWeight s < MIN_WEIGHT")
  case True
  then show ?thesis using bw_random_no_peers [OF assms(1) True, of P aNow h] assms same_but_stats_ok by auto
next
  case False
  then have "bw_Peers s \<noteq> []" "MIN_WEIGHT \<le> bw_TotalWeight s" by auto
  from bw_random_spec [OF assms(1) this, of P aNow h] show ?thesis using assms(2) by (auto simp: spends_def)
qed

lemma bal_reach_ok: "bal_reach hash_name hash_seed P s \<Longrightarrow> bw_ok s"
proof (induction rule: bal_reach.induct)
  case (reach_update s es t)
  then show ?case using bw_update_spec [of s es hash_name hash_seed P] by auto
qed (auto intro: balancer_new_ok bw_clear_ok bw_random_ok same_but_stats_ok bw_report_spec)

section \<open>Every call returns\<close>


section \<open>Fair shares\<close>

datatype bal_op = Random time_t "u64 option" | Report time_t "byte list" double bool bool

text \<open>A sequence of calls and reports, with the outcomes of the calls.\<close>

fun bal_run :: "bal_params \<Rightarrow> bal_op list \<Rightarrow> by_weight \<Rightarrow> ((exn + byte list \<times> bool) list \<times> by_weight) result option" where
  "bal_run P [] s = Some (Inr ([], s))"
| "bal_run P (Random aNow h # ops) s =
     (case bw_random P aNow h s of
        None \<Rightarrow> None
      | Some (Inl e) \<Rightarrow> Some (Inl e)
      | Some (Inr (r, t)) \<Rightarrow> map_option (\<lambda>x. bindr x (\<lambda>(rs, u). Inr (r # rs, u))) (bal_run P ops t))"
| "bal_run P (Report aNow k l b y # ops) s = bal_run P ops (bw_report P aNow k l b y s)"

definition names :: "byte list \<Rightarrow> exn + byte list \<times> bool \<Rightarrow> bool" where
  "names k r \<longleftrightarrow> (case r of Inl e \<Rightarrow> e = blocked k | Inr (k', _) \<Rightarrow> k' = k)"

lemma blocked_inj: "blocked j = blocked k \<longleftrightarrow> j = k"
proof -
  have "inj (\<lambda>b :: byte. char_of (unat b) :: char)"
  proof (rule injI)
    fix x y :: byte
    assume "(char_of (unat x) :: char) = char_of (unat y)"
    then have "(of_char (char_of (unat x) :: char) :: nat) = of_char (char_of (unat y) :: char)" by (rule arg_cong)
    then show "x = y" by (simp add: word_unat_eq_iff)
  qed
  then show ?thesis by (simp add: blocked_def inj_map_eq_map)
qed

lemma outcome_names:
  assumes "bw_ok t" and "i < length (bw_Peers t)" and "j < length (bw_Peers t)" and "outcome_at t i r"
  shows "names (key_at t j) r \<longleftrightarrow> j = i"
proof -
  have "bw_Peers t \<noteq> []" using assms(2) by auto
  then have "key_at t i = key_at t j \<longleftrightarrow> i = j" using key_at_inj [OF bw_okD(2) [OF assms(1)] assms(2,3)] by simp
  then show ?thesis using assms(4) by (auto simp: outcome_at_def names_def blocked_inj split: if_splits)
qed

text \<open>The list of peers that the shares refer to is that of state \<open>s0\<close>.\<close>

definition share_inv :: "by_weight \<Rightarrow> by_weight \<Rightarrow> bool" where
  "share_inv s0 s \<longleftrightarrow> bw_ok s \<and> bw_Peers s0 \<noteq> [] \<and> MIN_WEIGHT \<le> bw_TotalWeight s
     \<and> bw_Peers s = bw_Peers s0 \<and> bw_Step s = bw_Step s0"

definition bal_move :: "by_weight \<Rightarrow> nat option \<Rightarrow> by_weight \<Rightarrow> bool" where
  "bal_move s p t \<longleftrightarrow> (case p of None \<Rightarrow> same_but_stats s t | Some i \<Rightarrow> \<exists>r. spends s r i t)"

interpretation bal: budget_picks "length (bw_Peers s0)" "weight_at s0" "bw_Step s0" "\<lambda>s j. budget s (key_at s0 j)"
  "share_inv s0" bal_move for s0
proof
  fix s t and i :: nat and p
  show "share_inv s0 s \<Longrightarrow> i < length (bw_Peers s0) \<Longrightarrow> 0 \<le> weight_at s0 i"
    using bw_okD(6) [of s "bw_Peers s0 ! i"] by (simp add: share_inv_def)
  show "share_inv s0 s \<Longrightarrow> 0 \<le> bw_Step s0" using bw_okD(4) [of s] by (simp add: share_inv_def)
  show "share_inv s0 s \<Longrightarrow> bal_move s p t \<Longrightarrow> share_inv s0 t"
    using same_but_stats_ok [of s t] same_but_statsD [of s t]
    by (auto simp: share_inv_def bal_move_def spends_def split: option.splits)
  show "share_inv s0 s \<Longrightarrow> i < length (bw_Peers s0)
      \<Longrightarrow> 0 \<le> budget s (key_at s0 i) \<and> budget s (key_at s0 i) \<le> weight_at s0 i + bw_Step s0"
    using budget_nonneg [of s] bw_okD(7) [of s "bw_Peers s0 ! i"] by (simp add: share_inv_def)
  show "share_inv s0 s \<Longrightarrow> bal_move s p t \<Longrightarrow> (\<forall>i. p = Some i \<longrightarrow> i < length (bw_Peers s0))
      \<and> (\<exists>r :: nat. \<forall>j < length (bw_Peers s0). budget t (key_at s0 j)
           = budget s (key_at s0 j) + of_nat r * weight_at s0 j - (if p = Some j then bw_Step s0 else 0))"
    using same_but_stats_budget [of s t]
    by (cases p) (fastforce simp: share_inv_def bal_move_def spends_def intro: exI [of _ 0])+
qed

lemma bal_run_moves:
  assumes "share_inv s0 s" and "\<not> bp_second_chance P"
  shows "\<exists>rs t ps. bal_run P ops s = Some (Inr (rs, t)) \<and> bal.moves s ps t
    \<and> length rs = length (filter (\<lambda>p. p \<noteq> None) ps)
    \<and> (\<forall>j < length (bw_Peers s0). bal.picks j ps = length (filter (names (key_at s0 j)) rs))"
  using assms(1)
proof (induction ops arbitrary: s)
  case Nil
  show ?case by (intro exI [of _ "[]"] exI [of _ s]) (simp add: bal.picks_def)
next
  case (Cons op ops)
  have okne: "bw_ok s" "bw_Peers s \<noteq> []" "MIN_WEIGHT \<le> bw_TotalWeight s" using Cons.prems by (simp_all add: share_inv_def)
  show ?case
  proof (cases op)
    case (Random aNow h)
    obtain r t q i where t: "bw_random P aNow h s = Some (Inr (r, t))" "spends s q i t" "outcome_at t i r"
      using bw_random_spec [OF okne, of P aNow h] assms(2) by blast
    then have m: "bal_move s (Some i) t" by (auto simp: bal_move_def)
    then have inv: "share_inv s0 t" using bal.inv_move [OF Cons.prems] by blast
    from Cons.IH [OF this] obtain rs u ps where u: "bal_run P ops t = Some (Inr (rs, u))" "bal.moves t ps u"
      "length rs = length (filter (\<lambda>p. p \<noteq> None) ps)"
      "\<forall>j < length (bw_Peers s0). bal.picks j ps = length (filter (names (key_at s0 j)) rs)" by blast
    have "names (key_at s0 j) r \<longleftrightarrow> j = i" if "j < length (bw_Peers s0)" for j
      using outcome_names [of t i j r] t(2,3) inv that Cons.prems by (simp add: spends_def share_inv_def)
    then have "\<forall>j < length (bw_Peers s0). bal.picks j (Some i # ps) = length (filter (names (key_at s0 j)) (r # rs))"
      using u(4) by (auto simp: bal.picks_def)
    then show ?thesis using t(1) u(1-3) m Random
      by (intro exI [of _ "r # rs"] exI [of _ u] exI [of _ "Some i # ps"]) auto
  next
    case (Report aNow k l b y)
    let ?t = "bw_report P aNow k l b y s"
    have m: "bal_move s None ?t" using bw_report_spec by (simp add: bal_move_def)
    from Cons.IH [OF bal.inv_move [OF Cons.prems m]] obtain rs u ps where u: "bal_run P ops ?t = Some (Inr (rs, u))"
      "bal.moves ?t ps u" "length rs = length (filter (\<lambda>p. p \<noteq> None) ps)"
      "\<forall>j < length (bw_Peers s0). bal.picks j ps = length (filter (names (key_at s0 j)) rs)" by blast
    then show ?thesis using m Report
      by (intro exI [of _ rs] exI [of _ u] exI [of _ "None # ps"]) (auto simp: bal.picks_def)
  qed
qed

text \<open>A registry of two peers, for the examples.\<close>

definition two_peers :: "double \<Rightarrow> double \<Rightarrow> entry list" where
  "two_peers v w =
     [\<lparr>en_key = [97], en_latency = 1, en_rps = 0, en_threads = 1, en_location = [], en_weight = v, en_utilization = 0\<rparr>,
      \<lparr>en_key = [98], en_latency = 1, en_rps = 0, en_threads = 1, en_location = [], en_weight = w, en_utilization = 0\<rparr>]"

definition plain_params :: bal_params where
  "plain_params = \<lparr>bp_location = [], bp_use_client_latency = True, bp_use_server_rps = False,
     bp_use_circuit_breaker = True, bp_second_chance = False\<rparr>"

lemma two_peers_update:
  assumes "v = 6" and "w = 0 \<or> w = 3"
  shows "\<exists>t. bal_reach hn hs plain_params t \<and> bw_update hn hs plain_params (two_peers v w) balancer_new = Inr t
    \<and> bw_Peers t = two_peers v w \<and> bw_TotalWeight t = v + w"
proof -
  have "entries_ok (two_peers v w)" using assms by (auto simp: entries_ok_def two_peers_def)
  moreover have "\<exists>t. bw_update hn hs plain_params (two_peers v w) balancer_new = Inr t \<and> bw_Peers t = two_peers v w \<and> bw_TotalWeight t = v + w"
    using assms
    by (auto simp: bw_update_def two_peers_def balancer_new_def plain_params_def Let_def adjust_info_def adjust_info1_def info_resize_def
      info_at_def set_info_def on_info_def adjust_weight_def target_weight_def pi_new_def rps_new_def rps_estimate_def
      breaker0_def metrics0_def cap_budget_def stat_step_def BOOST_FACTOR_def LOSS_FACTOR_def)
  ultimately show ?thesis using reach_update [OF reach_new] by blast
qed




text \<open>
  a peer of weight zero whose key is the greatest turns the balancing off. The step is meant to be
  the smallest positive weight, but a weight of zero, which a closed circuit gives, restarts the
  minimum; when it comes last the step is zero, every budget covers it, and \<open>random_i\<close> returns the
  next position in turn without spending anything, the blocked peer included.
\<close>

theorem balancer_zero_step:
  assumes "bal_reach hash_name hash_seed P s" and "entries_ok es" and "bw_update hash_name hash_seed P es s = Inr t"
    and "bw_Peers t \<noteq> []" and "en_weight (last (bw_Peers t)) = 0"
  shows "bw_Step t = 0 \<and> (\<exists>u. random_i t = Some (Inr (unat (bw_Pos t) mod length (bw_Peers t), u))
    \<and> (\<forall>e \<in> set (bw_Peers t). budget u (en_key e) = budget t (en_key e)))"
proof -
  have st: "bw_Step t = step_from 0 (bw_Peers t)" and ok: "bw_ok t"
    using bw_update_spec [OF bal_reach_ok [OF assms(1)] assms(2), of hash_name hash_seed P] assms(3) by auto
  have "step_from 0 (butlast (bw_Peers t) @ [last (bw_Peers t)]) = 0" unfolding step_from_append using assms(5) by simp
  then have z: "bw_Step t = 0" using st assms(4) by simp
  obtain x xs where "[0..<length (bw_Peers t)] = 0 # xs" using assms(4) by (cases "[0..<length (bw_Peers t)]") (auto simp: upt_eq_Cons_conv)
  then have "find (\<lambda>i. bw_Step t \<le> budget t (key_at t i)) (rr_positions t) = Some (unat (bw_Pos t) mod length (bw_Peers t))"
    using budget_nonneg [OF ok] z by (simp add: rr_positions_def)
  from random_i_found [OF ok assms(4) this] obtain u where
    u: "random_i t = Some (Inr (unat (bw_Pos t) mod length (bw_Peers t), u))"
    "spent_at t 0 (unat (bw_Pos t) mod length (bw_Peers t)) u" by blast
  then have "\<forall>e \<in> set (bw_Peers t). budget u (en_key e) = budget t (en_key e)"
    using z by (auto simp: spent_at_def in_set_conv_nth)
  then show ?thesis using z u(1) by blast
qed

theorem balancer_zero_step_witness:
  "\<exists>t :: by_weight. bw_Peers t = two_peers 6 0 \<and> bw_Step t = 0"
proof -
  have e: "entries_ok (two_peers 6 0)" by (auto simp: entries_ok_def two_peers_def)
  obtain t where t: "bw_update (\<lambda>_. 0) (\<lambda>_ _. 0) plain_params (two_peers 6 0) balancer_new = Inr t" "bw_Peers t = two_peers 6 0"
    using two_peers_update [of 6 0 "\<lambda>_. 0" "\<lambda>_ _. 0"] by auto
  have "bw_Step t = 0" using t(2) by (intro balancer_zero_step [OF reach_new e t(1), THEN conjunct1]) (simp_all add: two_peers_def)
  then show ?thesis using t(2) by blast
qed

end
