(* ===== verification/Etcd.thy ===== *)
theory Etcd
  imports Text_Codecs Text_Parsers
begin

text \<open>
  The client of etcd of \<open>etcd/\<close>: the requests of \<open>Protocol.hpp\<close> as JSON documents, the answers and
  how they are checked, and the operations of \<open>Etcd::Client\<close>. The service behind the HTTP call is a
  parameter, and so are jsoncpp's reader and writer; the locale \<open>etcd_service\<close> states what the
  documentation of etcd says about the requests that the client sends, and the client on top of it
  is a provider of the locale \<open>etcd_store\<close>, a map with compare and swap whose calls may fail before
  or after they took effect.
\<close>

section \<open>JSON values\<close>

text \<open>
  The values of jsoncpp, with the members of an object in the order of its map. Real numbers are
  left out: no code here reads or writes one.
\<close>

datatype json =
    JNull
  | JBool bool
  | JInt int
  | JStr "byte list"
  | JArr "json list"
  | JObj "(byte list \<times> json) list"

definition json_logic :: exn where "json_logic = LogicError ''Json''"

text \<open>The \<open>const\<close> access operators: what is missing is null, another type is refused.\<close>

definition js_member :: "byte list \<Rightarrow> json \<Rightarrow> json result" where
  "js_member k j =
     (case j of JNull \<Rightarrow> Inr JNull
      | JObj ms \<Rightarrow> Inr (case map_of ms k of None \<Rightarrow> JNull | Some v \<Rightarrow> v)
      | _ \<Rightarrow> Inl json_logic)"

definition js_index :: "nat \<Rightarrow> json \<Rightarrow> json result" where
  "js_index i j =
     (case j of JNull \<Rightarrow> Inr JNull
      | JArr vs \<Rightarrow> Inr (if i < length vs then vs ! i else JNull)
      | _ \<Rightarrow> Inl json_logic)"

definition js_isObject :: "json \<Rightarrow> bool" where
  "js_isObject j = (case j of JObj _ \<Rightarrow> True | _ \<Rightarrow> False)"

definition js_isMember :: "byte list \<Rightarrow> json \<Rightarrow> bool" where
  "js_isMember k j = (case j of JObj ms \<Rightarrow> map_of ms k \<noteq> None | _ \<Rightarrow> False)"

definition js_asString :: "json \<Rightarrow> byte list result" where
  "js_asString j =
     (case j of JNull \<Rightarrow> Inr []
      | JBool b \<Rightarrow> Inr (bytes_of (if b then ''true'' else ''false''))
      | JInt i \<Rightarrow> Inr (bytes_of (if i < 0 then ''-'' @ to_string (nat (- i)) else to_string (nat i)))
      | JStr s \<Rightarrow> Inr s
      | _ \<Rightarrow> Inl json_logic)"

definition js_asBool :: "json \<Rightarrow> bool result" where
  "js_asBool j =
     (case j of JNull \<Rightarrow> Inr False | JBool b \<Rightarrow> Inr b | JInt i \<Rightarrow> Inr (i \<noteq> 0) | _ \<Rightarrow> Inl json_logic)"

record json_ops =
  js_parse :: "byte list \<Rightarrow> json result"
  js_write :: "json \<Rightarrow> byte list"

section \<open>Requests\<close>

definition b64_std :: base64_flags where
  "b64_std = \<lparr>NO_PADDING = False, URL_SAFE = False\<rparr>"

definition jkey :: "string \<Rightarrow> byte list \<Rightarrow> byte list \<times> json" where
  "jkey k v = (bytes_of k, JStr (b64_encode b64_std v))"

definition jtext :: "string \<Rightarrow> string \<Rightarrow> byte list \<times> json" where
  "jtext k v = (bytes_of k, JStr (bytes_of v))"

definition req_get :: "byte list \<Rightarrow> json" where
  "req_get aKey = JObj [jkey ''key'' aKey]"

definition req_put :: "byte list \<Rightarrow> byte list \<Rightarrow> int \<Rightarrow> json" where
  "req_put aKey aValue aLease =
     JObj ([jkey ''key'' aKey] @ (if 0 < aLease then [(bytes_of ''lease'', JInt aLease)] else []) @ [jkey ''value'' aValue])"

definition range_end :: "byte list \<Rightarrow> byte list" where
  "range_end aKey = aKey @ [0xFF]"

definition req_remove :: "byte list \<Rightarrow> bool \<Rightarrow> json" where
  "req_remove aKey aRange = JObj ([jkey ''key'' aKey] @ (if aRange then [jkey ''range_end'' (range_end aKey)] else []))"

definition req_list :: "byte list \<Rightarrow> int \<Rightarrow> bool \<Rightarrow> json" where
  "req_list aKey aLimit aKeysOnly =
     JObj ([jkey ''key'' aKey] @ (if aKeysOnly then [(bytes_of ''keys_only'', JBool True)] else [])
           @ (if 0 < aLimit then [(bytes_of ''limit'', JInt aLimit)] else []) @ [jkey ''range_end'' (range_end aKey)])"

definition req_createLease :: "int \<Rightarrow> json" where
  "req_createLease aTTL = JObj [(bytes_of ''TTL'', JInt aTTL)]"

definition req_leaseID :: "int \<Rightarrow> json" where
  "req_leaseID aLease = JObj [(bytes_of ''ID'', JInt aLease)]"

definition txn_json :: "(byte list \<times> json) list \<Rightarrow> string \<Rightarrow> json \<Rightarrow> json" where
  "txn_json sCompare sName sOp =
     JObj [(bytes_of ''compare'', JArr [JObj sCompare]), (bytes_of ''success'', JArr [JObj [(bytes_of sName, sOp)]])]"

definition req_atomicPut :: "byte list \<Rightarrow> byte list \<Rightarrow> json" where
  "req_atomicPut aKey aValue =
     txn_json [(bytes_of ''create_revision'', JInt 0), jkey ''key'' aKey, jtext ''result'' ''EQUAL'', jtext ''target'' ''CREATE'']
       ''request_put'' (JObj [jkey ''key'' aKey, jkey ''value'' aValue])"

definition req_atomicUpdate :: "byte list \<Rightarrow> byte list \<Rightarrow> byte list \<Rightarrow> json" where
  "req_atomicUpdate aKey aOld aValue =
     txn_json [jkey ''key'' aKey, jtext ''result'' ''EQUAL'', jtext ''target'' ''VALUE'', jkey ''value'' aOld]
       ''request_put'' (JObj [jkey ''key'' aKey, jkey ''value'' aValue])"

definition req_atomicRemove :: "byte list \<Rightarrow> byte list \<Rightarrow> json" where
  "req_atomicRemove aKey aOld =
     txn_json [jkey ''key'' aKey, jtext ''result'' ''EQUAL'', jtext ''target'' ''VALUE'', jkey ''value'' aOld]
       ''request_delete_range'' (JObj [jkey ''key'' aKey])"

section \<open>Answers\<close>

definition etcd_bad :: exn where "etcd_bad = RuntimeError ''etcd: bad server response''"
definition etcd_timeout :: exn where "etcd_timeout = RuntimeError ''etcd timeout''"
definition txn_error :: exn where "txn_error = RuntimeError ''etcd: transaction error''"

definition parseResponse :: "json_ops \<Rightarrow> nat \<Rightarrow> byte list \<Rightarrow> json result" where
  "parseResponse J aCode aBody =
     (if aCode = 200 then (case js_parse J aBody of Inl _ \<Rightarrow> Inl etcd_bad | Inr j \<Rightarrow> Inr j) else Inl etcd_bad)"

definition checkTxnResponse :: "json \<Rightarrow> unit result" where
  "checkTxnResponse aResponse =
     (if js_isObject aResponse
      then bindr (bindr (js_member (bytes_of ''succeeded'') aResponse) js_asBool) (\<lambda>b. if b then Inr () else Inl txn_error)
      else Inl txn_error)"

section \<open>The client\<close>

text \<open>
  The service maps the path of the API and the body of a request to the status and the body of the
  answer, \<open>None\<close> when the call ended with an error of the network or a timeout. The argument of type
  \<open>'f\<close> stands for what happens to the call on its way.
\<close>

type_synonym ('f, 'e) service = "'f \<Rightarrow> byte list \<Rightarrow> byte list \<Rightarrow> 'e \<Rightarrow> (nat \<times> byte list) option \<times> 'e"

record ('f, 'e) etcd_client =
  ec_service :: "('f, 'e) service"
  ec_json :: json_ops
  ec_prefix :: "byte list"

definition et_request :: "('f, 'e) etcd_client \<Rightarrow> 'f \<Rightarrow> string \<Rightarrow> json \<Rightarrow> 'e \<Rightarrow> json result \<times> 'e" where
  "et_request C f aAPI aBody e =
     (case ec_service C f (bytes_of aAPI) (js_write (ec_json C) aBody) e of
        (None, e) \<Rightarrow> (Inl etcd_timeout, e)
      | (Some (sCode, sBody), e) \<Rightarrow> (parseResponse (ec_json C) sCode sBody, e))"

definition et_get :: "('f, 'e) etcd_client \<Rightarrow> 'f \<Rightarrow> byte list \<Rightarrow> 'e \<Rightarrow> byte list result \<times> 'e" where
  "et_get C f aKey e =
     (let (r, e) = et_request C f ''kv/range'' (req_get (ec_prefix C @ aKey)) e
      in (bindr r (\<lambda>sResult.
            if js_isObject sResult \<and> js_isMember (bytes_of ''kvs'') sResult
            then bindr (js_member (bytes_of ''kvs'') sResult) (\<lambda>k. bindr (js_index 0 k) (\<lambda>p.
                 bindr (js_member (bytes_of ''value'') p) (\<lambda>v. bindr (js_asString v) (b64_decode b64_std))))
            else Inr []), e))"

definition et_put :: "('f, 'e) etcd_client \<Rightarrow> 'f \<Rightarrow> byte list \<Rightarrow> byte list \<Rightarrow> int \<Rightarrow> 'e \<Rightarrow> unit result \<times> 'e" where
  "et_put C f aKey aValue aLease e =
     (let (r, e) = et_request C f ''kv/put'' (req_put (ec_prefix C @ aKey) aValue aLease) e in (bindr r (\<lambda>_. Inr ()), e))"

definition et_remove :: "('f, 'e) etcd_client \<Rightarrow> 'f \<Rightarrow> byte list \<Rightarrow> bool \<Rightarrow> 'e \<Rightarrow> unit result \<times> 'e" where
  "et_remove C f aKey aRange e =
     (let (r, e) = et_request C f ''kv/deleterange'' (req_remove (ec_prefix C @ aKey) aRange) e in (bindr r (\<lambda>_. Inr ()), e))"

definition pair_from_json :: "json \<Rightarrow> (byte list \<times> byte list) result" where
  "pair_from_json aValue =
     (if \<not> js_isObject aValue then Inl (RuntimeError ''etcd: not object value'')
      else bindr (js_member (bytes_of ''key'') aValue) (\<lambda>k. bindr (js_asString k) (\<lambda>k. bindr (b64_decode b64_std k) (\<lambda>key.
           bindr (js_member (bytes_of ''value'') aValue) (\<lambda>v. bindr (js_asString v) (\<lambda>v. bindr (b64_decode b64_std v) (\<lambda>value.
             Inr (key, value))))))))"

fun pairs_from_json :: "json list \<Rightarrow> (byte list \<times> byte list) list result" where
  "pairs_from_json [] = Inr []"
| "pairs_from_json (j # js) = bindr (pair_from_json j) (\<lambda>p. bindr (pairs_from_json js) (\<lambda>ps. Inr (p # ps)))"

definition list_from_value :: "json \<Rightarrow> (byte list \<times> byte list) list result" where
  "list_from_value aJson = (case aJson of JArr vs \<Rightarrow> pairs_from_json vs | _ \<Rightarrow> Inl (InvalidArgument ''not array value''))"

definition et_list :: "('f, 'e) etcd_client \<Rightarrow> 'f \<Rightarrow> byte list \<Rightarrow> int \<Rightarrow> bool \<Rightarrow> 'e \<Rightarrow> (byte list \<times> byte list) list result \<times> 'e" where
  "et_list C f aKey aLimit aKeysOnly e =
     (let (r, e) = et_request C f ''kv/range'' (req_list (ec_prefix C @ aKey) aLimit aKeysOnly) e
      in (bindr r (\<lambda>sResult.
            if js_isObject sResult \<and> js_isMember (bytes_of ''kvs'') sResult
            then bindr (js_member (bytes_of ''kvs'') sResult) (\<lambda>k. bindr (list_from_value k) (\<lambda>sList.
                 Inr (map (\<lambda>(key, value). (drop (length (ec_prefix C)) key, value)) sList)))
            else Inr []), e))"

definition et_createLease :: "('f, 'e) etcd_client \<Rightarrow> 'f \<Rightarrow> int \<Rightarrow> 'e \<Rightarrow> int result \<times> 'e" where
  "et_createLease C f aTTL e =
     (let (r, e) = et_request C f ''lease/grant'' (req_createLease aTTL) e
      in (bindr r (\<lambda>sResult. bindr (js_member (bytes_of ''ID'') sResult) (\<lambda>i. bindr (js_asString i) (Atoi 64))), e))"

definition et_updateLease :: "('f, 'e) etcd_client \<Rightarrow> 'f \<Rightarrow> int \<Rightarrow> 'e \<Rightarrow> unit result \<times> 'e" where
  "et_updateLease C f aLease e =
     (let (r, e) = et_request C f ''lease/keepalive'' (req_leaseID aLease) e in (bindr r (\<lambda>_. Inr ()), e))"

definition et_dropLease :: "('f, 'e) etcd_client \<Rightarrow> 'f \<Rightarrow> int \<Rightarrow> 'e \<Rightarrow> unit result \<times> 'e" where
  "et_dropLease C f aLease e =
     (let (r, e) = et_request C f ''lease/revoke'' (req_leaseID aLease) e in (bindr r (\<lambda>_. Inr ()), e))"

definition et_atomicPut :: "('f, 'e) etcd_client \<Rightarrow> 'f \<Rightarrow> byte list \<Rightarrow> byte list \<Rightarrow> 'e \<Rightarrow> unit result \<times> 'e" where
  "et_atomicPut C f aKey aValue e =
     (let (r, e) = et_request C f ''kv/txn'' (req_atomicPut (ec_prefix C @ aKey) aValue) e in (bindr r checkTxnResponse, e))"

definition et_atomicUpdate :: "('f, 'e) etcd_client \<Rightarrow> 'f \<Rightarrow> byte list \<Rightarrow> byte list \<Rightarrow> byte list \<Rightarrow> 'e \<Rightarrow> unit result \<times> 'e" where
  "et_atomicUpdate C f aKey aOld aValue e =
     (let (r, e) = et_request C f ''kv/txn'' (req_atomicUpdate (ec_prefix C @ aKey) aOld aValue) e in (bindr r checkTxnResponse, e))"

definition et_atomicRemove :: "('f, 'e) etcd_client \<Rightarrow> 'f \<Rightarrow> byte list \<Rightarrow> byte list \<Rightarrow> 'e \<Rightarrow> unit result \<times> 'e" where
  "et_atomicRemove C f aKey aOld e =
     (let (r, e) = et_request C f ''kv/txn'' (req_atomicRemove (ec_prefix C @ aKey) aOld) e in (bindr r checkTxnResponse, e))"

section \<open>A store with compare and swap\<close>

text \<open>
  What the users of the client rely on. A key that does not exist reads as the empty string. A call
  that returns took effect; a call that throws had no effect, or took effect as well when only its
  answer was lost.
\<close>

locale etcd_store =
  fixes get :: "'f \<Rightarrow> byte list \<Rightarrow> 'e \<Rightarrow> byte list result \<times> 'e"
    and atomicPut :: "'f \<Rightarrow> byte list \<Rightarrow> byte list \<Rightarrow> 'e \<Rightarrow> unit result \<times> 'e"
    and atomicUpdate :: "'f \<Rightarrow> byte list \<Rightarrow> byte list \<Rightarrow> byte list \<Rightarrow> 'e \<Rightarrow> unit result \<times> 'e"
    and content :: "'e \<Rightarrow> byte list \<Rightarrow> byte list"
  assumes get_content: "get f k e = (x, e') \<Longrightarrow> content e' = content e \<and> (\<forall>u. x = Inr u \<longrightarrow> u = content e k)"
    and put_content: "atomicPut f k v e = (r, e') \<Longrightarrow>
      content e' = content e \<and> r \<noteq> Inr () \<or> content e k = [] \<and> content e' = (content e)(k := v)"
    and update_content: "atomicUpdate f k old v e = (r, e') \<Longrightarrow>
      content e' = content e \<and> r \<noteq> Inr () \<or> content e k = old \<and> content e' = (content e)(k := v)"
begin

text \<open>The idiom of the users: create the key when it was empty, else replace what was read.\<close>

lemma swap_content:
  "(if old = [] then atomicPut f k v e else atomicUpdate f k old v e) = (r, e') \<Longrightarrow>
    content e' = content e \<and> r \<noteq> Inr () \<or> content e k = old \<and> content e' = (content e)(k := v)"
  using put_content [of f k v e r e'] update_content [of f k old v e r e'] by (auto split: if_splits)

end

section \<open>What etcd documents\<close>

text \<open>Empty values are left out of the answers, and so is \<open>succeeded\<close> when it is false.\<close>

definition value_field :: "byte list \<Rightarrow> (byte list \<times> json) list \<Rightarrow> bool" where
  "value_field v fs \<longleftrightarrow> map_of fs (bytes_of ''value'') = (if v = [] then None else Some (JStr (b64_encode b64_std v)))"

definition range_answer :: "json_ops \<Rightarrow> byte list option \<Rightarrow> byte list \<Rightarrow> bool" where
  "range_answer J v b \<longleftrightarrow>
     (\<exists>ms. js_parse J b = Inr (JObj ms) \<and>
        (case v of None \<Rightarrow> map_of ms (bytes_of ''kvs'') = None
         | Some v \<Rightarrow> \<exists>fs rest. map_of ms (bytes_of ''kvs'') = Some (JArr (JObj fs # rest)) \<and> value_field v fs))"

definition pair_answer :: "byte list \<times> byte list \<Rightarrow> json \<Rightarrow> bool" where
  "pair_answer = (\<lambda>(k, v) j. \<exists>fs. j = JObj fs \<and> map_of fs (bytes_of ''key'') = Some (JStr (b64_encode b64_std k)) \<and> value_field v fs)"

definition list_answer :: "json_ops \<Rightarrow> (byte list \<times> byte list) list \<Rightarrow> byte list \<Rightarrow> bool" where
  "list_answer J ps b \<longleftrightarrow>
     (\<exists>ms. js_parse J b = Inr (JObj ms) \<and>
        (if ps = [] then map_of ms (bytes_of ''kvs'') = None
         else \<exists>js. map_of ms (bytes_of ''kvs'') = Some (JArr js) \<and> list_all2 pair_answer ps js))"

definition txn_answer :: "json_ops \<Rightarrow> bool \<Rightarrow> byte list \<Rightarrow> bool" where
  "txn_answer J succeeded b \<longleftrightarrow>
     (\<exists>ms. js_parse J b = Inr (JObj ms) \<and>
        map_of ms (bytes_of ''succeeded'') = (if succeeded then Some (JBool True) else None))"

text \<open>
  A transaction is carried out as a whole, whether its answer arrives or not, and the answer says
  whether its comparison held.
\<close>

definition txn_effect :: "json_ops \<Rightarrow> bool \<Rightarrow> 's \<Rightarrow> 's \<Rightarrow> (nat \<times> byte list) option \<Rightarrow> 's \<Rightarrow> bool" where
  "txn_effect J holds s t a s' \<longleftrightarrow>
     (s' = s \<or> holds \<and> s' = t) \<and> (\<forall>b. a = Some (200, b) \<longrightarrow> txn_answer J holds b \<and> s' = (if holds then t else s))"

text \<open>The keys from \<open>key\<close> up to, and without, \<open>range_end\<close>, in the order of their bytes.\<close>

definition in_range :: "byte list \<Rightarrow> byte list \<Rightarrow> bool" where
  "in_range aKey k \<longleftrightarrow> \<not> lex_less k aKey \<and> lex_less k (range_end aKey)"

locale etcd_service =
  fixes C :: "('f, 'e) etcd_client" and kv :: "'e \<Rightarrow> byte list \<Rightarrow> byte list option"
  assumes range_law: "ec_service C f (bytes_of ''kv/range'') (js_write (ec_json C) (req_get k)) e = (a, e')
      \<Longrightarrow> kv e' = kv e \<and> (\<forall>b. a = Some (200, b) \<longrightarrow> range_answer (ec_json C) (kv e k) b)"
    and list_law: "ec_service C f (bytes_of ''kv/range'') (js_write (ec_json C) (req_list k 0 False)) e = (a, e')
      \<Longrightarrow> kv e' = kv e \<and> (\<forall>b. a = Some (200, b) \<longrightarrow> (\<exists>ps. distinct (map fst ps)
            \<and> (\<forall>key v. (key, v) \<in> set ps \<longleftrightarrow> kv e key = Some v \<and> in_range k key) \<and> list_answer (ec_json C) ps b))"
    and put_law: "ec_service C f (bytes_of ''kv/txn'') (js_write (ec_json C) (req_atomicPut k v)) e = (a, e')
      \<Longrightarrow> txn_effect (ec_json C) (kv e k = None) (kv e) ((kv e)(k \<mapsto> v)) a (kv e')"
    and update_law: "ec_service C f (bytes_of ''kv/txn'') (js_write (ec_json C) (req_atomicUpdate k old v)) e = (a, e')
      \<Longrightarrow> txn_effect (ec_json C) (kv e k = Some old) (kv e) ((kv e)(k \<mapsto> v)) a (kv e')"
    and remove_law: "ec_service C f (bytes_of ''kv/txn'') (js_write (ec_json C) (req_atomicRemove k old)) e = (a, e')
      \<Longrightarrow> txn_effect (ec_json C) (kv e k = Some old) (kv e) ((kv e)(k := None)) a (kv e')"

section \<open>The client on top of the service\<close>

definition et_content :: "('f, 'e) etcd_client \<Rightarrow> ('e \<Rightarrow> byte list \<Rightarrow> byte list option) \<Rightarrow> 'e \<Rightarrow> byte list \<Rightarrow> byte list" where
  "et_content C kv e k = (case kv e (ec_prefix C @ k) of None \<Rightarrow> [] | Some v \<Rightarrow> v)"

lemma et_content_upd: "et_content C (\<lambda>_. (kv e)(ec_prefix C @ k \<mapsto> v)) e' = (et_content C kv e)(k := v)"
  by (rule ext) (simp add: et_content_def)

lemma et_content_cong: "kv e = kv' e' \<Longrightarrow> et_content C kv e = et_content C kv' e'"
  by (rule ext) (simp add: et_content_def)

lemma value_field_read:
  "value_field v fs \<Longrightarrow> bindr (js_member (bytes_of ''value'') (JObj fs)) (\<lambda>v. bindr (js_asString v) (b64_decode b64_std)) = Inr v"
  using base64_roundtrip [of b64_std "[]"]
  by (simp add: value_field_def js_member_def js_asString_def base64_roundtrip split: if_splits)

text \<open>What a transaction of the client returns, in terms of its effect.\<close>

definition cas_result :: "bool \<Rightarrow> 's \<Rightarrow> 's \<Rightarrow> unit result \<Rightarrow> 's \<Rightarrow> bool" where
  "cas_result holds s t r s' \<longleftrightarrow>
     (s' = s \<or> holds \<and> s' = t) \<and> (r = Inr () \<longrightarrow> holds \<and> s' = t) \<and> (r = Inl txn_error \<longrightarrow> \<not> holds \<and> s' = s)"

lemma txn_effect_result:
  assumes "\<And>a e'. ec_service C f (bytes_of ''kv/txn'') (js_write (ec_json C) j) e = (a, e') \<Longrightarrow> txn_effect (ec_json C) holds s t a (kv e')"
    and "et_request C f ''kv/txn'' j e = (q, e')"
  shows "cas_result holds s t (bindr q checkTxnResponse) (kv e')"
proof -
  obtain a e1 where a: "ec_service C f (bytes_of ''kv/txn'') (js_write (ec_json C) j) e = (a, e1)" by fastforce
  have e1: "e1 = e'" using assms(2) a by (auto simp: et_request_def split: option.splits prod.splits)
  have x: "txn_effect (ec_json C) holds s t a (kv e')" using assms(1) [OF a] e1 by simp
  show ?thesis
  proof (cases a)
    case None
    then show ?thesis using assms(2) a x
      by (auto simp: et_request_def cas_result_def txn_effect_def etcd_timeout_def txn_error_def)
  next
    case (Some cb)
    obtain c b where cb: "cb = (c, b)" by (cases cb)
    have q: "q = parseResponse (ec_json C) c b" using assms(2) a Some cb by (simp add: et_request_def)
    show ?thesis
    proof (cases "c = 200")
      case False
      then show ?thesis using x by (auto simp: q parseResponse_def cas_result_def txn_effect_def etcd_bad_def txn_error_def)
    next
      case True
      then have y: "txn_answer (ec_json C) holds b" "kv e' = (if holds then t else s)" using x Some cb by (auto simp: txn_effect_def)
      then show ?thesis using True
        by (auto simp: q parseResponse_def txn_answer_def checkTxnResponse_def js_isObject_def js_member_def js_asBool_def cas_result_def)
    qed
  qed
qed

context etcd_service
begin

lemma client_atomicPut:
  "et_atomicPut C f k v e = (r, e') \<Longrightarrow>
    cas_result (kv e (ec_prefix C @ k) = None) (kv e) ((kv e)(ec_prefix C @ k \<mapsto> v)) r (kv e')"
  using txn_effect_result [OF put_law] by (fastforce simp: et_atomicPut_def split: prod.splits)

lemma client_atomicUpdate:
  "et_atomicUpdate C f k old v e = (r, e') \<Longrightarrow>
    cas_result (kv e (ec_prefix C @ k) = Some old) (kv e) ((kv e)(ec_prefix C @ k \<mapsto> v)) r (kv e')"
  using txn_effect_result [OF update_law] by (fastforce simp: et_atomicUpdate_def split: prod.splits)

lemma client_atomicRemove:
  "et_atomicRemove C f k old e = (r, e') \<Longrightarrow>
    cas_result (kv e (ec_prefix C @ k) = Some old) (kv e) ((kv e)(ec_prefix C @ k := None)) r (kv e')"
  using txn_effect_result [OF remove_law] by (fastforce simp: et_atomicRemove_def split: prod.splits)

lemma client_get:
  assumes "et_get C f k e = (r, e')"
  shows "kv e' = kv e \<and> (\<forall>v. r = Inr v \<longrightarrow> v = et_content C kv e k)"
proof -
  let ?k = "ec_prefix C @ k"
  obtain a e1 where a: "ec_service C f (bytes_of ''kv/range'') (js_write (ec_json C) (req_get ?k)) e = (a, e1)" by fastforce
  have e1: "e1 = e'" using assms a by (auto simp: et_get_def et_request_def split: option.splits prod.splits)
  have law: "kv e' = kv e" "\<And>b. a = Some (200, b) \<Longrightarrow> range_answer (ec_json C) (kv e ?k) b"
    using range_law [OF a] e1 by blast+
  show ?thesis
  proof (cases "\<exists>b. a = Some (200, b)")
    case False
    then show ?thesis using law(1) assms a
      by (auto simp: et_get_def et_request_def parseResponse_def split: option.splits prod.splits)
  next
    case True
    then obtain b where b: "a = Some (200, b)" by blast
    then obtain ms where ms: "js_parse (ec_json C) b = Inr (JObj ms)"
      "case kv e ?k of None \<Rightarrow> map_of ms (bytes_of ''kvs'') = None
       | Some v \<Rightarrow> \<exists>fs rest. map_of ms (bytes_of ''kvs'') = Some (JArr (JObj fs # rest)) \<and> value_field v fs"
      using law(2) unfolding range_answer_def by blast
    have "r = Inr (et_content C kv e k)"
      using assms a b ms value_field_read
      by (auto simp: et_get_def et_request_def parseResponse_def js_isObject_def js_isMember_def js_member_def [of "bytes_of ''kvs''"]
          js_index_def et_content_def split: option.splits)
    then show ?thesis using law(1) by simp
  qed
qed

end

sublocale etcd_service \<subseteq> store: etcd_store "et_get C" "et_atomicPut C" "et_atomicUpdate C" "et_content C kv"
proof
  show "et_content C kv e' = et_content C kv e \<and> (\<forall>u. x = Inr u \<longrightarrow> u = et_content C kv e k)"
    if "et_get C f k e = (x, e')" for f k e x e'
    using client_get [OF that] et_content_cong by metis
next
  fix f k v e r e'
  assume "et_atomicPut C f k v e = (r, e')"
  from client_atomicPut [OF this]
  show "et_content C kv e' = et_content C kv e \<and> r \<noteq> Inr ()
      \<or> et_content C kv e k = [] \<and> et_content C kv e' = (et_content C kv e)(k := v)"
    unfolding cas_result_def
    by (metis (mono_tags, lifting) et_content_cong et_content_def et_content_upd option.simps(4))
next
  fix f k old v e r e'
  assume "et_atomicUpdate C f k old v e = (r, e')"
  from client_atomicUpdate [OF this]
  show "et_content C kv e' = et_content C kv e \<and> r \<noteq> Inr ()
      \<or> et_content C kv e k = old \<and> et_content C kv e' = (et_content C kv e)(k := v)"
    unfolding cas_result_def
    by (metis (mono_tags, lifting) et_content_cong et_content_def et_content_upd option.simps(5))
qed

section \<open>Ranges\<close>

lemma in_range_Cons: "in_range (a # aKey) (b # k) \<longleftrightarrow> a = b \<and> in_range aKey k"
  by (auto simp: in_range_def range_end_def)

lemma in_range_iff: "in_range aKey k \<longleftrightarrow> (\<exists>r. k = aKey @ r \<and> (r = [] \<or> hd r < 0xFF))"
proof (induction aKey arbitrary: k)
  case Nil
  have "lex_less k [] = False" by (cases k) simp_all
  moreover have "lex_less k [0xFF] \<longleftrightarrow> k = [] \<or> hd k < 0xFF" by (cases k; cases "tl k") auto
  ultimately show ?case by (simp add: in_range_def range_end_def)
next
  case (Cons a aKey)
  show ?case
  proof (cases k)
    case Nil
    then show ?thesis by (simp add: in_range_def)
  next
    case (Cons b k')
    then show ?thesis using Cons.IH [of k'] by (auto simp: in_range_Cons)
  qed
qed

lemma pair_answer_read: "pair_answer p j \<Longrightarrow> pair_from_json j = Inr p"
  using value_field_read
  by (auto simp: pair_answer_def pair_from_json_def js_isObject_def js_member_def [of "bytes_of ''key''"] js_asString_def base64_roundtrip
      bindr_iffs)

lemma pairs_answer_read: "list_all2 pair_answer ps js \<Longrightarrow> pairs_from_json js = Inr ps"
  by (induction rule: list_all2_induct) (simp_all add: pair_answer_read)

context etcd_service
begin

lemma client_list:
  assumes "et_list C f k 0 False e = (r, e')"
  shows "kv e' = kv e \<and> (\<forall>ps. r = Inr ps \<longrightarrow> distinct (map fst ps)
    \<and> (\<forall>key v. (key, v) \<in> set ps \<longleftrightarrow> kv e (ec_prefix C @ key) = Some v \<and> in_range k key))"
proof -
  let ?p = "ec_prefix C"
  obtain a e1 where a: "ec_service C f (bytes_of ''kv/range'') (js_write (ec_json C) (req_list (?p @ k) 0 False)) e = (a, e1)" by fastforce
  have e1: "e1 = e'" using assms a by (auto simp: et_list_def et_request_def split: option.splits prod.splits)
  have law: "kv e' = kv e" "\<And>b. a = Some (200, b) \<Longrightarrow> (\<exists>ps. distinct (map fst ps)
            \<and> (\<forall>key v. (key, v) \<in> set ps \<longleftrightarrow> kv e key = Some v \<and> in_range (?p @ k) key) \<and> list_answer (ec_json C) ps b)"
    using list_law [OF a] e1 by blast+
  show ?thesis
  proof (cases "\<exists>b. a = Some (200, b)")
    case False
    then show ?thesis using law(1) assms a
      by (auto simp: et_list_def et_request_def parseResponse_def split: option.splits prod.splits)
  next
    case True
    then obtain b where b: "a = Some (200, b)" by blast
    then obtain ps where ps: "distinct (map fst ps)" "list_answer (ec_json C) ps b"
      "\<And>key v. (key, v) \<in> set ps \<longleftrightarrow> kv e key = Some v \<and> in_range (?p @ k) key"
      using law(2) by blast
    obtain qs where qs: "ps = map (\<lambda>(key, v). (?p @ key, v)) qs" using ps(3)
    proof -
      have "ps = map (\<lambda>(key, v). (?p @ key, v)) (map (\<lambda>(key, v). (drop (length ?p) key, v)) ps)"
        unfolding map_map by (rule map_idI [symmetric]) (use ps(3) in \<open>auto simp: in_range_iff\<close>)
      then show thesis using that by blast
    qed
    have "r = Inr qs" using assms a b ps(2) pairs_answer_read
      by (auto simp: et_list_def et_request_def parseResponse_def list_answer_def js_isObject_def js_isMember_def js_member_def
          list_from_value_def qs split_def comp_def split: if_splits)
    moreover have "distinct (map fst qs)" using ps(1) by (auto simp: qs split_def distinct_map inj_on_def)
    moreover have "(key, v) \<in> set qs \<longleftrightarrow> kv e (?p @ key) = Some v \<and> in_range k key" for key v
      using ps(3) [of "?p @ key" v] by (auto simp: qs in_range_iff)
    ultimately show ?thesis using law(1) by simp
  qed
qed

end

end
