(* ===== verification/Etcd_Mem.thy ===== *)
theory Etcd_Mem
  imports Etcd
begin

text \<open>
  An etcd in memory and a format for JSON values, the concrete functions on which the witnesses
  evaluate the clients of etcd. The service reads the requests that \<open>Protocol.hpp\<close> writes.
\<close>

section \<open>A format for JSON values\<close>

text \<open>Each value as the instructions of a stack machine that builds it.\<close>

fun plain_write :: "json \<Rightarrow> byte list" where
  "plain_write JNull = [0]"
| "plain_write (JBool b) = [1, if b then 1 else 0]"
| "plain_write (JStr s) = 2 # concat (map (\<lambda>b. [3, b]) s)"
| "plain_write (JArr vs) = 4 # concat (map (\<lambda>v. plain_write v @ [5]) vs)"
| "plain_write (JObj ms) = 6 # concat (map (\<lambda>(k, v). (2 # concat (map (\<lambda>b. [3, b]) k)) @ plain_write v @ [7]) ms)"
| "plain_write (JInt i) = 8 # replicate (nat i) 9 @ replicate (nat (- i)) 10"

fun plain_read :: "byte list \<Rightarrow> json list \<Rightarrow> json list" where
  "plain_read [] st = st"
| "plain_read (c # bs) st =
     (if c = 0 then plain_read bs (JNull # st)
      else if c = 1 then (case bs of [] \<Rightarrow> [] | b # bs \<Rightarrow> plain_read bs (JBool (b = 1) # st))
      else if c = 2 then plain_read bs (JStr [] # st)
      else if c = 3 then (case bs of [] \<Rightarrow> [] | b # bs \<Rightarrow> (case st of JStr s # st \<Rightarrow> plain_read bs (JStr (s @ [b]) # st) | _ \<Rightarrow> []))
      else if c = 4 then plain_read bs (JArr [] # st)
      else if c = 5 then (case st of v # JArr vs # st \<Rightarrow> plain_read bs (JArr (vs @ [v]) # st) | _ \<Rightarrow> [])
      else if c = 6 then plain_read bs (JObj [] # st)
      else if c = 7 then (case st of v # JStr k # JObj ms # st \<Rightarrow> plain_read bs (JObj (ms @ [(k, v)]) # st) | _ \<Rightarrow> [])
      else if c = 8 then plain_read bs (JInt 0 # st)
      else if c = 9 then (case st of JInt i # st \<Rightarrow> plain_read bs (JInt (i + 1) # st) | _ \<Rightarrow> [])
      else if c = 10 then (case st of JInt i # st \<Rightarrow> plain_read bs (JInt (i - 1) # st) | _ \<Rightarrow> [])
      else [])"

definition plain_json :: json_ops where
  "plain_json = \<lparr>js_parse = (\<lambda>bs. case plain_read bs [] of [j] \<Rightarrow> Inr j | _ \<Rightarrow> Inl (InvalidArgument ''json'')), js_write = plain_write\<rparr>"

lemma plain_read_chars: "plain_read (concat (map (\<lambda>b. [3, b]) s) @ bs) (JStr t # st) = plain_read bs (JStr (t @ s) # st)"
  by (induction s arbitrary: t) simp_all

lemma plain_read_up: "plain_read (replicate n 9 @ bs) (JInt i # st) = plain_read bs (JInt (i + int n) # st)"
  by (induction n arbitrary: i) (simp_all add: add.assoc)

lemma plain_read_down: "plain_read (replicate n 10 @ bs) (JInt i # st) = plain_read bs (JInt (i - int n) # st)"
  by (induction n arbitrary: i) (simp_all add: diff_diff_eq)

lemma plain_read_items:
  assumes "\<And>v bs st. v \<in> set vs \<Longrightarrow> plain_read (plain_write v @ bs) st = plain_read bs (v # st)"
  shows "plain_read (concat (map (\<lambda>v. plain_write v @ [5]) vs) @ bs) (JArr us # st) = plain_read bs (JArr (us @ vs) # st)"
  using assms by (induction vs arbitrary: us) simp_all

lemma plain_read_members:
  assumes "\<And>m bs st. m \<in> set ms \<Longrightarrow> plain_read (plain_write (snd m) @ bs) st = plain_read bs (snd m # st)"
  shows "plain_read (concat (map (\<lambda>(k, v). (2 # concat (map (\<lambda>b. [3, b]) k)) @ plain_write v @ [7]) ms) @ bs) (JObj ns # st)
    = plain_read bs (JObj (ns @ ms) # st)"
  using assms
proof (induction ms arbitrary: ns)
  case (Cons m ms)
  obtain k v where m: "m = (k, v)" by (cases m)
  have "plain_read (plain_write v @ bs) st = plain_read bs (v # st)" for bs st using Cons.prems [of m] m by simp
  then show ?case using Cons.IH Cons.prems by (simp add: m plain_read_chars)
qed simp

lemma plain_read_write: "plain_read (plain_write j @ bs) st = plain_read bs (j # st)"
proof (induction j arbitrary: bs st)
  case (JInt i)
  show ?case by (cases "0 \<le> i") (simp_all add: plain_read_up plain_read_down)
next
  case (JStr s)
  show ?case by (simp add: plain_read_chars)
next
  case (JArr vs)
  then show ?case using plain_read_items [of vs bs "[]" st] by simp
next
  case (JObj ms)
  then have "plain_read (plain_write (snd m) @ bs) st = plain_read bs (snd m # st)" if "m \<in> set ms" for m bs st
    using that by (metis prod.collapse snds.intros)
  then show ?case using plain_read_members [of ms bs "[]" st] by simp
qed simp_all

lemma plain_json_parse [simp]: "js_parse plain_json (js_write plain_json j) = Inr j"
  using plain_read_write [of j "[]" "[]"] by (simp add: plain_json_def)

lemma plain_write_nonempty [simp]: "js_write plain_json j \<noteq> []"
  by (cases j) (simp_all add: plain_json_def)

section \<open>The service\<close>

datatype net = Fine | Down | AnswerLost

type_synonym mem = "(byte list \<times> byte list) list"

abbreviation mem_kv :: "mem \<Rightarrow> byte list \<Rightarrow> byte list option" where "mem_kv \<equiv> map_of"

definition jfield :: "string \<Rightarrow> json \<Rightarrow> json" where
  "jfield k j = (case js_member (bytes_of k) j of Inl _ \<Rightarrow> JNull | Inr v \<Rightarrow> v)"

definition jfirst :: "json \<Rightarrow> json" where
  "jfirst j = (case js_index 0 j of Inl _ \<Rightarrow> JNull | Inr v \<Rightarrow> v)"

definition jbytes :: "string \<Rightarrow> json \<Rightarrow> byte list" where
  "jbytes k j = (case bindr (js_asString (jfield k j)) (b64_decode b64_std) of Inl _ \<Rightarrow> [] | Inr v \<Rightarrow> v)"

definition mem_pair :: "byte list \<times> byte list \<Rightarrow> json" where
  "mem_pair = (\<lambda>(k, v). JObj ([jkey ''key'' k] @ (if v = [] then [] else [jkey ''value'' v])))"

definition mem_range :: "json \<Rightarrow> mem \<Rightarrow> json" where
  "mem_range j e =
     (let ps = (if js_isMember (bytes_of ''range_end'') j
                then filter (\<lambda>(k, v). in_range (jbytes ''key'' j) k) (AList.clearjunk e)
                else (case mem_kv e (jbytes ''key'' j) of None \<Rightarrow> [] | Some v \<Rightarrow> [(jbytes ''key'' j, v)]))
      in JObj (if ps = [] then [] else [(bytes_of ''kvs'', JArr (map mem_pair ps))]))"

definition mem_txn :: "json \<Rightarrow> mem \<Rightarrow> json \<times> mem" where
  "mem_txn j e =
     (let c = jfirst (jfield ''compare'' j); s = jfirst (jfield ''success'' j); k = jbytes ''key'' c;
          holds = (if jfield ''target'' c = JStr (bytes_of ''CREATE'') then mem_kv e k = None else mem_kv e k = Some (jbytes ''value'' c))
      in if \<not> holds then (JObj [], e)
         else (JObj [(bytes_of ''succeeded'', JBool True)],
               if js_isMember (bytes_of ''request_put'') s then AList.update k (jbytes ''value'' (jfield ''request_put'' s)) e
               else AList.delete k e))"

definition mem_handle :: "byte list \<Rightarrow> json \<Rightarrow> mem \<Rightarrow> json \<times> mem" where
  "mem_handle api j e =
     (if api = bytes_of ''kv/range'' then (mem_range j e, e)
      else if api = bytes_of ''kv/txn'' then mem_txn j e
      else if api = bytes_of ''kv/put'' then (JObj [], AList.update (jbytes ''key'' j) (jbytes ''value'' j) e)
      else (JNull, e))"

definition mem_service :: "(net, mem) service" where
  "mem_service f api body e =
     (case js_parse plain_json body of
        Inl _ \<Rightarrow> (Some (400, []), e)
      | Inr j \<Rightarrow> if f = Down then (None, e)
                 else let (r, e) = mem_handle api j e in (if f = Fine then Some (200, js_write plain_json r) else None, e))"

definition mem_client :: "(net, mem) etcd_client" where
  "mem_client = \<lparr>ec_service = mem_service, ec_json = plain_json, ec_prefix = [112]\<rparr>"

lemmas field_defs = jfield_def jfirst_def js_member_def js_index_def js_isMember_def jbytes_def js_asString_def

lemma jbytes_jkey: "map_of ms (bytes_of k) = Some (JStr (b64_encode b64_std v)) \<Longrightarrow> jbytes k (JObj ms) = v"
  by (simp add: field_defs base64_roundtrip)

lemma mem_service_eq:
  "mem_service f api (js_write plain_json j) e =
     (if f = Down then (None, e)
      else (if f = Fine then Some (200, js_write plain_json (fst (mem_handle api j e))) else None, snd (mem_handle api j e)))"
  by (simp add: mem_service_def split_def Let_def)

lemma mem_txn_effect:
  assumes "mem_service f (bytes_of ''kv/txn'') (js_write plain_json j) e = (a, e')"
    and "mem_txn j e = (if holds then (JObj [(bytes_of ''succeeded'', JBool True)], e1) else (JObj [], e))"
  shows "txn_effect plain_json holds (mem_kv e) (mem_kv e1) a (mem_kv e')"
  using assms by (auto simp: mem_service_eq mem_handle_def txn_effect_def txn_answer_def bytes_of_def split: if_splits)

lemma mem_put: "mem_txn (req_atomicPut k v) e =
    (if mem_kv e k = None then (JObj [(bytes_of ''succeeded'', JBool True)], AList.update k v e) else (JObj [], e))"
  by (simp add: mem_txn_def req_atomicPut_def txn_json_def field_defs jkey_def jtext_def bytes_of_def base64_roundtrip)

lemma mem_update: "mem_txn (req_atomicUpdate k old v) e =
    (if mem_kv e k = Some old then (JObj [(bytes_of ''succeeded'', JBool True)], AList.update k v e) else (JObj [], e))"
  by (simp add: mem_txn_def req_atomicUpdate_def txn_json_def field_defs jkey_def jtext_def bytes_of_def base64_roundtrip)

lemma mem_remove: "mem_txn (req_atomicRemove k old) e =
    (if mem_kv e k = Some old then (JObj [(bytes_of ''succeeded'', JBool True)], AList.delete k e) else (JObj [], e))"
  by (simp add: mem_txn_def req_atomicRemove_def txn_json_def field_defs jkey_def jtext_def bytes_of_def base64_roundtrip)

lemma mem_pair_answer: "pair_answer p (mem_pair p)"
  by (cases p) (auto simp: pair_answer_def mem_pair_def value_field_def jkey_def bytes_of_def)

lemma mem_pairs_answer: "list_all2 pair_answer ps (map mem_pair ps)"
  by (induction ps) (simp_all add: mem_pair_answer)

lemma mem_range_get:
  "mem_range (req_get k) e = JObj (case mem_kv e k of None \<Rightarrow> [] | Some v \<Rightarrow> [(bytes_of ''kvs'', JArr [mem_pair (k, v)])])"
  by (simp add: mem_range_def req_get_def jbytes_jkey js_isMember_def jkey_def bytes_of_def split: option.split)

lemma mem_range_list:
  "mem_range (req_list k 0 False) e =
     (let ps = filter (\<lambda>(key, v). in_range k key) (AList.clearjunk e) in JObj (if ps = [] then [] else [(bytes_of ''kvs'', JArr (map mem_pair ps))]))"
  by (simp add: mem_range_def req_list_def jbytes_jkey js_isMember_def jkey_def bytes_of_def)

interpretation mem: etcd_service mem_client mem_kv
proof
  fix f k e a e'
  assume "ec_service mem_client f (bytes_of ''kv/range'') (js_write (ec_json mem_client) (req_get k)) e = (a, e')"
  then show "mem_kv e' = mem_kv e \<and> (\<forall>b. a = Some (200, b) \<longrightarrow> range_answer (ec_json mem_client) (mem_kv e k) b)"
    using mem_pair_answer
    by (auto simp: mem_client_def mem_service_eq mem_handle_def mem_range_get range_answer_def mem_pair_def value_field_def jkey_def
        bytes_of_def split: if_splits option.splits)
next
  fix f k a and e e' :: mem
  let ?ps = "filter (\<lambda>(key, v). in_range k key) (AList.clearjunk e)"
  assume a: "ec_service mem_client f (bytes_of ''kv/range'') (js_write (ec_json mem_client) (req_list k 0 False)) e = (a, e')"
  have "distinct (map fst ?ps)" by (simp add: distinct_map_filter)
  moreover have "(key, v) \<in> set ?ps \<longleftrightarrow> mem_kv e key = Some v \<and> in_range k key" for key v
    using map_of_eq_Some_iff [OF distinct_clearjunk, of e key v] by (simp add: map_of_clearjunk)
  moreover have "e' = e" "a = Some (200, b) \<Longrightarrow> list_answer plain_json ?ps b" for b
    using a mem_pairs_answer
    by (auto simp: mem_client_def mem_service_eq mem_handle_def mem_range_list list_answer_def Let_def
        split: if_splits)
  ultimately show "mem_kv e' = mem_kv e \<and> (\<forall>b. a = Some (200, b) \<longrightarrow> (\<exists>ps. distinct (map fst ps)
      \<and> (\<forall>key v. (key, v) \<in> set ps \<longleftrightarrow> mem_kv e key = Some v \<and> in_range k key) \<and> list_answer (ec_json mem_client) ps b))"
    unfolding mem_client_def etcd_client.simps by blast
next
  fix f k v e a e'
  assume "ec_service mem_client f (bytes_of ''kv/txn'') (js_write (ec_json mem_client) (req_atomicPut k v)) e = (a, e')"
  from mem_txn_effect [OF this [unfolded mem_client_def etcd_client.simps] mem_put]
  show "txn_effect (ec_json mem_client) (mem_kv e k = None) (mem_kv e) ((mem_kv e)(k \<mapsto> v)) a (mem_kv e')"
    by (simp add: mem_client_def update_conv')
next
  fix f k old v e a e'
  assume "ec_service mem_client f (bytes_of ''kv/txn'') (js_write (ec_json mem_client) (req_atomicUpdate k old v)) e = (a, e')"
  from mem_txn_effect [OF this [unfolded mem_client_def etcd_client.simps] mem_update]
  show "txn_effect (ec_json mem_client) (mem_kv e k = Some old) (mem_kv e) ((mem_kv e)(k \<mapsto> v)) a (mem_kv e')"
    by (simp add: mem_client_def update_conv')
next
  fix f k old e a e'
  assume "ec_service mem_client f (bytes_of ''kv/txn'') (js_write (ec_json mem_client) (req_atomicRemove k old)) e = (a, e')"
  from mem_txn_effect [OF this [unfolded mem_client_def etcd_client.simps] mem_remove]
  show "txn_effect (ec_json mem_client) (mem_kv e k = Some old) (mem_kv e) ((mem_kv e)(k := None)) a (mem_kv e')"
    by (simp add: mem_client_def delete_conv')
qed

text \<open>What the operations of the client compute on this service.\<close>

lemma mem_get: "et_get mem_client Fine k e = (Inr (case mem_kv e (112 # k) of None \<Rightarrow> [] | Some v \<Rightarrow> v), e)"
  using value_field_read base64_roundtrip [of b64_std "[]"]
  by (auto simp: et_get_def et_request_def mem_client_def mem_service_eq mem_handle_def mem_range_get parseResponse_def js_isObject_def
      js_isMember_def js_member_def js_index_def mem_pair_def jkey_def bytes_of_def js_asString_def base64_roundtrip split: option.splits)

lemma mem_checked:
  "checkTxnResponse (JObj [(bytes_of ''succeeded'', JBool True)]) = Inr ()" "checkTxnResponse (JObj []) = Inl txn_error"
  by (simp_all add: checkTxnResponse_def js_isObject_def js_member_def js_asBool_def)

lemma mem_request:
  "et_request mem_client f ''kv/txn'' j e =
     (if f = Down then (Inl etcd_timeout, e) else if f = Fine then apfst Inr (mem_txn j e) else (Inl etcd_timeout, snd (mem_txn j e)))"
  by (simp add: et_request_def mem_client_def mem_service_eq mem_handle_def parseResponse_def bytes_of_def apfst_def map_prod_def split_def)

section \<open>Properties\<close>



text \<open>
  \<open>Etcd::Client::list\<close> returns every key that extends the given one by nothing or by a byte below
  0xFF and more, each once, with its value and without the prefix of the client, and nothing else.
\<close>

theorem etcd_list:
  assumes "etcd_service C kv" and "et_list C f k 0 False e = (Inr ps, e')"
  shows "distinct (map fst ps) \<and> kv e' = kv e
    \<and> (\<forall>key v. (key, v) \<in> set ps \<longleftrightarrow> kv e (ec_prefix C @ key) = Some v \<and> (\<exists>s. key = k @ s \<and> (s = [] \<or> hd s < 0xFF)))"
  using etcd_service.client_list [OF assms] by (simp add: in_range_iff)

theorem etcd_list_witness:
  "et_list mem_client Fine [1] 0 False [([112, 2], [7]), ([112, 1, 3], [])] = (Inr [([1, 3], [])], [([112, 2], [7]), ([112, 1, 3], [])])
    \<and> distinct (map fst [([1, 3 :: byte], [] :: byte list)])"
proof -
  have "et_list mem_client Fine [1] 0 False [([112, 2], [7]), ([112, 1, 3], [])] = (Inr [([1, 3], [])], [([112, 2], [7]), ([112, 1, 3], [])])"
    using pair_answer_read [OF mem_pair_answer]
    by (simp add: et_list_def et_request_def mem_client_def mem_service_eq mem_handle_def mem_range_list parseResponse_def
        js_isObject_def js_isMember_def js_member_def list_from_value_def in_range_def range_end_def)
  then show ?thesis using etcd_list [OF mem.etcd_service_axioms] by metis
qed

end
