(* ===== verification/Sd_Notify.thy ===== *)
theory Sd_Notify
  imports Etcd_Mem
begin

text \<open>
  The announcement of a service in etcd, \<open>sd/Notify.hpp\<close>: a coroutine puts the value of the service
  under its key with a lease and keeps the lease alive, while other threads may call \<open>update\<close> and
  \<open>stop\<close> at any time. The operations of \<open>Etcd::Client\<close> are those of the theory Etcd; what etcd
  documents about leases is the locale \<open>etcd_leases\<close>.
\<close>

section \<open>The announcement\<close>

record notify_params =
  np_key :: "byte list"
  np_ttl :: int
  np_period :: nat
  np_no_clear :: bool

datatype nf_status = Init | Clear | Failed exn | Stopped

record notify =
  nf_Stop :: bool
  nf_Lease :: int
  nf_Value :: "byte list"
  nf_Refresh :: bool
  nf_Update :: bool
  nf_LastError :: nf_status

definition nf_new :: "byte list \<Rightarrow> notify" where
  "nf_new aValue = \<lparr>nf_Stop = False, nf_Lease = 0, nf_Value = aValue, nf_Refresh = False, nf_Update = False, nf_LastError = Init\<rparr>"

text \<open>\<open>init\<close> up to the call of \<open>put\<close>: the lease to use, a new one when there was none.\<close>

definition nf_lease :: "('f, 'e) etcd_client \<Rightarrow> notify_params \<Rightarrow> 'f \<Rightarrow> notify \<Rightarrow> 'e \<Rightarrow> int result \<times> 'e" where
  "nf_lease C P f n e = (if nf_Lease n = 0 then et_createLease C f (np_ttl P) e else (Inr (nf_Lease n), e))"

text \<open>\<open>init\<close> after the call of \<open>put\<close>, under the lock.\<close>

definition nf_published :: "int \<Rightarrow> byte list \<Rightarrow> notify \<Rightarrow> notify" where
  "nf_published sLease sValue n =
     (let n = n\<lparr>nf_Lease := sLease, nf_LastError := Clear\<rparr>
      in if sValue \<noteq> nf_Value n then n else n\<lparr>nf_Refresh := True, nf_Update := False\<rparr>)"

text \<open>The handler of \<open>refresh\<close>.\<close>

definition nf_failed :: "exn \<Rightarrow> notify \<Rightarrow> notify" where
  "nf_failed x n = n\<lparr>nf_Refresh := False, nf_LastError := Failed x\<rparr>"

definition nf_keepalive :: "('f, 'e) etcd_client \<Rightarrow> 'f \<Rightarrow> notify \<Rightarrow> 'e \<Rightarrow> notify \<times> 'e" where
  "nf_keepalive C f n e =
     (let (r, e) = et_updateLease C f (nf_Lease n) e in (case r of Inl x \<Rightarrow> nf_failed x n | Inr _ \<Rightarrow> n, e))"

definition nf_put :: "('f, 'e) etcd_client \<Rightarrow> notify_params \<Rightarrow> 'f \<Rightarrow> int \<Rightarrow> byte list \<Rightarrow> notify \<Rightarrow> 'e \<Rightarrow> notify \<times> 'e" where
  "nf_put C P f sLease sValue n e =
     (let (r, e) = et_put C f (np_key P) sValue sLease e
      in (case r of Inl x \<Rightarrow> nf_failed x n | Inr _ \<Rightarrow> nf_published sLease sValue n, e))"

definition nf_cleanup :: "('f, 'e) etcd_client \<Rightarrow> notify_params \<Rightarrow> 'f \<Rightarrow> notify \<Rightarrow> 'e \<Rightarrow> notify \<times> 'e" where
  "nf_cleanup C P f n e =
     (n\<lparr>nf_LastError := Stopped\<rparr>, if np_no_clear P then e else snd (et_dropLease C f (nf_Lease n) e))"

definition nf_update :: "byte list \<Rightarrow> notify \<Rightarrow> notify" where
  "nf_update aValue n = n\<lparr>nf_Value := aValue, nf_Refresh := False, nf_Update := True\<rparr>"

definition nf_stop :: "notify \<Rightarrow> notify" where
  "nf_stop n = n\<lparr>nf_Stop := True\<rparr>"

text \<open>The pause before the next turn of the loop, in milliseconds.\<close>

definition nf_delay :: "notify_params \<Rightarrow> notify \<Rightarrow> nat" where
  "nf_delay P n = (if nf_Update n then 10 else np_period P * 1000)"

section \<open>The coroutine and its environment\<close>

text \<open>
  The coroutine is at the top of its loop, in the call of \<open>put\<close> with the lease and the value it has
  read, in its pause, or done. In between the others run: \<open>update\<close>, \<open>stop\<close>, and time, in which
  leases expire and the keys with them.
\<close>

datatype nf_at = Top | InPut int "byte list" | Pause | Done

locale etcd_leases =
  fixes C :: "('f, 'e) etcd_client" and kv :: "'e \<Rightarrow> byte list \<Rightarrow> byte list option" and alive :: "'e \<Rightarrow> int \<Rightarrow> bool"
  assumes put_law: "ec_service C f (bytes_of ''kv/put'') (js_write (ec_json C) (req_put k v l)) e = (a, e')
      \<Longrightarrow> alive e' = alive e \<and> (kv e' = kv e \<or> (l \<le> 0 \<or> alive e l) \<and> kv e' = (kv e)(k \<mapsto> v))
        \<and> (\<forall>b. a = Some (200, b) \<longrightarrow> kv e' = (kv e)(k \<mapsto> v) \<and> (l \<le> 0 \<or> alive e l))"
    and grant_law: "ec_service C f (bytes_of ''lease/grant'') (js_write (ec_json C) (req_createLease t)) e = (a, e')
      \<Longrightarrow> kv e' = kv e \<and> alive e \<le> alive e'"
    and keepalive_law: "ec_service C f (bytes_of ''lease/keepalive'') (js_write (ec_json C) (req_leaseID l)) e = (a, e')
      \<Longrightarrow> kv e' = kv e \<and> alive e' \<le> alive e"
    and revoke_law: "ec_service C f (bytes_of ''lease/revoke'') (js_write (ec_json C) (req_leaseID l)) e = (a, e')
      \<Longrightarrow> kv e' \<subseteq>\<^sub>m kv e \<and> alive e' \<le> alive e"

inductive nf_step :: "('f, 'e) etcd_client \<Rightarrow> ('e \<Rightarrow> byte list \<Rightarrow> byte list option) \<Rightarrow> ('e \<Rightarrow> int \<Rightarrow> bool) \<Rightarrow> notify_params
    \<Rightarrow> notify \<times> nf_at \<times> 'e \<Rightarrow> notify \<times> nf_at \<times> 'e \<Rightarrow> bool"
  for C kv alive P where
  keepalive: "\<not> nf_Stop n \<Longrightarrow> nf_Refresh n \<Longrightarrow> nf_keepalive C f n e = (n', e') \<Longrightarrow> nf_step C kv alive P (n, Top, e) (n', Pause, e')"
| init: "\<not> nf_Stop n \<Longrightarrow> \<not> nf_Refresh n \<Longrightarrow> nf_lease C P f n e = (Inr l, e')
    \<Longrightarrow> nf_step C kv alive P (n, Top, e) (n, InPut l (nf_Value n), e')"
| init_fails: "\<not> nf_Stop n \<Longrightarrow> \<not> nf_Refresh n \<Longrightarrow> nf_lease C P f n e = (Inl x, e')
    \<Longrightarrow> nf_step C kv alive P (n, Top, e) (nf_failed x n, Pause, e')"
| put: "nf_put C P f l v n e = (n', e') \<Longrightarrow> nf_step C kv alive P (n, InPut l v, e) (n', Pause, e')"
| timer: "nf_step C kv alive P (n, Pause, e) (n, Top, e)"
| cleanup: "nf_Stop n \<Longrightarrow> nf_cleanup C P f n e = (n', e') \<Longrightarrow> nf_step C kv alive P (n, Top, e) (n', Done, e')"
| update: "nf_step C kv alive P (n, at, e) (nf_update v n, at, e)"
| stop: "nf_step C kv alive P (n, at, e) (nf_stop n, at, e)"
| time: "kv e' \<subseteq>\<^sub>m kv e \<Longrightarrow> alive e' \<le> alive e \<Longrightarrow> nf_step C kv alive P (n, at, e) (n, at, e')"

section \<open>Invariants\<close>

text \<open>While the lease is only kept alive, the key holds the current value or has expired.\<close>

definition nf_ok :: "('e \<Rightarrow> byte list \<Rightarrow> byte list option) \<Rightarrow> byte list \<Rightarrow> notify \<times> nf_at \<times> 'e \<Rightarrow> bool" where
  "nf_ok kv k = (\<lambda>(n, at, e). (nf_Refresh n \<longrightarrow> kv e k = None \<or> kv e k = Some (nf_Value n))
     \<and> (\<forall>l v. at = InPut l v \<longrightarrow> \<not> nf_Refresh n))"

text \<open>A lease that has expired is kept for ever.\<close>

definition nf_dead :: "('e \<Rightarrow> byte list \<Rightarrow> byte list option) \<Rightarrow> ('e \<Rightarrow> int \<Rightarrow> bool) \<Rightarrow> byte list \<Rightarrow> int \<Rightarrow> notify \<times> nf_at \<times> 'e \<Rightarrow> bool" where
  "nf_dead kv alive k l = (\<lambda>(n, at, e). nf_Lease n = l \<and> \<not> alive e l \<and> kv e k = None \<and> (\<forall>l' v. at = InPut l' v \<longrightarrow> l' = l))"

lemma et_request_state:
  "et_request C f api j e = (q, e') \<Longrightarrow> \<exists>a. ec_service C f (bytes_of api) (js_write (ec_json C) j) e = (a, e')
     \<and> (\<forall>x. q = Inr x \<longrightarrow> (\<exists>b. a = Some (200, b)))"
  by (auto simp: et_request_def parseResponse_def split: option.splits prod.splits if_splits)

context etcd_leases
begin

lemma client_put:
  assumes "et_put C f k v l e = (r, e')"
  shows "alive e' = alive e \<and> (kv e' = kv e \<or> (l \<le> 0 \<or> alive e l) \<and> kv e' = (kv e)(ec_prefix C @ k \<mapsto> v))
    \<and> (r = Inr () \<longrightarrow> kv e' = (kv e)(ec_prefix C @ k \<mapsto> v) \<and> (l \<le> 0 \<or> alive e l))"
proof -
  obtain q where q: "et_request C f ''kv/put'' (req_put (ec_prefix C @ k) v l) e = (q, e')" "r = bindr q (\<lambda>_. Inr ())"
    using assms by (auto simp: et_put_def split: prod.splits)
  then show ?thesis using et_request_state [OF q(1)] put_law by (auto simp: bindr_eq_Inr) (metis (no_types))+
qed

lemma client_keepalive: "et_updateLease C f l e = (r, e') \<Longrightarrow> kv e' = kv e \<and> alive e' \<le> alive e"
  using et_request_state keepalive_law by (fastforce simp: et_updateLease_def split: prod.splits)

lemma client_grant: "et_createLease C f t e = (r, e') \<Longrightarrow> kv e' = kv e \<and> alive e \<le> alive e'"
  using et_request_state grant_law by (fastforce simp: et_createLease_def split: prod.splits)

lemma client_revoke: "et_dropLease C f l e = (r, e') \<Longrightarrow> kv e' \<subseteq>\<^sub>m kv e \<and> alive e' \<le> alive e"
  using et_request_state revoke_law by (fastforce simp: et_dropLease_def split: prod.splits)

lemma nf_keepalive_state:
  assumes "nf_keepalive C f n e = (n', e')"
  shows "kv e' = kv e \<and> alive e' \<le> alive e \<and> nf_Lease n' = nf_Lease n \<and> nf_Value n' = nf_Value n \<and> (nf_Refresh n' \<longrightarrow> nf_Refresh n)"
proof -
  obtain r where r: "et_updateLease C f (nf_Lease n) e = (r, e')"
    using assms by (auto simp: nf_keepalive_def split: prod.splits)
  then show ?thesis using client_keepalive [OF r] assms by (auto simp: nf_keepalive_def nf_failed_def split: sum.splits)
qed

lemma nf_lease_state:
  "nf_lease C P f n e = (r, e') \<Longrightarrow> kv e' = kv e \<and> (nf_Lease n \<noteq> 0 \<longrightarrow> e' = e \<and> r = Inr (nf_Lease n))"
  using client_grant by (fastforce simp: nf_lease_def split: if_splits)

lemma nf_cleanup_state:
  "nf_cleanup C P f n e = (n', e') \<Longrightarrow>
     kv e' \<subseteq>\<^sub>m kv e \<and> alive e' \<le> alive e \<and> nf_Lease n' = nf_Lease n \<and> nf_Value n' = nf_Value n \<and> nf_Refresh n' = nf_Refresh n"
  using client_revoke [of f "nf_Lease n" e "fst (et_dropLease C f (nf_Lease n) e)"]
  by (cases "et_dropLease C f (nf_Lease n) e") (auto simp: nf_cleanup_def split: if_splits)

lemma nf_step_ok:
  assumes "nf_step C kv alive P s s'" and "nf_ok kv (ec_prefix C @ np_key P) s"
  shows "nf_ok kv (ec_prefix C @ np_key P) s'"
  using assms
proof (induction rule: nf_step.induct)
  case (keepalive n f e n' e')
  then show ?case using nf_keepalive_state [OF keepalive(3)] by (auto simp: nf_ok_def)
next
  case (put f l v n e n' e')
  obtain r where r: "et_put C f (np_key P) v l e = (r, e')" using put(1) by (auto simp: nf_put_def split: prod.splits)
  then show ?case using client_put [OF r] put 
    by (auto simp: nf_ok_def nf_put_def nf_failed_def nf_published_def Let_def split: sum.splits if_splits)
next
  case (cleanup n f e n' e')
  then show ?case using nf_cleanup_state [OF cleanup(2)] by (fastforce simp: nf_ok_def map_le_def dom_def)
next
  case (time e' e n at)
  then show ?case by (fastforce simp: nf_ok_def map_le_def dom_def)
qed (auto simp: nf_ok_def nf_failed_def nf_update_def nf_stop_def dest: nf_lease_state)

lemma nf_step_dead:
  assumes "nf_step C kv alive P s s'" and "0 < l" and "nf_dead kv alive (ec_prefix C @ np_key P) l s"
  shows "nf_dead kv alive (ec_prefix C @ np_key P) l s'"
  using assms(1,3)
proof (induction rule: nf_step.induct)
  case (keepalive n f e n' e')
  then show ?case using nf_keepalive_state [OF keepalive(3)] by (auto simp: nf_dead_def)
next
  case (init n f e l' e')
  then show ?case using nf_lease_state [OF init(3)] assms(2) by (auto simp: nf_dead_def)
next
  case (init_fails n f e x e')
  then show ?case using nf_lease_state [OF init_fails(3)] assms(2) by (auto simp: nf_dead_def)
next
  case (put f l' v n e n' e')
  obtain r where r: "et_put C f (np_key P) v l' e = (r, e')" using put(1) by (auto simp: nf_put_def split: prod.splits)
  then show ?case using client_put [OF r] put assms(2)
    by (auto simp: nf_dead_def nf_put_def nf_failed_def nf_published_def Let_def split: sum.splits)
next
  case (cleanup n f e n' e')
  then show ?case using nf_cleanup_state [OF cleanup(2)] by (fastforce simp: nf_dead_def map_le_def dom_def)
next
  case (time e' e n at)
  then show ?case by (fastforce simp: nf_dead_def map_le_def dom_def)
qed (auto simp: nf_dead_def nf_update_def nf_stop_def)

end

section \<open>Leases in memory\<close>

definition lease_of :: "json \<Rightarrow> int" where
  "lease_of j = (case jfield ''lease'' j of JInt i \<Rightarrow> i | _ \<Rightarrow> 0)"

definition lease_handle :: "byte list \<Rightarrow> json \<Rightarrow> mem \<times> int list \<Rightarrow> (nat \<times> json) \<times> mem \<times> int list" where
  "lease_handle api j = (\<lambda>(m, ls).
     if api = bytes_of ''kv/put'' then
       (if 0 < lease_of j \<and> lease_of j \<notin> set ls then ((404, JNull), m, ls)
        else ((200, JObj []), AList.update (jbytes ''key'' j) (jbytes ''value'' j) m, ls))
     else if api = bytes_of ''lease/grant'' then
       ((200, JObj [(bytes_of ''ID'', JStr (bytes_of ''1''))]), m, 1 # ls)
     else if api = bytes_of ''lease/revoke'' then
       ((200, JObj []), m, removeAll (case jfield ''ID'' j of JInt i \<Rightarrow> i | _ \<Rightarrow> 0) ls)
     else ((200, JObj []), m, ls))"

definition lease_service :: "(net, mem \<times> int list) service" where
  "lease_service f api body e =
     (case js_parse plain_json body of
        Inl _ \<Rightarrow> (Some (400, []), e)
      | Inr j \<Rightarrow> if f = Down then (None, e)
                 else let ((c, r), e) = lease_handle api j e in (if f = Fine then Some (c, js_write plain_json r) else None, e))"

definition lease_client :: "(net, mem \<times> int list) etcd_client" where
  "lease_client = \<lparr>ec_service = lease_service, ec_json = plain_json, ec_prefix = [112]\<rparr>"

abbreviation lease_kv :: "mem \<times> int list \<Rightarrow> byte list \<Rightarrow> byte list option" where
  "lease_kv e \<equiv> mem_kv (fst e)"

abbreviation lease_alive :: "mem \<times> int list \<Rightarrow> int \<Rightarrow> bool" where
  "lease_alive e l \<equiv> l \<in> set (snd e)"

lemma lease_service_eq:
  "lease_service f api (js_write plain_json j) e =
     (if f = Down then (None, e)
      else let h = lease_handle api j e
           in (if f = Fine then Some (fst (fst h), js_write plain_json (snd (fst h))) else None, snd h))"
  by (simp add: lease_service_def split_def Let_def)

lemma req_put_fields:
  "jbytes ''key'' (req_put k v l) = k" "jbytes ''value'' (req_put k v l) = v" "lease_of (req_put k v l) = (if 0 < l then l else 0)"
  by (simp_all add: req_put_def jkey_def field_defs lease_of_def bytes_of_def base64_roundtrip)

interpretation leases: etcd_leases lease_client lease_kv lease_alive
proof
  fix f k v l e a e'
  assume a: "ec_service lease_client f (bytes_of ''kv/put'') (js_write (ec_json lease_client) (req_put k v l)) e = (a, e')"
  show "lease_alive e' = lease_alive e \<and> (lease_kv e' = lease_kv e \<or> (l \<le> 0 \<or> lease_alive e l) \<and> lease_kv e' = (lease_kv e)(k \<mapsto> v))
      \<and> (\<forall>b. a = Some (200, b) \<longrightarrow> lease_kv e' = (lease_kv e)(k \<mapsto> v) \<and> (l \<le> 0 \<or> lease_alive e l))"
    using a by (cases e) (auto simp: lease_client_def lease_service_eq lease_handle_def req_put_fields update_conv' Let_def split: if_splits)
qed (auto simp: lease_client_def lease_service_eq lease_handle_def bytes_of_def Let_def split: if_splits prod.splits)

section \<open>Properties\<close>

text \<open>
  C14: an announcement never settles on an outdated value. In every interleaving of the coroutine with
  updates, a stop, failing or lost calls and expiring leases, whenever the loop only keeps its lease
  alive the key in etcd holds the current value, or nothing when the lease has expired.
\<close>

theorem notify_current:
  assumes "etcd_leases C kv alive" and "(nf_step C kv alive P)\<^sup>*\<^sup>* (nf_new v, Top, e) (n, at, e')" and "nf_Refresh n"
  shows "kv e' (ec_prefix C @ np_key P) = None \<or> kv e' (ec_prefix C @ np_key P) = Some (nf_Value n)"
proof -
  have "nf_ok kv (ec_prefix C @ np_key P) (n, at, e')" using assms(2)
  proof (induction rule: rtranclp_induct)
    case base
    show ?case by (simp add: nf_ok_def nf_new_def)
  next
    case (step y z)
    then show ?case using etcd_leases.nf_step_ok [OF assms(1)] by blast
  qed
  then show ?thesis using assms(3) by (simp add: nf_ok_def)
qed

definition np_small :: notify_params where
  "np_small = \<lparr>np_key = [1], np_ttl = 30, np_period = 10, np_no_clear = False\<rparr>"

lemma lease_put:
  "et_put lease_client Fine k v l (m, ls) =
     (if 0 < l \<and> l \<notin> set ls then (Inl etcd_bad, m, ls) else (Inr (), AList.update (112 # k) v m, ls))"
  by (simp add: et_put_def et_request_def lease_client_def lease_service_eq lease_handle_def req_put_fields parseResponse_def)

lemma lease_grant: "et_createLease lease_client Fine t (m, ls) = (Inr 1, m, 1 # ls)"
  by (simp add: et_createLease_def et_request_def lease_client_def lease_service_eq lease_handle_def parseResponse_def js_member_def
      js_asString_def Atoi_def s_digit_def s_range_def bytes_of_def)

theorem notify_current_witness:
  "\<exists>n. (nf_step lease_client lease_kv lease_alive np_small)\<^sup>*\<^sup>* (nf_new [7], Top, ([], [])) (n, Pause, ([([112, 1], [7])], [1]))
    \<and> nf_Refresh n \<and> lease_kv ([([112, 1], [7])], [1]) [112, 1] \<in> {None, Some (nf_Value n)}"
proof -
  let ?S = "nf_step lease_client lease_kv lease_alive np_small" and ?n = "nf_published 1 [7] (nf_new [7])"
  have "nf_lease lease_client np_small Fine (nf_new [7]) ([], []) = (Inr 1, [], [1])"
    by (simp add: nf_lease_def nf_new_def lease_grant)
  then have "?S (nf_new [7], Top, ([], [])) (nf_new [7], InPut 1 (nf_Value (nf_new [7])), ([], [1]))"
    by (intro nf_step.init) (simp_all add: nf_new_def)
  moreover have "?S (nf_new [7], InPut 1 (nf_Value (nf_new [7])), ([], [1])) (?n, Pause, ([([112, 1], [7])], [1]))"
    by (rule nf_step.put [where f = Fine]) (simp add: nf_put_def lease_put np_small_def nf_new_def)
  ultimately have r: "?S\<^sup>*\<^sup>* (nf_new [7], Top, ([], [])) (?n, Pause, ([([112, 1], [7])], [1]))"
    by (meson converse_rtranclp_into_rtranclp rtranclp.rtrancl_refl)
  moreover have "nf_Refresh ?n" by (simp add: nf_published_def nf_new_def)
  ultimately show ?thesis
    using notify_current [OF leases.etcd_leases_axioms r] by (auto simp: lease_client_def np_small_def)
qed

text \<open>
  C38: a service whose lease has expired is never announced again. Once etcd has dropped the lease and
  the key, no turn of the loop, no update and no passing of time brings the key back: the loop
  keeps the number of the old lease, and etcd refuses to put a key under it.
\<close>

theorem notify_never_back:
  assumes "etcd_leases C kv alive" and "(nf_step C kv alive P)\<^sup>*\<^sup>* (n, Pause, e) (n', at, e')"
    and "0 < nf_Lease n" and "\<not> alive e (nf_Lease n)" and "kv e (ec_prefix C @ np_key P) = None"
  shows "kv e' (ec_prefix C @ np_key P) = None \<and> nf_Lease n' = nf_Lease n"
proof -
  have "nf_dead kv alive (ec_prefix C @ np_key P) (nf_Lease n) (n', at, e')" using assms(2)
  proof (induction rule: rtranclp_induct)
    case base
    show ?case using assms by (simp add: nf_dead_def)
  next
    case (step y z)
    then show ?case using etcd_leases.nf_step_dead [OF assms(1) _ assms(3)] by blast
  qed
  then show ?thesis by (simp add: nf_dead_def)
qed

theorem notify_never_back_witness:
  "\<exists>n n'. (nf_step lease_client lease_kv lease_alive np_small)\<^sup>*\<^sup>* (n, Pause, ([], [])) (n', Pause, ([], []))
    \<and> nf_LastError n' = Failed etcd_bad \<and> lease_kv ([], []) [112, 1] = None \<and> nf_Lease n' = 1"
proof -
  let ?S = "nf_step lease_client lease_kv lease_alive np_small" and ?n = "nf_published 1 [7] (nf_new [7])"
  let ?m = "nf_update [8] ?n"
  note defs = nf_update_def nf_published_def nf_new_def
  have l: "nf_Lease ?n = 1" by (simp add: defs)
  have "?S (?n, Pause, ([], [])) (?n, Top, ([], []))" by (rule nf_step.timer)
  moreover have "?S (?n, Top, ([], [])) (?m, Top, ([], []))" by (rule nf_step.update)
  moreover have "?S (?m, Top, ([], [])) (?m, InPut 1 (nf_Value ?m), ([], []))"
    by (rule nf_step.init [where f = Fine]) (simp_all add: nf_lease_def defs)
  moreover have "?S (?m, InPut 1 (nf_Value ?m), ([], [])) (nf_failed etcd_bad ?m, Pause, ([], []))"
    by (rule nf_step.put [where f = Fine]) (simp add: nf_put_def lease_put)
  ultimately have r: "?S\<^sup>*\<^sup>* (?n, Pause, ([], [])) (nf_failed etcd_bad ?m, Pause, ([], []))"
    by (meson converse_rtranclp_into_rtranclp rtranclp.rtrancl_refl)
  moreover have "nf_LastError (nf_failed etcd_bad ?m) = Failed etcd_bad" by (simp add: nf_failed_def)
  ultimately show ?thesis using notify_never_back [OF leases.etcd_leases_axioms r] l
    by (auto simp: lease_client_def np_small_def)
qed

end
