(* ===== verification/Threads_Queue.thy ===== *)
theory Threads_Queue
  imports Sd_Peer
begin

text \<open>
  The task queues of \<open>threads/\<close>: \<open>SafeQueue\<close> over a container of tasks, \<open>SafeQueueThread\<close>, the pool of
  threads that serves one, and the three containers used with them: the list of \<open>SafeQueue.hpp\<close>, the
  priority queue of \<open>OrderedWorker.hpp\<close> and the fair list of \<open>FairQueueExecutor.hpp\<close>. An operation
  that holds the mutex is one step; waiting on the condition variable changes nothing, so the state
  in which a waiting thread goes on is the state of that later step.
\<close>

section \<open>Containers of tasks\<close>

record ('n, 'q) queue_ops =
  q_push :: "'n \<Rightarrow> 'q \<Rightarrow> 'q"
  q_empty :: "'q \<Rightarrow> bool"
  q_top :: "'q \<Rightarrow> 'n"
  q_pop :: "'q \<Rightarrow> 'q"
  q_size :: "'q \<Rightarrow> nat"

text \<open>\<open>ListWrapper\<close>.\<close>

definition list_queue :: "('n, 'n list) queue_ops" where
  "list_queue = \<lparr>q_push = (\<lambda>t xs. xs @ [t]), q_empty = (\<lambda>xs. xs = []), q_top = hd, q_pop = tl, q_size = length\<rparr>"

text \<open>\<open>std::priority_queue\<close> with \<open>std::greater\<close>: the task with the least serial is on top.\<close>

definition serial_queue :: "('n \<Rightarrow> nat) \<Rightarrow> ('n, 'n list) queue_ops" where
  "serial_queue serial = \<lparr>q_push = insort_key serial, q_empty = (\<lambda>xs. xs = []), q_top = hd, q_pop = tl, q_size = length\<rparr>"

text \<open>
  The fair list: a multimap ordered by weight, where a task of a user whose tasks keep the pool busy
  goes behind the others. \<open>shared_ptr\<close>s to the averages of a user are the name of the user. The
  clock is read by \<open>push\<close>, so a task arrives with its time, as a number of seconds.
\<close>

record 't fair_task =
  ft_task :: 't
  ft_user :: "byte list"

record 't fair_list =
  fl_List :: "(u64 \<times> double \<times> 't fair_task) list"
  fl_State :: "byte list \<rightharpoonup> ewma_rps"

definition fair_prepare :: "double \<Rightarrow> 't fair_task \<Rightarrow> 't fair_list \<Rightarrow> double \<times> 't fair_list" where
  "fair_prepare sNow aTask q =
     (case fl_State q (ft_user aTask) of
        Some sState \<Rightarrow>
          (let sEst = rps_estimate sState
           in (sNow + in_latency sEst * in_rps sEst * of_nat (length (fl_List q) + 1), q))
      | None \<Rightarrow> (sNow, q\<lparr>fl_State := (fl_State q)(ft_user aTask \<mapsto> rps_new (95 / 100) 0 1)\<rparr>))"

text \<open>\<open>std::multimap::emplace\<close> puts a new entry behind those with an equal key.\<close>

fun emplace :: "('k :: linorder \<times> 'v) \<Rightarrow> ('k \<times> 'v) list \<Rightarrow> ('k \<times> 'v) list" where
  "emplace (k, v) [] = [(k, v)]"
| "emplace (k, v) ((j, x) # xs) = (if k < j then (k, v) # (j, x) # xs else (j, x) # emplace (k, v) xs)"

definition fair_push :: "double \<times> 't fair_task \<Rightarrow> 't fair_list \<Rightarrow> 't fair_list" where
  "fair_push = (\<lambda>(sNow, aTask) q.
     let (sWeight, q) = fair_prepare sNow aTask q
     in q\<lparr>fl_List := emplace (of_int \<lfloor>sWeight\<rfloor>, sNow, aTask) (fl_List q)\<rparr>)"

definition fair_queue :: "(double \<times> 't fair_task, 't fair_list) queue_ops" where
  "fair_queue = \<lparr>q_push = fair_push, q_empty = (\<lambda>q. fl_List q = []), q_top = (\<lambda>q. snd (hd (fl_List q))),
     q_pop = (\<lambda>q. q\<lparr>fl_List := tl (fl_List q)\<rparr>), q_size = (\<lambda>q. length (fl_List q))\<rparr>"

text \<open>The accounting after a task of the fair list was run.\<close>

definition fair_account :: "time_t \<Rightarrow> double \<Rightarrow> bool \<Rightarrow> 't fair_task \<Rightarrow> 't fair_list \<Rightarrow> 't fair_list" where
  "fair_account sNow sElapsed aSuccess aTask q =
     q\<lparr>fl_State := (fl_State q)(ft_user aTask :=
         map_option (\<lambda>e. snd (rps_add sNow sElapsed aSuccess e)) (fl_State q (ft_user aTask)))\<rparr>"

section \<open>SafeQueue\<close>

record 'q safe_queue =
  sq_List :: 'q
  sq_Stop :: bool
  sq_Counter :: u64

definition sq_new :: "'q \<Rightarrow> 'q safe_queue" where
  "sq_new q = \<lparr>sq_List = q, sq_Stop = False, sq_Counter = 0\<rparr>"

definition sq_stop :: "'q safe_queue \<Rightarrow> 'q safe_queue" where
  "sq_stop s = s\<lparr>sq_Stop := True\<rparr>"

definition sq_insert :: "('n, 'q) queue_ops \<Rightarrow> 'n \<Rightarrow> 'q safe_queue \<Rightarrow> 'q safe_queue" where
  "sq_insert Q aItem s = s\<lparr>sq_List := q_push Q aItem (sq_List s), sq_Counter := sq_Counter s + 1\<rparr>"

definition sq_idle :: "('n, 'q) queue_ops \<Rightarrow> 'q safe_queue \<Rightarrow> bool" where
  "sq_idle Q s \<longleftrightarrow> q_empty Q (sq_List s)"

definition sq_pending :: "('n, 'q) queue_ops \<Rightarrow> 'q safe_queue \<Rightarrow> nat" where
  "sq_pending Q s = q_size Q (sq_List s)"

definition sq_try_get :: "('n, 'q) queue_ops \<Rightarrow> 'q safe_queue \<Rightarrow> 'n option \<times> 'q safe_queue" where
  "sq_try_get Q s =
     (if q_empty Q (sq_List s) then (None, s)
      else (Some (q_top Q (sq_List s)), s\<lparr>sq_List := q_pop Q (sq_List s)\<rparr>))"

text \<open>The part of \<open>wait\<close> after the condition variable: \<open>None\<close> when it returns false.\<close>

definition sq_wait :: "('n, 'q) queue_ops \<Rightarrow> ('n \<Rightarrow> bool) option \<Rightarrow> 'q safe_queue \<Rightarrow> 'n option \<times> 'q safe_queue" where
  "sq_wait Q aTest s =
     (if q_empty Q (sq_List s) then (None, s)
      else if (case aTest of None \<Rightarrow> False | Some f \<Rightarrow> \<not> f (q_top Q (sq_List s))) then (None, s)
      else (Some (q_top Q (sq_List s)), s\<lparr>sq_List := q_pop Q (sq_List s)\<rparr>))"

section \<open>SafeQueueThread\<close>

text \<open>
  The state of the pool: the queue, \<open>m_Done\<close>, the deadline, the tasks that threads hold inside
  \<open>handle\<close>, and the number of threads between \<open>handle\<close> and \<open>m_Done++\<close>.
\<close>

record ('n, 'q) queue_thread =
  qt_Queue :: "'q safe_queue"
  qt_Done :: u64
  qt_Deadline :: "double option"
  qt_Hand :: "'n list"
  qt_Fin :: nat

definition qt_new :: "'q \<Rightarrow> ('n, 'q) queue_thread" where
  "qt_new q = \<lparr>qt_Queue = sq_new q, qt_Done = 0, qt_Deadline = None, qt_Hand = [], qt_Fin = 0\<rparr>"

definition qt_insert :: "('n, 'q) queue_ops \<Rightarrow> 'n \<Rightarrow> ('n, 'q) queue_thread \<Rightarrow> ('n, 'q) queue_thread" where
  "qt_insert Q aItem s = s\<lparr>qt_Queue := sq_insert Q aItem (qt_Queue s)\<rparr>"

definition qt_idle :: "('n, 'q) queue_thread \<Rightarrow> bool" where
  "qt_idle s \<longleftrightarrow> qt_Done s = sq_Counter (qt_Queue s)"

definition qt_size :: "('n, 'q) queue_thread \<Rightarrow> u64" where
  "qt_size s = sq_Counter (qt_Queue s) - qt_Done s"

definition qt_exiting :: "double \<Rightarrow> ('n, 'q) queue_thread \<Rightarrow> bool" where
  "qt_exiting sNow s \<longleftrightarrow> sq_Stop (qt_Queue s)
     \<and> (case qt_Deadline s of None \<Rightarrow> True | Some d \<Rightarrow> qt_idle s \<or> d < sNow)"

text \<open>Taking a task from the queue, leaving \<open>handle\<close> and counting; \<open>None\<close> when there is nothing to take.\<close>

definition qt_pick :: "('n, 'q) queue_ops \<Rightarrow> ('n \<Rightarrow> bool) option \<Rightarrow> ('n, 'q) queue_thread \<Rightarrow> ('n \<times> ('n, 'q) queue_thread) option" where
  "qt_pick Q aCheck s =
     (case sq_wait Q aCheck (qt_Queue s) of
        (None, _) \<Rightarrow> None
      | (Some t, q) \<Rightarrow> Some (t, s\<lparr>qt_Queue := q, qt_Hand := t # qt_Hand s\<rparr>))"

definition qt_leave :: "'n \<Rightarrow> ('n, 'q) queue_thread \<Rightarrow> ('n, 'q) queue_thread" where
  "qt_leave t s = s\<lparr>qt_Hand := remove1 t (qt_Hand s), qt_Fin := qt_Fin s + 1\<rparr>"

definition qt_count :: "('n, 'q) queue_thread \<Rightarrow> ('n, 'q) queue_thread" where
  "qt_count s = s\<lparr>qt_Done := qt_Done s + 1, qt_Fin := qt_Fin s - 1\<rparr>"

text \<open>The handler run at stop, with the deadline when the pool lingers.\<close>

definition qt_at_stop :: "double \<Rightarrow> double \<Rightarrow> ('n, 'q) queue_thread \<Rightarrow> ('n, 'q) queue_thread" where
  "qt_at_stop sNow linger s =
     s\<lparr>qt_Deadline := (if 0 < linger then Some (sNow + linger) else qt_Deadline s), qt_Queue := sq_stop (qt_Queue s)\<rparr>"

text \<open>
  \<open>handle\<close> over the course of its attempts: whether the pool was exiting before the attempt and
  whether the handler returned. \<open>None\<close> while it has not ended.
\<close>

datatype handle_end = Handled | Dropped | GaveUp

fun qt_handle :: "bool \<Rightarrow> (bool \<times> bool) list \<Rightarrow> handle_end option" where
  "qt_handle retry [] = None"
| "qt_handle retry ((exiting, returned) # as) =
     (if exiting then Some GaveUp
      else if returned then Some Handled
      else if \<not> retry then Some Dropped
      else qt_handle retry as)"

section \<open>The contract of a container\<close>

locale task_queue =
  fixes Q :: "('n, 'q) queue_ops" and items :: "'q \<Rightarrow> 'n multiset" and ok :: "'q \<Rightarrow> bool"
  assumes push_ok: "ok q \<Longrightarrow> ok (q_push Q t q)" and push_items: "ok q \<Longrightarrow> items (q_push Q t q) = add_mset t (items q)"
    and empty_items: "ok q \<Longrightarrow> q_empty Q q \<longleftrightarrow> items q = {#}"
    and top_items: "ok q \<Longrightarrow> \<not> q_empty Q q \<Longrightarrow> q_top Q q \<in># items q"
    and pop_ok: "ok q \<Longrightarrow> \<not> q_empty Q q \<Longrightarrow> ok (q_pop Q q)"
    and pop_items: "ok q \<Longrightarrow> \<not> q_empty Q q \<Longrightarrow> items (q_pop Q q) = items q - {#q_top Q q#}"
    and size_items: "ok q \<Longrightarrow> q_size Q q = size (items q)"
begin

lemma wait_some:
  assumes "ok (sq_List s)" and "sq_wait Q f s = (Some t, s')"
  shows "t \<in># items (sq_List s)" and "ok (sq_List s')" and "items (sq_List s') = items (sq_List s) - {#t#}"
    and "s' = s\<lparr>sq_List := sq_List s'\<rparr>" and "f = Some g \<Longrightarrow> g t"
  using assms top_items [OF assms(1)] pop_ok [OF assms(1)] pop_items [OF assms(1)]
  by (auto simp: sq_wait_def split: if_splits option.splits)

text \<open>The tasks of a pool: inserted and not yet counted.\<close>

definition accounted :: "('n, 'q) queue_thread \<Rightarrow> bool" where
  "accounted s \<longleftrightarrow> ok (sq_List (qt_Queue s))
     \<and> unat (sq_Counter (qt_Queue s)) = unat (qt_Done s) + size (items (sq_List (qt_Queue s))) + length (qt_Hand s) + qt_Fin s"

inductive pool_step :: "('n \<Rightarrow> bool) option \<Rightarrow> ('n, 'q) queue_thread \<Rightarrow> ('n, 'q) queue_thread \<Rightarrow> bool" for f where
  insert: "unat (sq_Counter (qt_Queue s)) + 1 < 2 ^ 64 \<Longrightarrow> pool_step f s (qt_insert Q t s)"
| pick: "qt_pick Q f s = Some (t, s') \<Longrightarrow> pool_step f s s'"
| leave: "t \<in> set (qt_Hand s) \<Longrightarrow> pool_step f s (qt_leave t s)"
| count: "0 < qt_Fin s \<Longrightarrow> pool_step f s (qt_count s)"
| stop: "pool_step f s (qt_at_stop sNow linger s)"

lemma accounted_step:
  assumes "accounted s" and "pool_step f s s'"
  shows "accounted s'"
  using assms(2,1)
proof cases
  case (insert t)
  then show ?thesis using assms(1) push_ok [of "sq_List (qt_Queue s)" t] push_items [of "sq_List (qt_Queue s)" t]
    by (simp add: accounted_def qt_insert_def sq_insert_def unat_word_ariths)
next
  case (pick t)
  then obtain q where q: "sq_wait Q f (qt_Queue s) = (Some t, q)" "s' = s\<lparr>qt_Queue := q, qt_Hand := t # qt_Hand s\<rparr>"
    by (auto simp: qt_pick_def split: prod.splits option.splits)
  have ok: "ok (sq_List (qt_Queue s))" using assms(1) by (simp add: accounted_def)
  note w = wait_some [OF ok q(1)]
  have "sq_Counter q = sq_Counter (qt_Queue s)" by (subst w(4)) simp
  moreover have "Suc (size (items (sq_List q))) = size (items (sq_List (qt_Queue s)))"
    unfolding w(3) by (rule size_Suc_Diff1 [OF w(1)])
  ultimately show ?thesis using assms(1) w(2) q(2) by (simp add: accounted_def)
next
  case (leave t)
  then show ?thesis using assms(1) length_pos_if_in_set [OF leave(2)] by (simp add: accounted_def qt_leave_def length_remove1)
next
  case count
  then have "unat (qt_Done s) + 1 < 2 ^ 64"
    using assms(1) unat_u64_less [of "sq_Counter (qt_Queue s)"] by (simp add: accounted_def)
  then show ?thesis using assms(1) count by (simp add: accounted_def qt_count_def unat_word_ariths)
next
  case (stop sNow linger)
  then show ?thesis using assms(1) by (simp add: accounted_def qt_at_stop_def sq_stop_def)
qed

lemma accounted_reach: "(pool_step f)\<^sup>*\<^sup>* s s' \<Longrightarrow> accounted s \<Longrightarrow> accounted s'"
  by (induction rule: rtranclp_induct) (auto intro: accounted_step)

lemma idle_iff:
  assumes "accounted s"
  shows "qt_idle s \<longleftrightarrow> items (sq_List (qt_Queue s)) = {#} \<and> qt_Hand s = [] \<and> qt_Fin s = 0"
  using assms by (auto simp: accounted_def qt_idle_def word_unat_eq_iff)

lemma size_accounted:
  assumes "accounted s"
  shows "unat (qt_size s) = size (items (sq_List (qt_Queue s))) + length (qt_Hand s) + qt_Fin s"
proof -
  have "qt_Done s \<le> sq_Counter (qt_Queue s)" using assms by (simp add: accounted_def word_le_nat_alt)
  then show ?thesis using assms by (simp add: accounted_def qt_size_def unat_sub)
qed

lemma new_accounted: "ok q \<Longrightarrow> items q = {#} \<Longrightarrow> accounted (qt_new q)"
  by (simp add: accounted_def qt_new_def sq_new_def)

end

section \<open>The containers meet the contract\<close>

interpretation fifo: task_queue list_queue mset "\<lambda>_. True"
  by unfold_locales (auto simp: list_queue_def neq_Nil_conv)

interpretation prio: task_queue "serial_queue serial" mset "\<lambda>xs. sorted (map serial xs)" for serial
  by unfold_locales (auto simp: serial_queue_def sorted_insort_key neq_Nil_conv map_tl sorted_tl)

lemma mset_emplace: "mset (emplace kv xs) = add_mset kv (mset xs)"
  by (induction kv xs rule: emplace.induct) auto

interpretation fair: task_queue fair_queue "\<lambda>q. image_mset snd (mset (fl_List q))" "\<lambda>_. True"
  by unfold_locales
    (auto simp: fair_queue_def fair_push_def fair_prepare_def mset_emplace neq_Nil_conv Let_def split: prod.splits option.splits)

section \<open>Idle pools\<close>

text \<open>
  a pool that says it is idle is idle. In every interleaving of insertions, threads and a stop,
  with fewer than \<open>2\<^sup>64\<close> insertions, \<open>idle()\<close> holds exactly when no task is queued, none is held by
  a thread and every one handled was counted, and \<open>size()\<close> is the number of those that are not.
\<close>

theorem pool_idle:
  assumes "(fifo.pool_step f)\<^sup>*\<^sup>* (qt_new []) s"
  shows "(qt_idle s \<longleftrightarrow> sq_List (qt_Queue s) = [] \<and> qt_Hand s = [] \<and> qt_Fin s = 0)
    \<and> unat (qt_size s) = length (sq_List (qt_Queue s)) + length (qt_Hand s) + qt_Fin s"
proof -
  have "fifo.accounted s" using fifo.accounted_reach [OF assms fifo.new_accounted] by simp
  then show ?thesis using fifo.idle_iff [of s] fifo.size_accounted [of s] by simp
qed

theorem pool_idle_witness: "\<not> qt_idle (qt_insert list_queue (5 :: nat) (qt_new []))"
proof -
  have "(fifo.pool_step None)\<^sup>*\<^sup>* (qt_new []) (qt_insert list_queue (5 :: nat) (qt_new []))"
    by (rule r_into_rtranclp) (rule fifo.pool_step.insert, simp add: qt_new_def sq_new_def)
  from pool_idle [OF this] show ?thesis by (simp add: qt_insert_def sq_insert_def list_queue_def qt_new_def sq_new_def)
qed

end
