(* ===== verification/Ordered_Worker.thy ===== *)
theory Ordered_Worker
  imports Threads_Queue
begin

text \<open>
  \<open>threads/OrderedWorker.hpp\<close>: tasks are handled by several threads and joined by one thread in the
  order of insertion, and \<open>threads/MapReduce.hpp\<close>, built on it. The handler and the joiner are
  parameters that may throw: a handler gives the changed data or \<open>None\<close>, a joiner tells whether it
  returned. The lists of data inserted and joined and of serials lost record the history. A step of
  the relation is one step of one thread; the sizes \<open>m_Serial\<close> and \<open>m_NextJoin\<close> do not wrap.
\<close>

section \<open>State and operations\<close>

record 'a ow_task =
  ow_data :: 'a
  ow_serial :: nat

type_synonym 'a ow_pool = "('a ow_task, 'a ow_task list) queue_thread"

record 'a ordered_worker =
  ow_Worker :: "'a ow_pool"
  ow_Join :: "'a ow_pool"
  ow_Serial :: nat
  ow_NextJoin :: nat
  ow_Inserted :: "'a list"
  ow_Joined :: "'a list"
  ow_Lost :: "nat list"

definition ow_new :: "'a ordered_worker" where
  "ow_new = \<lparr>ow_Worker = qt_new [], ow_Join = qt_new [], ow_Serial = 0, ow_NextJoin = 0,
     ow_Inserted = [], ow_Joined = [], ow_Lost = []\<rparr>"

abbreviation join_queue :: "('a ow_task, 'a ow_task list) queue_ops" where
  "join_queue \<equiv> serial_queue ow_serial"

definition ow_insert :: "'a \<Rightarrow> 'a ordered_worker \<Rightarrow> 'a ordered_worker" where
  "ow_insert aItem s =
     s\<lparr>ow_Worker := qt_insert list_queue \<lparr>ow_data = aItem, ow_serial = ow_Serial s\<rparr> (ow_Worker s),
       ow_Serial := ow_Serial s + 1, ow_Inserted := ow_Inserted s @ [aItem]\<rparr>"

text \<open>The handler of the worker pool: run the handler, hand the task to the joining pool.\<close>

definition ow_work :: "('a \<Rightarrow> 'a option) \<Rightarrow> 'a ow_task \<Rightarrow> 'a ordered_worker \<Rightarrow> 'a ordered_worker" where
  "ow_work handler t s =
     (case handler (ow_data t) of
        Some d \<Rightarrow> s\<lparr>ow_Worker := qt_leave t (ow_Worker s),
                    ow_Join := qt_insert join_queue (t\<lparr>ow_data := d\<rparr>) (ow_Join s)\<rparr>
      | None \<Rightarrow> s\<lparr>ow_Worker := qt_leave t (ow_Worker s), ow_Lost := ow_Lost s @ [ow_serial t]\<rparr>)"

text \<open>The condition of the joining pool, and its handler.\<close>

definition ow_check :: "'a ordered_worker \<Rightarrow> 'a ow_task \<Rightarrow> bool" where
  "ow_check s t \<longleftrightarrow> ow_serial t = ow_NextJoin s"

definition ow_join :: "('a \<Rightarrow> bool) \<Rightarrow> 'a ow_task \<Rightarrow> 'a ordered_worker \<Rightarrow> 'a ordered_worker" where
  "ow_join joiner t s =
     (if joiner (ow_data t)
      then s\<lparr>ow_Join := qt_leave t (ow_Join s), ow_NextJoin := ow_NextJoin s + 1, ow_Joined := ow_Joined s @ [ow_data t]\<rparr>
      else s\<lparr>ow_Join := qt_leave t (ow_Join s), ow_Lost := ow_Lost s @ [ow_serial t]\<rparr>)"

text \<open>A thread that finds its pool exiting drops the task it holds.\<close>

definition ow_drop_work :: "'a ow_task \<Rightarrow> 'a ordered_worker \<Rightarrow> 'a ordered_worker" where
  "ow_drop_work t s = s\<lparr>ow_Worker := qt_leave t (ow_Worker s), ow_Lost := ow_Lost s @ [ow_serial t]\<rparr>"

definition ow_drop_join :: "'a ow_task \<Rightarrow> 'a ordered_worker \<Rightarrow> 'a ordered_worker" where
  "ow_drop_join t s = s\<lparr>ow_Join := qt_leave t (ow_Join s), ow_Lost := ow_Lost s @ [ow_serial t]\<rparr>"

abbreviation ow_stopping :: "'a ow_pool \<Rightarrow> bool" where
  "ow_stopping p \<equiv> sq_Stop (qt_Queue p)"

text \<open>The threads: \<open>n\<close> workers and one that joins.\<close>

inductive ow_step :: "nat \<Rightarrow> ('a \<Rightarrow> 'a option) \<Rightarrow> ('a \<Rightarrow> bool) \<Rightarrow> 'a ordered_worker \<Rightarrow> 'a ordered_worker \<Rightarrow> bool"
  for n handler joiner where
  work_pick: "length (qt_Hand (ow_Worker s)) + qt_Fin (ow_Worker s) < n \<Longrightarrow> qt_pick list_queue None (ow_Worker s) = Some (t, p)
    \<Longrightarrow> ow_step n handler joiner s (s\<lparr>ow_Worker := p\<rparr>)"
| work: "t \<in> set (qt_Hand (ow_Worker s)) \<Longrightarrow> ow_step n handler joiner s (ow_work handler t s)"
| work_count: "0 < qt_Fin (ow_Worker s) \<Longrightarrow> ow_step n handler joiner s (s\<lparr>ow_Worker := qt_count (ow_Worker s)\<rparr>)"
| join_pick: "qt_Hand (ow_Join s) = [] \<Longrightarrow> qt_Fin (ow_Join s) = 0 \<Longrightarrow> qt_pick join_queue (Some (ow_check s)) (ow_Join s) = Some (t, p)
    \<Longrightarrow> ow_step n handler joiner s (s\<lparr>ow_Join := p\<rparr>)"
| join: "t \<in> set (qt_Hand (ow_Join s)) \<Longrightarrow> ow_step n handler joiner s (ow_join joiner t s)"
| join_count: "0 < qt_Fin (ow_Join s) \<Longrightarrow> ow_step n handler joiner s (s\<lparr>ow_Join := qt_count (ow_Join s)\<rparr>)"
| drop_work: "ow_stopping (ow_Worker s) \<Longrightarrow> t \<in> set (qt_Hand (ow_Worker s)) \<Longrightarrow> ow_step n handler joiner s (ow_drop_work t s)"
| drop_join: "ow_stopping (ow_Join s) \<Longrightarrow> t \<in> set (qt_Hand (ow_Join s)) \<Longrightarrow> ow_step n handler joiner s (ow_drop_join t s)"

text \<open>The callers insert tasks and stop the pools at any moment.\<close>

inductive ow_reach :: "nat \<Rightarrow> ('a \<Rightarrow> 'a option) \<Rightarrow> ('a \<Rightarrow> bool) \<Rightarrow> 'a ordered_worker \<Rightarrow> bool" for n handler joiner where
  ow_start: "ow_reach n handler joiner ow_new"
| ow_inserts: "ow_reach n handler joiner s \<Longrightarrow> ow_reach n handler joiner (ow_insert a s)"
| ow_threads: "ow_reach n handler joiner s \<Longrightarrow> ow_step n handler joiner s t \<Longrightarrow> ow_reach n handler joiner t"
| ow_stops: "ow_reach n handler joiner s
    \<Longrightarrow> ow_reach n handler joiner (s\<lparr>ow_Worker := qt_at_stop sNow 0 (ow_Worker s), ow_Join := qt_at_stop sNow 0 (ow_Join s)\<rparr>)"

section \<open>Where the tasks are\<close>

abbreviation queued :: "'a ow_pool \<Rightarrow> 'a ow_task list" where
  "queued p \<equiv> sq_List (qt_Queue p)"

definition live :: "'a ow_pool \<Rightarrow> 'a ow_task multiset" where
  "live p = mset (queued p) + mset (qt_Hand p)"

text \<open>
  Every serial given out is with one task of one of the pools, lost, or joined; a task in the first
  pool has the data inserted, one in the second the data handled, and what was joined are the
  results of the first tasks in order.
\<close>

definition ow_ok :: "('a \<Rightarrow> 'a option) \<Rightarrow> 'a ordered_worker \<Rightarrow> bool" where
  "ow_ok handler s \<longleftrightarrow>
     sorted (map ow_serial (queued (ow_Join s))) \<and> ow_Serial s = length (ow_Inserted s)
     \<and> image_mset ow_serial (live (ow_Worker s) + live (ow_Join s)) + mset (ow_Lost s) + mset [0..<ow_NextJoin s]
         = mset [0..<ow_Serial s]
     \<and> (\<forall>t \<in># live (ow_Worker s). ow_data t = ow_Inserted s ! ow_serial t)
     \<and> (\<forall>t \<in># live (ow_Join s). Some (ow_data t) = handler (ow_Inserted s ! ow_serial t))
     \<and> (\<forall>t \<in> set (qt_Hand (ow_Join s)). ow_serial t = ow_NextJoin s) \<and> length (qt_Hand (ow_Join s)) \<le> 1
     \<and> length (ow_Joined s) = ow_NextJoin s
     \<and> (\<forall>i < ow_NextJoin s. Some (ow_Joined s ! i) = handler (ow_Inserted s ! i))"

lemma live_insert_fifo: "live (qt_insert list_queue t p) = add_mset t (live p)"
  by (simp add: live_def qt_insert_def sq_insert_def list_queue_def)

lemma live_insert_prio: "live (qt_insert join_queue t p) = add_mset t (live p)"
  by (simp add: live_def qt_insert_def sq_insert_def serial_queue_def)

lemma live_leave: "t \<in> set (qt_Hand p) \<Longrightarrow> live p = add_mset t (live (qt_leave t p))"
  by (simp add: live_def qt_leave_def)

lemma live_count [simp]: "live (qt_count p) = live p"
  by (simp add: live_def qt_count_def)

lemma live_at_stop [simp]: "live (qt_at_stop x l p) = live p"
  by (simp add: live_def qt_at_stop_def sq_stop_def)

lemma live_pick:
  assumes "qt_pick Q f p = Some (t, p')" and "q_empty Q = (\<lambda>xs. xs = [])" and "q_top Q = hd" and "q_pop Q = tl"
  shows "live p' = live p" and "queued p = t # queued p'" and "qt_Hand p' = t # qt_Hand p" and "qt_Fin p' = qt_Fin p"
    and "f = Some g \<Longrightarrow> g t"
proof -
  have "queued p \<noteq> [] \<and> t = hd (queued p) \<and> queued p' = tl (queued p) \<and> qt_Hand p' = t # qt_Hand p \<and> qt_Fin p' = qt_Fin p
      \<and> (\<forall>g. f = Some g \<longrightarrow> g t)"
    using assms by (auto simp: qt_pick_def sq_wait_def split: if_splits option.splits)
  then show "live p' = live p" "queued p = t # queued p'" "qt_Hand p' = t # qt_Hand p" "qt_Fin p' = qt_Fin p" "f = Some g \<Longrightarrow> g t"
    by (cases "queued p"; simp add: live_def)+
qed

lemma list_queue_fields: "q_empty list_queue = (\<lambda>xs. xs = [])" "q_top list_queue = hd" "q_pop list_queue = tl"
  by (simp_all add: list_queue_def)

lemma join_queue_fields: "q_empty join_queue = (\<lambda>xs. xs = [])" "q_top join_queue = hd" "q_pop join_queue = tl"
  by (simp_all add: serial_queue_def)

lemmas pick_fifo = live_pick [OF _ list_queue_fields]
lemmas pick_join = live_pick [OF _ join_queue_fields]

lemma ow_okD:
  assumes "ow_ok handler s"
  shows "sorted (map ow_serial (queued (ow_Join s)))" "ow_Serial s = length (ow_Inserted s)"
    "image_mset ow_serial (live (ow_Worker s) + live (ow_Join s)) + mset (ow_Lost s) + mset [0..<ow_NextJoin s] = mset [0..<ow_Serial s]"
    "t \<in># live (ow_Worker s) \<Longrightarrow> ow_data t = ow_Inserted s ! ow_serial t"
    "t \<in># live (ow_Join s) \<Longrightarrow> Some (ow_data t) = handler (ow_Inserted s ! ow_serial t)"
    "t \<in> set (qt_Hand (ow_Join s)) \<Longrightarrow> ow_serial t = ow_NextJoin s" "length (qt_Hand (ow_Join s)) \<le> 1"
    "length (ow_Joined s) = ow_NextJoin s" "i < ow_NextJoin s \<Longrightarrow> Some (ow_Joined s ! i) = handler (ow_Inserted s ! i)"
  using assms unfolding ow_ok_def by blast+

lemma serials_bounded:
  assumes "M + mset [0..<j] = mset [0..<n]"
  shows "j \<le> n" and "x \<in># M \<Longrightarrow> j \<le> x \<and> x < n"
proof -
  have s: "set_mset M \<union> {0..<j} = {0..<n}" using arg_cong [OF assms, of set_mset] by simp
  then have "{0..<j} \<subseteq> {0..<n}" by blast
  then show "j \<le> n" by (cases j) auto
  assume "x \<in># M"
  then have "0 < count M x" by simp
  moreover have "count M x + (if x < j then 1 else 0) = (if x < n then 1 else 0)"
    using arg_cong [OF assms, of "\<lambda>M. count M x"] by (simp add: count_mset_set')
  ultimately show "j \<le> x \<and> x < n" by (simp split: if_splits del: count_greater_zero_iff)
qed

lemma ow_ok_serials:
  assumes "ow_ok handler s"
  shows "ow_NextJoin s \<le> ow_Serial s"
    and "t \<in># live (ow_Worker s) + live (ow_Join s) \<Longrightarrow> ow_NextJoin s \<le> ow_serial t \<and> ow_serial t < ow_Serial s"
  using serials_bounded(1) [OF ow_okD(3) [OF assms]] serials_bounded(2) [OF ow_okD(3) [OF assms], of "ow_serial t"] by auto

lemma ow_insert_ok: "ow_ok handler s \<Longrightarrow> ow_ok handler (ow_insert a s)"
proof -
  assume ok: "ow_ok handler s"
  note d = ow_okD [OF ok] and sr = ow_ok_serials [OF ok]
  have nth: "(ow_Inserted s @ [a]) ! i = ow_Inserted s ! i" if "i < ow_Serial s" for i using that d(2) by (simp add: nth_append)
  have w: "ow_data t = (ow_Inserted s @ [a]) ! ow_serial t" if "t \<in># live (ow_Worker s)" for t
    using d(4) [OF that] sr(2) [of t] that nth by simp
  have j: "Some (ow_data t) = handler ((ow_Inserted s @ [a]) ! ow_serial t)" if "t \<in># live (ow_Join s)" for t
    using d(5) [OF that] sr(2) [of t] that nth by simp
  have "\<forall>i < ow_NextJoin s. Some (ow_Joined s ! i) = handler ((ow_Inserted s @ [a]) ! i)"
    using d(9) sr(1) nth by simp
  then show ?thesis using ok w j d(2,3) unfolding ow_ok_def
    by (auto simp: ow_insert_def live_insert_fifo)
qed

lemma ow_work_ok: "ow_ok handler s \<Longrightarrow> t \<in> set (qt_Hand (ow_Worker s)) \<Longrightarrow> ow_ok handler (ow_work handler t s)"
proof -
  assume ok: "ow_ok handler s" and t: "t \<in> set (qt_Hand (ow_Worker s))"
  note d = ow_okD [OF ok] and l = live_leave [OF t]
  have dt: "ow_data t = ow_Inserted s ! ow_serial t" using d(4) l by simp
  show ?thesis
  proof (cases "handler (ow_data t)")
    case None
    then show ?thesis using ok l unfolding ow_ok_def by (simp add: ow_work_def)
  next
    case (Some x)
    have so: "sorted (map ow_serial (queued (qt_insert join_queue (t\<lparr>ow_data := x\<rparr>) (ow_Join s))))"
      using d(1) by (simp add: qt_insert_def sq_insert_def serial_queue_def sorted_insort_key)
    have h: "qt_Hand (qt_insert join_queue (t\<lparr>ow_data := x\<rparr>) (ow_Join s)) = qt_Hand (ow_Join s)" by (simp add: qt_insert_def)
    show ?thesis using ok l Some dt so unfolding ow_ok_def by (simp add: ow_work_def live_insert_prio h)
  qed
qed

lemma ow_drop_ok:
  assumes ok: "ow_ok handler s"
  shows "t \<in> set (qt_Hand (ow_Worker s)) \<Longrightarrow> ow_ok handler (ow_drop_work t s)"
    and "t \<in> set (qt_Hand (ow_Join s)) \<Longrightarrow> ow_ok handler (ow_drop_join t s)"
proof -
  show "ow_ok handler (ow_drop_work t s)" if t: "t \<in> set (qt_Hand (ow_Worker s))"
    using ok live_leave [OF t] unfolding ow_ok_def by (simp add: ow_drop_work_def)
  assume t: "t \<in> set (qt_Hand (ow_Join s))"
  have q: "qt_Queue (qt_leave t (ow_Join s)) = qt_Queue (ow_Join s)" "qt_Hand (qt_leave t (ow_Join s)) = remove1 t (qt_Hand (ow_Join s))"
    by (simp_all add: qt_leave_def)
  show "ow_ok handler (ow_drop_join t s)"
    using ok live_leave [OF t] set_remove1_subset [of t "qt_Hand (ow_Join s)"] unfolding ow_ok_def
    by (auto simp: ow_drop_join_def q length_remove1)
qed

lemma ow_join_ok: "ow_ok handler s \<Longrightarrow> t \<in> set (qt_Hand (ow_Join s)) \<Longrightarrow> ow_ok handler (ow_join joiner t s)"
proof -
  assume ok: "ow_ok handler s" and t: "t \<in> set (qt_Hand (ow_Join s))"
  note d = ow_okD [OF ok] and l = live_leave [OF t]
  show ?thesis
  proof (cases "joiner (ow_data t)")
    case False
    then have "ow_join joiner t s = ow_drop_join t s" by (simp add: ow_join_def ow_drop_join_def)
    then show ?thesis using ow_drop_ok(2) [OF ok t] by simp
  next
    case True
    have n: "ow_serial t = ow_NextJoin s" using d(6) [OF t] .
    have "length (qt_Hand (ow_Join s)) = 1" using d(7) length_pos_if_in_set [OF t] by linarith
    then have "qt_Hand (ow_Join s) = [t]" using t by (auto simp: length_Suc_conv)
    then have q: "qt_Queue (qt_leave t (ow_Join s)) = qt_Queue (ow_Join s)" "qt_Hand (qt_leave t (ow_Join s)) = []"
      by (simp_all add: qt_leave_def)
    have "Some (ow_data t) = handler (ow_Inserted s ! ow_NextJoin s)" using d(5) [of t] l n by simp
    then have jo: "\<forall>i < Suc (ow_NextJoin s). Some ((ow_Joined s @ [ow_data t]) ! i) = handler (ow_Inserted s ! i)"
      using d(8,9) by (simp add: nth_append less_Suc_eq)
    show ?thesis using ok l n jo True unfolding ow_ok_def by (simp add: ow_join_def q)
  qed
qed

lemma ow_step_ok: "ow_step n handler joiner s s' \<Longrightarrow> ow_ok handler s \<Longrightarrow> ow_ok handler s'"
proof (induction rule: ow_step.induct)
  case (work_pick s t p)
  then show ?case using pick_fifo(1) [OF work_pick(2)] unfolding ow_ok_def by simp
next
  case (join_pick s t p)
  note p = pick_join [OF join_pick(3)]
  have "ow_check s t" using p(5) by blast
  then show ?case using join_pick(1,4) p(1-3) unfolding ow_ok_def by (auto simp: ow_check_def)
next
  case (join_count s)
  moreover have "qt_Queue (qt_count p) = qt_Queue p" "qt_Hand (qt_count p) = qt_Hand p" for p :: "'a ow_pool"
    by (simp_all add: qt_count_def)
  ultimately show ?case unfolding ow_ok_def by simp
next
  case (work_count s)
  then show ?case unfolding ow_ok_def by simp
qed (auto intro: ow_work_ok ow_join_ok ow_drop_ok)

lemma ow_new_ok: "ow_ok handler ow_new"
  by (simp add: ow_ok_def ow_new_def qt_new_def sq_new_def live_def)

lemma ow_reach_ok: "ow_reach n handler joiner s \<Longrightarrow> ow_ok handler s"
proof (induction rule: ow_reach.induct)
  case (ow_stops s sNow)
  moreover have "sq_List (qt_Queue (qt_at_stop x l p)) = queued p" "qt_Hand (qt_at_stop x l p) = qt_Hand p" for x l and p :: "'a ow_pool"
    by (simp_all add: qt_at_stop_def sq_stop_def)
  ultimately show ?case unfolding ow_ok_def by simp
qed (auto intro: ow_new_ok ow_insert_ok ow_step_ok)

text \<open>The runs of a single task, for the examples: it is picked, and then handled or lost.\<close>

definition single_picked :: "'a \<Rightarrow> 'a ordered_worker" where
  "single_picked a = ow_new\<lparr>ow_Worker := (qt_new [])\<lparr>qt_Queue := \<lparr>sq_List = [], sq_Stop = False, sq_Counter = 1\<rparr>,
       qt_Hand := [\<lparr>ow_data = a, ow_serial = 0\<rparr>]\<rparr>, ow_Serial := 1, ow_Inserted := [a]\<rparr>"

lemma single_picked_reach: "ow_reach 1 handler joiner (single_picked a)"
proof -
  let ?p = "(qt_new [])\<lparr>qt_Queue := \<lparr>sq_List = [], sq_Stop = False, sq_Counter = 1\<rparr>, qt_Hand := [\<lparr>ow_data = a, ow_serial = 0\<rparr>]\<rparr>"
  have "ow_reach 1 handler joiner (ow_insert a ow_new)" by (intro ow_reach.intros)
  moreover have "ow_step 1 handler joiner (ow_insert a ow_new) ((ow_insert a ow_new)\<lparr>ow_Worker := ?p\<rparr>)"
    by (rule ow_step.work_pick [where t = "\<lparr>ow_data = a, ow_serial = 0\<rparr>"])
      (simp_all add: ow_insert_def ow_new_def qt_insert_def sq_insert_def qt_new_def sq_new_def list_queue_def qt_pick_def sq_wait_def)
  ultimately show ?thesis using ow_threads by (fastforce simp: ow_insert_def ow_new_def single_picked_def)
qed

lemma single_joined:
  assumes "handler a = Some b" and "joiner b"
  shows "\<exists>s. ow_reach 1 handler joiner s \<and> ow_Inserted s = [a] \<and> ow_Joined s = [b] \<and> ow_Lost s = []"
proof -
  let ?t = "\<lparr>ow_data = a, ow_serial = 0\<rparr>" and ?u = "\<lparr>ow_data = b, ow_serial = 0\<rparr>"
  let ?s = "ow_work handler ?t (single_picked a)"
  let ?p = "(ow_Join ?s)\<lparr>qt_Queue := (qt_Queue (ow_Join ?s))\<lparr>sq_List := []\<rparr>, qt_Hand := [?u]\<rparr>"
  have s: "ow_reach 1 handler joiner ?s"
    by (rule ow_threads [OF single_picked_reach ow_step.work]) (simp add: single_picked_def)
  have "ow_step 1 handler joiner ?s (?s\<lparr>ow_Join := ?p\<rparr>)"
    using assms(1) by (intro ow_step.join_pick [where t = ?u])
      (simp_all add: ow_work_def single_picked_def ow_new_def qt_new_def sq_new_def qt_insert_def sq_insert_def
        serial_queue_def qt_pick_def sq_wait_def ow_check_def)
  from ow_threads [OF s this] have p: "ow_reach 1 handler joiner (?s\<lparr>ow_Join := ?p\<rparr>)" .
  have "ow_reach 1 handler joiner (ow_join joiner ?u (?s\<lparr>ow_Join := ?p\<rparr>))"
    by (rule ow_threads [OF p ow_step.join]) simp
  then show ?thesis using assms by (intro exI) (rule conjI, assumption, simp add: ow_join_def ow_work_def single_picked_def ow_new_def)
qed

section \<open>Order\<close>

text \<open>
  C4: the joiner sees the results in the order of insertion. In every interleaving of any number of
  workers with the joining thread, whatever handlers and joiners throw and whenever the pools are
  stopped, the data joined so far are the results of the handler on the first data inserted, in
  order, each once.
\<close>

theorem ordered_worker_in_order:
  assumes "ow_reach n handler joiner s"
  shows "map Some (ow_Joined s) = map handler (take (length (ow_Joined s)) (ow_Inserted s))
    \<and> length (ow_Joined s) = ow_NextJoin s \<and> ow_NextJoin s \<le> length (ow_Inserted s)"
proof -
  note ok = ow_reach_ok [OF assms]
  note d = ow_okD [OF ok] and sr = ow_ok_serials(1) [OF ok]
  have "map Some (ow_Joined s) = map handler (take (length (ow_Joined s)) (ow_Inserted s))"
    using d(2,8,9) sr by (intro nth_equalityI) simp_all
  then show ?thesis using d(2,8) sr by simp
qed

theorem ordered_worker_in_order_witness:
  "\<exists>s :: nat ordered_worker. ow_Joined s = [6] \<and> map Some (ow_Joined s) = map (\<lambda>x. Some (x + 1)) (take (length (ow_Joined s)) [5 :: nat])"
proof -
  obtain s where s: "ow_reach 1 (\<lambda>x. Some (x + 1)) (\<lambda>_. True) s" "ow_Inserted s = [5 :: nat]" "ow_Joined s = [6]"
    using single_joined [of "\<lambda>x :: nat. Some (x + 1)" 5 6 "\<lambda>_. True"] by auto
  then show ?thesis using ordered_worker_in_order [OF s(1)] by (intro exI [of _ s]) simp
qed

section \<open>Progress\<close>

definition pool_measure :: "nat \<Rightarrow> nat \<Rightarrow> 'a ow_pool \<Rightarrow> nat" where
  "pool_measure a b p = a * length (queued p) + b * length (qt_Hand p) + qt_Fin p"

text \<open>The work left: a task passes through seven states at most.\<close>

definition ow_measure :: "'a ordered_worker \<Rightarrow> nat" where
  "ow_measure s = pool_measure 7 6 (ow_Worker s) + pool_measure 4 3 (ow_Join s)"

lemma measure_leave: "t \<in> set (qt_Hand p) \<Longrightarrow> pool_measure a b p + 1 = pool_measure a b (qt_leave t p) + b"
proof -
  assume "t \<in> set (qt_Hand p)"
  then obtain k where "length (qt_Hand p) = Suc k" "length (remove1 t (qt_Hand p)) = k"
    using length_pos_if_in_set [of t "qt_Hand p"] by (simp add: length_remove1 gr0_conv_Suc) blast
  then show ?thesis by (simp add: pool_measure_def qt_leave_def)
qed

lemma measure_count: "0 < qt_Fin p \<Longrightarrow> pool_measure a b (qt_count p) < pool_measure a b p"
  by (simp add: pool_measure_def qt_count_def)

lemma measure_insert: "pool_measure a b (qt_insert join_queue t p) = a + pool_measure a b p"
  by (simp add: pool_measure_def qt_insert_def sq_insert_def serial_queue_def)

lemma measure_pick: "queued p = t # queued p' \<Longrightarrow> qt_Hand p' = t # qt_Hand p \<Longrightarrow> qt_Fin p' = qt_Fin p
    \<Longrightarrow> pool_measure (Suc a) a p' < pool_measure (Suc a) a p"
  by (simp add: pool_measure_def)

lemma ow_step_measure: "ow_step n handler joiner s s' \<Longrightarrow> ow_measure s' < ow_measure s"
proof (induction rule: ow_step.induct)
  case (work_pick s t p)
  then show ?case using measure_pick [of "ow_Worker s" t p 6] pick_fifo [OF work_pick(2)] by (simp add: ow_measure_def)
next
  case (join_pick s t p)
  then show ?case using measure_pick [of "ow_Join s" t p 3] pick_join [OF join_pick(3)] by (simp add: ow_measure_def)
next
  case (work t s)
  then show ?case using measure_leave [OF work, of 7 6]
    by (auto simp: ow_measure_def ow_work_def measure_insert split: option.splits)
next
  case (join t s)
  then show ?case using measure_leave [OF join, of 4 3] by (auto simp: ow_measure_def ow_join_def)
next
  case (drop_work s t)
  then show ?case using measure_leave [OF drop_work(2), of 7 6] by (simp add: ow_measure_def ow_drop_work_def)
next
  case (drop_join s t)
  then show ?case using measure_leave [OF drop_join(2), of 4 3] by (simp add: ow_measure_def ow_drop_join_def)
qed (simp_all add: ow_measure_def measure_count)

lemma join_ready:
  assumes ok: "ow_ok handler s" and "ow_Lost s = []" and "ow_NextJoin s < ow_Serial s"
    and "live (ow_Worker s) = {#}" and "qt_Hand (ow_Join s) = []"
  shows "\<exists>t p. qt_pick join_queue (Some (ow_check s)) (ow_Join s) = Some (t, p)"
proof -
  note d = ow_okD [OF ok]
  let ?q = "queued (ow_Join s)"
  have l: "live (ow_Join s) = mset ?q" using assms(5) by (simp add: live_def)
  have "ow_NextJoin s \<in># mset [0..<ow_Serial s]" using assms(3) by simp
  then have "ow_NextJoin s \<in># image_mset ow_serial (live (ow_Worker s) + live (ow_Join s)) + mset (ow_Lost s) + mset [0..<ow_NextJoin s]"
    unfolding d(3) .
  then have "ow_NextJoin s \<in> ow_serial ` set ?q" using assms(2,4) l by simp
  then obtain x where x: "x \<in> set ?q" "ow_serial x = ow_NextJoin s" by auto
  then obtain t ts where q: "?q = t # ts" by (cases ?q) auto
  have "ow_serial t \<le> ow_serial x" using d(1) x(1) by (auto simp: q)
  moreover have "ow_NextJoin s \<le> ow_serial t" using ow_ok_serials(2) [OF ok, of t] l q by simp
  ultimately have "ow_check s t" using x(2) by (simp add: ow_check_def)
  then show ?thesis using q by (simp add: qt_pick_def sq_wait_def serial_queue_def)
qed



section \<open>A lost task\<close>

text \<open>What the threads and the callers do next.\<close>

inductive ow_runs :: "nat \<Rightarrow> ('a \<Rightarrow> 'a option) \<Rightarrow> ('a \<Rightarrow> bool) \<Rightarrow> 'a ordered_worker \<Rightarrow> 'a ordered_worker \<Rightarrow> bool"
  for n handler joiner s where
  run_none: "ow_runs n handler joiner s s"
| run_insert: "ow_runs n handler joiner s t \<Longrightarrow> ow_runs n handler joiner s (ow_insert a t)"
| run_step: "ow_runs n handler joiner s t \<Longrightarrow> ow_step n handler joiner t u \<Longrightarrow> ow_runs n handler joiner s u"

lemma ow_runs_reach: "ow_runs n handler joiner s t \<Longrightarrow> ow_reach n handler joiner s \<Longrightarrow> ow_reach n handler joiner t"
  by (induction rule: ow_runs.induct) (auto intro: ow_reach.intros)

lemma ow_step_stuck:
  assumes "ow_step n handler joiner s t" and ok: "ow_ok handler s" and l: "ow_NextJoin s \<in> set (ow_Lost s)"
  shows "ow_NextJoin t \<in> set (ow_Lost t) \<and> ow_Joined t = ow_Joined s"
proof -
  have no: "t \<notin> set (qt_Hand (ow_Join s))" for t
  proof
    assume t: "t \<in> set (qt_Hand (ow_Join s))"
    then have "1 \<le> count (image_mset ow_serial (live (ow_Join s))) (ow_NextJoin s)"
      using live_leave [OF t] ow_okD(6) [OF ok t] by simp
    moreover have "1 \<le> count (mset (ow_Lost s)) (ow_NextJoin s)" using l by (simp add: Suc_le_eq)
    moreover have "count (mset [0..<ow_Serial s]) (ow_NextJoin s) \<le> 1" by (simp add: count_mset_set')
    ultimately show False
      using arg_cong [OF ow_okD(3) [OF ok], of "\<lambda>M. count M (ow_NextJoin s)"] unfolding count_union image_mset_union by linarith
  qed
  show ?thesis using assms(1) l no
    by cases (auto simp: ow_work_def ow_drop_work_def split: option.splits)
qed

text \<open>
  C37: a handler that throws stops the join for good. When the task that is next in order was lost,
  no result is joined any more, whatever is inserted and whatever the threads do: a caller that
  waits for all results, as \<open>MapReduce\<close> does, waits forever.
\<close>

theorem ordered_worker_stalls:
  assumes "ow_reach n handler joiner s" and "ow_NextJoin s \<in> set (ow_Lost s)" and "ow_runs n handler joiner s t"
  shows "ow_Joined t = ow_Joined s"
proof -
  have "ow_NextJoin t \<in> set (ow_Lost t) \<and> ow_Joined t = ow_Joined s"
    using assms(3)
  proof (induction rule: ow_runs.induct)
    case (run_step t u)
    then show ?case using ow_step_stuck [OF run_step(2) ow_reach_ok [OF ow_runs_reach [OF run_step(1) assms(1)]]] by simp
  qed (simp_all add: assms(2) ow_insert_def)
  then show ?thesis ..
qed

theorem ordered_worker_stalls_witness:
  "ow_Joined (ow_insert 7 (ow_work (\<lambda>_. None) \<lparr>ow_data = 5 :: nat, ow_serial = 0\<rparr> (single_picked 5))) = []"
proof -
  let ?s = "ow_work (\<lambda>_. None) \<lparr>ow_data = 5 :: nat, ow_serial = 0\<rparr> (single_picked 5)"
  have "ow_reach 1 (\<lambda>_. None) (\<lambda>_. True) ?s"
    by (rule ow_threads [OF single_picked_reach ow_step.work]) (simp add: single_picked_def)
  moreover have "ow_runs 1 (\<lambda>_. None) (\<lambda>_. True) ?s (ow_insert 7 ?s)" by (intro ow_runs.intros)
  ultimately have "ow_Joined (ow_insert 7 ?s) = ow_Joined ?s"
    by (intro ordered_worker_stalls) (simp_all add: ow_work_def single_picked_def ow_new_def)
  then show ?thesis by (simp add: ow_work_def single_picked_def ow_new_def)
qed

section \<open>MapReduce\<close>

text \<open>
  A task is a chunk and its result; the handler maps, the joiner reduces into the result and counts.
  The caller returns when as many results were reduced as there are chunks.
\<close>

definition mr_handler :: "('c \<Rightarrow> 'r) \<Rightarrow> 'c \<times> 'r \<Rightarrow> ('c \<times> 'r) option" where
  "mr_handler aMapper = (\<lambda>(input, result). Some (input, aMapper input))"

definition mr_result :: "('z \<Rightarrow> 'r \<Rightarrow> 'z) \<Rightarrow> 'z \<Rightarrow> ('c \<times> 'r) ordered_worker \<Rightarrow> 'z" where
  "mr_result aReducer z s = foldl (\<lambda>acc (input, result). aReducer acc result) z (ow_Joined s)"

definition mr_returns :: "'c list \<Rightarrow> ('c \<times> 'r) ordered_worker \<Rightarrow> bool" where
  "mr_returns sTasks s \<longleftrightarrow> \<not> length (ow_Joined s) < length sTasks"

text \<open>
  C36: \<open>MapReduce\<close> computes the sequential result. In every interleaving, when it returns, the result
  is that of reducing the mapped chunks from the left in the order of the list, whether or not the
  reducer is associative.
\<close>

theorem map_reduce_result:
  assumes "ow_reach n (mr_handler aMapper) (\<lambda>_. True) s" and "ow_Inserted s = map (\<lambda>c. (c, sInit)) chunks"
    and "mr_returns chunks s"
  shows "mr_result aReducer z s = foldl aReducer z (map aMapper chunks)"
proof -
  note ok = ow_reach_ok [OF assms(1)]
  note d = ow_okD [OF ok] and sr = ow_ok_serials(1) [OF ok]
  have len: "length (ow_Joined s) = length chunks" "ow_NextJoin s = length chunks"
    using assms(2,3) d(2,8) sr by (simp_all add: mr_returns_def)
  have "ow_Joined s = map (\<lambda>c. (c, aMapper c)) chunks"
  proof (rule nth_equalityI)
    fix i assume "i < length (ow_Joined s)"
    then show "ow_Joined s ! i = map (\<lambda>c. (c, aMapper c)) chunks ! i"
      using d(9) [of i] len assms(2) by (simp add: mr_handler_def)
  qed (simp add: len)
  then show ?thesis by (simp add: mr_result_def foldl_map)
qed

theorem map_reduce_result_witness:
  "\<exists>s :: (nat list \<times> nat) ordered_worker. ow_Inserted s = [([1, 2], 0)] \<and> mr_result (\<lambda>acc r. acc * 10 + r) (4 :: nat) s = 43"
proof -
  obtain s where s: "ow_reach 1 (mr_handler sum_list) (\<lambda>_. True) s" "ow_Inserted s = [([1, 2 :: nat], 0)]"
    "ow_Joined s = [([1, 2], 3)]"
    using single_joined [of "mr_handler sum_list" "([1, 2 :: nat], 0)" "([1, 2], 3)" "\<lambda>_. True"] by (simp add: mr_handler_def) blast
  have "mr_result (\<lambda>acc r. acc * 10 + r) (4 :: nat) s = foldl (\<lambda>acc r. acc * 10 + r) 4 (map sum_list [[1, 2 :: nat]])"
    using s by (intro map_reduce_result [OF s(1), where sInit = 0]) (simp_all add: mr_returns_def)
  then show ?thesis using s(2) by auto
qed

end
