(* ===== verification/Mq.thy ===== *)
theory Mq
  imports Threads_Queue Etcd_Mem "HOL-Library.Sublist"
begin

text \<open>
  The message queue of \<open>mq/\<close>: a server accepts a block once, by writing its hash into a list kept in
  etcd under the name of the client before it queues the body, so that a client may repeat a request
  until it succeeds. Any number of servers share the registry, each through the operations of
  \<open>Etcd::Client\<close>; a call that throws may have been carried out or not.
\<close>

section \<open>The server\<close>

record mq_params =
  mp_queue_limit :: u64
  mp_etcd_limit :: nat
  mp_max_size :: nat

record mq_server =
  ms_Queue :: "(byte list, byte list list) queue_thread"
  ms_Active :: bool
  ms_Running :: u32

definition mq_new :: mq_server where
  "mq_new = \<lparr>ms_Queue = qt_new [], ms_Active = True, ms_Running = 0\<rparr>"

record mq_request =
  rq_put :: bool
  rq_target :: "byte list"
  rq_body :: "byte list"

datatype mq_reply = Status nat | Threw exn

definition key_client :: "byte list" where "key_client = bytes_of ''client''"
definition key_hash :: "byte list" where "key_hash = bytes_of ''hash''"

text \<open>The handler given to \<open>http_query\<close>: the last value of a name counts.\<close>

definition mq_query :: "(byte list \<times> byte list) list \<Rightarrow> byte list \<times> byte list" where
  "mq_query = (\<lambda>kvs. fold (\<lambda>(aName, aValue) (sClient, sHash).
     (if aName = key_client then aValue else sClient, if aName = key_hash then aValue else sHash)) kvs ([], []))"

text \<open>
  \<open>process\<close> up to the call of \<open>process_i\<close>: the reply when it ends here, with \<open>m_Running\<close> as the
  guard leaves it, or the client and the hash.
\<close>

definition mq_begin :: "mq_params \<Rightarrow> mq_request \<Rightarrow> mq_server \<Rightarrow> (mq_reply + byte list \<times> byte list) \<times> mq_server" where
  "mq_begin P r s =
     (if \<not> rq_put r then (Inl (Status 405), s)
      else if \<not> ms_Active s then (Inl (Status 503), s)
      else if mp_queue_limit P < qt_size (ms_Queue s) then (Inl (Status 429), s)
      else if mp_max_size P < length (rq_target r) then (Inl (Status 413), s)
      else case http_query (rq_target r) of
        Inl e \<Rightarrow> (Inl (Threw e), s)
      | Inr kvs \<Rightarrow>
          let (sClient, sHash) = mq_query kvs
          in if sClient = [] \<or> sHash = [] then (Inl (Status 400), s)
             else (Inr (sClient, sHash), s\<lparr>ms_Running := ms_Running s + 1\<rparr>))"

text \<open>\<open>process_i\<close> after the old state was read: a duplicate, or the new state to be written.\<close>

definition parseState :: "json_ops \<Rightarrow> byte list \<Rightarrow> json list result" where
  "parseState J aState =
     (case js_parse J aState of
        Inl _ \<Rightarrow> Inl (RuntimeError ''mq.server: bad server response'')
      | Inr (JArr vs) \<Rightarrow> Inr vs
      | Inr _ \<Rightarrow> Inl (RuntimeError ''mq.server: bad server response: array expected''))"

definition formatState :: "json_ops \<Rightarrow> json list \<Rightarrow> byte list" where
  "formatState J vs = js_write J (JArr vs)"

definition mq_state :: "json_ops \<Rightarrow> byte list \<Rightarrow> json list result" where
  "mq_state J sOld = (if sOld = [] then Inr [] else parseState J sOld)"

text \<open>The loop over the hashes.\<close>

fun mq_known :: "byte list \<Rightarrow> json list \<Rightarrow> bool result" where
  "mq_known aHash [] = Inr False"
| "mq_known aHash (v # vs) = bindr (js_asString v) (\<lambda>s. if s = aHash then Inr True else mq_known aHash vs)"

text \<open>The new hash is appended, and the oldest ones are removed one by one.\<close>

fun mq_trim :: "nat \<Rightarrow> 'a list \<Rightarrow> 'a list" where
  "mq_trim etcd_limit sHashes = (if etcd_limit < length sHashes then mq_trim etcd_limit (tl sHashes) else sHashes)"

declare mq_trim.simps [simp del]

definition mq_append :: "nat \<Rightarrow> 'a list \<Rightarrow> 'a \<Rightarrow> 'a list" where
  "mq_append etcd_limit sHashes aHash = mq_trim etcd_limit (sHashes @ [aHash])"

definition mq_plan :: "json_ops \<Rightarrow> mq_params \<Rightarrow> byte list \<Rightarrow> byte list \<Rightarrow> byte list option result" where
  "mq_plan J P sOld aHash =
     bindr (mq_state J sOld) (\<lambda>sHashes. bindr (mq_known aHash sHashes) (\<lambda>duplicate.
       if duplicate then Inr None
       else Inr (Some (formatState J (mq_append (mp_etcd_limit P) sHashes (JStr aHash))))))"

definition mq_write :: "('f, 'e) etcd_client \<Rightarrow> 'f \<Rightarrow> byte list \<Rightarrow> byte list \<Rightarrow> byte list \<Rightarrow> 'e \<Rightarrow> unit result \<times> 'e" where
  "mq_write C f aClient sOld sNew e =
     (if sOld = [] then et_atomicPut C f aClient sNew e else et_atomicUpdate C f aClient sOld sNew e)"

definition mq_accept :: "byte list \<Rightarrow> mq_server \<Rightarrow> mq_server" where
  "mq_accept aBody s = s\<lparr>ms_Queue := qt_insert list_queue aBody (ms_Queue s)\<rparr>"

definition mq_end :: "mq_server \<Rightarrow> mq_server" where
  "mq_end s = s\<lparr>ms_Running := ms_Running s - 1\<rparr>"

definition mq_stop :: "mq_server \<Rightarrow> mq_server" where
  "mq_stop s = s\<lparr>ms_Active := False\<rparr>"

section \<open>Servers and the registry\<close>

text \<open>
  Requests in progress: those that passed the checks of their server, and those that have read the
  old state and are about to write the new one. The hashes written under a client, the blocks
  queued and the replies record the history.
\<close>

record mq_call =
  mc_server :: nat
  mc_client :: "byte list"
  mc_hash :: "byte list"
  mc_body :: "byte list"

record 'e mq_system =
  sy_Servers :: "nat \<Rightarrow> mq_server"
  sy_Etcd :: 'e
  sy_Started :: "mq_call list"
  sy_Planned :: "(mq_call \<times> byte list \<times> byte list) list"
  sy_Written :: "byte list \<Rightarrow> byte list list"
  sy_Queued :: "mq_call list"
  sy_Replies :: "(mq_call \<times> mq_reply) list"

definition mq_reply_to :: "mq_call \<Rightarrow> mq_reply \<Rightarrow> 'e mq_system \<Rightarrow> 'e mq_system" where
  "mq_reply_to c r y =
     y\<lparr>sy_Servers := (sy_Servers y)(mc_server c := mq_end (sy_Servers y (mc_server c))), sy_Replies := sy_Replies y @ [(c, r)]\<rparr>"

text \<open>The first half of \<open>process_i\<close>: read the state of the client.\<close>

definition mq_read :: "('f, 'e) etcd_client \<Rightarrow> mq_params \<Rightarrow> 'f \<Rightarrow> mq_call \<Rightarrow> 'e mq_system \<Rightarrow> 'e mq_system" where
  "mq_read C P f c y =
     (let (r, e) = et_get C f (mc_client c) (sy_Etcd y);
          y = y\<lparr>sy_Started := remove1 c (sy_Started y), sy_Etcd := e\<rparr>
      in case bindr r (\<lambda>sOld. bindr (mq_plan (ec_json C) P sOld (mc_hash c)) (\<lambda>p. Inr (sOld, p))) of
           Inl _ \<Rightarrow> mq_reply_to c (Status 502) y
         | Inr (sOld, None) \<Rightarrow> mq_reply_to c (Status 200) y
         | Inr (sOld, Some sNew) \<Rightarrow> y\<lparr>sy_Planned := sy_Planned y @ [(c, sOld, sNew)]\<rparr>)"

text \<open>The second half: write the new state and queue the body.\<close>

definition mq_commit :: "('f, 'e) etcd_client \<Rightarrow> ('e \<Rightarrow> byte list \<Rightarrow> byte list) \<Rightarrow> 'f \<Rightarrow> mq_call \<times> byte list \<times> byte list \<Rightarrow> 'e mq_system \<Rightarrow> 'e mq_system" where
  "mq_commit C content f = (\<lambda>(c, sOld, sNew) y.
     let (r, e) = mq_write C f (mc_client c) sOld sNew (sy_Etcd y);
         y = y\<lparr>sy_Planned := remove1 (c, sOld, sNew) (sy_Planned y), sy_Etcd := e,
               sy_Written := (if content e \<noteq> content (sy_Etcd y)
                              then (sy_Written y)(mc_client c := sy_Written y (mc_client c) @ [mc_hash c]) else sy_Written y)\<rparr>
     in case r of
          Inl _ \<Rightarrow> mq_reply_to c (Status 502) y
        | Inr _ \<Rightarrow> mq_reply_to c (Status 200)
            (y\<lparr>sy_Servers := (sy_Servers y)(mc_server c := mq_accept (mc_body c) (sy_Servers y (mc_server c))),
               sy_Queued := sy_Queued y @ [c]\<rparr>))"

inductive mq_step :: "('f, 'e) etcd_client \<Rightarrow> ('e \<Rightarrow> byte list \<Rightarrow> byte list)  \<Rightarrow> mq_params \<Rightarrow> 'e mq_system \<Rightarrow> 'e mq_system \<Rightarrow> bool"
  for C content P where
  refuse: "mq_begin P r (sy_Servers y i) = (Inl a, s) \<Longrightarrow> mq_step C content P y (y\<lparr>sy_Servers := (sy_Servers y)(i := s)\<rparr>)"
| starts: "mq_begin P r (sy_Servers y i) = (Inr (k, h), s)
    \<Longrightarrow> mq_step C content P y (y\<lparr>sy_Servers := (sy_Servers y)(i := s),
          sy_Started := sy_Started y @ [\<lparr>mc_server = i, mc_client = k, mc_hash = h, mc_body = rq_body r\<rparr>]\<rparr>)"
| read: "c \<in> set (sy_Started y) \<Longrightarrow> mq_step C content P y (mq_read C P f c y)"
| commit: "p \<in> set (sy_Planned y) \<Longrightarrow> mq_step C content P y (mq_commit C content f p y)"
| stop: "mq_step C content P y (y\<lparr>sy_Servers := (sy_Servers y)(i := mq_stop (sy_Servers y i))\<rparr>)"
| queue: "fifo.pool_step None (ms_Queue (sy_Servers y i)) q
    \<Longrightarrow> mq_step C content P y (y\<lparr>sy_Servers := (sy_Servers y)(i := (sy_Servers y i)\<lparr>ms_Queue := q\<rparr>)\<rparr>)"

definition mq_start :: "'e \<Rightarrow> 'e mq_system" where
  "mq_start e = \<lparr>sy_Servers = (\<lambda>_. mq_new), sy_Etcd = e, sy_Started = [], sy_Planned = [], sy_Written = (\<lambda>_. []), sy_Queued = [], sy_Replies = []\<rparr>"

section \<open>Repetitions\<close>

definition lastn :: "nat \<Rightarrow> 'a list \<Rightarrow> 'a list" where
  "lastn n xs = drop (length xs - n) xs"

text \<open>Equal elements are at least \<open>n\<close> apart.\<close>

definition spaced :: "nat \<Rightarrow> 'a list \<Rightarrow> bool" where
  "spaced n xs \<longleftrightarrow> (\<forall>i j. i < j \<and> j < length xs \<and> xs ! i = xs ! j \<longrightarrow> n \<le> j - i)"

lemma mq_trim_eq: "mq_trim n xs = lastn n xs"
proof (induction n xs rule: mq_trim.induct)
  case (1 n xs)
  show ?case
  proof (cases "n < length xs")
    case True
    then have "drop (length xs - n) xs = drop (length xs - 1 - n) (tl xs)" by (cases xs) (simp_all add: Suc_diff_le)
    then show ?thesis using 1 True mq_trim.simps [of n xs] by (simp add: lastn_def)
  qed (simp add: mq_trim.simps [of n xs] lastn_def)
qed

lemma mq_append_map: "mq_append n (map g xs) (g h) = map g (mq_append n xs h)"
  using drop_map [of "Suc (length xs) - n" g "xs @ [h]"] by (simp add: mq_append_def mq_trim_eq lastn_def)

lemma lastn_append: "mq_append n (lastn n xs) h = lastn n (xs @ [h])"
  by (cases "length xs \<le> n") (auto simp: mq_append_def mq_trim_eq lastn_def Suc_diff_le not_le)

lemma mq_known_strings [simp]: "mq_known h (map JStr hs) = Inr (h \<in> set hs)"
  by (induction hs) (auto simp: js_asString_def)

lemma spaced_snoc:
  assumes "spaced n xs" and "h \<notin> set (lastn n xs)"
  shows "spaced n (xs @ [h])"
  unfolding spaced_def
proof (intro allI impI)
  fix i j assume a: "i < j \<and> j < length (xs @ [h]) \<and> (xs @ [h]) ! i = (xs @ [h]) ! j"
  show "n \<le> j - i"
  proof (cases "j < length xs")
    case True
    then show ?thesis using a assms(1) by (auto simp: spaced_def nth_append)
  next
    case False
    then have j: "j = length xs" "xs ! i = h" "i < length xs" using a by (auto simp: nth_append)
    have "i < length xs - n"
    proof (rule ccontr)
      assume "\<not> i < length xs - n"
      then have "xs ! i \<in> set (lastn n xs)"
        using j(3) nth_mem [of "i - (length xs - n)" "drop (length xs - n) xs"] by (simp add: lastn_def)
      then show False using assms(2) j(2) by simp
    qed
    then show ?thesis using j(1) by simp
  qed
qed

section \<open>The invariant\<close>

text \<open>
  jsoncpp reads back the arrays of texts that it wrote. Only ASCII texts are considered: the writer
  replaces bytes that are not valid UTF-8.
\<close>

definition ascii :: "byte list \<Rightarrow> bool" where
  "ascii h \<longleftrightarrow> list_all (\<lambda>b. b < 0x80) h"

definition json_ok :: "json_ops \<Rightarrow> bool" where
  "json_ok J \<longleftrightarrow> (\<forall>hs. list_all ascii hs \<longrightarrow>
     js_parse J (js_write J (JArr (map JStr hs))) = Inr (JArr (map JStr hs)) \<and> js_write J (JArr (map JStr hs)) \<noteq> [])"

abbreviation of_client :: "byte list \<Rightarrow> mq_call list \<Rightarrow> byte list list" where
  "of_client k cs \<equiv> map mc_hash (filter (\<lambda>c. mc_client c = k) cs)"

definition mq_planned :: "json_ops \<Rightarrow> nat \<Rightarrow> mq_call \<times> byte list \<times> byte list \<Rightarrow> bool" where
  "mq_planned J n = (\<lambda>(c, old, new). ascii (mc_hash c)
     \<and> (\<exists>vs. mq_state J old = Inr vs \<and> mq_known (mc_hash c) vs = Inr False \<and> new = formatState J (mq_append n vs (JStr (mc_hash c)))))"

definition mq_ok :: "('e \<Rightarrow> byte list \<Rightarrow> byte list) \<Rightarrow> json_ops \<Rightarrow> nat \<Rightarrow> 'e mq_system \<Rightarrow> bool" where
  "mq_ok content J n y \<longleftrightarrow>
     (\<forall>k. mq_state J (content (sy_Etcd y) k) = Inr (map JStr (lastn n (sy_Written y k))) \<and> spaced n (sy_Written y k)
        \<and> list_all ascii (sy_Written y k) \<and> subseq (of_client k (sy_Queued y)) (sy_Written y k))
     \<and> (\<forall>p \<in> set (sy_Planned y). mq_planned J n p) \<and> (\<forall>c \<in> set (sy_Started y). ascii (mc_hash c))"

text \<open>The runs in which all hashes are ASCII.\<close>

definition mq_run :: "('f, 'e) etcd_client \<Rightarrow> ('e \<Rightarrow> byte list \<Rightarrow> byte list) \<Rightarrow> mq_params \<Rightarrow> 'e mq_system \<Rightarrow> 'e mq_system \<Rightarrow> bool" where
  "mq_run C content P = (\<lambda>y y'. mq_step C content P y y' \<and> (\<forall>c \<in> set (sy_Started y'). ascii (mc_hash c)))\<^sup>*\<^sup>*"

lemma mq_reply_to_fields [simp]:
  "sy_Etcd (mq_reply_to c r y) = sy_Etcd y" "sy_Planned (mq_reply_to c r y) = sy_Planned y"
  "sy_Started (mq_reply_to c r y) = sy_Started y"
  "sy_Written (mq_reply_to c r y) = sy_Written y" "sy_Queued (mq_reply_to c r y) = sy_Queued y"
  by (simp_all add: mq_reply_to_def)

lemma lastn_ascii: "list_all ascii xs \<Longrightarrow> list_all ascii (lastn n xs)"
  unfolding lastn_def list_all_iff using in_set_dropD by fastforce

context etcd_service
begin

abbreviation "registry \<equiv> et_content C kv"

lemma mq_read_ok:
  assumes ok: "mq_ok registry (ec_json C) (mp_etcd_limit P) y" and c: "c \<in> set (sy_Started y)"
  shows "mq_ok registry (ec_json C) (mp_etcd_limit P) (mq_read C P f c y)"
proof -
  let ?J = "ec_json C"
  obtain r e where g: "et_get C f (mc_client c) (sy_Etcd y) = (r, e)" by fastforce
  have e: "registry e = registry (sy_Etcd y)" using store.get_content [OF g] by simp
  have h: "ascii (mc_hash c)" "\<And>d. d \<in> set (remove1 c (sy_Started y)) \<Longrightarrow> ascii (mc_hash d)"
    using ok c set_remove1_subset [of c "sy_Started y"] by (auto simp: mq_ok_def)
  show ?thesis
  proof (cases "bindr r (\<lambda>sOld. bindr (mq_plan ?J P sOld (mc_hash c)) (\<lambda>p. Inr (sOld, p)))")
    case (Inl x)
    then show ?thesis using ok g e h by (simp add: mq_read_def mq_ok_def)
  next
    case (Inr q)
    obtain old p where q: "q = (old, p)" by (cases q)
    have pl: "mq_plan ?J P old (mc_hash c) = Inr p" using Inr q by (auto simp: bindr_eq_Inr)
    show ?thesis
    proof (cases p)
      case None
      then show ?thesis using ok g e h Inr q by (simp add: mq_read_def mq_ok_def)
    next
      case (Some new)
      then have "mq_planned ?J (mp_etcd_limit P) (c, old, new)"
        using pl h(1) by (auto simp: mq_plan_def mq_planned_def bindr_eq_Inr split: if_splits)
      then show ?thesis using ok g e h Inr q Some by (auto simp: mq_read_def mq_ok_def)
    qed
  qed
qed

lemma mq_commit_ok:
  assumes J: "json_ok (ec_json C)" and n: "0 < n" and ok: "mq_ok registry (ec_json C) n y" and p: "p \<in> set (sy_Planned y)"
  shows "mq_ok registry (ec_json C) n (mq_commit C registry f p y)"
proof -
  let ?J = "ec_json C"
  obtain c old new where pc: "p = (c, old, new)" by (cases p)
  let ?k = "mc_client c" and ?h = "mc_hash c"
  obtain r e where w: "mq_write C f ?k old new (sy_Etcd y) = (r, e)" by fastforce
  obtain vs where vs: "mq_state ?J old = Inr vs" "mq_known ?h vs = Inr False" "new = formatState ?J (mq_append n vs (JStr ?h))"
    and h: "ascii ?h"
    using ok p unfolding mq_ok_def pc mq_planned_def by fastforce
  have pl: "\<forall>p \<in> set (remove1 p (sy_Planned y)). mq_planned ?J n p" "\<forall>c \<in> set (sy_Started y). ascii (mc_hash c)"
    using ok set_remove1_subset [of p "sy_Planned y"] unfolding mq_ok_def by blast+
  consider (none) "registry e = registry (sy_Etcd y)" "r \<noteq> Inr ()"
    | (written) "registry (sy_Etcd y) ?k = old" "registry e = (registry (sy_Etcd y))(?k := new)"
    using store.swap_content [OF w [unfolded mq_write_def]] by blast
  then show ?thesis
  proof cases
    case none
    then obtain x where "r = Inl x" by (cases r) auto
    then show ?thesis using ok pl none(1) w by (simp add: mq_commit_def mq_ok_def pc)
  next
    case written
    let ?W = "sy_Written y" and ?W' = "(sy_Written y)(?k := sy_Written y ?k @ [?h])"
    have old: "\<And>k. mq_state ?J (registry (sy_Etcd y) k) = Inr (map JStr (lastn n (?W k)))" "\<And>k. spaced n (?W k)"
      "\<And>k. list_all ascii (?W k)" "\<And>k. subseq (of_client k (sy_Queued y)) (?W k)"
      using ok unfolding mq_ok_def by blast+
    have st: "vs = map JStr (lastn n (?W ?k))" using old(1) [of ?k] written(1) vs(1) by simp
    have a: "list_all ascii (?W' k)" for k using old(3) h by simp
    have nw: "new = formatState ?J (map JStr (lastn n (?W' ?k)))"
      using vs(3) unfolding st mq_append_map lastn_append by simp
    then have new: "mq_state ?J new = Inr (map JStr (lastn n (?W' ?k)))"
      using J lastn_ascii [OF a, of n ?k] by (simp add: json_ok_def mq_state_def parseState_def formatState_def)
    have "?h \<in> set (lastn n (?W' ?k))" "?h \<notin> set (lastn n (?W ?k))"
      using n vs(2) by (simp_all add: lastn_def st)
    then have "lastn n (?W' ?k) \<noteq> lastn n (?W ?k)" by auto
    then have "new \<noteq> old" using new vs(1) st by (auto simp: inj_map_eq_map inj_def)
    then have ch: "registry e \<noteq> registry (sy_Etcd y)" using written by (metis fun_upd_same)
    have 1: "mq_state ?J (registry e k) = Inr (map JStr (lastn n (?W' k)))" for k
      using old(1) new unfolding written(2) by simp
    have 2: "spaced n (?W' k)" for k
      using old(2) spaced_snoc [of n "?W ?k" ?h] \<open>?h \<notin> set (lastn n (?W ?k))\<close> by simp
    have 3: "subseq (of_client k (sy_Queued y)) (?W' k)" for k
      using old(4) [of k] by (auto intro: list_emb_prefix)
    have 4: "subseq (of_client k (sy_Queued y @ [c])) (?W' k)" for k
      using old(4) [of k] by auto
    show ?thesis
    proof (cases r)
      case (Inl x)
      then show ?thesis using 1 2 3 a pl w ch by (simp add: mq_commit_def mq_ok_def pc)
    next
      case (Inr u)
      then show ?thesis using 1 2 4 a pl w ch by (simp add: mq_commit_def mq_ok_def pc)
    qed
  qed
qed

lemma mq_step_ok:
  assumes "mq_step C registry P y y'" and "json_ok (ec_json C)" and "0 < mp_etcd_limit P" and "\<forall>c \<in> set (sy_Started y'). ascii (mc_hash c)"
    and "mq_ok registry (ec_json C) (mp_etcd_limit P) y"
  shows "mq_ok registry (ec_json C) (mp_etcd_limit P) y'"
  using assms(1,4,5)
proof (induction rule: mq_step.induct)
  case (read c y f)
  then show ?case by (intro mq_read_ok)
next
  case (commit p y f)
  then show ?case using assms(2,3) by (intro mq_commit_ok)
qed (simp_all add: mq_ok_def)

lemma mq_reach_ok:
  assumes "mq_run C registry P (mq_start e) y" and "json_ok (ec_json C)" and "0 < mp_etcd_limit P" and "\<forall>k. registry e k = []"
  shows "mq_ok registry (ec_json C) (mp_etcd_limit P) y"
  using assms(1) unfolding mq_run_def
proof (induction rule: rtranclp_induct)
  case base
  then show ?case using assms(4) by (simp add: mq_ok_def mq_start_def mq_state_def lastn_def spaced_def)
next
  case (step y z)
  then show ?case using mq_step_ok assms(2,3) by blast
qed

end

section \<open>Requests in progress\<close>

definition in_progress :: "nat \<Rightarrow> 'e mq_system \<Rightarrow> nat" where
  "in_progress i y = length (filter (\<lambda>c. mc_server c = i) (sy_Started y)) + length (filter (\<lambda>(c, _). mc_server c = i) (sy_Planned y))"

definition mq_counted :: "'e mq_system \<Rightarrow> bool" where
  "mq_counted y \<longleftrightarrow> (\<forall>i. ms_Running (sy_Servers y i) = of_nat (in_progress i y))"

lemma length_filter_remove1:
  "x \<in> set xs \<Longrightarrow> length (filter Q xs) = length (filter Q (remove1 x xs)) + (if Q x then 1 else 0)"
  by (induction xs) auto

lemma mq_end_counted:
  assumes "mq_counted y" and "\<And>i. in_progress i y = in_progress i z + (if i = mc_server c then 1 else 0)"
    and "\<And>i. ms_Running (sy_Servers z i) = ms_Running (sy_Servers y i)"
  shows "mq_counted (mq_reply_to c r z)"
proof -
  have "in_progress i (mq_reply_to c r z) = in_progress i z" for i by (simp add: in_progress_def)
  then show ?thesis using assms by (simp add: mq_counted_def mq_reply_to_def mq_end_def)
qed

lemma mq_step_counted:
  assumes "mq_step C content P y y'" and "mq_counted y"
  shows "mq_counted y'"
  using assms
proof (induction rule: mq_step.induct)
  case (refuse r y i a s)
  have "ms_Running s = ms_Running (sy_Servers y i)"
    using refuse(1) by (auto simp: mq_begin_def Let_def split: if_splits sum.splits prod.splits)
  then show ?case using refuse(2) by (simp add: mq_counted_def in_progress_def)
next
  case (starts r y i k h s)
  have "ms_Running s = ms_Running (sy_Servers y i) + 1"
    using starts(1) by (auto simp: mq_begin_def Let_def split: if_splits sum.splits prod.splits)
  then show ?case using starts(2) by (simp add: mq_counted_def in_progress_def)
next
  case (read c y f)
  obtain a e where g: "et_get C f (mc_client c) (sy_Etcd y) = (a, e)" by fastforce
  let ?z = "y\<lparr>sy_Started := remove1 c (sy_Started y), sy_Etcd := e\<rparr>"
  let ?o = "bindr a (\<lambda>sOld. bindr (mq_plan (ec_json C) P sOld (mc_hash c)) (\<lambda>p. Inr (sOld, p)))"
  have z: "in_progress i y = in_progress i ?z + (if i = mc_server c then 1 else 0)" for i
    using length_filter_remove1 [OF read(1), of "\<lambda>c. mc_server c = i"] by (auto simp: in_progress_def)
  have e: "mq_counted (mq_reply_to c r ?z)" for r by (rule mq_end_counted [OF read(2) z]) simp
  have p: "mq_counted (?z\<lparr>sy_Planned := sy_Planned y @ [(c, q)]\<rparr>)" for q
    using read(2) z by (simp add: mq_counted_def in_progress_def)
  show ?case using e p by (cases ?o) (auto simp: mq_read_def g Let_def split: option.splits)
next
  case (commit p y f)
  obtain c old new where pc: "p = (c, old, new)" by (cases p)
  obtain r e where w: "mq_write C f (mc_client c) old new (sy_Etcd y) = (r, e)" by fastforce
  have z: "in_progress i y = in_progress i (y\<lparr>sy_Planned := remove1 p (sy_Planned y)\<rparr>) + (if i = mc_server c then 1 else 0)" for i
    using length_filter_remove1 [OF commit(1), of "\<lambda>(c, _). mc_server c = i"] by (auto simp: in_progress_def pc)
  show ?case
  proof (cases r)
    case (Inl x)
    then show ?thesis using w z unfolding mq_commit_def pc
      by (auto intro!: mq_end_counted [OF commit(2)] simp: in_progress_def)
  next
    case (Inr x)
    then show ?thesis using w z unfolding mq_commit_def pc
      by (auto intro!: mq_end_counted [OF commit(2)] simp: in_progress_def mq_accept_def)
  qed
next
  case (stop y i)
  then show ?case by (simp add: mq_counted_def in_progress_def mq_stop_def)
next
  case (queue y i q)
  then show ?case by (simp add: mq_counted_def in_progress_def)
qed


section \<open>A run on the etcd in memory\<close>

lemma plain_json_ok: "json_ok plain_json"
  by (simp add: json_ok_def)

definition small_params :: mq_params where
  "small_params = \<lparr>mp_queue_limit = 10, mp_etcd_limit = 10, mp_max_size = 1000\<rparr>"

text \<open>A request of client \<open>c\<close> with hash \<open>h\<close>.\<close>

definition put_request :: mq_request where
  "put_request = \<lparr>rq_put = True, rq_target = [0x2F] @ 0x3F # query_text [(key_client, [99]), (key_hash, [104])], rq_body = [1, 2]\<rparr>"

definition put_call :: mq_call where
  "put_call = \<lparr>mc_server = 0, mc_client = [99], mc_hash = [104], mc_body = [1, 2]\<rparr>"

lemma put_request_begin:
  assumes "ms_Active s" and "qt_size (ms_Queue s) \<le> 10"
  shows "mq_begin small_params put_request s = (Inr ([99], [104]), s\<lparr>ms_Running := ms_Running s + 1\<rparr>)"
proof -
  have q: "http_query (rq_target put_request) = Inr [(key_client, [99]), (key_hash, [104])]"
    unfolding put_request_def mq_request.simps
    by (rule http_query_roundtrip) (simp_all add: key_client_def key_hash_def bytes_of_def)
  have "length (rq_target put_request) \<le> 1000"
    by (simp add: put_request_def query_text_def key_client_def key_hash_def bytes_of_def url_encode_def hex_pair_def)
  then show ?thesis using assms q
    by (simp add: mq_begin_def small_params_def mq_query_def put_request_def not_less key_client_def key_hash_def bytes_of_def)
qed

definition y_started :: "'e mq_system \<Rightarrow> 'e mq_system" where
  "y_started y = y\<lparr>sy_Servers := (sy_Servers y)(0 := (sy_Servers y 0)\<lparr>ms_Running := ms_Running (sy_Servers y 0) + 1\<rparr>),
     sy_Started := sy_Started y @ [put_call]\<rparr>"

lemma put_starts:
  assumes "ms_Active (sy_Servers y 0)" and "qt_size (ms_Queue (sy_Servers y 0)) \<le> 10"
  shows "mq_step C content small_params y (y_started y)"
  using mq_step.starts [OF put_request_begin [OF assms], where C = C and content = content]
  by (simp add: y_started_def put_call_def put_request_def)

abbreviation mem_registry :: "mem \<Rightarrow> byte list \<Rightarrow> byte list" where
  "mem_registry \<equiv> et_content mem_client mem_kv"

definition y_empty :: "mem mq_system" where
  "y_empty = mq_start []"

definition state_text :: "byte list" where
  "state_text = formatState plain_json [JStr [104]]"

text \<open>The first block of the client is read, and written with the given outcome of the call.\<close>

definition y_planned :: "mem mq_system" where
  "y_planned = mq_read mem_client small_params Fine put_call (y_started y_empty)"

definition y_written :: "net \<Rightarrow> mem mq_system" where
  "y_written r = mq_commit mem_client mem_registry r (put_call, [], state_text) y_planned"

lemmas y_defs = y_started_def y_empty_def mq_start_def mq_new_def qt_new_def sq_new_def qt_size_def put_call_def mq_reply_to_def mq_end_def

lemma mem_json [simp]: "ec_json mem_client = plain_json" "ec_prefix mem_client = [112]"
  by (simp_all add: mem_client_def)

lemma state_text_facts: "state_text \<noteq> []" "mq_state plain_json state_text = Inr [JStr [104]]"
  by (simp_all add: state_text_def formatState_def mq_state_def parseState_def)

lemma y_planned_eq:
  "y_planned = (y_started y_empty)\<lparr>sy_Started := [], sy_Planned := [(put_call, [], state_text)]\<rparr>"
  by (simp add: y_planned_def mq_read_def mem_get mq_plan_def mq_state_def mq_append_def mq_trim.simps small_params_def state_text_def y_defs)

lemma mem_atomicPut:
  "et_atomicPut mem_client f k v [] =
     (if f = Fine then Inr () else Inl etcd_timeout, if f = Down then [] else [(112 # k, v)])"
  by (simp add: et_atomicPut_def mem_request mem_put mem_checked)

lemma y_started_reach: "mq_step mem_client mem_registry small_params y_empty (y_started y_empty)"
  by (rule put_starts) (simp_all add: y_defs)

lemma y_written_reach: "mq_run mem_client mem_registry small_params y_empty (y_written r)"
proof -
  define S where "S = (\<lambda>y y'. mq_step mem_client mem_registry small_params y y' \<and> (\<forall>c \<in> set (sy_Started y'). ascii (mc_hash c)))"
  have "sy_Started (y_started y_empty) = [put_call]" "sy_Started y_planned = []" "sy_Started (y_written r) = []" "ascii (mc_hash put_call)"
    by (simp_all add: y_written_def y_planned_eq mq_commit_def mq_write_def mem_atomicPut ascii_def y_defs)
  moreover have "mq_step mem_client mem_registry small_params (y_started y_empty) y_planned"
    unfolding y_planned_def by (rule mq_step.read) (simp add: y_defs)
  moreover have "mq_step mem_client mem_registry small_params y_planned (y_written r)"
    unfolding y_written_def by (rule mq_step.commit) (simp add: y_planned_eq)
  ultimately have "S y_empty (y_started y_empty)" "S (y_started y_empty) y_planned" "S y_planned (y_written r)"
    using y_started_reach by (simp_all add: S_def)
  then have "S\<^sup>*\<^sup>* y_empty (y_written r)"
    by (meson converse_rtranclp_into_rtranclp rtranclp.rtrancl_refl)
  then show ?thesis by (simp add: mq_run_def S_def)
qed

lemma y_written_fine: "sy_Written (y_written Fine) [99] = [[104]]" "sy_Queued (y_written Fine) = [put_call]"
  using state_text_facts(1)
  by (auto simp: y_written_def y_planned_eq mq_commit_def mq_write_def mem_atomicPut mq_accept_def et_content_def y_defs fun_eq_iff)

section \<open>Properties\<close>



text \<open>
  The counter \<open>m_Running\<close> of a server, which its stop waits for, is the number of its requests in
  progress, modulo the width of the counter, on every path: refused, duplicate, failed and accepted.
\<close>

theorem mq_running_counts:
  assumes "(mq_step C content P)\<^sup>*\<^sup>* (mq_start e) y"
  shows "ms_Running (sy_Servers y i) = of_nat (in_progress i y)"
proof -
  have "mq_counted y" using assms
  proof (induction rule: rtranclp_induct)
    case base
    show ?case by (simp add: mq_counted_def mq_start_def mq_new_def in_progress_def)
  next
    case (step y z)
    then show ?case using mq_step_counted by blast
  qed
  then show ?thesis by (simp add: mq_counted_def)
qed

theorem mq_running_counts_witness:
  "ms_Running (sy_Servers (y_started y_empty) 0) = of_nat (in_progress 0 (y_started y_empty)) \<and> in_progress 0 (y_started y_empty) = 1"
  using mq_running_counts [OF r_into_rtranclp [where r = "mq_step mem_client mem_registry small_params", OF y_started_reach [unfolded y_empty_def]], of 0]
  by (simp add: in_progress_def y_defs)

text \<open>
  C39: a block can be acknowledged and never queued. When etcd carries out the write but its answer is
  lost, the server replies 502 and does not queue the block; the client repeats the request and gets
  200, since the hash is in the registry now.
\<close>

theorem mq_block_lost:
  "\<exists>y. (mq_step mem_client (et_content mem_client mem_kv) small_params)\<^sup>*\<^sup>* (mq_start []) y
    \<and> (put_call, Status 200) \<in> set (sy_Replies y) \<and> sy_Queued y = []"
proof -
  let ?S = "mq_step mem_client mem_registry small_params" and ?y = "y_written AnswerLost"
  define z where "z = mq_read mem_client small_params Fine put_call (y_started ?y)"
  have "sy_Etcd ?y = [([112, 99], state_text)]" "sy_Queued ?y = []"
    "ms_Active (sy_Servers ?y 0)" "qt_size (ms_Queue (sy_Servers ?y 0)) = 0"
    by (simp_all add: y_written_def y_planned_eq mq_commit_def mq_write_def mem_atomicPut y_defs)
  note e = this
  have "?S ?y (y_started ?y)" using e by (intro put_starts) simp_all
  moreover have "?S (y_started ?y) z" unfolding z_def by (rule mq_step.read) (simp add: y_started_def)
  moreover have "?S\<^sup>*\<^sup>* (mq_start []) ?y"
    using y_written_reach [of AnswerLost, unfolded y_empty_def mq_run_def]
    by (rule mono_rtranclp [rule_format, rotated]) simp
  ultimately have "?S\<^sup>*\<^sup>* (mq_start []) z" by (meson rtranclp.rtrancl_into_rtrancl)
  moreover have "(put_call, Status 200) \<in> set (sy_Replies z) \<and> sy_Queued z = []"
    using e state_text_facts
    by (simp add: z_def mq_read_def mem_get mq_plan_def y_defs js_asString_def)
  ultimately show ?thesis by blast
qed

end
