(* ===== verification/Mysqld.thy ===== *)
theory Mysqld
  imports Streams
begin

text \<open>
  The server side of the MySQL protocol of \<open>asio_mysqld/\<close>: the packets of \<open>Packet.hpp\<close> and the session
  of \<open>Server.hpp\<close>. The bytes that the client sends are a list; a write to the socket may fail, which
  a parameter says for each write; what is done with a query is a parameter.
\<close>

section \<open>Streams\<close>

definition my_int :: "u64 \<Rightarrow> byte list" where
  "my_int aValue =
     (if aValue < 251 then le_enc 1 (unat aValue)
      else if aValue < 2 ^ 16 then 0xFC # le_enc 2 (unat aValue)
      else if aValue < 2 ^ 24 then 0xFD # le_enc 3 (unat aValue)
      else 0xFE # le_enc 8 (unat aValue))"

definition my_text :: "byte list \<Rightarrow> byte list" where
  "my_text aStr = my_int (of_nat (length aStr)) @ aStr"

fun readStringNul :: "nat \<Rightarrow> byte list \<Rightarrow> imemstream \<Rightarrow> (byte list \<times> imemstream) result" where
  "readStringNul fuel aStr s =
     bindr (im_read 1 s) (\<lambda>(t, s).
       if hd t = 0 then Inr (aStr, s)
       else case fuel of 0 \<Rightarrow> Inl OutOfFuel | Suc f \<Rightarrow> readStringNul f (aStr @ t) s)"

declare readStringNul.simps [simp del]

section \<open>Packets\<close>

text \<open>A packet of at most \<open>2 ^ 24 - 1\<close> bytes behind its length and sequence number.\<close>

definition my_write :: "byte list \<Rightarrow> byte \<Rightarrow> byte list" where
  "my_write aBuffer aSequence =
     (let sSize = of_nat (length aBuffer) :: u32; sSize = sSize OR push_bit 24 (ucast aSequence)
      in le_enc 4 (unat sSize) @ aBuffer)"

definition my_read :: "byte list \<Rightarrow> (byte list \<times> byte list) option" where
  "my_read bs =
     (if length bs < 4 then None
      else let sSize = unat ((of_nat (le_dec (take 4 bs)) :: u32) AND 0xFFFFFF); bs = drop 4 bs
           in if length bs < sSize then None else Some (take sSize bs, drop sSize bs))"

definition handshake10 :: "byte list" where
  "handshake10 = [10] @ bytes_of ''asio/mysqld'' @ [0] @ le_enc 4 0 @ [1, 2, 3, 4, 5, 6, 7, 8] @ [0] @ le_enc 2 0x0200 @ [0x21]
     @ le_enc 2 0 @ le_enc 2 0 @ [13] @ replicate 10 0 @ replicate 13 0"

record handshake_response =
  hr_client_flag :: nat
  hr_max_packet_size :: nat
  hr_character_set :: byte
  hr_username :: "byte list"
  hr_auth :: "byte list"

definition hr_parse :: "byte list \<Rightarrow> handshake_response result" where
  "hr_parse aBinary =
     bindr (im_read 4 (im_open aBinary)) (\<lambda>(flag, s).
     bindr (im_read 4 s) (\<lambda>(sz, s).
     bindr (im_read 1 s) (\<lambda>(cs, s).
     bindr (im_skip 23 s) (\<lambda>s.
     bindr (readStringNul (length aBinary) [] s) (\<lambda>(user, s).
     bindr (im_rest s) (\<lambda>(auth, s).
       Inr \<lparr>hr_client_flag = le_dec flag, hr_max_packet_size = le_dec sz, hr_character_set = hd cs,
            hr_username = user, hr_auth = auth\<rparr>))))))"

definition auth_switch :: "byte list" where
  "auth_switch = [0xFE] @ bytes_of ''mysql_native_password'' @ [0] @ bytes_of ''abcdeabcdeabcdeabcde'' @ [0]"

record ok_response =
  ok_affected_rows :: u32
  ok_last_insert_id :: u32
  ok_status_flags :: nat
  ok_warnings :: nat
  ok_status :: "byte list"

definition ok_default :: ok_response where
  "ok_default = \<lparr>ok_affected_rows = 0, ok_last_insert_id = 0, ok_status_flags = 0, ok_warnings = 0, ok_status = []\<rparr>"

definition ok_serialize :: "ok_response \<Rightarrow> byte list" where
  "ok_serialize r = [0] @ my_int (ucast (ok_affected_rows r)) @ my_int (ucast (ok_last_insert_id r))
     @ le_enc 2 (ok_status_flags r) @ le_enc 2 (ok_warnings r) @ ok_status r"

definition eof_packet :: "byte list" where
  "eof_packet = [0xFE] @ le_enc 2 0 @ le_enc 2 0"

definition CMD_QUIT :: byte where "CMD_QUIT = 1"
definition CMD_QUERY :: byte where "CMD_QUERY = 3"

definition command_parse :: "byte list \<Rightarrow> (byte \<times> byte list) result" where
  "command_parse aBinary =
     bindr (im_read 1 (im_open aBinary)) (\<lambda>(c, s).
       if hd c = CMD_QUERY then bindr (im_rest s) (\<lambda>(q, _). Inr (hd c, q)) else Inr (hd c, []))"

record column =
  co_schema :: "byte list"
  co_table :: "byte list"
  co_name :: "byte list"
  co_character_set :: nat
  co_length :: nat
  co_type :: byte
  co_flags :: nat
  co_decimals :: byte

definition column_serialize :: "column \<Rightarrow> byte list" where
  "column_serialize c = my_text (bytes_of ''def'') @ my_text (co_schema c) @ my_text (co_table c) @ my_text [] @ my_text (co_name c)
     @ my_text [] @ [0x0C] @ le_enc 2 (co_character_set c) @ le_enc 4 (co_length c) @ [co_type c] @ le_enc 2 (co_flags c)
     @ [co_decimals c] @ le_enc 2 0"

text \<open>\<open>ResultRow::append\<close>, with data or as null.\<close>

definition row_append :: "byte list option \<Rightarrow> byte list \<Rightarrow> byte list" where
  "row_append aData stream = stream @ (case aData of None \<Rightarrow> [0xFB] | Some d \<Rightarrow> my_text d)"

definition result_row :: "byte list option list \<Rightarrow> byte list" where
  "result_row cells = fold row_append cells []"

section \<open>Sending\<close>

definition my_send :: "(nat \<Rightarrow> bool) \<Rightarrow> byte list \<Rightarrow> byte list list \<Rightarrow> bool \<times> byte list list" where
  "my_send ok p out = (if ok (length out) then (True, out @ [p]) else (False, out))"

text \<open>\<open>ResultSet::write\<close>: packets with ascending sequence numbers, until a write fails.\<close>

fun send_all :: "(nat \<Rightarrow> bool) \<Rightarrow> byte \<Rightarrow> byte list list \<Rightarrow> byte list list \<Rightarrow> bool \<times> byte list list" where
  "send_all ok sSerial [] out = (True, out)"
| "send_all ok sSerial (p # ps) out =
     (let (g, out) = my_send ok (my_write p sSerial) out in if \<not> g then (False, out) else send_all ok (sSerial + 1) ps out)"

definition rs_packets :: "column list \<Rightarrow> byte list list \<Rightarrow> byte list list" where
  "rs_packets columns rows =
     [my_int (of_nat (length columns))] @ map column_serialize columns @ [eof_packet] @ rows @ [eof_packet]"

definition rs_write :: "(nat \<Rightarrow> bool) \<Rightarrow> column list \<Rightarrow> byte list list \<Rightarrow> byte list list \<Rightarrow> bool \<times> byte list list" where
  "rs_write ok columns rows out = send_all ok 1 (rs_packets columns rows) out"

section \<open>The session\<close>

type_synonym my_process = "byte list \<Rightarrow> (nat \<Rightarrow> bool) \<Rightarrow> byte list list \<Rightarrow> bool \<times> byte list list"

lemma my_read_less: "my_read bs = Some (p, r) \<Longrightarrow> length r < length bs"
  by (auto simp: my_read_def Let_def split: if_splits)

text \<open>The loop over the commands, with the queries that were processed.\<close>

function my_loop :: "(nat \<Rightarrow> bool) \<Rightarrow> my_process \<Rightarrow> byte list \<Rightarrow> byte list list \<Rightarrow> byte list list \<Rightarrow> (byte list list \<times> byte list list) result" where
  "my_loop ok process bs out qs =
     (case my_read bs of
        None \<Rightarrow> Inr (out, qs)
      | Some (p, bs') \<Rightarrow>
          (case command_parse p of
             Inl x \<Rightarrow> Inl x
           | Inr (c, q) \<Rightarrow>
               if c = CMD_QUIT then Inr (out, qs)
               else if c = CMD_QUERY then
                 (case process q ok out of (g, out) \<Rightarrow> if \<not> g then Inr (out, qs @ [q]) else my_loop ok process bs' out (qs @ [q]))
               else Inr (out, qs)))"
  by auto
termination
  by (relation "measure (\<lambda>(_, _, bs, _, _). length bs)") (auto dest: my_read_less)

declare my_loop.simps [simp del]

definition my_session :: "(nat \<Rightarrow> bool) \<Rightarrow> my_process \<Rightarrow> byte list \<Rightarrow> (byte list list \<times> byte list list) result" where
  "my_session ok process bs =
     (let (g, out) = my_send ok (my_write handshake10 0) []
      in if \<not> g then Inr (out, [])
      else case my_read bs of
        None \<Rightarrow> Inr (out, [])
      | Some (p, bs) \<Rightarrow>
          bindr (hr_parse p) (\<lambda>_.
            let (g, out) = my_send ok (my_write auth_switch 2) out
            in if \<not> g then Inr (out, [])
            else case my_read bs of
              None \<Rightarrow> Inr (out, [])
            | Some (_, bs) \<Rightarrow>
                let (g, out) = my_send ok (my_write (ok_serialize ok_default) 4) out
                in if \<not> g then Inr (out, []) else my_loop ok process bs out []))"

section \<open>What a client reads\<close>

lemma size_bits: "x < 2 ^ 24 \<Longrightarrow> (x OR push_bit 24 y) AND 0xFFFFFF = (x :: u32)"
proof -
  assume "x < 2 ^ 24"
  then have "take_bit 24 x = x" by (simp add: word_unat_eq_iff unsigned_take_bit_eq take_bit_nat_eq_self word_less_nat_alt)
  moreover have "(0xFFFFFF :: u32) = mask 24" by (simp add: mask_eq_exp_minus_1)
  moreover have "take_bit 24 (push_bit 24 y) = 0" by (simp add: take_bit_push_bit)
  ultimately show ?thesis by (simp only: flip: take_bit_eq_mask) (simp add: take_bit_or)
qed

lemma my_read_write: "length p < 2 ^ 24 \<Longrightarrow> my_read (my_write p n @ r) = Some (p, r)"
proof -
  assume a: "length p < 2 ^ 24"
  let ?w = "of_nat (length p) OR push_bit 24 (ucast n) :: u32"
  have u: "unat (of_nat (length p) :: u32) = length p" using a by (simp add: unat_of_nat)
  have "(of_nat (length p) :: u32) < 2 ^ 24" using a u by (simp add: word_less_nat_alt)
  then have "unat (?w AND 0xFFFFFF) = length p" using u size_bits by metis
  moreover have "le_dec (le_enc 4 (unat ?w)) = unat ?w" using unsigned_less [of ?w, where 'a = nat] by (intro le_dec_enc) simp
  ultimately show ?thesis by (simp add: my_read_def my_write_def Let_def)
qed

text \<open>Length-encoded integers and texts, and null, by the documentation of the protocol.\<close>

definition dec_int :: "byte list \<Rightarrow> (nat \<times> byte list) option" where
  "dec_int bs =
     (case bs of [] \<Rightarrow> None
      | c # r \<Rightarrow> if c < 0xFB then Some (unat c, r)
                 else let k = (if c = 0xFC then 2 else if c = 0xFD then 3 else if c = 0xFE then 8 else 0)
                      in if k = 0 \<or> length r < k then None else Some (le_dec (take k r), drop k r))"

definition dec_cell :: "byte list \<Rightarrow> (byte list option \<times> byte list) option" where
  "dec_cell bs =
     (if bs \<noteq> [] \<and> hd bs = 0xFB then Some (None, tl bs)
      else case dec_int bs of None \<Rightarrow> None
           | Some (n, r) \<Rightarrow> if length r < n then None else Some (Some (take n r), drop n r))"

fun dec_cells :: "nat \<Rightarrow> byte list \<Rightarrow> byte list option list option" where
  "dec_cells 0 bs = (if bs = [] then Some [] else None)"
| "dec_cells (Suc n) bs = (case dec_cell bs of None \<Rightarrow> None
     | Some (c, r) \<Rightarrow> (case dec_cells n r of None \<Rightarrow> None | Some cs \<Rightarrow> Some (c # cs)))"

lemma le_enc_1: "le_enc (Suc 0) v = [of_nat v]"
  by (simp add: le_enc_def)

lemma my_int_hd: "my_int v \<noteq> [] \<and> hd (my_int v) \<noteq> 0xFB \<and> (v < 2 ^ 24 \<longrightarrow> hd (my_int v) \<noteq> 0xFE)"
proof (cases "v < 251")
  case True
  then have l: "unat v < 251" by (simp add: word_less_nat_alt)
  then have "unat (ucast v :: byte) = unat v" using unat_of_nat_byte [of "unat v"] by simp
  then have "(ucast v :: byte) \<noteq> 0xFB" "(ucast v :: byte) \<noteq> 0xFE" using l by auto
  then show ?thesis using True by (simp add: my_int_def le_enc_1)
next
  case False
  then show ?thesis by (auto simp: my_int_def)
qed

lemma dec_my_int: "dec_int (my_int v @ r) = Some (unat v, r)"
proof -
  have b: "unat v < 18446744073709551616" by (rule unat_u64_less)
  consider "v < 251" | "\<not> v < 251" "v < 2 ^ 16" | "\<not> v < 2 ^ 16" "v < 2 ^ 24" "\<not> v < 251" | "\<not> v < 2 ^ 16" "\<not> v < 2 ^ 24" "\<not> v < 251"
    by blast
  then show ?thesis
  proof cases
    case 1
    then have l: "unat v < 251" by (simp add: word_less_nat_alt)
    then have "unat (ucast v :: byte) = unat v" using unat_of_nat_byte [of "unat v"] by simp
    then show ?thesis using 1 l by (simp add: my_int_def le_enc_1 dec_int_def word_less_nat_alt)
  next
    case 2
    then have "unat v < 256 ^ 2" by (simp add: word_less_nat_alt)
    then show ?thesis using 2 by (simp add: my_int_def dec_int_def)
  next
    case 3
    then have "unat v < 256 ^ 3" by (simp add: word_less_nat_alt)
    then show ?thesis using 3 by (simp add: my_int_def dec_int_def)
  next
    case 4
    have "unat v < 256 ^ 8" using b by simp
    then show ?thesis using 4 by (simp add: my_int_def dec_int_def)
  qed
qed

lemma dec_my_text: "length d < 2 ^ 64 \<Longrightarrow> dec_cell (my_text d @ r) = Some (Some d, r)"
  using my_int_hd [of "of_nat (length d)"]
  by (simp add: dec_cell_def my_text_def dec_my_int hd_append unat_of_nat_u64)

lemma result_row_eq: "result_row cells = concat (map (\<lambda>c. case c of None \<Rightarrow> [0xFB] | Some d \<Rightarrow> my_text d) cells)"
proof -
  have "fold row_append cells s = s @ concat (map (\<lambda>c. case c of None \<Rightarrow> [0xFB] | Some d \<Rightarrow> my_text d) cells)" for s
    by (induction cells arbitrary: s) (simp_all add: row_append_def)
  then show ?thesis by (simp add: result_row_def)
qed

lemma dec_result_row:
  assumes "length (result_row cells) < 2 ^ 64"
  shows "dec_cells (length cells) (result_row cells) = Some cells"
  using assms unfolding result_row_eq
proof (induction cells)
  case (Cons c cells)
  show ?case
  proof (cases c)
    case None
    then show ?thesis using Cons by (simp add: dec_cell_def)
  next
    case (Some d)
    then have "length d < 2 ^ 64" using Cons.prems by (simp add: my_text_def)
    then show ?thesis using Cons Some by (simp add: dec_my_text)
  qed
qed simp

text \<open>The client takes the stream apart into packets and reads the result set.\<close>

function dec_packets :: "byte list \<Rightarrow> byte list list" where
  "dec_packets bs = (case my_read bs of None \<Rightarrow> [] | Some (p, r) \<Rightarrow> p # dec_packets r)"
  by auto
termination
  by (relation "measure length") (auto dest: my_read_less)

declare dec_packets.simps [simp del]

definition is_eof :: "byte list \<Rightarrow> bool" where
  "is_eof p \<longleftrightarrow> p \<noteq> [] \<and> hd p = 0xFE \<and> length p < 9"

definition dec_result_set :: "byte list \<Rightarrow> (nat \<times> byte list option list option list) option" where
  "dec_result_set bs =
     (case dec_packets bs of
        [] \<Rightarrow> None
      | p # ps \<Rightarrow> (case dec_int p of
            None \<Rightarrow> None
          | Some (n, _) \<Rightarrow>
              (case drop n ps of
                 [] \<Rightarrow> None
               | e # rows \<Rightarrow> if \<not> is_eof e then None else Some (n, map (dec_cells n) (takeWhile (\<lambda>p. \<not> is_eof p) rows)))))"

lemma dec_packets_sent:
  assumes "list_all (\<lambda>p. length p < 2 ^ 24) ps"
  shows "\<exists>out'. send_all (\<lambda>_. True) n ps out = (True, out @ out') \<and> dec_packets (concat out') = ps"
  using assms
proof (induction ps arbitrary: n out)
  case Nil
  show ?case by (simp add: dec_packets.simps my_read_def)
next
  case (Cons p ps)
  obtain out' where o: "send_all (\<lambda>_. True) (n + 1) ps (out @ [my_write p n]) = (True, (out @ [my_write p n]) @ out')" "dec_packets (concat out') = ps"
    using Cons by fastforce
  have "dec_packets (my_write p n @ concat out') = p # ps"
    using Cons.prems o(2) my_read_write [of p n "concat out'"] by (subst dec_packets.simps) simp
  then show ?case using o(1) by (intro exI [of _ "my_write p n # out'"]) (simp add: my_send_def)
qed

lemma row_not_eof:
  assumes "cells \<noteq> []" and "length (result_row cells) < 2 ^ 24"
  shows "\<not> is_eof (result_row cells)"
proof (cases "hd cells")
  case None
  then show ?thesis using assms(1) by (cases cells) (simp_all add: result_row_eq is_eof_def)
next
  case (Some d)
  then obtain cs where c: "cells = Some d # cs" using assms(1) by (cases cells) auto
  have "length d < 2 ^ 24" using assms(2) by (simp add: c result_row_eq my_text_def)
  then have "(of_nat (length d) :: u64) < 2 ^ 24" by (simp add: word_less_nat_alt unat_of_nat_u64)
  then show ?thesis using my_int_hd [of "of_nat (length d)"] by (simp add: c result_row_eq my_text_def is_eof_def hd_append)
qed

section \<open>The session of a client\<close>

lemma im_open_ok: "length p < 2 ^ 24 \<Longrightarrow> im_ok (im_open p)"
  by (rule im_ok_open) simp

lemma im_rest_unread:
  assumes "im_ok s"
  shows "\<exists>s'. im_rest s = Inr (im_unread s, s')"
proof -
  have size: "unat (im_size s) = length (m_Data s)" using assms by (rule unat_im_size)
  then have "m_Offset s \<le> im_size s" using assms by (simp add: im_ok_def word_le_nat_alt)
  then have n: "unat (im_size s - m_Offset s) = length (im_unread s)" using size length_im_unread [OF assms] by (simp add: unat_sub)
  show ?thesis using im_ensure_fits(1) [OF assms, of "im_size s - m_Offset s"] n assms
    by (simp add: im_rest_def im_substring_def sv_substr_def im_unread_def im_ok_def)
qed

lemma im_read_exact:
  assumes "im_ok s" and "im_unread s = bs @ r" and "unat n = length bs"
  shows "\<exists>s'. im_read n s = Inr (bs, s') \<and> im_ok s' \<and> im_unread s' = r"
  using im_read_fits [OF assms(1), of n] assms(2,3) by simp

lemma im_skip_exact:
  assumes "im_ok s" and "im_unread s = bs @ r" and "unat n = length bs"
  shows "\<exists>s'. im_skip n s = Inr s' \<and> im_ok s' \<and> im_unread s' = r"
  using im_read_fits [OF assms(1), of n] im_ensure_fits(1) [OF assms(1), of n] assms(2,3) by (simp add: im_skip_def)

lemma readStringNul_reads:
  assumes "im_ok s" and "im_unread s = u @ 0 # r" and "0 \<notin> set u" and "length u \<le> fuel"
  shows "\<exists>s'. readStringNul fuel aStr s = Inr (aStr @ u, s') \<and> im_ok s' \<and> im_unread s' = r"
  using assms
proof (induction u arbitrary: fuel aStr s)
  case Nil
  then obtain s' where "im_read 1 s = Inr ([0], s')" "im_ok s'" "im_unread s' = r"
    using im_read_exact [of s "[0]" r 1] by auto
  then show ?case by (subst readStringNul.simps) simp
next
  case (Cons c u)
  obtain s' where s': "im_read 1 s = Inr ([c], s')" "im_ok s'" "im_unread s' = u @ 0 # r"
    using im_read_exact [of s "[c]" "u @ 0 # r" 1] Cons.prems by auto
  obtain f where f: "fuel = Suc f" using Cons.prems(4) by (cases fuel) auto
  obtain s'' where "readStringNul f (aStr @ [c]) s' = Inr ((aStr @ [c]) @ u, s'')" "im_ok s''" "im_unread s'' = r"
    using Cons.IH [OF s'(2,3), of f "aStr @ [c]"] Cons.prems f by auto
  then show ?case using s'(1) f Cons.prems(3) by (subst readStringNul.simps) auto
qed

definition hr_bytes :: "handshake_response \<Rightarrow> byte list \<Rightarrow> byte list" where
  "hr_bytes h pad = le_enc 4 (hr_client_flag h) @ le_enc 4 (hr_max_packet_size h) @ [hr_character_set h] @ pad @ hr_username h @ [0] @ hr_auth h"

definition hr_ok :: "handshake_response \<Rightarrow> bool" where
  "hr_ok h \<longleftrightarrow> hr_client_flag h < 2 ^ 32 \<and> hr_max_packet_size h < 2 ^ 32 \<and> 0 \<notin> set (hr_username h)"

lemma hr_parse_bytes:
  assumes "hr_ok h" and "length pad = 23" and "length (hr_bytes h pad) < 2 ^ 24"
  shows "hr_parse (hr_bytes h pad) = Inr h"
proof -
  let ?b = "hr_bytes h pad"
  obtain s1 where 1: "im_read 4 (im_open ?b) = Inr (le_enc 4 (hr_client_flag h), s1)" "im_ok s1"
    "im_unread s1 = le_enc 4 (hr_max_packet_size h) @ [hr_character_set h] @ pad @ hr_username h @ 0 # hr_auth h"
    using im_read_exact [OF im_open_ok [OF assms(3)], of "le_enc 4 (hr_client_flag h)" _ 4] by (auto simp: hr_bytes_def)
  obtain s2 where 2: "im_read 4 s1 = Inr (le_enc 4 (hr_max_packet_size h), s2)" "im_ok s2"
    "im_unread s2 = [hr_character_set h] @ pad @ hr_username h @ 0 # hr_auth h"
    using im_read_exact [OF 1(2,3), of 4] by auto
  obtain s3 where 3: "im_read 1 s2 = Inr ([hr_character_set h], s3)" "im_ok s3" "im_unread s3 = pad @ hr_username h @ 0 # hr_auth h"
    using im_read_exact [OF 2(2,3), of 1] by auto
  obtain s4 where 4: "im_skip 23 s3 = Inr s4" "im_ok s4" "im_unread s4 = hr_username h @ 0 # hr_auth h"
    using im_skip_exact [OF 3(2,3), of 23] assms(2) by auto
  obtain s5 where 5: "readStringNul (length ?b) [] s4 = Inr (hr_username h, s5)" "im_ok s5" "im_unread s5 = hr_auth h"
    using readStringNul_reads [OF 4(2,3), of "length ?b" "[]"] assms(1) by (auto simp: hr_ok_def hr_bytes_def)
  obtain s6 where 6: "im_rest s5 = Inr (hr_auth h, s6)" using im_rest_unread [OF 5(2)] 5(3) by auto
  show ?thesis unfolding hr_parse_def using 1(1) 2(1) 3(1) 4(1) 5(1) 6 assms(1) by (simp add: hr_ok_def)
qed

lemma command_parse_query: "length q + 1 < 2 ^ 24 \<Longrightarrow> command_parse (CMD_QUERY # q) = Inr (CMD_QUERY, q)"
proof -
  assume a: "length q + 1 < 2 ^ 24"
  obtain s where s: "im_read 1 (im_open (CMD_QUERY # q)) = Inr ([CMD_QUERY], s)" "im_ok s" "im_unread s = q"
    using im_read_exact [OF im_open_ok, of "CMD_QUERY # q" "[CMD_QUERY]" q 1] a by auto
  then show ?thesis using im_rest_unread [OF s(2)] by (auto simp: command_parse_def)
qed

lemma command_parse_quit: "command_parse [CMD_QUIT] = Inr (CMD_QUIT, [])"
proof -
  obtain s where s: "im_read 1 (im_open [CMD_QUIT]) = Inr ([CMD_QUIT], s)"
    using im_read_exact [OF im_open_ok, of "[CMD_QUIT]" "[CMD_QUIT]" "[]" 1] by auto
  then show ?thesis by (simp add: command_parse_def CMD_QUIT_def CMD_QUERY_def)
qed

definition client_bytes :: "byte list \<Rightarrow> byte list \<Rightarrow> byte list list \<Rightarrow> byte list" where
  "client_bytes hr auth qs = my_write hr 1 @ my_write auth 3 @ concat (map (\<lambda>q. my_write (CMD_QUERY # q) 0) qs) @ my_write [CMD_QUIT] 0"

lemma my_loop_queries:
  assumes "\<And>q out. fst (process q ok out)" and "list_all (\<lambda>q. length q + 1 < 2 ^ 24) qs"
  shows "my_loop ok process (concat (map (\<lambda>q. my_write (CMD_QUERY # q) 0) qs) @ my_write [CMD_QUIT] 0) out acc
    = Inr (fold (\<lambda>q out. snd (process q ok out)) qs out, acc @ qs)"
  using assms(2)
proof (induction qs arbitrary: out acc)
  case Nil
  show ?case using my_read_write [of "[CMD_QUIT]" 0 "[]"] by (subst my_loop.simps) (simp add: command_parse_quit)
next
  case (Cons q qs)
  have "fst (process q ok out)" by (rule assms(1))
  then show ?case using Cons my_read_write [of "CMD_QUERY # q" 0]
    by (subst my_loop.simps) (simp add: command_parse_query split_def CMD_QUERY_def [symmetric], simp add: CMD_QUIT_def CMD_QUERY_def)
qed

section \<open>Properties\<close>


definition one_column :: column where
  "one_column = \<lparr>co_schema = [], co_table = [], co_name = [97], co_character_set = 0x21, co_length = 0, co_type = 254, co_flags = 0, co_decimals = 0\<rparr>"


text \<open>
  The session serves the queries in order. For a client that answers the greeting with a well-formed
  packet, sends its authentication and then queries and a quit, the handler is called exactly with
  the queries, in their order, each with what was sent before it.
\<close>

theorem my_session_serves:
  assumes "hr_ok h" and "length pad = 23" and "length (hr_bytes h pad) < 2 ^ 24" and "length auth < 2 ^ 24"
    and "\<And>q out. fst (process q (\<lambda>_. True) out)" and "list_all (\<lambda>q. length q + 1 < 2 ^ 24) qs"
  shows "my_session (\<lambda>_. True) process (client_bytes (hr_bytes h pad) auth qs)
    = Inr (fold (\<lambda>q out. snd (process q (\<lambda>_. True) out)) qs
        [my_write handshake10 0, my_write auth_switch 2, my_write (ok_serialize ok_default) 4], qs)"
  using my_loop_queries [of process "\<lambda>_. True", OF assms(5,6), of "[my_write handshake10 0, my_write auth_switch 2, my_write (ok_serialize ok_default) 4]" "[]"]
  by (simp add: my_session_def client_bytes_def my_send_def my_read_write [OF assms(3)] my_read_write [OF assms(4)]
      hr_parse_bytes [OF assms(1-3)])

theorem my_session_serves_witness:
  "\<exists>out. my_session (\<lambda>_. True) (\<lambda>q ok out. rs_write ok [one_column] [result_row [Some q]] out)
      (client_bytes (hr_bytes \<lparr>hr_client_flag = 512, hr_max_packet_size = 0, hr_character_set = 33, hr_username = [97], hr_auth = []\<rparr> (replicate 23 0)) [5] [[49], [50]])
    = Inr (out, [[49], [50]])"
proof -
  let ?h = "\<lparr>hr_client_flag = 512, hr_max_packet_size = 0, hr_character_set = 33, hr_username = [97], hr_auth = []\<rparr>"
  have f: "fst (send_all (\<lambda>_. True) n ps out)" for n ps out
    by (induction ps arbitrary: n out) (simp_all add: my_send_def)
  have "hr_ok ?h" "length (hr_bytes ?h (replicate 23 0)) < 2 ^ 24" by (simp_all add: hr_ok_def hr_bytes_def)
  then show ?thesis
    using my_session_serves [of ?h "replicate 23 0" "[5]" "\<lambda>q ok out. rs_write ok [one_column] [result_row [Some q]] out" "[[49], [50]]"] f
    by (simp add: rs_write_def)
qed

text \<open>
  A packet that is too short ends the session with an exception. The first packet of a client may
  be empty, before any authentication; the parser throws, and nothing in the session catches it.
\<close>

theorem my_session_throws:
  "my_session (\<lambda>_. True) process (my_write [] n @ r) = Inl EndOfBuffer"
proof -
  have "im_read 4 (im_open []) = Inl EndOfBuffer" by (rule im_read_short) (simp_all add: im_ok_open)
  then have "hr_parse [] = Inl EndOfBuffer" by (simp add: hr_parse_def)
  then show ?thesis by (simp add: my_session_def my_send_def my_read_write)
qed

end
