(* ===== verification/Avx_Search.thy ===== *)
theory Avx_Search
  imports Prelude
begin

text \<open>
  The search of \<open>avx/Search.hpp\<close>: the first of eight, or of 32, sorted numbers that is not below a
  value, by one comparison of vectors, and the recursive index over a sorted array. A vector of eight
  lanes is a list; a lane of the comparison has its sign bit set when it held.
\<close>

section \<open>Vectors\<close>

text \<open>\<open>WideInt32::operator>=\<close> is \<open>_mm256_cmpgt_epi32\<close>: the numbers are compared as signed ones.\<close>

definition wide_greater :: "u32 \<Rightarrow> u32 \<Rightarrow> bool" where
  "wide_greater a b \<longleftrightarrow> sint b < sint a"

text \<open>\<open>_mm256_movemask_ps\<close>: bit \<open>i\<close> is the sign of lane \<open>i\<close>.\<close>

fun movemask :: "bool list \<Rightarrow> nat" where
  "movemask [] = 0"
| "movemask (b # bs) = (if b then 1 else 0) + 2 * movemask bs"

text \<open>\<open>__builtin_ffs\<close>: the number of the lowest bit set, from one, or zero.\<close>

fun ffs_from :: "nat \<Rightarrow> nat \<Rightarrow> u32 \<Rightarrow> int" where
  "ffs_from i 0 w = 0"
| "ffs_from i (Suc n) w = (if bit w i then int i + 1 else ffs_from (Suc i) n w)"

definition builtin_ffs :: "u32 \<Rightarrow> int" where
  "builtin_ffs w = ffs_from 0 32 w"

definition compare_mask :: "u32 \<Rightarrow> u32 list \<Rightarrow> nat" where
  "compare_mask aVal aInput = movemask (map (\<lambda>x. wide_greater aVal x) aInput)"

definition avxLowerBound1 :: "u32 list \<Rightarrow> u32 \<Rightarrow> int" where
  "avxLowerBound1 aInput aVal = builtin_ffs (NOT (of_nat (compare_mask aVal aInput))) - 1"

text \<open>Four vectors in a row; the argument of \<open>__builtin_ffs\<close> is an \<open>int\<close>.\<close>

definition avxLowerBound4 :: "u32 list \<Rightarrow> u32 \<Rightarrow> int" where
  "avxLowerBound4 aInput aVal =
     (let sMask = fold (\<lambda>i sMask. sMask OR push_bit (i * 8) (of_nat (compare_mask aVal (take 8 (drop (i * 8) aInput))) :: u64)) [0..<4] 0;
          sPos = builtin_ffs (ucast (NOT sMask)) - 1
      in if - 1 < sPos then sPos else 32)"

section \<open>The index\<close>

definition INDEX_SIZE :: nat where "INDEX_SIZE = 8"

text \<open>One level: the last of each eight elements of the level below.\<close>

definition index_level :: "u32 list \<Rightarrow> u32 list" where
  "index_level sInput = map (\<lambda>i. sInput ! ((i + 1) * INDEX_SIZE - 1)) [0..<length sInput div INDEX_SIZE]"

text \<open>The constructor: levels until one has eight elements, at most 33 of them.\<close>

fun index_build :: "nat \<Rightarrow> u32 list \<Rightarrow> u32 list list result" where
  "index_build n sInput =
     (let sIndex = index_level sInput
      in if length sIndex = INDEX_SIZE then Inr [sIndex]
         else case n of 0 \<Rightarrow> Inl AssertFailed | Suc n \<Rightarrow> bindr (index_build n sIndex) (\<lambda>ls. Inr (sIndex # ls)))"

declare index_build.simps [simp del]

record avx_index =
  ai_Input :: "u32 list"
  ai_Index :: "u32 list list"

definition avx_open :: "u32 list \<Rightarrow> avx_index result" where
  "avx_open aInput =
     (if length aInput mod INDEX_SIZE \<noteq> 0 then Inl AssertFailed
      else bindr (index_build 32 aInput) (\<lambda>ls. Inr \<lparr>ai_Input = aInput, ai_Index = ls\<rparr>))"

text \<open>A vector is loaded from \<open>sOffset\<close>; past the end of the level this is undefined.\<close>

definition load_bound :: "u32 list \<Rightarrow> int \<Rightarrow> u32 \<Rightarrow> int result" where
  "load_bound sLevel sOffset aValue =
     (if 0 \<le> sOffset \<and> nat sOffset + 8 \<le> length sLevel then Inr (avxLowerBound1 (take 8 (drop (nat sOffset) sLevel)) aValue)
      else Inl Undefined)"

fun descend :: "u32 list list \<Rightarrow> u32 \<Rightarrow> int \<Rightarrow> int result" where
  "descend [] aValue sOffset = Inr sOffset"
| "descend (sIndex # below) aValue sOffset =
     bindr (load_bound sIndex sOffset aValue) (\<lambda>sPos. descend below aValue (sOffset * int INDEX_SIZE + sPos * int INDEX_SIZE))"

definition avx_lower_bound :: "avx_index \<Rightarrow> u32 \<Rightarrow> int result" where
  "avx_lower_bound s aValue =
     bindr (descend (rev (ai_Index s)) aValue 0) (\<lambda>sOffset.
     bindr (load_bound (ai_Input s) sOffset aValue) (\<lambda>sPos. Inr (sPos + sOffset)))"

definition avx_memory :: "avx_index \<Rightarrow> nat" where
  "avx_memory s = sum_list (map (\<lambda>x. length x * 4) (ai_Index s))"

definition avx_height :: "avx_index \<Rightarrow> nat" where
  "avx_height s = length (ai_Index s) - 1"

section \<open>The lowest element that is not below\<close>

text \<open>The reference: the number of elements in front that are below the value.\<close>

definition below :: "u32 \<Rightarrow> u32 list \<Rightarrow> nat" where
  "below v xs = length (takeWhile (\<lambda>x. sint x < sint v) xs)"

lemma movemask_bit: "bit (movemask bs) i \<longleftrightarrow> i < length bs \<and> bs ! i"
proof (induction bs arbitrary: i)
  case (Cons b bs)
  show ?case
  proof (cases i)
    case 0
    then show ?thesis by (simp add: bit_0)
  next
    case (Suc j)
    have "bit ((if b then 1 else 0) + 2 * movemask bs) (Suc j) = bit (movemask bs) j" by (simp add: bit_Suc)
    then show ?thesis using Cons Suc by simp
  qed
qed simp

lemma ffs_from_first:
  assumes "\<And>j. j < k \<Longrightarrow> \<not> bit w (i + j)" and "bit w (i + k)" and "k < n"
  shows "ffs_from i n w = int (i + k) + 1"
  using assms
proof (induction n arbitrary: i k)
  case (Suc n)
  show ?case
  proof (cases k)
    case 0
    then show ?thesis using Suc.prems by simp
  next
    case (Suc l)
    have "ffs_from (Suc i) n w = int (Suc i + l) + 1"
      using Suc.prems Suc Suc.IH [of l "Suc i"] by (metis Suc_less_eq add_Suc_shift)
    then show ?thesis using Suc.prems(1) [of 0] Suc by simp
  qed
qed simp

lemma avxLowerBound1_below:
  assumes "length xs = 8"
  shows "avxLowerBound1 xs v = int (below v xs)"
proof -
  let ?m = "of_nat (compare_mask v xs) :: u32"
  have b: "bit (NOT ?m) i \<longleftrightarrow> \<not> (i < 8 \<and> sint (xs ! i) < sint v)" if "i < 32" for i
    using that assms by (auto simp: bit_not_iff bit_of_nat_iff_bit compare_mask_def movemask_bit wide_greater_def bit_simps)
  have k: "below v xs \<le> 8" using assms length_takeWhile_le [of _ xs] by (simp add: below_def)
  have n: "sint (xs ! j) < sint v" if "j < below v xs" for j
    using that nth_mem [of j "takeWhile (\<lambda>x. sint x < sint v) xs"] set_takeWhileD takeWhile_nth
    by (fastforce simp: below_def)
  have e: "\<not> (below v xs < 8 \<and> sint (xs ! below v xs) < sint v)"
    using nth_length_takeWhile [of "\<lambda>x. sint x < sint v" xs] assms by (auto simp: below_def)
  have "ffs_from 0 32 (NOT ?m) = int (0 + below v xs) + 1"
  proof (rule ffs_from_first)
    show "\<not> bit (NOT ?m) (0 + j)" if "j < below v xs" for j using b [of j] n [OF that] that k by simp
    show "bit (NOT ?m) (0 + below v xs)" using b [of "below v xs"] k e by simp
    show "below v xs < 32" using k by simp
  qed
  then show ?thesis by (simp add: avxLowerBound1_def builtin_ffs_def)
qed

lemma below_eqI:
  assumes "k \<le> length xs" and "\<And>j. j < k \<Longrightarrow> sint (xs ! j) < sint v" and "k < length xs \<Longrightarrow> \<not> sint (xs ! k) < sint v"
  shows "below v xs = k"
  using takeWhile_eq_take_P_nth [of k xs "\<lambda>x. sint x < sint v"] assms by (simp add: below_def)

lemma below_nth: "j < below v xs \<Longrightarrow> sint (xs ! j) < sint v"
  using nth_mem [of j "takeWhile (\<lambda>x. sint x < sint v) xs"] set_takeWhileD takeWhile_nth by (fastforce simp: below_def)

lemma below_stop: "below v xs < length xs \<Longrightarrow> sint v \<le> sint (xs ! below v xs)"
  using nth_length_takeWhile [of "\<lambda>x. sint x < sint v" xs] by (auto simp: below_def)

lemma below_block:
  assumes "below v xs < length xs" and "8 dvd length xs"
  shows "below v (take 8 (drop (8 * (below v xs div 8)) xs)) = below v xs mod 8" and "8 * (below v xs div 8) + 8 \<le> length xs"
proof -
  let ?b = "below v xs"
  obtain m where m: "length xs = 8 * m" using assms(2) by (auto simp: dvd_def)
  then have "?b div 8 < m" using assms(1) by (simp add: less_mult_imp_div_less mult.commute)
  then show l: "8 * (?b div 8) + 8 \<le> length xs" using m by simp
  have q: "8 * (?b div 8) + ?b mod 8 = ?b" by simp
  show "below v (take 8 (drop (8 * (?b div 8)) xs)) = ?b mod 8"
  proof (rule below_eqI)
    fix j assume "j < ?b mod 8"
    then have "8 * (?b div 8) + j < ?b" "j < 8" using q by linarith+
    then show "sint (take 8 (drop (8 * (?b div 8)) xs) ! j) < sint v" using below_nth [of _ v xs] l by simp
  next
    have "take 8 (drop (8 * (?b div 8)) xs) ! (?b mod 8) = xs ! ?b" using l q by simp
    then show "\<not> sint (take 8 (drop (8 * (?b div 8)) xs) ! (?b mod 8)) < sint v"
      using below_stop [OF assms(1)] by simp
  qed (use l in simp)
qed

lemma load_bound_block:
  assumes "below v xs < length xs" and "8 dvd length xs"
  shows "load_bound xs (8 * int (below v xs div 8)) v = Inr (int (below v xs mod 8))"
proof -
  have n: "nat (8 * int (below v xs div 8)) = 8 * (below v xs div 8)" by simp
  show ?thesis using below_block [OF assms] avxLowerBound1_below [of "take 8 (drop (8 * (below v xs div 8)) xs)" v]
    unfolding load_bound_def n by simp
qed

lemma length_index_level [simp]: "length (index_level xs) = length xs div 8"
  by (simp add: index_level_def INDEX_SIZE_def)

lemma index_level_nth: "i < length xs div 8 \<Longrightarrow> index_level xs ! i = xs ! (8 * i + 7)"
  by (simp add: index_level_def INDEX_SIZE_def algebra_simps)

lemma below_index_level:
  assumes "sorted (map sint xs)" and "below v xs < length xs" and "8 dvd length xs"
  shows "below v (index_level xs) = below v xs div 8"
proof (rule below_eqI)
  let ?b = "below v xs"
  have l: "8 * (?b div 8) + 8 \<le> length xs" by (rule below_block(2) [OF assms(2,3)])
  then show "?b div 8 \<le> length (index_level xs)" by simp
  show "sint (index_level xs ! j) < sint v" if "j < ?b div 8" for j
    using that l below_nth [of "8 * j + 7" v xs] by (simp add: index_level_nth)
  have "?b \<le> 8 * (?b div 8) + 7" by presburger
  then have "sint (xs ! ?b) \<le> sint (xs ! (8 * (?b div 8) + 7))"
    using sorted_nth_mono [OF assms(1), of ?b "8 * (?b div 8) + 7"] l by simp
  then show "\<not> sint (index_level xs ! (?b div 8)) < sint v" if "?b div 8 < length (index_level xs)"
    using that below_stop [OF assms(2)] by (simp add: index_level_nth)
qed

lemma sorted_index_level: "sorted (map sint xs) \<Longrightarrow> sorted (map sint (index_level xs))"
  by (auto simp: sorted_iff_nth_mono index_level_nth)

lemma descend_append: "descend (ls @ [l]) v o' = bindr (descend ls v o') (\<lambda>o'. descend [l] v o')"
  by (induction ls arbitrary: o') (auto simp: bindr_def split: sum.split)

lemma index_descend:
  assumes "length xs = 8 ^ (k + 2)" and "k \<le> n" and "sorted (map sint xs)" and "below v xs < length xs"
  shows "\<exists>ls. index_build n xs = Inr ls \<and> descend (rev ls) v 0 = Inr (8 * int (below v xs div 8))"
  using assms
proof (induction k arbitrary: n xs)
  case 0
  let ?i = "index_level xs"
  have i: "length ?i = 8" "below v ?i = below v xs div 8" using 0 below_index_level [of xs v] by simp_all
  then have "below v ?i < 8" using 0 by (simp add: less_mult_imp_div_less)
  then have "load_bound ?i 0 v = Inr (int (below v ?i))" using i(1) load_bound_block [of v ?i] by simp
  then show ?case using i by (simp add: index_build.simps INDEX_SIZE_def)
next
  case (Suc k)
  let ?i = "index_level xs"
  have li: "length ?i = 8 ^ (k + 2)" using Suc.prems(1) by simp
  have bi: "below v ?i = below v xs div 8" using below_index_level [of xs v] Suc.prems by simp
  have "below v xs div 8 < 8 ^ (k + 2)" using Suc.prems(1,4) by (simp add: less_mult_imp_div_less)
  then have b: "below v ?i < length ?i" using bi li by simp
  obtain m where n: "n = Suc m" using Suc.prems(2) by (cases n) auto
  obtain ls where ls: "index_build m ?i = Inr ls" "descend (rev ls) v 0 = Inr (8 * int (below v ?i div 8))"
    using Suc.IH [OF li _ sorted_index_level [OF Suc.prems(3)] b, of m] Suc.prems(2) n by auto
  have ne: "length ?i \<noteq> INDEX_SIZE" using li by (simp add: INDEX_SIZE_def)
  have "load_bound ?i (8 * int (below v ?i div 8)) v = Inr (int (below v ?i mod 8))"
    by (rule load_bound_block [OF b]) (unfold li, simp)
  moreover have "(8 * int (below v ?i div 8)) * 8 + int (below v ?i mod 8) * 8 = 8 * int (below v ?i)" by presburger
  ultimately have "descend (rev (?i # ls)) v 0 = Inr (8 * int (below v xs div 8))"
    using ls(2) bi by (simp add: descend_append INDEX_SIZE_def)
  moreover have "index_build n xs = Inr (?i # ls)" using ls(1) ne n by (simp add: index_build.simps [of "Suc m"])
  ultimately show ?case by blast
qed

section \<open>Properties\<close>



text \<open>
  The 32 lanes of four vectors: the position returned is the first that is not below, or 32.
\<close>

lemma quad_bit:
  fixes xs :: "u32 list"
  assumes "length xs = 32" and "i < 32"
  shows "bit (fold (\<lambda>i sMask. sMask OR push_bit (i * 8) (of_nat (compare_mask v (take 8 (drop (i * 8) xs))) :: u64)) [0..<4] 0) i
    \<longleftrightarrow> sint (xs ! i) < sint v"
proof -
  have u: "[0..<4] = [0, 1, 2, 3 :: nat]" by code_simp
  have "i < 8 \<or> 8 \<le> i \<and> i < 16 \<or> 16 \<le> i \<and> i < 24 \<or> 24 \<le> i" by linarith
  then show ?thesis using assms
    by (auto simp: u bit_simps compare_mask_def movemask_bit wide_greater_def)
qed

lemma avxLowerBound4_below:
  assumes "length xs = 32"
  shows "avxLowerBound4 xs v = int (below v xs)"
proof -
  define m where "m = fold (\<lambda>i sMask. sMask OR push_bit (i * 8) (of_nat (compare_mask v (take 8 (drop (i * 8) xs))) :: u64)) [0..<4] 0"
  have b: "bit (ucast (NOT m) :: u32) i \<longleftrightarrow> \<not> sint (xs ! i) < sint v" if "i < 32" for i
    using that quad_bit [OF assms that, of v] by (simp add: m_def bit_simps del: upt_rec_numeral)
  have k: "below v xs \<le> 32" using assms length_takeWhile_le [of _ xs] by (simp add: below_def)
  show ?thesis
  proof (cases "below v xs < 32")
    case True
    have "ffs_from 0 32 (ucast (NOT m)) = int (0 + below v xs) + 1"
      using True b below_nth [of _ v xs] below_stop [of v xs] assms by (intro ffs_from_first) auto
    then show ?thesis by (simp add: avxLowerBound4_def builtin_ffs_def m_def [symmetric] Let_def)
  next
    case False
    have z: "ffs_from i n w = 0" if "\<And>j. i \<le> j \<Longrightarrow> j < i + n \<Longrightarrow> \<not> bit w j" for i n w
      using that by (induction n arbitrary: i) auto
    have "ffs_from 0 32 (ucast (NOT m)) = 0" using False k b below_nth [of _ v xs] by (intro z) auto
    then show ?thesis using False k by (simp add: avxLowerBound4_def builtin_ffs_def m_def [symmetric] Let_def)
  qed
qed

end
