(* ===== verification/Tar.thy ===== *)
theory Tar
  imports Text_Parsers
begin

text \<open>
  The reader of tar archives of \<open>resource/Tar.hpp\<close>: a header is a block of 512 bytes, taken apart by
  the offsets of its members.
\<close>

section \<open>Headers\<close>

definition header_size :: nat where "header_size = 512"

definition tar_field :: "nat \<Rightarrow> nat \<Rightarrow> byte list \<Rightarrow> byte list" where
  "tar_field off n h = take n (drop off h)"

definition th_name :: "byte list \<Rightarrow> byte list" where "th_name h = tar_field 0 100 h"
definition th_size :: "byte list \<Rightarrow> byte list" where "th_size h = tar_field 124 12 h"
definition th_checksum :: "byte list \<Rightarrow> byte list" where "th_checksum h = tar_field 148 8 h"
definition th_type :: "byte list \<Rightarrow> byte" where "th_type h = h ! 156"

definition filenameSize :: "byte list \<Rightarrow> nat" where
  "filenameSize h = length (takeWhile (\<lambda>b. b \<noteq> 0) (th_name h))"

definition tar_decodeSize :: "byte list \<Rightarrow> u64 result" where
  "tar_decodeSize h = Atoi8 0 (th_size h)"

text \<open>The sum over the header with the checksum as eight spaces.\<close>

fun tar_sum :: "nat \<Rightarrow> u32 \<Rightarrow> byte list \<Rightarrow> u32" where
  "tar_sum i sSum [] = sSum"
| "tar_sum i sSum (b # bs) = tar_sum (Suc i) (sSum + (if 148 \<le> i \<and> i < 156 then 0x20 else ucast b)) bs"

definition tar_validate :: "byte list \<Rightarrow> bool result" where
  "tar_validate h = bindr (Atoi8 0 (th_checksum h)) (\<lambda>sChecksum :: u32. Inr (tar_sum 0 0 h = sChecksum))"

section \<open>The archive\<close>

type_synonym tar_index = "(byte list \<times> byte list) list"

text \<open>The length of the gap that the constructor expects after the data of a file.\<close>

definition tar_padding :: "u64 \<Rightarrow> u64" where
  "tar_padding sSize = (if 0 < sSize then 512 - sSize mod 512 else 0)"

definition bad_checksum :: exn where "bad_checksum = InvalidArgument ''Tar::BadInput: bad checksum''"
definition bad_incomplete :: exn where "bad_incomplete = InvalidArgument ''Tar::BadInput: incomplete file data''"

function tar_loop :: "byte list \<Rightarrow> tar_index \<Rightarrow> tar_index result" where
  "tar_loop aData m_Index =
     (if length aData < header_size then Inr m_Index
      else let h = take header_size aData; aData = drop header_size aData
      in if list_all (\<lambda>t. t = 0) (th_name h) then Inr m_Index
      else case tar_validate h of
        Inl x \<Rightarrow> Inl x
      | Inr ok \<Rightarrow>
          if \<not> ok then Inl bad_checksum
          else if th_type h \<noteq> 0x30 \<and> th_type h \<noteq> 0 then tar_loop aData m_Index
          else let sName = take (filenameSize h) (th_name h)
          in case tar_decodeSize h of
               Inl x \<Rightarrow> Inl x
             | Inr sSize \<Rightarrow>
                 if of_nat (length aData) < sSize + tar_padding sSize then Inl bad_incomplete
                 else tar_loop (drop (unat (sSize + tar_padding sSize)) aData)
                        (AList.update sName (take (unat sSize) aData) m_Index))"
  by auto
termination
  by (relation "measure (\<lambda>(aData, _). length aData)") (auto simp: header_size_def)

declare tar_loop.simps [simp del]

definition tar_open :: "byte list \<Rightarrow> tar_index result" where
  "tar_open aData = tar_loop aData []"

definition tar_get :: "tar_index \<Rightarrow> byte list \<Rightarrow> byte list result" where
  "tar_get m_Index aName =
     (case map_of m_Index aName of None \<Rightarrow> Inl (InvalidArgument ''Tar::FileNotFound'') | Some d \<Rightarrow> Inr d)"

definition tar_size :: "tar_index \<Rightarrow> nat" where
  "tar_size m_Index = length m_Index"

section \<open>Archives as they are written\<close>

text \<open>A valid header of a regular file with the data.\<close>

definition tar_entry :: "byte list \<times> byte list \<Rightarrow> bool" where
  "tar_entry = (\<lambda>(h, d). length h = header_size \<and> \<not> list_all (\<lambda>t. t = 0) (th_name h) \<and> tar_validate h = Inr True
     \<and> (th_type h = 0x30 \<or> th_type h = 0) \<and> tar_decodeSize h = Inr (of_nat (length d)))"

definition entry_name :: "byte list \<Rightarrow> byte list" where
  "entry_name h = take (filenameSize h) (th_name h)"

text \<open>The data of a file is filled up to whole blocks.\<close>

definition tar_fill :: "byte list \<Rightarrow> byte list" where
  "tar_fill d = replicate ((512 - length d mod 512) mod 512) 0"

definition tar_bytes :: "(byte list \<times> byte list) list \<Rightarrow> byte list" where
  "tar_bytes es = concat (map (\<lambda>(h, d). h @ d @ tar_fill d) es) @ replicate 1024 0"

lemma tar_padding_unat: "unat (tar_padding s) = (if s = 0 then 0 else 512 - unat s mod 512)"
proof -
  have "unat (s mod 512) = unat s mod 512" by (simp add: unat_mod)
  moreover have "s mod 512 \<le> 512" by (simp add: word_le_nat_alt unat_mod)
  ultimately show ?thesis by (simp add: tar_padding_def unat_sub word_gt_0)
qed

text \<open>One file of the archive.\<close>

lemma tar_loop_entry:
  assumes "tar_entry (h, d)" and "length (d @ rest) + 512 < 2 ^ 64" and n: "p = (if d = [] then 0 else 512 - length d mod 512)" and "p \<le> length rest"
  shows "tar_loop (h @ d @ rest) m = tar_loop (drop p rest) (AList.update (entry_name h) d m)"
proof -
  let ?s = "of_nat (length d) :: u64"
  have u: "unat ?s = length d" using assms(2) by (simp add: word_nat_simps)
  have z: "?s = 0 \<longleftrightarrow> d = []" using u by (metis length_0_conv unat_eq_zero)
  have p: "unat (tar_padding ?s) = p" using u z n by (simp add: tar_padding_unat)
  have up: "unat (?s + tar_padding ?s) = length d + p"
    using p u assms(2) n by (subst unat_add_no_wrap) (auto split: if_splits)
  have "unat (of_nat (length (d @ rest)) :: u64) = length (d @ rest)" using assms(2) by (intro unat_of_nat_u64) simp
  then have "\<not> (of_nat (length (d @ rest)) < ?s + tar_padding ?s)"
    using up assms(4) unfolding word_less_nat_alt by simp
  moreover have "length h = 512" using assms(1) by (simp add: tar_entry_def header_size_def)
  ultimately show ?thesis using assms(1) up u
    by (subst tar_loop.simps) (auto simp: tar_entry_def header_size_def entry_name_def)
qed

lemma tar_loop_end: "tar_loop (replicate 1024 0) m = Inr m"
  by (subst tar_loop.simps) (simp add: header_size_def th_name_def tar_field_def list_all_length)

lemma tar_bytes_Cons: "tar_bytes ((h, d) # es) = h @ d @ tar_fill d @ tar_bytes es"
  by (simp add: tar_bytes_def)

lemma length_tar_bytes: "1024 \<le> length (tar_bytes es)"
  by (simp add: tar_bytes_def)

definition odd_size :: "byte list \<Rightarrow> bool" where
  "odd_size d \<longleftrightarrow> d = [] \<or> length d mod 512 \<noteq> 0"

lemma tar_loop_bytes:
  assumes "list_all tar_entry es" and "list_all (odd_size \<circ> snd) es" and "length (tar_bytes es) < 2 ^ 64"
  shows "tar_loop (tar_bytes es) m = Inr (fold (\<lambda>(h, d). AList.update (entry_name h) d) es m)"
  using assms
proof (induction es arbitrary: m)
  case Nil
  show ?case using tar_loop_end by (simp add: tar_bytes_def)
next
  case (Cons e es)
  obtain h d where e: "e = (h, d)" by (cases e)
  have h: "length h = 512" using Cons.prems(1) e by (simp add: tar_entry_def header_size_def)
  have "length (tar_fill d) = (if d = [] then 0 else 512 - length d mod 512)"
    using Cons.prems(2) e by (auto simp: odd_size_def tar_fill_def)
  then have "tar_loop (h @ d @ tar_fill d @ tar_bytes es) m
      = tar_loop (drop (length (tar_fill d)) (tar_fill d @ tar_bytes es)) (AList.update (entry_name h) d m)"
    using Cons.prems e h by (intro tar_loop_entry) (simp_all add: tar_bytes_Cons)
  then show ?case using Cons e by (simp add: tar_bytes_Cons)
qed

lemma map_of_updates: "map_of (fold (\<lambda>(h, d). AList.update (f h) d) es m) = map_of m ++ map_of (rev (map (\<lambda>(h, d). (f h, d)) es))"
  by (induction es arbitrary: m) (auto simp: update_conv' map_add_def fun_eq_iff split: option.split)

section \<open>Properties\<close>


definition mk_header :: "byte list \<Rightarrow> byte list \<Rightarrow> byte list \<Rightarrow> byte list" where
  "mk_header nm sz ck =
     nm @ replicate (124 - length nm) 0 @ sz @ replicate (24 - length sz) 0 @ ck @ replicate (8 - length ck) 0
     @ [0x30] @ replicate 355 0"

definition header_1 :: "byte list" where "header_1 = mk_header [97] [0x31] [0x37, 0x30, 0x32]"
definition header_512 :: "byte list" where "header_512 = mk_header [97] [0x31, 0x30, 0x30, 0x30] [0x31, 0x31, 0x32, 0x32]"

lemma header_1_ok: "tar_entry (header_1, [7])" "entry_name header_1 = [97]"
  by code_simp+

lemma header_512_ok: "tar_entry (header_512, replicate 512 7)" "entry_name header_512 = [97]"
  by code_simp+


text \<open>
  C40: after a file whose size is a positive multiple of 512 the reader skips a block too many: the
  header of the next file is never looked at, and its data is taken for a header.
\<close>

theorem tar_skips_header:
  assumes "tar_entry (h, d)" and "d \<noteq> []" and "length d mod 512 = 0" and "length h' = 512"
    and "length (tar_bytes ((h, d) # (h', d') # es)) < 2 ^ 64"
  shows "tar_open (tar_bytes ((h, d) # (h', d') # es)) = tar_loop (d' @ tar_fill d' @ tar_bytes es) [(entry_name h, d)]"
proof -
  have h: "length h = 512" using assms(1) by (simp add: tar_entry_def header_size_def)
  have "tar_fill d = []" using assms(3) by (simp add: tar_fill_def)
  moreover have "tar_loop (h @ d @ (h' @ d' @ tar_fill d' @ tar_bytes es)) []
      = tar_loop (drop 512 (h' @ d' @ tar_fill d' @ tar_bytes es)) (AList.update (entry_name h) d [])"
    using assms h by (intro tar_loop_entry) (simp_all add: tar_bytes_Cons tar_fill_def)
  ultimately show ?thesis using assms(4) by (simp add: tar_open_def tar_bytes_Cons)
qed

lemma data_is_no_header: "tar_validate (7 # replicate 511 0) = Inr False"
  by code_simp

theorem tar_skips_header_witness:
  "tar_open (tar_bytes [(header_512, replicate 512 7), (header_1, [7])]) = Inl bad_checksum"
proof -
  let ?es = "[(header_512, replicate 512 7), (header_1, [7])] :: (byte list \<times> byte list) list"
  have l: "length header_1 = 512" "length header_512 = 512"
    using header_1_ok(1) header_512_ok(1) by (simp_all add: tar_entry_def header_size_def)
  then have "length (tar_bytes ?es) < 2 ^ 64" by (simp add: tar_bytes_def tar_fill_def)
  with tar_skips_header [OF header_512_ok(1) _ _ l(1), of "[7]" "[]"]
  have e: "tar_open (tar_bytes ?es) = tar_loop ([7] @ tar_fill [7] @ tar_bytes []) [(entry_name header_512, replicate 512 7)]" by simp
  have t: "take header_size ([7] @ tar_fill [7] @ tar_bytes []) = 7 # replicate 511 0"
    by (simp add: tar_fill_def tar_bytes_def header_size_def)
  have n: "\<not> list_all (\<lambda>t. t = 0) (th_name (7 # replicate 511 (0 :: byte)))" by (simp add: th_name_def tar_field_def)
  show ?thesis unfolding e
    by (subst tar_loop.simps) (use t n data_is_no_header in \<open>simp add: Let_def tar_fill_def header_size_def\<close>)
qed

end
