(* ===== verification/Allocators.thy ===== *)
theory Allocators
  imports Prelude
begin

text \<open>
  The allocators over a fixed buffer of \<open>allocator/\<close>: the pool of equal cells, whose free cells are
  linked through their own memory (\<open>Pool.hpp\<close>), and the arena that hands out its buffer from the
  front and releases it at once (\<open>Arena.hpp\<close>).
\<close>

definition bad_alloc :: exn where "bad_alloc = RuntimeError ''std::bad_alloc''"

section \<open>The pool\<close>

text \<open>
  A cell is named by its number in the buffer. \<open>ap_next\<close> is the memory of the cells read as an
  \<open>Entry\<close>: the pointer to the next free cell; a cell filled with zeros reads as the null pointer.
\<close>

record alloc_pool =
  ap_next :: "nat \<Rightarrow> nat option"
  ap_Head :: "nat option"
  ap_Avail :: u32

definition ap_link :: "nat \<Rightarrow> alloc_pool \<Rightarrow> alloc_pool" where
  "ap_link x s = s\<lparr>ap_next := (ap_next s)(x := ap_Head s), ap_Head := Some x\<rparr>"

definition ap_new :: "nat \<Rightarrow> nat \<Rightarrow> alloc_pool" where
  "ap_new aSize entry =
     fold ap_link [0..<unat (of_nat (aSize div entry) :: u32)]
       \<lparr>ap_next = (\<lambda>_. None), ap_Head = None, ap_Avail = of_nat (aSize div entry)\<rparr>"

definition ap_allocate :: "alloc_pool \<Rightarrow> (nat \<times> alloc_pool) result" where
  "ap_allocate s =
     (case ap_Head s of
        None \<Rightarrow> Inl bad_alloc
      | Some x \<Rightarrow>
          if \<not> 0 < ap_Avail s then Inl AssertFailed
          else Inr (x, s\<lparr>ap_Head := ap_next s x, ap_next := (ap_next s)(x := None), ap_Avail := ap_Avail s - 1\<rparr>))"

definition ap_deallocate :: "nat \<Rightarrow> alloc_pool \<Rightarrow> alloc_pool" where
  "ap_deallocate aAddr s = (ap_link aAddr s)\<lparr>ap_Avail := ap_Avail s + 1\<rparr>"

text \<open>
  A client writes what it likes into its cells and returns only cells that it holds. The second
  component lists the cells that it holds.
\<close>

inductive ap_reach :: "nat \<Rightarrow> nat \<Rightarrow> alloc_pool \<Rightarrow> nat list \<Rightarrow> bool" for aSize entry where
  new: "ap_reach aSize entry (ap_new aSize entry) []"
| alloc: "ap_reach aSize entry s U \<Longrightarrow> ap_allocate s = Inr (x, s') \<Longrightarrow> ap_reach aSize entry s' (x # U)"
| store: "ap_reach aSize entry s U \<Longrightarrow> x \<in> set U \<Longrightarrow> ap_reach aSize entry (s\<lparr>ap_next := (ap_next s)(x := v)\<rparr>) U"
| free: "ap_reach aSize entry s U \<Longrightarrow> x \<in> set U \<Longrightarrow> ap_reach aSize entry (ap_deallocate x s) (remove1 x U)"

text \<open>The list of the free cells, through the links.\<close>

fun chain :: "(nat \<Rightarrow> nat option) \<Rightarrow> nat option \<Rightarrow> nat list \<Rightarrow> bool" where
  "chain nx h [] \<longleftrightarrow> h = None"
| "chain nx h (x # xs) \<longleftrightarrow> h = Some x \<and> chain nx (nx x) xs"

lemma chain_frame: "x \<notin> set xs \<Longrightarrow> chain (nx(x := v)) h xs = chain nx h xs"
  by (induction xs arbitrary: h) auto

lemma chain_link: "x \<notin> set xs \<Longrightarrow> chain (ap_next s) (ap_Head s) xs \<Longrightarrow> chain (ap_next (ap_link x s)) (ap_Head (ap_link x s)) (x # xs)"
  using chain_frame [of x xs "ap_next s" "ap_Head s" "ap_Head s"] by (simp add: ap_link_def)

lemma ap_link_Avail [simp]: "ap_Avail (ap_link x s) = ap_Avail s"
  by (simp add: ap_link_def)

definition ap_ok :: "nat \<Rightarrow> alloc_pool \<Rightarrow> nat list \<Rightarrow> bool" where
  "ap_ok n s U \<longleftrightarrow> (\<exists>fs. chain (ap_next s) (ap_Head s) fs \<and> distinct (fs @ U) \<and> set (fs @ U) = {..<n} \<and> ap_Avail s = of_nat (length fs))"

lemma ap_new_ok:
  assumes "n = aSize div entry" and "n < 2 ^ 32"
  shows "ap_ok n (ap_new aSize entry) []"
proof -
  let ?s = "\<lambda>m. fold ap_link [0..<m] \<lparr>ap_next = (\<lambda>_. None), ap_Head = None, ap_Avail = of_nat n\<rparr>"
  have "chain (ap_next (?s m)) (ap_Head (?s m)) (rev [0..<m]) \<and> ap_Avail (?s m) = of_nat n" for m
  proof (induction m)
    case (Suc m)
    then show ?case using chain_link [of m "rev [0..<m]" "?s m"] by simp
  qed simp
  moreover have "unat (of_nat n :: u32) = n" using assms(2) by (simp add: unat_of_nat)
  ultimately show ?thesis unfolding ap_ok_def ap_new_def assms(1) [symmetric]
    by (intro exI [of _ "rev [0..<n]"]) (auto simp: atLeast0LessThan)
qed

lemma ap_allocate_ok:
  assumes "ap_ok n s U" and "n < 2 ^ 32"
  shows "case ap_allocate s of Inl x \<Rightarrow> x = bad_alloc \<and> length U = n
    | Inr (x, s') \<Rightarrow> x < n \<and> x \<notin> set U \<and> ap_ok n s' (x # U)"
proof -
  obtain fs where fs: "chain (ap_next s) (ap_Head s) fs" "distinct (fs @ U)" "set (fs @ U) = {..<n}" "ap_Avail s = of_nat (length fs)"
    using assms(1) by (auto simp: ap_ok_def)
  have n: "length fs + length U = n" using distinct_card [OF fs(2)] fs(3) by simp
  show ?thesis
  proof (cases fs)
    case Nil
    then show ?thesis using fs n by (simp add: ap_allocate_def)
  next
    case (Cons x xs)
    have "unat (of_nat (length fs) :: u32) = length fs" using n assms(2) by (simp add: unat_of_nat)
    then have "0 < ap_Avail s" unfolding fs(4) word_less_nat_alt using Cons by simp
    then have "ap_allocate s = Inr (x, s\<lparr>ap_Head := ap_next s x, ap_next := (ap_next s)(x := None), ap_Avail := of_nat (length xs)\<rparr>)"
      using fs Cons by (simp add: ap_allocate_def)
    moreover have "x < n" using fs(3) Cons by auto
    moreover have "ap_ok n (s\<lparr>ap_Head := ap_next s x, ap_next := (ap_next s)(x := None), ap_Avail := of_nat (length xs)\<rparr>) (x # U)"
      unfolding ap_ok_def using fs Cons by (intro exI [of _ xs]) (auto simp: chain_frame)
    ultimately show ?thesis using fs(2) Cons by simp
  qed
qed

lemma ap_free_ok:
  assumes "ap_ok n s U" and "x \<in> set U"
  shows "ap_ok n (ap_deallocate x s) (remove1 x U)"
proof -
  obtain fs where fs: "chain (ap_next s) (ap_Head s) fs" "distinct (fs @ U)" "set (fs @ U) = {..<n}" "ap_Avail s = of_nat (length fs)"
    using assms(1) by (auto simp: ap_ok_def)
  have "x \<notin> set fs" using fs(2) assms(2) by auto
  from chain_link [OF this fs(1)] show ?thesis unfolding ap_ok_def using fs assms(2)
    by (intro exI [of _ "x # fs"]) (auto simp: ap_deallocate_def ap_link_def)
qed

lemma ap_reach_ok:
  assumes "ap_reach aSize entry s U" and "n = aSize div entry" and "n < 2 ^ 32"
  shows "ap_ok n s U"
  using assms(1)
proof (induction rule: ap_reach.induct)
  case new
  show ?case by (rule ap_new_ok [OF assms(2,3)])
next
  case (alloc s U x s')
  then show ?case using ap_allocate_ok [OF alloc.IH assms(3)] by simp
next
  case (store s U x v)
  then obtain fs where fs: "chain (ap_next s) (ap_Head s) fs" "distinct (fs @ U)" "set (fs @ U) = {..<n}" "ap_Avail s = of_nat (length fs)"
    by (auto simp: ap_ok_def)
  then have "x \<notin> set fs" using store by auto
  then show ?case unfolding ap_ok_def using fs chain_frame [of x fs "ap_next s" v "ap_Head s"] by (intro exI [of _ fs]) simp
next
  case (free s U x)
  then show ?case by (intro ap_free_ok)
qed

section \<open>The arena\<close>

record arena =
  ar_buffer :: u64
  ar_current :: u64

definition ar_SIZE :: u64 where "ar_SIZE = 4096"

definition ar_align :: "u64 \<Rightarrow> u64 \<Rightarrow> u64" where
  "ar_align aPtr aSize = (aPtr + aSize - 1) AND NOT (aSize - 1)"

definition ar_allocate :: "u64 \<Rightarrow> arena \<Rightarrow> (u64 \<times> arena) result" where
  "ar_allocate n s =
     (let start = ar_buffer s; data = ar_align (start + ar_current s) 4
      in if data + n \<le> start + ar_SIZE then Inr (data, s\<lparr>ar_current := data + n - start\<rparr>) else Inl bad_alloc)"

definition ar_used :: "arena \<Rightarrow> u64" where "ar_used s = ar_current s"
definition ar_max_size :: "arena \<Rightarrow> u64" where "ar_max_size s = ar_SIZE - ar_current s"
definition ar_clear :: "arena \<Rightarrow> arena" where "ar_clear s = s\<lparr>ar_current := 0\<rparr>"

lemma ar_align_unat:
  assumes "unat p + 3 < 2 ^ 64"
  shows "unat (ar_align p 4) = (unat p + 3) div 4 * 4"
proof -
  have "ar_align p 4 = (p + 3) AND NOT (mask 2)" by (simp add: ar_align_def mask_eq_exp_minus_1 add.commute)
  also have "\<dots> = push_bit 2 (drop_bit 2 (p + 3))"
  proof (rule bit_word_eqI)
    fix n assume "n < LENGTH(64)"
    then show "bit ((p + 3) AND NOT (mask 2)) n = bit (push_bit 2 (drop_bit 2 (p + 3))) n"
      using le_add_diff_inverse [of 2 n] by (cases "2 \<le> n") (auto simp: bit_simps simp del: le_add_diff_inverse)
  qed
  finally have "ar_align p 4 = push_bit 2 (drop_bit 2 (p + 3))" .
  moreover have "unat (p + 3) = unat p + 3" using assms by (subst unat_add_no_wrap) simp_all
  moreover have "(unat p + 3) div 4 * 4 < 2 ^ 64" using assms by linarith
  ultimately show ?thesis using assms
    by (simp add: push_bit_eq_mult drop_bit_eq_div unat_word_ariths(2) unat_div)
qed

text \<open>The blocks handed out since the arena was created or cleared, the last one first.\<close>

inductive ar_reach :: "u64 \<Rightarrow> arena \<Rightarrow> (u64 \<times> u64) list \<Rightarrow> bool" for b where
  new: "ar_reach b \<lparr>ar_buffer = b, ar_current = 0\<rparr> []"
| alloc: "ar_reach b s bs \<Longrightarrow> n < 2 ^ 32 \<Longrightarrow> ar_allocate n s = Inr (p, s') \<Longrightarrow> ar_reach b s' ((p, n) # bs)"
| clear: "ar_reach b s bs \<Longrightarrow> ar_reach b (ar_clear s) []"

definition ar_ok :: "u64 \<Rightarrow> arena \<Rightarrow> (u64 \<times> u64) list \<Rightarrow> bool" where
  "ar_ok b s bs \<longleftrightarrow> ar_buffer s = b \<and> unat (ar_current s) \<le> 4096
     \<and> (\<forall>(p, n) \<in> set bs. unat b \<le> unat p \<and> unat p mod 4 = 0 \<and> unat p + unat n \<le> unat b + unat (ar_current s))
     \<and> sorted_wrt (\<lambda>(p, n) (q, m). unat q + unat m \<le> unat p) bs"

lemma ar_allocate_ok:
  assumes "ar_ok b s bs" and b: "unat b < 2 ^ 63" and n: "n < 2 ^ 32" and a: "ar_allocate n s = Inr (p, s')"
  shows "ar_ok b s' ((p, n) # bs)"
proof -
  have s: "ar_buffer s = b" "unat (ar_current s) \<le> 4096" using assms(1) by (simp_all add: ar_ok_def)
  have nn: "unat n < 2 ^ 32" using n by (simp add: word_less_nat_alt)
  have e: "unat (b + ar_current s) = unat b + unat (ar_current s)" using b s(2) by (intro unat_add_no_wrap) simp
  have p: "p = ar_align (b + ar_current s) 4" using a s(1) by (simp add: ar_allocate_def Let_def split: if_splits)
  have up: "unat p = (unat b + unat (ar_current s) + 3) div 4 * 4"
    unfolding p by (subst ar_align_unat) (use b s(2) in \<open>simp_all add: e\<close>)
  have "unat b < 9223372036854775808" "unat n < 4294967296" using b nn by simp_all
  then have "unat p + unat n < 18446744073709551616" using up s(2) by linarith
  then have pn: "unat (p + n) = unat p + unat n" by (intro unat_add_no_wrap) simp
  have "unat (b + ar_SIZE) = unat b + 4096" using b by (subst unat_add_no_wrap) (simp_all add: ar_SIZE_def)
  moreover have "p + n \<le> b + ar_SIZE" using a s(1) p by (simp add: ar_allocate_def Let_def split: if_splits)
  ultimately have le: "unat p + unat n \<le> unat b + 4096" using pn by (simp add: word_le_nat_alt)
  have ge: "unat b + unat (ar_current s) \<le> unat p" unfolding up by linarith
  have s': "s' = s\<lparr>ar_current := p + n - b\<rparr>" using a s(1) p by (simp add: ar_allocate_def Let_def split: if_splits)
  have c: "unat (p + n - b) = unat p + unat n - unat b"
    using pn ge by (subst unat_sub) (simp_all add: word_le_nat_alt)
  have old: "unat q + unat m \<le> unat p" if "(q, m) \<in> set bs" for q m
    using assms(1) that ge by (fastforce simp: ar_ok_def)
  then show ?thesis using assms(1) c le ge up unfolding s' ar_ok_def
    by (auto simp: s(1))
qed

lemma ar_reach_ok:
  assumes "ar_reach b s bs" and "unat b < 2 ^ 63"
  shows "ar_ok b s bs"
  using assms(1)
proof (induction rule: ar_reach.induct)
  case new
  show ?case by (simp add: ar_ok_def)
next
  case (alloc s bs n p s')
  then show ?case using ar_allocate_ok assms(2) by blast
next
  case (clear s bs)
  then show ?case by (simp add: ar_ok_def ar_clear_def)
qed

section \<open>Properties\<close>

text \<open>
  C27: the pool never hands out a cell twice. Whatever the client does with the cells that it holds,
  the next allocation gives a cell of the buffer that is not in use, or throws when all of them
  are; the assertion on the number of free cells holds.
\<close>

theorem pool_cells_distinct:
  assumes "ap_reach aSize entry s U" and "aSize div entry < 2 ^ 32"
  shows "distinct U \<and> set U \<subseteq> {..<aSize div entry} \<and> unat (ap_Avail s) = aSize div entry - length U
    \<and> (case ap_allocate s of Inl x \<Rightarrow> x = bad_alloc \<and> length U = aSize div entry
       | Inr (x, s') \<Rightarrow> x < aSize div entry \<and> x \<notin> set U)"
proof -
  let ?n = "aSize div entry"
  have ok: "ap_ok ?n s U" by (rule ap_reach_ok [OF assms(1) refl assms(2)])
  then obtain fs where fs: "distinct (fs @ U)" "set (fs @ U) = {..<?n}" "ap_Avail s = of_nat (length fs)"
    by (auto simp: ap_ok_def)
  have "length fs + length U = ?n" using distinct_card [OF fs(1)] fs(2) by simp
  then have "unat (ap_Avail s) = ?n - length U" using fs(3) assms(2) by (simp add: unat_of_nat)
  moreover have "case ap_allocate s of Inl x \<Rightarrow> x = bad_alloc \<and> length U = ?n | Inr (x, s') \<Rightarrow> x < ?n \<and> x \<notin> set U"
    using ap_allocate_ok [OF ok assms(2)] by (auto split: sum.splits)
  ultimately show ?thesis using fs(1,2) by auto
qed

theorem pool_cells_distinct_witness:
  "\<exists>s. ap_reach 32 8 s [2, 3] \<and> unat (ap_Avail s) = 2"
proof -
  have "case ap_allocate (ap_new 32 8) of Inl _ \<Rightarrow> False
    | Inr (x, s) \<Rightarrow> x = 3 \<and> (case ap_allocate s of Inl _ \<Rightarrow> False | Inr (y, _) \<Rightarrow> y = 2)" by code_simp
  then obtain s s' where "ap_allocate (ap_new 32 8) = Inr (3, s)" "ap_allocate s = Inr (2, s')"
    by (auto split: sum.splits) (metis obj_sumE surj_pair)
  then have "ap_reach 32 8 s' [2, 3]" by (blast intro: ap_reach.intros)
  then show ?thesis using pool_cells_distinct [of 32 8 s' "[2, 3]"] by auto
qed

text \<open>
  The blocks of an arena are aligned, lie inside of its buffer and do not overlap, for requests
  below \<open>2 ^ 32\<close> bytes.
\<close>

theorem arena_blocks_disjoint:
  assumes "ar_reach b s bs" and "unat b < 2 ^ 63"
  shows "(\<forall>(p, n) \<in> set bs. unat p mod 4 = 0 \<and> unat b \<le> unat p \<and> unat p + unat n \<le> unat b + 4096)
    \<and> (\<forall>i j. i < j \<and> j < length bs \<longrightarrow> unat (fst (bs ! j)) + unat (snd (bs ! j)) \<le> unat (fst (bs ! i)))"
proof -
  have ok: "ar_ok b s bs" by (rule ar_reach_ok [OF assms])
  then have "\<forall>i j. i < j \<and> j < length bs \<longrightarrow> unat (fst (bs ! j)) + unat (snd (bs ! j)) \<le> unat (fst (bs ! i))"
    by (auto simp: ar_ok_def sorted_wrt_iff_nth_less case_prod_beta)
  then show ?thesis using ok by (fastforce simp: ar_ok_def)
qed

theorem arena_blocks_disjoint_witness:
  "\<exists>s. ar_reach 0x1001 s [(0x100C, 8), (0x1004, 5)] \<and> unat (0x1004 :: u64) + unat (5 :: u64) \<le> unat (0x100C :: u64)"
proof -
  let ?s = "\<lparr>ar_buffer = 0x1001, ar_current = 8\<rparr>" and ?t = "\<lparr>ar_buffer = 0x1001, ar_current = 0x13\<rparr>"
  have "ar_allocate 5 \<lparr>ar_buffer = 0x1001, ar_current = 0\<rparr> = Inr (0x1004, ?s)" "ar_allocate 8 ?s = Inr (0x100C, ?t)"
    by code_simp+
  then have r: "ar_reach 0x1001 ?t [(0x100C, 8), (0x1004, 5)]"
    by (auto intro!: ar_reach.intros)
  from arena_blocks_disjoint [OF this] show ?thesis using r by fastforce
qed

text \<open>
  A request close to \<open>2 ^ 64\<close> bytes wraps around: it is granted, and the arena goes back into a block
  that is still in use.
\<close>

lemma arena_wraps:
  "ar_allocate (- 4) \<lparr>ar_buffer = 0x1000, ar_current = 8\<rparr> = Inr (0x1008, \<lparr>ar_buffer = 0x1000, ar_current = 4\<rparr>)"
  by code_simp

end
