(* ===== verification/Spec2Isabelle.thy ===== *)
theory Spec2Isabelle
  imports File_Props Tarantool Protobuf Utf8 Text_Parsers Aws Cache_Expire Containers Hash_Nodes Http2_Peer Sd_Props Sd_Notify Ordered_Worker Mq Mysqld Avx_Search Tar Allocators
begin

text \<open>
  \<^bold>\<open>Verification of the C++ libraries of the repository.\<close>

  The repository is a collection of header-only C++ libraries, one per directory of \<open>src/\<close>, that
  build on each other: byte streams and buffered files carry the binary codecs (CBOR, MessagePack,
  protocol buffers), MessagePack carries the Tarantool client, the text codecs and parsers serve the
  HTTP code, the HTTP/2 connection carries client and server, the etcd client carries the message
  queue and the announcement of services, and the caches, containers, hash rings and queues between
  threads are used by all of them. This development models the code that computes: what a parser
  accepts, what a writer produces, what a cache holds and drops, which peer gets a request, which
  frame is sent when. Calls of the kernel, of boost.asio and of other third-party libraries are
  parameters of the definitions; what the code relies on is stated as the assumptions of a locale or
  as the hypotheses of a theorem.

  \<^bold>\<open>Conventions.\<close> A byte is an \<open>8 word\<close>, and \<open>uint32_t\<close>, \<open>uint64_t\<close> and \<open>size_t\<close> are words where
  wrap-around can matter; sizes of containers are natural numbers elsewhere. A C++ exception is a
  value of type \<open>exn\<close> and a function that may throw returns \<open>'a result\<close> (\<open>Inl\<close> the exception).
  \<open>Undefined\<close> is the result of a step that C++ leaves undefined; safety theorems show that it is not
  reached, and findings that it is. A struct is a \<open>record\<close> with the members of the source under a
  prefix (\<open>m_Budget\<close> of \<open>Output\<close> is \<open>o_Budget\<close>), an operation is a function from the object to the
  result and the new object. A loop whose termination is not structural has a measure; a loop that
  the input can make run forever is a \<open>partial_function\<close> or takes fuel, and the theorems about it say
  that it returns, or that the fuel the wrapper gives (the length of the input, plus one) is enough.

  \<^bold>\<open>Theories and sources.\<close>

  \<^item> \<open>Prelude\<close>: machine types, exceptions, sequencing, byte orders, lemmas on lists and association lists.

  \<^item> \<open>Streams\<close> (\<open>container/Stream.hpp\<close>, \<open>file/Interface.hpp\<close>): \<open>imemstream\<close> and \<open>omemstream\<close>. The
    locale \<open>exact_reader\<close> is the contract of \<open>IExactReader\<close>, interpreted on \<open>imemstream\<close>. The theorems
    state the invariant of the offset under wrap-around and what a read returns.

  \<^item> \<open>Cbor\<close>, \<open>Cbor_Codec\<close>, \<open>Cbor_Props\<close> (\<open>cbor/\<close>): every overload of \<open>read\<close> and \<open>write\<close>, over any
    reader of the locale; \<open>cbor_codec\<close> and \<open>cbor_map_codec\<close> are the contracts of an element type.
    Round trip for all values, safety on arbitrary bytes.

  \<^item> \<open>File_IO\<close>, \<open>File_Props\<close> (\<open>file/Reader.hpp\<close>, \<open>file/Writer.hpp\<close>): file, buffered and exact readers
    and writers. \<open>posix_file\<close> states what \<open>read(2)\<close> promises and is interpreted on a kernel that cuts
    its answers in arbitrary pieces; \<open>source_reader\<close>, \<open>full_reader\<close> and \<open>sink_writer\<close> are the contracts
    between the layers, with sublocales from one to the next. The pieces read are those of the file,
    and what is written arrives once the writer is closed.

  \<^item> \<open>MsgPack\<close> (\<open>msgpack/MsgPack.hpp\<close>), \<open>Tarantool\<close> (\<open>asio_tnt/\<close>): writers and readers with the locale
    \<open>mp_codec\<close> for each type, packets and requests, and the table of outstanding calls, whose
    operations call every handler exactly once.

  \<^item> \<open>Protobuf\<close> (\<open>protobuf/Protobuf.hpp\<close>), \<open>Utf8\<close> (\<open>utf/UTF8.hpp\<close>), \<open>Text_Codecs\<close> (hexadecimal, URL,
    Base64 and ULEB128 of \<open>format/\<close> and \<open>parser/\<close>), \<open>Text_Parsers\<close> (\<open>string/String.hpp\<close>, CSV, URL,
    multipart and numbers of \<open>parser/\<close>), \<open>Aws\<close> (\<open>parser/AWS.hpp\<close>): round trips, exact sets of accepted
    inputs, and safety on arbitrary input.

  \<^item> \<open>Std_List\<close>, \<open>Cache_Lru\<close>, \<open>Cache_SLru\<close>, \<open>Cache_Lfu\<close>, \<open>Bloom\<close>, \<open>Cache_Expire\<close> (\<open>cache/\<close>, \<open>bloom/\<close>):
    caches over a list whose nodes have an identity, as \<open>std::list\<close> iterators do. The locales
    \<open>cache_spec\<close> and \<open>cache_remove\<close> are what a client of a cache relies on; the expiration adapter is
    proved once over \<open>expiring_cache\<close> and interpreted on the caches that meet it. Refinement of plain
    lists of pairs, the entry an eviction takes, the window of the rotating Bloom filter.

  \<^item> \<open>Containers\<close> (\<open>container/\<close>): merge algorithms, pools, request queue, collector, list of arrays,
    sessions. \<open>Hash_Nodes\<close> (\<open>hash/\<close>): ring and rendezvous hashing.

  \<^item> \<open>Http2_Types\<close>, \<open>Http2_Parser\<close>, \<open>Http2_Output\<close>, \<open>Http2_Peer\<close> (\<open>asio_http/v2/\<close>): frame headers and
    the input buffer; the parser of a connection; the sending side with its windows, as an inductive
    relation of the enqueuing code and the writing coroutine; client connection and connection manager.
    The locale \<open>framed_input\<close> is what the read loop needs of its input, interpreted on the buffer and
    on the whole stream, and \<open>conserving\<close> the law of a component that keeps every item it was given
    until it settles it once. The send side composed with the receive side hands over every body.

  \<^item> \<open>Sd_Peer\<close>, \<open>Sd_Balancer\<close>, \<open>Fair_Share\<close>, \<open>Sd_Props\<close> (\<open>unsorted/Ewma.hpp\<close>, \<open>sd/Balancer.hpp\<close>): moving
    averages, circuit breaker, statistics of a peer and the weighted choice of a peer, with doubles as
    exact rationals. The loop of \<open>random_i\<close> is a \<open>partial_function\<close> and is proved to end in every
    reachable state. The locale \<open>budget_picks\<close> is the accounting of a scheduler that spends a step
    per pick, interpreted on the balancer: requests follow the weights up to a constant.

  \<^item> \<open>Threads_Queue\<close>, \<open>Ordered_Worker\<close> (\<open>threads/SafeQueue.hpp\<close>, \<open>FairQueueExecutor.hpp\<close>,
    \<open>OrderedWorker.hpp\<close>, \<open>MapReduce.hpp\<close>): the queue between threads and its pools. The locale
    \<open>task_queue\<close> is what a pool needs of its container, interpreted on the list, the priority queue
    and the fair list; a step of a thread is a step of an inductive relation. Results are joined in the
    order of insertion in every interleaving, the threads come to rest, and what a handler that throws
    does to the rest.

  \<^item> \<open>Etcd\<close>, \<open>Etcd_Mem\<close> (\<open>etcd/\<close>): the requests of the client as JSON documents, the checks of the
    answers and every operation. The service and jsoncpp are parameters: \<open>etcd_service\<close> states what etcd
    documents of these requests, and the client on top of it provides \<open>etcd_store\<close>, a store with
    compare and swap whose calls may fail after they took effect. \<open>Etcd_Mem\<close> is an etcd in memory for
    the witnesses.

  \<^item> \<open>Mq\<close> (\<open>mq/Server.hpp\<close>): any number of servers of the message queue over one registry in etcd, as
    an inductive relation over the two halves of a request: no block of a client is queued twice, and
    how one is lost. \<open>Sd_Notify\<close> (\<open>sd/Notify.hpp\<close>): the announcement of a service, interleaved with
    updates and expiring leases (locale \<open>etcd_leases\<close>): the value announced is the current one, and a
    service that lost its lease does not come back.

  \<^item> \<open>Mysqld\<close> (\<open>asio_mysqld/\<close>): the packets of the server side of the MySQL protocol, read back by a client
    written from the documentation of the protocol, and the session. \<open>Avx_Search\<close> (\<open>avx/Search.hpp\<close>): the
    vector search and its recursive index against the definition of a lower bound. \<open>Tar\<close>
    (\<open>resource/Tar.hpp\<close>): the index of an archive. \<open>Allocators\<close> (\<open>allocator/Pool.hpp\<close>, \<open>Arena.hpp\<close>): the
    free list through the memory of the cells, and the arena with its pointer arithmetic on words.

  \<^bold>\<open>Bounds.\<close> The decoders of \<open>Cbor\<close>, \<open>Aws\<close>, \<open>Protobuf\<close> and \<open>Tarantool\<close> recurse with fuel equal to the
  length of the unread input plus one, which is enough because every step consumes a byte; the loops
  over buffers in \<open>File_IO\<close> use one unit of fuel per byte asked for. Hypotheses that bound a size by a
  power of two state where an index of that width would wrap.

  \<^bold>\<open>Not modelled.\<close> Code that only calls a library or the kernel (curl, kafka, gRPC, databases, sockets,
  io_uring, compression, cryptography, logging), vendored code (\<open>http_parser/llhttp\<close>,
  \<open>sentry/backward.hpp\<close>, \<open>mock/fakeit.hpp\<close>), generators and templates (\<open>swagger/\<close>), numeric code in
  floating point (\<open>ml/\<close>), scripts, tests and benchmarks. Data races and memory orders are outside of
  the model: an operation under a mutex is one step.
\<close>

end
